(* ===== verification/Nebula_Prelude.thy ===== *)
theory Nebula_Prelude
  imports Main "HOL-Library.Word"
begin

text \<open>
  The vocabulary shared by the component theories of the NebulaFS development:
  machine words under their C++ names, the ways in which a C++ function can fail to
  return (\<open>cpp_abort\<close>), the two result types built on them, byte strings, and the
  generic lemmas on words, lists and results that the component proofs rest on.

  A call of the library either aborts, which is an uncaught standard exception or
  undefined behaviour, or returns.  Functions of the source that return
  \<^verbatim>\<open>std::optional<T>\<close>, and the decoding steps inside functions that return an
  error code, are modelled by \<open>'a rd\<close>: \<open>Inl\<close> is an abort, \<open>Inr None\<close> an orderly
  refusal and \<open>Inr (Some x)\<close> a value.

  Sizes and offsets (\<^verbatim>\<open>size_t\<close>) are natural numbers.  Wherever the source adds an
  attacker-controlled length to an offset, the sum is written modulo
  \<open>2 ^ 64\<close> as the hardware computes it.
\<close>

unbundle bit_operations_syntax

section \<open>Machine words and byte strings\<close>

type_synonym byte = "8 word"
type_synonym u16 = "16 word"
type_synonym u32 = "32 word"
type_synonym u64 = "64 word"
type_synonym EntryID = u64

text \<open>
  \<open>dec\<close> collects what decoding a serialised field back yields, \<open>codec_simps\<close> the
  equations that unfold the reading steps.
\<close>

named_theorems dec
named_theorems codec_simps

definition byte_of_char :: "char \<Rightarrow> byte" where
  "byte_of_char c = word_of_nat (of_char c)"

definition char_of_byte :: "byte \<Rightarrow> char" where
  "char_of_byte b = char_of (unat b)"

definition bytes_of_string :: "string \<Rightarrow> byte list" where
  "bytes_of_string s = map byte_of_char s"

definition string_of_bytes :: "byte list \<Rightarrow> string" where
  "string_of_bytes bs = map char_of_byte bs"

definition size64 :: "nat \<Rightarrow> u64" where
  "size64 n = word_of_nat n"

section \<open>How a call can end\<close>

datatype cpp_abort =
    Length_error          \<comment> \<open>\<^verbatim>\<open>std::length_error\<close> from a string or vector\<close>
  | Alloc_failure         \<comment> \<open>\<^verbatim>\<open>reserve\<close> or \<^verbatim>\<open>resize\<close> beyond what can be allocated\<close>
  | Out_of_range_exn      \<comment> \<open>\<^verbatim>\<open>std::out_of_range\<close>\<close>
  | Invalid_argument_exn  \<comment> \<open>\<^verbatim>\<open>std::invalid_argument\<close>\<close>
  | Bad_optional_access   \<comment> \<open>\<^verbatim>\<open>std::bad_optional_access\<close>\<close>
  | System_error          \<comment> \<open>\<^verbatim>\<open>std::system_error\<close> from a thread or a lock\<close>
  | Stack_overflow        \<comment> \<open>recursion deeper than the stack allows\<close>
  | Undefined_behaviour   \<comment> \<open>out-of-bounds access, over-wide shift, dangling pointer\<close>

type_synonym 'a cpp = "cpp_abort + 'a"
type_synonym 'a rd = "cpp_abort + 'a option"

definition bind_cpp :: "'a cpp \<Rightarrow> ('a \<Rightarrow> 'b cpp) \<Rightarrow> 'b cpp" where
  "bind_cpp m f = (case m of Inl e \<Rightarrow> Inl e | Inr x \<Rightarrow> f x)"

definition bind_rd :: "'a rd \<Rightarrow> ('a \<Rightarrow> 'b rd) \<Rightarrow> 'b rd" where
  "bind_rd m f = (case m of Inl e \<Rightarrow> Inl e | Inr None \<Rightarrow> Inr None | Inr (Some x) \<Rightarrow> f x)"

text \<open>
  \<open>else_ret\<close> is the idiom \<^verbatim>\<open>if (!result.valid) return error;\<close> of the functions that
  return an error code: the refusal becomes the given return value.
\<close>

definition else_ret :: "'a rd \<Rightarrow> 'b \<Rightarrow> ('a \<Rightarrow> 'b cpp) \<Rightarrow> 'b cpp" where
  "else_ret m r f = (case m of Inl e \<Rightarrow> Inl e | Inr None \<Rightarrow> Inr r | Inr (Some x) \<Rightarrow> f x)"

text \<open>\<^verbatim>\<open>v[i]\<close> on a vector or span: undefined outside the bounds.\<close>

definition vec_at :: "'a list \<Rightarrow> nat \<Rightarrow> 'a cpp" where
  "vec_at xs i = (if i < length xs then Inr (xs ! i) else Inl Undefined_behaviour)"

definition defined :: "'a cpp \<Rightarrow> bool" where
  "defined m = (case m of Inl _ \<Rightarrow> False | Inr _ \<Rightarrow> True)"

definition no_ub :: "'a cpp \<Rightarrow> bool" where
  "no_ub m = (m \<noteq> Inl Undefined_behaviour)"

section \<open>Results\<close>

lemma bind_cpp_simps [simp]:
  "bind_cpp (Inl e) f = Inl e"
  "bind_cpp (Inr x) f = f x"
  by (simp_all add: bind_cpp_def)

lemma bind_rd_simps [simp]:
  "bind_rd (Inl e) f = Inl e"
  "bind_rd (Inr None) f = Inr None"
  "bind_rd (Inr (Some x)) f = f x"
  by (simp_all add: bind_rd_def)

lemma else_ret_simps [simp]:
  "else_ret (Inl e) r f = Inl e"
  "else_ret (Inr None) r f = Inr r"
  "else_ret (Inr (Some x)) r f = f x"
  by (simp_all add: else_ret_def)

lemma bind_cpp_eq_Inr:
  "bind_cpp m f = Inr y \<longleftrightarrow> (\<exists>x. m = Inr x \<and> f x = Inr y)"
  by (cases m) auto

lemma bind_cpp_eq_Inl:
  "bind_cpp m f = Inl e \<longleftrightarrow> m = Inl e \<or> (\<exists>x. m = Inr x \<and> f x = Inl e)"
  by (cases m) auto

lemma bind_rd_eq_Some:
  "bind_rd m f = Inr (Some y) \<longleftrightarrow> (\<exists>x. m = Inr (Some x) \<and> f x = Inr (Some y))"
  by (auto simp: bind_rd_def split: sum.splits option.splits)

lemma bind_rd_eq_Inl:
  "bind_rd m f = Inl e \<longleftrightarrow> m = Inl e \<or> (\<exists>x. m = Inr (Some x) \<and> f x = Inl e)"
  by (auto simp: bind_rd_def split: sum.splits option.splits)

lemma else_ret_eq_Inl:
  "else_ret m r f = Inl e \<longleftrightarrow> m = Inl e \<or> (\<exists>x. m = Inr (Some x) \<and> f x = Inl e)"
  by (auto simp: else_ret_def split: sum.splits option.splits)

lemma else_ret_eq_Inr:
  "else_ret m r f = Inr y \<longleftrightarrow>
     (m = Inr None \<and> y = r) \<or> (\<exists>x. m = Inr (Some x) \<and> f x = Inr y)"
  by (auto simp: else_ret_def split: sum.splits option.splits)

lemma else_ret_cong [fundef_cong]:
  "m = m' \<Longrightarrow> r = r' \<Longrightarrow> (\<And>x. m' = Inr (Some x) \<Longrightarrow> f x = g x) \<Longrightarrow> else_ret m r f = else_ret m' r' g"
  by (auto simp: else_ret_def split: sum.split option.split)

lemma bind_cpp_cong [fundef_cong]:
  "m = m' \<Longrightarrow> (\<And>x. m' = Inr x \<Longrightarrow> f x = g x) \<Longrightarrow> bind_cpp m f = bind_cpp m' g"
  by (cases m') auto

lemma vec_at_Inr_iff: "vec_at xs i = Inr x \<longleftrightarrow> i < length xs \<and> x = xs ! i"
  by (auto simp: vec_at_def)

lemma vec_at_nth [simp]: "i < length xs \<Longrightarrow> vec_at xs i = Inr (xs ! i)"
  by (simp add: vec_at_def)

lemma vec_at_out [simp]: "length xs \<le> i \<Longrightarrow> vec_at xs i = Inl Undefined_behaviour"
  by (simp add: vec_at_def)

lemma defined_simps [simp]: "defined (Inr x)" "\<not> defined (Inl e)"
  by (simp_all add: defined_def)

lemma no_ub_simps [simp]:
  "no_ub (Inr x)" "\<not> no_ub (Inl Undefined_behaviour)" "no_ub (Inl Length_error)"
  "no_ub (Inl Alloc_failure)" "no_ub (Inl Stack_overflow)"
  by (simp_all add: no_ub_def)

lemma no_ub_bind_rd:
  "no_ub m \<Longrightarrow> (\<And>x. m = Inr (Some x) \<Longrightarrow> no_ub (f x)) \<Longrightarrow> no_ub (bind_rd m f)"
  by (auto simp: no_ub_def bind_rd_eq_Inl)

lemma no_ub_else_ret:
  "no_ub m \<Longrightarrow> (\<And>x. m = Inr (Some x) \<Longrightarrow> no_ub (f x)) \<Longrightarrow> no_ub (else_ret m r f)"
  by (auto simp: no_ub_def else_ret_eq_Inl)

section \<open>Byte strings\<close>

lemma char_of_byte_of_char [simp]: "char_of_byte (byte_of_char c) = c"
proof -
  have "unat (word_of_nat (of_char c) :: byte) = of_char c"
    using of_char_mod_256 [of c, where ?'a = nat] by (simp add: unat_of_nat)
  then show ?thesis
    by (simp add: char_of_byte_def byte_of_char_def)
qed

lemma byte_of_char_of_byte [simp]: "byte_of_char (char_of_byte b) = b"
proof -
  have "unat b < 256"
    using unsigned_less [of b, where ?'a = nat] by simp
  then have "(of_char (char_of (unat b)) :: nat) = unat b"
    by (simp add: of_char_of)
  then show ?thesis
    by (simp add: char_of_byte_def byte_of_char_def)
qed

lemma string_of_bytes_of_string [simp]: "string_of_bytes (bytes_of_string s) = s"
  by (simp add: string_of_bytes_def bytes_of_string_def o_def)

lemma bytes_of_string_of_bytes [simp]: "bytes_of_string (string_of_bytes bs) = bs"
  by (simp add: string_of_bytes_def bytes_of_string_def o_def)

lemma length_bytes_of_string [simp]: "length (bytes_of_string s) = length s"
  by (simp add: bytes_of_string_def)

lemma length_string_of_bytes [simp]: "length (string_of_bytes s) = length s"
  by (simp add: string_of_bytes_def)

lemma unat_size64 [simp]: "n < 2 ^ 64 \<Longrightarrow> unat (size64 n) = n"
  by (simp add: size64_def unat_of_nat)

lemma size64_eq_iff: "m < 2 ^ 64 \<Longrightarrow> n < 2 ^ 64 \<Longrightarrow> size64 m = size64 n \<longleftrightarrow> m = n"
  by (metis unat_size64)

section \<open>Bits\<close>

lemma mask_7: "(0x7F :: 'a::len word) = mask 7"
  by (simp add: mask_eq_exp_minus_1)

lemma bit_0x80: "bit (0x80 :: 'a::len word) n \<longleftrightarrow> n = 7 \<and> 7 < LENGTH('a)"
  using bit_exp_iff [of 7 n, where ?'a = "'a word"] by auto

lemma bit_0x80_int: "bit (0x80 :: int) n \<longleftrightarrow> n = 7"
  using bit_exp_iff [of 7 n, where ?'a = int] by auto

lemma bit_0x80_nat: "bit (0x80 :: nat) n \<longleftrightarrow> n = 7"
  using bit_exp_iff [of 7 n, where ?'a = nat] by auto

lemmas bit_0x80s = bit_0x80 bit_0x80_int bit_0x80_nat

lemma bit_times_2:
  "bit (v * 2) n \<longleftrightarrow> 0 < n \<and> n < LENGTH('a) \<and> bit v (n - 1)" for v :: "'a::len word"
  using bit_double_iff [of v n] by (auto simp: mult.commute)

lemma or_assoc_push_bit:
  "(a OR push_bit s (v AND 0x7F)) OR push_bit (s + 7) (drop_bit 7 v) = a OR push_bit s v"
  for a v :: u64
proof (rule bit_word_eqI)
  fix n
  assume n: "n < LENGTH(64)"
  have "\<not> n - s < 7 \<Longrightarrow> 7 + (n - (s + 7)) = n - s"
    by arith
  with n show "bit ((a OR push_bit s (v AND 0x7F)) OR push_bit (s + 7) (drop_bit 7 v)) n
                = bit (a OR push_bit s v) n"
    unfolding mask_7 by (cases "n - s < 7") (auto simp: bit_simps)
qed

section \<open>Lists cut at an offset\<close>

lemma take_drop_middle [simp]:
  "take (length ys) (drop (length xs) (xs @ ys @ zs)) = ys"
  by simp

text \<open>Decoding field by field at growing offsets: the rule that turns an offset into nested
  drops, to be used with \<open>drop_drop\<close> removed.\<close>

lemma drop_add: "drop (m + n) xs = drop n (drop m xs)"
  by (simp add: add.commute)

lemma drop_Suc_tl: "drop (Suc m) xs = tl (drop m xs)"
  by (simp add: drop_Suc tl_drop)

lemmas offset_drops = drop_add drop_Suc_tl

text \<open>The same for fields of fixed width, where the simplifier sorts the summands: every
  offset past \<open>off\<close> is taken relative to the bytes known to be there.\<close>

lemma drop_from: "drop off data = bs \<Longrightarrow> off \<le> x \<Longrightarrow> drop x data = drop (x - off) bs"
  by (metis drop_drop le_add_diff_inverse2)

lemma length_le_concat: "(\<And>x. enc x \<noteq> []) \<Longrightarrow> length xs \<le> length (concat (map enc xs))"
proof (induction xs)
  case (Cons x xs)
  then have "0 < length (enc x)"
    by simp
  with Cons show ?case
    by (simp del: length_greater_0_conv)
qed simp

lemma find_append: "List.find P (xs @ ys) = (case List.find P xs of None \<Rightarrow> List.find P ys | Some x \<Rightarrow> Some x)"
  by (induction xs) auto

lemma map_of_rev_distinct: "distinct (map fst xs) \<Longrightarrow> map_of (rev xs) = map_of xs"
  by (rule ext) (metis distinct_rev map_of_eq_Some_iff not_None_eq rev_map set_rev)

section \<open>Decimal numbers\<close>

text \<open>\<^verbatim>\<open>std::to_string\<close>\<close>

fun to_string :: "nat \<Rightarrow> string" where
  "to_string n = (if n < 10 then [char_of (48 + n)] else to_string (n div 10) @ [char_of (48 + n mod 10)])"

declare to_string.simps [simp del]

lemma char_of_digit: "m < 10 \<Longrightarrow> n < 10 \<Longrightarrow> char_of (48 + m :: nat) = (char_of (48 + n) :: char) \<longleftrightarrow> m = n"
  by (simp add: char_of_eq_iff take_bit_nat_eq_self)

lemma to_string_inject: "to_string m = to_string n \<Longrightarrow> m = n"
proof (induction m arbitrary: n rule: to_string.induct)
  case (1 m)
  have ne: "to_string k \<noteq> []" for k
    by (subst to_string.simps) simp
  show ?case
  proof (cases "m < 10 \<or> n < 10")
    case True
    with 1(2) ne show ?thesis
      by (subst (asm) (1 2) to_string.simps) (auto simp: char_of_digit ne [symmetric] split: if_splits)
  next
    case False
    with 1(2) have "to_string (m div 10) = to_string (n div 10)" "m mod 10 = n mod 10"
      by (subst (asm) (1 2) to_string.simps, simp add: char_of_digit)+
    with 1(1) [of "n div 10"] False have "m div 10 = n div 10" "m mod 10 = n mod 10" by simp_all
    then show ?thesis by (metis div_mult_mod_eq)
  qed
qed

end
