(* ===== verification/VarInt.thy ===== *)
theory VarInt
  imports Nebula_Prelude
begin

text \<open>
  \<^verbatim>\<open>src/utils/VarInt.cpp\<close>: the unsigned LEB128-like encoding every serialiser of the
  library uses, its bounded variant, the decoder and the ZigZag mapping.  The decoder
  loop shifts by a running amount without checking it against the width of
  \<^verbatim>\<open>uint64_t\<close>, so decoding is a \<open>cpp\<close> computation that may be undefined; what is
  proved is that it is the inverse of the encoder and when it is defined.

  The theory also holds the reading steps that all deserialisers are built from
  (a varint at an offset, a counted string, a fixed block of bytes).
\<close>

unbundle bit_operations_syntax

section \<open>Encoding\<close>

record DecodeResult =
  dr_value :: u64
  dr_consumed :: nat
  dr_valid :: bool

text \<open>\<^verbatim>\<open>VarInt::encode(uint64_t, std::vector<uint8_t>&)\<close>: the bytes appended.\<close>

lemma unat_drop_bit_7: "unat (drop_bit 7 (v :: u64)) = unat v div 128"
  unfolding unat_drop_bit_eq by (simp add: drop_bit_eq_div)

lemma drop_bit_7_less: "drop_bit 7 v \<noteq> 0 \<Longrightarrow> unat (drop_bit 7 v) < unat (v :: u64)"
  by (cases "v = 0") (simp_all only: unat_drop_bit_7 drop_bit_of_0, simp_all add: unat_gt_0)

function encode :: "u64 \<Rightarrow> byte list" where
  "encode v =
     (let b = ucast (v AND 0x7F) :: byte; v' = drop_bit 7 v in
      if v' \<noteq> 0 then (b OR 0x80) # encode v' else [b])"
  by pat_completeness auto
termination
  by (relation "measure unat") (simp_all add: drop_bit_7_less)

declare encode.simps [simp del]

text \<open>\<^verbatim>\<open>VarInt::encode(uint64_t, uint8_t*, size_t)\<close>: the bytes stored in the buffer; the
  number returned is their count.\<close>

fun encode_buf :: "nat \<Rightarrow> u64 \<Rightarrow> byte list" where
  "encode_buf 0 v = []"
| "encode_buf (Suc n) v =
     (let b = ucast (v AND 0x7F) :: byte; v' = drop_bit 7 v in
      if v' \<noteq> 0 then (b OR 0x80) # encode_buf n v' else [b])"

text \<open>\<^verbatim>\<open>VarInt::encodedSize\<close>.\<close>

function encodedSize :: "u64 \<Rightarrow> nat" where
  "encodedSize v = (if v \<ge> 0x80 then Suc (encodedSize (drop_bit 7 v)) else 1)"
  by pat_completeness auto
termination
proof (relation "measure unat")
  fix v :: u64
  assume "v \<ge> 0x80"
  then have "128 \<le> unat v"
    by (simp add: word_le_nat_alt)
  then have "unat (drop_bit 7 v) < unat v"
    unfolding unat_drop_bit_7 by simp
  then show "(drop_bit 7 v, v) \<in> measure unat"
    by simp
qed simp

declare encodedSize.simps [simp del]

section \<open>Decoding\<close>

text \<open>
  The loop of \<^verbatim>\<open>VarInt::decode\<close> over the bytes that are left.  A shift by 64 or more is
  undefined.  When the loop runs off the buffer every byte seen had its continuation
  bit set, and the result is the initial \<^verbatim>\<open>{0, 0, false}\<close>.
\<close>

fun decode_loop :: "byte list \<Rightarrow> u64 \<Rightarrow> nat \<Rightarrow> nat \<Rightarrow> DecodeResult cpp" where
  "decode_loop [] val shift i =
     Inr \<lparr>dr_value = 0, dr_consumed = 0, dr_valid = False\<rparr>"
| "decode_loop (b # bs) val shift i =
     (if shift \<ge> 64 then Inl Undefined_behaviour
      else
        let val' = val OR push_bit shift (ucast (b AND 0x7F)) in
        if b AND 0x80 = 0 then
          Inr \<lparr>dr_value = val', dr_consumed = Suc i, dr_valid = True\<rparr>
        else if shift + 7 > 70 then
          Inr \<lparr>dr_value = 0, dr_consumed = (if bs = [] then 0 else Suc i), dr_valid = False\<rparr>
        else decode_loop bs val' (shift + 7) (Suc i))"

definition decode :: "byte list \<Rightarrow> DecodeResult cpp" where
  "decode buf =
     (if buf = [] then Inr \<lparr>dr_value = 0, dr_consumed = 0, dr_valid = False\<rparr>
      else decode_loop buf 0 0 0)"

section \<open>Signed values\<close>

definition zigzagEncode :: "u64 \<Rightarrow> u64" where
  "zigzagEncode v = push_bit 1 v XOR signed_drop_bit 63 v"

definition zigzagDecode :: "u64 \<Rightarrow> u64" where
  "zigzagDecode v = drop_bit 1 v XOR (NOT (v AND 1) + 1)"

definition encodeSigned :: "nat \<Rightarrow> u64 \<Rightarrow> byte list" where
  "encodeSigned bufSize v = encode_buf bufSize (zigzagEncode v)"

definition decodeSigned :: "byte list \<Rightarrow> DecodeResult cpp" where
  "decodeSigned buf =
     bind_cpp (decode buf)
       (\<lambda>r. Inr (if dr_valid r then r\<lparr>dr_value := zigzagDecode (dr_value r)\<rparr> else r))"

section \<open>Reading steps of the deserialisers\<close>

text \<open>
  \<^verbatim>\<open>auto r = VarInt::decode(data.subspan(offset)); if (!r.valid) ...; offset += r.consumed;\<close>
  \<^verbatim>\<open>subspan\<close> beyond the end is undefined.
\<close>

definition read_varint :: "byte list \<Rightarrow> nat \<Rightarrow> (u64 \<times> nat) rd" where
  "read_varint data off =
     (if off > length data then Inl Undefined_behaviour
      else bind_cpp (decode (drop off data))
        (\<lambda>r. Inr (if dr_valid r then Some (dr_value r, off + dr_consumed r) else None)))"

text \<open>
  \<^verbatim>\<open>if (offset + len > data.size()) return ...; std::string s(&data[offset], len); offset += len;\<close>
  The sum wraps.  A length of \<open>2 ^ 63\<close> or more exceeds every \<^verbatim>\<open>max_size()\<close>.
\<close>

definition read_string :: "byte list \<Rightarrow> nat \<Rightarrow> u64 \<Rightarrow> (string \<times> nat) rd" where
  "read_string data off len =
     (if (off + unat len) mod 2 ^ 64 > length data then Inr None
      else if unat len \<ge> 2 ^ 63 then Inl Length_error
      else if off + unat len > length data then Inl Undefined_behaviour
      else Inr (Some (string_of_bytes (take (unat len) (drop off data)), off + unat len)))"

text \<open>\<^verbatim>\<open>if (offset + n > data.size()) return ...; memcpy(dst, &data[offset], n); offset += n;\<close>\<close>

definition read_block :: "byte list \<Rightarrow> nat \<Rightarrow> nat \<Rightarrow> (byte list \<times> nat) rd" where
  "read_block data off n =
     (if off + n > length data then Inr None
      else Inr (Some (take n (drop off data), off + n)))"

text \<open>\<^verbatim>\<open>if (offset >= bytes.size()) return std::nullopt;\<close>\<close>

definition need_more :: "byte list \<Rightarrow> nat \<Rightarrow> unit rd" where
  "need_more data off = (if off \<ge> length data then Inr None else Inr (Some ()))"

text \<open>\<^verbatim>\<open>data[offset++]\<close> with no check.\<close>

definition read_byte :: "byte list \<Rightarrow> nat \<Rightarrow> (byte \<times> nat) cpp" where
  "read_byte data off = bind_cpp (vec_at data off) (\<lambda>b. Inr (b, Suc off))"

section \<open>The encoder\<close>

lemma encode_not_Nil [simp]: "encode v \<noteq> []"
  by (subst encode.simps) (simp add: Let_def)

lemma length_encode_pos [simp]: "0 < length (encode v)"
  by simp

lemma encode_buf_take: "encode_buf n v = take n (encode v)"
  by (induction n v rule: encode_buf.induct) (simp, subst encode.simps, simp add: Let_def)

lemma drop_bit_7_eq_0_iff: "drop_bit 7 (v :: u64) = 0 \<longleftrightarrow> v < 0x80"
proof -
  have "drop_bit 7 v = 0 \<longleftrightarrow> unat v div 128 = 0"
    by (simp only: unat_drop_bit_7 [symmetric] unat_eq_zero)
  also have "\<dots> \<longleftrightarrow> v < 0x80"
    by (simp add: word_less_nat_alt div_eq_0_iff)
  finally show ?thesis .
qed

lemma encodedSize_length: "encodedSize v = length (encode v)"
proof (induction v rule: encode.induct)
  case (1 v)
  show ?case
  proof (cases "drop_bit 7 v = 0")
    case True
    then have "v < 0x80"
      by (simp add: drop_bit_7_eq_0_iff)
    with True show ?thesis
      by (subst encodedSize.simps, subst encode.simps) (simp add: not_le [symmetric])
  next
    case False
    then have "\<not> v < 0x80"
      by (simp add: drop_bit_7_eq_0_iff)
    with False 1 show ?thesis
      by (subst encodedSize.simps, subst encode.simps) (simp add: Let_def)
  qed
qed

lemma unat_drop_bit_7_less:
  "unat (v :: u64) < 2 ^ (7 + n) \<Longrightarrow> unat (drop_bit 7 v) < 2 ^ n"
  by (simp add: unat_drop_bit_7 power_add less_mult_imp_div_less mult.commute)

lemma length_encode_bound: "0 < n \<Longrightarrow> unat v < 2 ^ (7 * n) \<Longrightarrow> length (encode v) \<le> n"
proof (induction v arbitrary: n rule: encode.induct)
  case (1 v)
  from 1(2) obtain m where n: "n = Suc m"
    by (cases n) auto
  show ?case
  proof (cases "drop_bit 7 v = 0")
    case True
    then show ?thesis
      using 1(2) by (subst encode.simps) simp
  next
    case False
    have lt: "unat (drop_bit 7 v) < 2 ^ (7 * m)"
      using 1(3) n unat_drop_bit_7_less [of v "7 * m"] by simp
    with False have "0 < m"
      by (cases m) (auto simp: unat_eq_zero)
    with 1(1) [OF refl refl False _ lt] have "length (encode (drop_bit 7 v)) \<le> m"
      by simp
    with False n show ?thesis
      by (subst encode.simps) (simp add: Let_def)
  qed
qed

lemma length_encode_le: "length (encode v) \<le> 10"
proof (rule length_encode_bound)
  have "unat v < 2 ^ 64"
    using unsigned_less [of v, where ?'a = nat] by simp
  also have "(2 :: nat) ^ 64 \<le> 2 ^ (7 * 10)"
    by (rule power_increasing) simp_all
  finally show "unat v < 2 ^ (7 * 10)" .
qed simp

section \<open>Decoding inverts encoding\<close>

lemma low_byte_marked:
  "ucast (((ucast (v AND 0x7F) :: byte) OR 0x80) AND 0x7F) = (v AND 0x7F :: u64)"
  unfolding mask_7 by (rule bit_word_eqI) (auto simp: bit_simps bit_0x80s)

lemma low_byte_plain: "ucast ((ucast (v AND 0x7F) :: byte) AND 0x7F) = (v AND 0x7F :: u64)"
  unfolding mask_7 by (rule bit_word_eqI) (auto simp: bit_simps)

lemma marked_continues: "((ucast (v AND 0x7F :: u64) :: byte) OR 0x80) AND 0x80 \<noteq> 0"
proof -
  have "bit (((ucast (v AND 0x7F) :: byte) OR 0x80) AND 0x80) 7"
    by (simp add: bit_simps bit_0x80s)
  then show ?thesis
    by auto
qed

lemma plain_stops: "(ucast (v AND 0x7F :: u64) :: byte) AND 0x80 = 0"
  unfolding mask_7 by (rule bit_word_eqI) (auto simp: bit_simps bit_0x80s)

lemmas byte_facts = low_byte_marked low_byte_plain marked_continues plain_stops

lemma and_mask_7_small: "drop_bit 7 (v :: u64) = 0 \<Longrightarrow> v AND 0x7F = v"
  using bits_ident [of 7 v] by (simp add: mask_7 flip: take_bit_eq_mask)

lemma shift_room:
  assumes "drop_bit 7 v \<noteq> 0" "unat (v :: u64) < 2 ^ (64 - s)"
  shows "s + 7 < 64" "unat (drop_bit 7 v) < 2 ^ (64 - (s + 7))"
proof -
  show s: "s + 7 < 64"
  proof (rule ccontr)
    assume "\<not> s + 7 < 64"
    then have "(2 :: nat) ^ (64 - s) \<le> 2 ^ 7"
      by (intro power_increasing) auto
    with assms(2) have "unat v < 128"
      by simp
    then have "unat (drop_bit 7 v) = 0"
      by (simp add: unat_drop_bit_7)
    with assms(1) show False
      by (simp add: unat_eq_zero)
  qed
  have "unat v < 2 ^ (7 + (64 - (s + 7)))"
    using assms(2) s by simp
  then show "unat (drop_bit 7 v) < 2 ^ (64 - (s + 7))"
    by (rule unat_drop_bit_7_less)
qed

lemma decode_loop_encode:
  "s < 64 \<Longrightarrow> unat v < 2 ^ (64 - s) \<Longrightarrow>
   decode_loop (encode v @ rest) acc s i =
     Inr \<lparr>dr_value = acc OR push_bit s v, dr_consumed = i + length (encode v), dr_valid = True\<rparr>"
proof (induction v arbitrary: acc s i rule: encode.induct)
  case (1 v)
  show ?case
  proof (cases "drop_bit 7 v = 0")
    case True
    have "encode v = [ucast (v AND 0x7F)]"
      using True by (subst encode.simps) simp
    with 1(2) have "decode_loop (encode v @ rest) acc s i =
      Inr \<lparr>dr_value = acc OR push_bit s (v AND 0x7F), dr_consumed = Suc i, dr_valid = True\<rparr>"
      by (simp only: append.simps decode_loop.simps byte_facts Let_def) simp
    with \<open>encode v = _\<close> show ?thesis
      by (simp add: and_mask_7_small [OF True])
  next
    case False
    let ?v = "drop_bit 7 v"
    have enc: "encode v = (ucast (v AND 0x7F) OR 0x80) # encode ?v"
      using False by (subst encode.simps) (simp add: Let_def)
    note s = shift_room [OF False 1(3)]
    show ?thesis
      using 1(1) [OF refl refl False s] s(1) 1(2)
      by (simp add: enc byte_facts Let_def or_assoc_push_bit del: push_bit_and)
  qed
qed

lemma decode_encode [dec, simp]:
  "decode (encode v @ rest) =
     Inr \<lparr>dr_value = v, dr_consumed = length (encode v), dr_valid = True\<rparr>"
  using decode_loop_encode [of 0 v rest 0 0] unsigned_less [of v, where ?'a = nat]
  by (simp add: decode_def)

lemma decode_encode_only [dec, simp]:
  "decode (encode v) =
     Inr \<lparr>dr_value = v, dr_consumed = length (encode v), dr_valid = True\<rparr>"
  using decode_encode [of v "[]"] by simp

lemma encode_inject: "encode v @ r = encode w @ r' \<Longrightarrow> v = w \<and> r = r'"
proof -
  assume eq: "encode v @ r = encode w @ r'"
  have "decode (encode v @ r) = decode (encode w @ r')"
    by (simp only: eq)
  then have "v = w"
    by simp
  with eq show "v = w \<and> r = r'"
    by simp
qed

section \<open>When decoding is defined\<close>

lemma decode_loop_undefined:
  "shift = 7 * i \<Longrightarrow> i \<le> 10 \<Longrightarrow>
   decode_loop bs val shift i = Inl e \<longleftrightarrow>
     e = Undefined_behaviour \<and> 10 - i < length bs \<and>
     (\<forall>b \<in> set (take (10 - i) bs). b AND 0x80 \<noteq> 0)"
proof (induction bs val shift i rule: decode_loop.induct)
  case (1 val shift i)
  then show ?case by simp
next
  case (2 b bs val shift i)
  show ?case
  proof (cases "i = 10")
    case True
    with 2(2) show ?thesis by auto
  next
    case False
    with 2(2,3) have i: "shift < 64" "\<not> shift + 7 > 70" "shift + 7 = 7 * Suc i" "Suc i \<le> 10"
      by auto
    obtain k where k: "10 - i = Suc k"
      using False 2(3) by (cases "10 - i") auto
    show ?thesis
    proof (cases "b AND 0x80 = 0")
      case True
      with i k show ?thesis by (simp add: Let_def)
    next
      case cont: False
      have "10 - Suc i = k"
        using k by simp
      with 2(1) [OF _ refl cont] i k cont show ?thesis
        by (simp add: Let_def add.commute)
    qed
  qed
qed

lemma decode_undefined:
  "decode buf = Inl e \<longleftrightarrow>
     e = Undefined_behaviour \<and> 10 < length buf \<and> (\<forall>b \<in> set (take 10 buf). b AND 0x80 \<noteq> 0)"
  using decode_loop_undefined [of 0 0 buf 0 e] by (auto simp: decode_def)

lemma decode_loop_consumed:
  "decode_loop bs val shift i = Inr r \<Longrightarrow> dr_valid r \<Longrightarrow>
     i < dr_consumed r \<and> dr_consumed r \<le> i + length bs"
  by (induction bs val shift i rule: decode_loop.induct)
    (auto simp: Let_def split: if_splits)

lemma decode_consumed:
  "decode buf = Inr r \<Longrightarrow> dr_valid r \<Longrightarrow> 0 < dr_consumed r \<and> dr_consumed r \<le> length buf"
  using decode_loop_consumed [of buf 0 0 0 r] by (auto simp: decode_def split: if_splits)

section \<open>The reading steps\<close>

lemma read_varint_encode [dec]:
  "read_varint (pre @ encode v @ rest) (length pre) = Inr (Some (v, length pre + length (encode v)))"
  by (simp add: read_varint_def)

lemma read_varint_bounds:
  "read_varint data off = Inr (Some (v, off')) \<Longrightarrow> off < off' \<and> off' \<le> length data"
  by (auto simp: read_varint_def bind_cpp_eq_Inr split: if_splits dest!: decode_consumed)

lemma read_string_bounds:
  "read_string data off len = Inr (Some (s, off')) \<Longrightarrow>
     off' = off + length s \<and> off' \<le> length data \<and> length s = unat len"
  by (auto simp: read_string_def split: if_splits)

lemma read_block_bounds:
  "read_block data off n = Inr (Some (bs, off')) \<Longrightarrow>
     off' = off + n \<and> off' \<le> length data \<and> length bs = n"
  by (auto simp: read_block_def split: if_splits)

lemma read_string_in_bounds:
  "off + unat len \<le> length data \<Longrightarrow> length data < 2 ^ 63 \<Longrightarrow>
   read_string data off len =
     Inr (Some (string_of_bytes (take (unat len) (drop off data)), off + unat len))"
  by (simp add: read_string_def)

text \<open>With fewer than \<open>2 ^ 63\<close> bytes of input a wrapped length check never leads to an
  out-of-bounds read: the length is then so large that constructing the string throws.\<close>

lemma read_string_no_ub: "length data < 2 ^ 63 \<Longrightarrow> off \<le> length data \<Longrightarrow> no_ub (read_string data off len)"
proof -
  assume d: "length data < 2 ^ 63" and off: "off \<le> length data"
  show ?thesis
  proof (cases "unat len \<ge> 2 ^ 63")
    case True
    then show ?thesis by (simp add: read_string_def)
  next
    case False
    with d off have "(off + unat len) mod 2 ^ 64 = off + unat len"
      by simp
    then show ?thesis by (simp add: read_string_def)
  qed
qed

lemmas codec_defs = read_varint_def read_string_def read_block_def need_more_def read_byte_def

section \<open>Signed values\<close>

lemma neg_bit0: "NOT (x AND 1) + 1 = (if bit x 0 then -1 else 0)" for x :: u64
  by (auto simp: bit_0 and_one_eq one_and_eq mod_2_eq_odd)

lemma zigzagDecode_Encode [simp]: "zigzagDecode (zigzagEncode v) = v"
  unfolding zigzagEncode_def zigzagDecode_def neg_bit0
proof (rule bit_word_eqI)
  fix n assume "n < LENGTH(64)"
  then show "bit (drop_bit 1 (push_bit 1 v XOR signed_drop_bit 63 v) XOR
     (if bit (push_bit 1 v XOR signed_drop_bit 63 v) 0 then - 1 else 0)) n = bit v n"
    by (cases "n = 63") (auto simp: bit_simps bit_times_2 simp del: bit_0 dest: bit_imp_le_length)
qed

lemma zigzagEncode_Decode [simp]: "zigzagEncode (zigzagDecode v) = v"
  unfolding zigzagEncode_def zigzagDecode_def neg_bit0
proof (rule bit_word_eqI)
  fix n assume "n < LENGTH(64)"
  then show "bit (push_bit 1 (drop_bit 1 v XOR (if bit v 0 then - 1 else 0)) XOR
     signed_drop_bit 63 (drop_bit 1 v XOR (if bit v 0 then - 1 else 0))) n = bit v n"
    by (cases "n = 0") (auto simp: bit_simps bit_times_2 simp del: bit_0 dest: bit_imp_le_length)
qed

section \<open>Properties\<close>

text \<open>C6: whenever the buffer given to the bounded encoder has room for \<^verbatim>\<open>encodedSize(value)\<close>
  bytes, exactly that many (at most ten) are written, and decoding them in front of any other
  bytes gives back the value, the count and a valid flag.\<close>

theorem varint_roundtrip:
  assumes "encodedSize v \<le> n"
  shows "length (encode_buf n v) = encodedSize v \<and> encodedSize v \<le> 10 \<and>
    decode (encode_buf n v @ rest) =
      Inr \<lparr>dr_value = v, dr_consumed = encodedSize v, dr_valid = True\<rparr>"
  using assms by (simp add: encode_buf_take encodedSize_length length_encode_le)

theorem varint_roundtrip_witness:
  "decode (encode_buf 2 300 @ [7]) = Inr \<lparr>dr_value = 300, dr_consumed = 2, dr_valid = True\<rparr>"
proof -
  have "encodedSize 300 = 2"
    by code_simp
  then show ?thesis
    using varint_roundtrip [of 300 2 "[7]"] by simp
qed

text \<open>The signed encoder and decoder are inverse on every 64-bit value, and ZigZag is a
  bijection, so no two signed values share an encoding.\<close>

theorem varint_signed_roundtrip:
  "decodeSigned (encodeSigned 10 v @ rest) =
     Inr \<lparr>dr_value = v, dr_consumed = encodedSize (zigzagEncode v), dr_valid = True\<rparr> \<and>
   zigzagEncode (zigzagDecode v) = v"
  by (simp add: decodeSigned_def encodeSigned_def encode_buf_take length_encode_le encodedSize_length)

text \<open>Decoding is undefined on exactly the inputs of at least eleven bytes whose first ten
  all have the continuation bit: the guard \<^verbatim>\<open>shift > 70\<close> lets the eleventh byte through, which
  is shifted by 70, more than the width of \<^verbatim>\<open>uint64_t\<close>.  On every other input it returns.\<close>

theorem varint_decode_undefined_iff:
  "\<not> no_ub (decode buf) \<longleftrightarrow> 10 < length buf \<and> (\<forall>i \<in> {0..<10}. buf ! i AND 0x80 \<noteq> 0)"
proof -
  have "(\<forall>b \<in> set (take 10 buf). b AND 0x80 \<noteq> 0) \<longleftrightarrow> (\<forall>i \<in> {0..<10}. buf ! i AND 0x80 \<noteq> 0)"
    if "10 < length buf"
    using that by (auto simp: set_conv_nth) (metis nth_take)
  then show ?thesis
    by (auto simp: no_ub_def decode_undefined)
qed

theorem varint_decode_undefined_iff_witness:
  "\<not> no_ub (decode (replicate 11 0x80))"
  unfolding varint_decode_undefined_iff by auto

end
