(* ===== verification/Core_Types.thy ===== *)
theory Core_Types
  imports Nebula_Prelude
begin

text \<open>
  \<^verbatim>\<open>include/nebula/Types.hpp\<close>, \<^verbatim>\<open>Error.hpp\<close> and \<^verbatim>\<open>Config.hpp\<close>: the enumerations, the
  entry, index, chunk and journal records, Unix permissions, timestamps, error codes
  with their messages and the conversion of an error code to a \<open>ParseError\<close>.

  An enumeration that the library casts from an input byte has a last constructor
  \<open>\<dots>_raw\<close> for the values that name no enumerator: a C++ enumeration with a fixed
  underlying type can hold them.
\<close>

unbundle bit_operations_syntax

section \<open>Constants\<close>

definition kArchiveVersionMajor :: u16 where "kArchiveVersionMajor = 1"
definition kArchiveVersionMinor :: u16 where "kArchiveVersionMinor = 0"
definition kMaxFileNameLength :: nat where "kMaxFileNameLength = 4096"
definition kMaxMetadataSize :: nat where "kMaxMetadataSize = 1048576"
definition kMaxJournalEntrySize :: nat where "kMaxJournalEntrySize = 524288"
definition kMaxChunkSize :: nat where "kMaxChunkSize = 1048576"
definition kMinChunkSize :: nat where "kMinChunkSize = 4096"
definition kDefaultHashTableSize :: nat where "kDefaultHashTableSize = 65536"
definition kBTreeDefaultOrder :: nat where "kBTreeDefaultOrder = 128"

section \<open>Identifiers, permissions and times\<close>

record UUID =
  uuid_high :: u64
  uuid_low :: u64

definition uuid_less :: "UUID \<Rightarrow> UUID \<Rightarrow> bool" where
  "uuid_less a b \<longleftrightarrow>
     uuid_high a < uuid_high b \<or> (uuid_high a = uuid_high b \<and> uuid_low a < uuid_low b)"

record Permissions =
  ownerRead :: bool
  ownerWrite :: bool
  ownerExec :: bool
  groupRead :: bool
  groupWrite :: bool
  groupExec :: bool
  otherRead :: bool
  otherWrite :: bool
  otherExec :: bool

definition default_permissions :: Permissions where
  "default_permissions =
     \<lparr>ownerRead = True, ownerWrite = True, ownerExec = False, groupRead = True,
      groupWrite = False, groupExec = False, otherRead = True, otherWrite = False,
      otherExec = False\<rparr>"

definition toUnixMode :: "Permissions \<Rightarrow> u16" where
  "toUnixMode p =
     (let mode = 0;
          mode = (if ownerRead p then mode OR 256 else mode);
          mode = (if ownerWrite p then mode OR 128 else mode);
          mode = (if ownerExec p then mode OR 64 else mode);
          mode = (if groupRead p then mode OR 32 else mode);
          mode = (if groupWrite p then mode OR 16 else mode);
          mode = (if groupExec p then mode OR 8 else mode);
          mode = (if otherRead p then mode OR 4 else mode);
          mode = (if otherWrite p then mode OR 2 else mode);
          mode = (if otherExec p then mode OR 1 else mode)
      in mode)"

definition fromUnixMode :: "u16 \<Rightarrow> Permissions" where
  "fromUnixMode mode =
     \<lparr>ownerRead = (mode AND 256 \<noteq> 0), ownerWrite = (mode AND 128 \<noteq> 0),
      ownerExec = (mode AND 64 \<noteq> 0), groupRead = (mode AND 32 \<noteq> 0),
      groupWrite = (mode AND 16 \<noteq> 0), groupExec = (mode AND 8 \<noteq> 0),
      otherRead = (mode AND 4 \<noteq> 0), otherWrite = (mode AND 2 \<noteq> 0),
      otherExec = (mode AND 1 \<noteq> 0)\<rparr>"

text \<open>
  A time point is its \<^verbatim>\<open>time_since_epoch()\<close> in nanoseconds.  \<^verbatim>\<open>duration_cast\<close> to
  seconds truncates towards zero; the nanosecond rest of a time before the epoch is
  negative and wraps when it is stored in \<^verbatim>\<open>uint32_t\<close>.
\<close>

record Timestamp =
  ts_seconds :: u64   \<comment> \<open>\<^verbatim>\<open>int64_t\<close>, read with \<open>sint\<close>\<close>
  ts_nanos :: u32

definition trunc_secs :: "int \<Rightarrow> int" where
  "trunc_secs ns = (if ns \<ge> 0 then ns div 1000000000 else - ((- ns) div 1000000000))"

definition toTimePoint :: "Timestamp \<Rightarrow> int cpp" where
  "toTimePoint t =
     (let ns = sint (ts_seconds t) * 1000000000 + uint (ts_nanos t) in
      if - (2 ^ 63) \<le> sint (ts_seconds t) * 1000000000 \<and>
         sint (ts_seconds t) * 1000000000 < 2 ^ 63 \<and> - (2 ^ 63) \<le> ns \<and> ns < 2 ^ 63
      then Inr ns else Inl Undefined_behaviour)"

definition fromTimePoint :: "int \<Rightarrow> Timestamp" where
  "fromTimePoint tp =
     (let secs = trunc_secs tp in
      \<lparr>ts_seconds = word_of_int secs, ts_nanos = word_of_int (tp - secs * 1000000000)\<rparr>)"

section \<open>Enumerations\<close>

datatype EntryType = File | Directory | Symlink | Hardlink | Block | Reserved

datatype CompressionAlgorithm = CNone | LZ4 | Zlib | Zstd | Compression_raw byte

datatype EncryptionAlgorithm = ENone | AES256GCM | ChaCha20Poly | Encryption_raw byte

datatype HashAlgorithm = CRC32 | SHA256 | Blake3

datatype DedupStrategy = DedupNone | DedupFixed | DedupContent

datatype ParserState = PS_Init | PS_Header | PS_Metadata | PS_DirectoryTree | PS_IndexTable
  | PS_ChunkTable | PS_CompressedBlocks | PS_ObjectRecon | PS_Complete | PS_Error

datatype ErrorSeverity = Warning | Recoverable | Fatal

datatype JournalEntryType = BeginCheckpoint | EndCheckpoint | CreateEntry | UpdateEntry
  | DeleteEntry | RenameEntry | WriteBlock | Commit | Abort | Journal_raw byte

definition compression_to_byte :: "CompressionAlgorithm \<Rightarrow> byte" where
  "compression_to_byte c =
     (case c of CNone \<Rightarrow> 0 | LZ4 \<Rightarrow> 1 | Zlib \<Rightarrow> 2 | Zstd \<Rightarrow> 3 | Compression_raw b \<Rightarrow> b)"

definition compression_of_byte :: "byte \<Rightarrow> CompressionAlgorithm" where
  "compression_of_byte b =
     (if b = 0 then CNone else if b = 1 then LZ4 else if b = 2 then Zlib
      else if b = 3 then Zstd else Compression_raw b)"

definition encryption_to_byte :: "EncryptionAlgorithm \<Rightarrow> byte" where
  "encryption_to_byte c =
     (case c of ENone \<Rightarrow> 0 | AES256GCM \<Rightarrow> 1 | ChaCha20Poly \<Rightarrow> 2 | Encryption_raw b \<Rightarrow> b)"

definition encryption_of_byte :: "byte \<Rightarrow> EncryptionAlgorithm" where
  "encryption_of_byte b =
     (if b = 0 then ENone else if b = 1 then AES256GCM else if b = 2 then ChaCha20Poly
      else Encryption_raw b)"

definition journal_type_to_byte :: "JournalEntryType \<Rightarrow> byte" where
  "journal_type_to_byte t =
     (case t of BeginCheckpoint \<Rightarrow> 1 | EndCheckpoint \<Rightarrow> 2 | CreateEntry \<Rightarrow> 3 | UpdateEntry \<Rightarrow> 4
      | DeleteEntry \<Rightarrow> 5 | RenameEntry \<Rightarrow> 6 | WriteBlock \<Rightarrow> 7 | Commit \<Rightarrow> 8 | Abort \<Rightarrow> 9
      | Journal_raw b \<Rightarrow> b)"

definition journal_type_of_byte :: "byte \<Rightarrow> JournalEntryType" where
  "journal_type_of_byte b =
     (if b = 1 then BeginCheckpoint else if b = 2 then EndCheckpoint
      else if b = 3 then CreateEntry else if b = 4 then UpdateEntry
      else if b = 5 then DeleteEntry else if b = 6 then RenameEntry
      else if b = 7 then WriteBlock else if b = 8 then Commit else if b = 9 then Abort
      else Journal_raw b)"

definition parser_state_code :: "ParserState \<Rightarrow> nat" where
  "parser_state_code s =
     (case s of PS_Init \<Rightarrow> 0 | PS_Header \<Rightarrow> 1 | PS_Metadata \<Rightarrow> 2 | PS_DirectoryTree \<Rightarrow> 3
      | PS_IndexTable \<Rightarrow> 4 | PS_ChunkTable \<Rightarrow> 5 | PS_CompressedBlocks \<Rightarrow> 6
      | PS_ObjectRecon \<Rightarrow> 7 | PS_Complete \<Rightarrow> 8 | PS_Error \<Rightarrow> 255)"

text \<open>\<^verbatim>\<open>EntryFlags\<close> is a bit set over \<^verbatim>\<open>uint32_t\<close>.\<close>

type_synonym EntryFlags = u32

definition flags_or :: "EntryFlags \<Rightarrow> EntryFlags \<Rightarrow> EntryFlags" where
  "flags_or a b = a OR b"

definition flags_and :: "EntryFlags \<Rightarrow> EntryFlags \<Rightarrow> EntryFlags" where
  "flags_and a b = a AND b"

definition hasFlag :: "EntryFlags \<Rightarrow> EntryFlags \<Rightarrow> bool" where
  "hasFlag flags test \<longleftrightarrow> flags AND test \<noteq> 0"

section \<open>Records\<close>

text \<open>A \<^verbatim>\<open>ChecksumValue\<close> is an array of 32 bytes; \<open>zero_checksum\<close> is its zero value.\<close>

type_synonym ChecksumValue = "byte list"

definition zero_checksum :: ChecksumValue where
  "zero_checksum = replicate 32 0"

text \<open>The times of an entry or a directory that is default-initialised (\<^verbatim>\<open>ArchiveEntry entry;\<close>) have no value:
  \<^verbatim>\<open>Timestamp::seconds\<close> has no initialiser and is indeterminate until it is assigned.  \<open>None\<close> is such a time.\<close>

record ArchiveEntry =
  ae_id :: EntryID
  ae_type :: EntryType
  ae_flags :: EntryFlags
  ae_name :: string
  ae_path :: string
  ae_offset :: u64
  ae_originalSize :: u64
  ae_storedSize :: u64
  ae_createdAt :: "Timestamp option"
  ae_modifiedAt :: "Timestamp option"
  ae_permissions :: Permissions
  ae_ownerUid :: u32
  ae_ownerGid :: u32
  ae_checksum :: ChecksumValue
  ae_refCount :: u32
  ae_compression :: CompressionAlgorithm
  ae_encryption :: EncryptionAlgorithm

record IndexEntry =
  ie_entryId :: EntryID
  ie_offset :: u64
  ie_size :: u64
  ie_checksum :: ChecksumValue

record ChunkDescriptor =
  cd_hash :: ChecksumValue
  cd_offset :: u64
  cd_compressedSize :: u64
  cd_originalSize :: u64
  cd_compression :: CompressionAlgorithm
  cd_encrypted :: bool

record JournalEntry =
  je_type :: JournalEntryType
  je_sequence :: u64
  je_timestamp :: Timestamp
  je_data :: "byte list"
  je_checksum :: ChecksumValue

text \<open>A value-initialised time, and default-initialised records.\<close>

definition zero_timestamp :: Timestamp where
  "zero_timestamp = \<lparr>ts_seconds = 0, ts_nanos = 0\<rparr>"

definition default_entry :: ArchiveEntry where
  "default_entry =
     \<lparr>ae_id = 0, ae_type = File, ae_flags = 0, ae_name = [], ae_path = [], ae_offset = 0,
      ae_originalSize = 0, ae_storedSize = 0, ae_createdAt = None,
      ae_modifiedAt = None, ae_permissions = default_permissions, ae_ownerUid = 0,
      ae_ownerGid = 0, ae_checksum = zero_checksum, ae_refCount = 1, ae_compression = CNone,
      ae_encryption = ENone\<rparr>"

definition default_chunk :: ChunkDescriptor where
  "default_chunk =
     \<lparr>cd_hash = zero_checksum, cd_offset = 0, cd_compressedSize = 0, cd_originalSize = 0,
      cd_compression = CNone, cd_encrypted = False\<rparr>"

section \<open>Errors\<close>

datatype ErrorCode = Success | InvalidMagic | UnsupportedVersion | CorruptHeader
  | CorruptMetadata | CorruptDirectory | CorruptIndex | CorruptChunkTable | CorruptBlock
  | ChecksumMismatch | DecompressionError | EncryptionError | EntryNotFound | DuplicateEntry
  | InvalidPath | NameTooLong | DepthExceeded | OutOfRange | IOError | NoSpace | NotAnArchive
  | ArchiveTooLarge | JournalCorrupt | JournalFull | RecoveryRequired | InvalidOperation
  | NotImplemented | VersionMismatch | EncryptionRequired | AuthenticationFailed
  | InsufficientPermissions | InternalError | OutOfMemory

text \<open>
  A \<^verbatim>\<open>std::error_code\<close> of the library's own category is its \<open>ErrorCode\<close>; the default
  \<^verbatim>\<open>std::error_code()\<close> has value 0, and \<^verbatim>\<open>if (ec)\<close> asks whether it is not 0.
\<close>

definition error_message :: "ErrorCode \<Rightarrow> string" where
  "error_message ec =
     (case ec of
        Success \<Rightarrow> ''success''
      | InvalidMagic \<Rightarrow> ''invalid magic bytes''
      | UnsupportedVersion \<Rightarrow> ''unsupported archive version''
      | CorruptHeader \<Rightarrow> ''corrupt archive header''
      | CorruptMetadata \<Rightarrow> ''corrupt metadata section''
      | CorruptDirectory \<Rightarrow> ''corrupt directory tree''
      | CorruptIndex \<Rightarrow> ''corrupt index table''
      | CorruptChunkTable \<Rightarrow> ''corrupt chunk table''
      | CorruptBlock \<Rightarrow> ''corrupt compressed block''
      | ChecksumMismatch \<Rightarrow> ''checksum mismatch''
      | DecompressionError \<Rightarrow> ''decompression failure''
      | EncryptionError \<Rightarrow> ''encryption/decryption failure''
      | EntryNotFound \<Rightarrow> ''entry not found''
      | DuplicateEntry \<Rightarrow> ''duplicate entry''
      | InvalidPath \<Rightarrow> ''invalid path''
      | NameTooLong \<Rightarrow> ''filename too long''
      | DepthExceeded \<Rightarrow> ''directory depth exceeded''
      | OutOfRange \<Rightarrow> ''offset out of range''
      | IOError \<Rightarrow> ''I/O error''
      | NoSpace \<Rightarrow> ''no space left''
      | NotAnArchive \<Rightarrow> ''not a NebulaFS archive''
      | ArchiveTooLarge \<Rightarrow> ''archive exceeds size limit''
      | JournalCorrupt \<Rightarrow> ''journal is corrupt''
      | JournalFull \<Rightarrow> ''journal is full''
      | RecoveryRequired \<Rightarrow> ''recovery required before use''
      | InvalidOperation \<Rightarrow> ''invalid operation for current mode''
      | NotImplemented \<Rightarrow> ''feature not implemented''
      | VersionMismatch \<Rightarrow> ''version mismatch''
      | EncryptionRequired \<Rightarrow> ''encryption required''
      | AuthenticationFailed \<Rightarrow> ''authentication failed''
      | InsufficientPermissions \<Rightarrow> ''insufficient permissions''
      | InternalError \<Rightarrow> ''internal error''
      | OutOfMemory \<Rightarrow> ''out of memory'')"

record ParseError =
  pe_severity :: ErrorSeverity
  pe_state :: ParserState
  pe_offset :: u64
  pe_message :: string
  pe_systemError :: int
  pe_expectedSize :: "u64 option"
  pe_actualSize :: "u64 option"

text \<open>\<^verbatim>\<open>toParseError(ec, state, offset, message = "")\<close>.\<close>

definition toParseError :: "ErrorCode \<Rightarrow> ParserState \<Rightarrow> u64 \<Rightarrow> string \<Rightarrow> ParseError" where
  "toParseError ec state off message =
     \<lparr>pe_severity = (if ec = CorruptHeader \<or> ec = ChecksumMismatch then Fatal else Recoverable),
      pe_state = state, pe_offset = off,
      pe_message = (if message = [] then error_message ec else message),
      pe_systemError = 0, pe_expectedSize = None, pe_actualSize = None\<rparr>"

text \<open>Decimal output of \<^verbatim>\<open>operator<<\<close> and \<^verbatim>\<open>std::to_string\<close>.\<close>

fun nat_to_string :: "nat \<Rightarrow> string" where
  "nat_to_string n =
     (if n < 10 then [char_of (48 + n)] else nat_to_string (n div 10) @ [char_of (48 + n mod 10)])"

declare nat_to_string.simps [simp del]

definition int_to_string :: "int \<Rightarrow> string" where
  "int_to_string i = (if i < 0 then CHR ''-'' # nat_to_string (nat (- i)) else nat_to_string (nat i))"

definition parse_error_toString :: "ParseError \<Rightarrow> string" where
  "parse_error_toString e =
     ''ParseError ['' @
     (case pe_severity e of Warning \<Rightarrow> ''WARNING'' | Recoverable \<Rightarrow> ''RECOVERABLE''
      | Fatal \<Rightarrow> ''FATAL'') @
     ''] at state='' @ nat_to_string (parser_state_code (pe_state e)) @
     '' offset='' @ nat_to_string (unat (pe_offset e)) @
     (if pe_message e \<noteq> [] then '' '' @ [CHR 0x22] @ pe_message e @ [CHR 0x22] else []) @
     (if pe_systemError e \<noteq> 0 then '' errno='' @ int_to_string (pe_systemError e) else []) @
     (case pe_expectedSize e of None \<Rightarrow> []
      | Some s \<Rightarrow> '' expected='' @ nat_to_string (unat s)) @
     (case pe_actualSize e of None \<Rightarrow> [] | Some s \<Rightarrow> '' actual='' @ nat_to_string (unat s))"

type_synonym 'a Result = "ParseError + 'a"

section \<open>Conversions\<close>

definition compression_named :: "CompressionAlgorithm \<Rightarrow> bool" where
  "compression_named c \<longleftrightarrow> compression_of_byte (compression_to_byte c) = c"

lemma compression_byte_roundtrip [simp]: "compression_to_byte (compression_of_byte b) = b"
  by (simp add: compression_of_byte_def compression_to_byte_def)

lemma encryption_byte_roundtrip [simp]: "encryption_to_byte (encryption_of_byte b) = b"
  by (simp add: encryption_of_byte_def encryption_to_byte_def)

lemma journal_byte_roundtrip [simp]: "journal_type_to_byte (journal_type_of_byte b) = b"
  by (simp add: journal_type_of_byte_def journal_type_to_byte_def)

lemma pow2_bits:
  "(256 :: u16) = push_bit 8 1" "(128 :: u16) = push_bit 7 1" "(64 :: u16) = push_bit 6 1"
  "(32 :: u16) = push_bit 5 1" "(16 :: u16) = push_bit 4 1" "(8 :: u16) = push_bit 3 1"
  "(4 :: u16) = push_bit 2 1" "(2 :: u16) = push_bit 1 1"
  by simp_all

lemma and_pow2_neq_0: "(m AND push_bit n 1 \<noteq> 0) = (n < LENGTH('a) \<and> bit m n)" for m :: "'a::len word"
proof -
  have "(m AND push_bit n 1) = (if bit m n then push_bit n 1 else 0)"
    by (rule bit_word_eqI) (auto simp: bit_simps simp del: push_bit_of_1)
  then show ?thesis by (auto simp: bit_simps dest: bit_imp_le_length)
qed

lemma unix_mode_roundtrip: "fromUnixMode (toUnixMode p) = p"
  by (cases p) (simp add: fromUnixMode_def toUnixMode_def Let_def)
lemma if_or_pow2:
  "(if m AND push_bit k 1 \<noteq> 0 then x OR push_bit k 1 else x) = x OR (m AND push_bit k 1)"
  for m x :: "'a::len word"
  by (rule bit_word_eqI) (auto simp: and_pow2_neq_0 bit_simps simp del: push_bit_of_1)

lemma and_one_if: "(if m AND 1 \<noteq> 0 then x OR 1 else x) = x OR (m AND 1)" for m x :: u16
  using if_or_pow2 [of m 0 x] by (simp split: if_splits)

lemma unix_mode_low_bits: "toUnixMode (fromUnixMode m) = m AND 0x1FF"
proof -
  have "toUnixMode (fromUnixMode m) =
     0 OR (m AND 256) OR (m AND 128) OR (m AND 64) OR (m AND 32) OR (m AND 16) OR (m AND 8)
       OR (m AND 4) OR (m AND 2) OR (m AND 1)"
    unfolding toUnixMode_def fromUnixMode_def Let_def Permissions.simps pow2_bits
    by (simp only: if_or_pow2 and_one_if) (simp only: or.assoc)
  also have "\<dots> = m AND 0x1FF"
    by (simp flip: bit.conj_disj_distrib)
  finally show ?thesis .
qed

lemma timestamp_roundtrip:
  assumes "0 \<le> sint (ts_seconds t)" "sint (ts_seconds t) < 2 ^ 33" "uint (ts_nanos t) < 1000000000"
  shows "bind_cpp (toTimePoint t) (\<lambda>tp. Inr (fromTimePoint tp)) = Inr t"
proof -
  let ?s = "sint (ts_seconds t)" and ?n = "uint (ts_nanos t)"
  have n0: "0 \<le> ?s * 1000000000 + ?n"
    using assms(1) by (intro add_nonneg_nonneg) simp_all
  have "toTimePoint t = Inr (?s * 1000000000 + ?n)"
    using assms n0 by (simp add: toTimePoint_def Let_def)
  moreover have "trunc_secs (?s * 1000000000 + ?n) = ?s"
    using assms n0 by (simp add: trunc_secs_def)
  ultimately show ?thesis
    by (simp add: fromTimePoint_def Let_def)
qed

lemma timestamp_before_epoch:
  "fromTimePoint (-1) = \<lparr>ts_seconds = 0, ts_nanos = 4294967295\<rparr>"
  by (simp add: fromTimePoint_def trunc_secs_def)

end
