(* ===== verification/Hash_Table.thy ===== *)
theory Hash_Table
  imports VarInt Core_Types
begin

text \<open>
  \<^verbatim>\<open>src/index/HashTable.cpp\<close>: the open-addressing table from paths to entry
  identifiers.  A key is represented by its 64-bit FNV-1a hash alone; slots are probed
  linearly from the hash masked with the capacity minus one; an insertion displaces
  entries with a shorter probe length (Robin Hood hashing); a removal leaves a tombstone.

  The two \<^verbatim>\<open>while (true)\<close> loops are \<open>partial_function (option)\<close>, so \<open>None\<close> means that
  the call does not return.  The load-factor test
  \<^verbatim>\<open>double(size_) / double(entries_.size()) > 0.7\<close> is \<open>7 * capacity < 10 * size\<close>; the
  two agree for every capacity below \<open>2 ^ 49\<close>.

  The theorems: an insertion into a table without tombstones returns, keeps the probe
  invariant and changes the lookup at exactly one hash; a removal deletes exactly one
  hash; re-using a tombstone can make another key unreachable.
\<close>

unbundle bit_operations_syntax

section \<open>State and operations\<close>

record Entry =
  he_hash :: u64
  he_entryId :: EntryID
  he_probe :: u32
  he_occupied :: bool
  he_tombstone :: bool

record HashTable =
  ht_entries :: "Entry list"
  ht_size :: u64

definition empty_Entry :: Entry where
  "empty_Entry =
     \<lparr>he_hash = 0, he_entryId = 0, he_probe = 0, he_occupied = False, he_tombstone = False\<rparr>"

definition newHashTable :: "nat \<Rightarrow> HashTable" where
  "newHashTable initialCapacity =
     \<lparr>ht_entries = replicate (max initialCapacity 16) empty_Entry, ht_size = 0\<rparr>"

definition hashKey :: "string \<Rightarrow> u64" where
  "hashKey key =
     foldl (\<lambda>h c. (h XOR ucast (byte_of_char c)) * 1099511628211) 14695981039346656037 key"

text \<open>\<^verbatim>\<open>x & (entries_.size() - 1)\<close>; the subtraction wraps for an empty table.\<close>

definition slot_mask :: "Entry list \<Rightarrow> u64 \<Rightarrow> nat" where
  "slot_mask es x = unat (x AND (size64 (length es) - 1))"

definition idealSlot :: "Entry list \<Rightarrow> u64 \<Rightarrow> nat" where
  "idealSlot es h = slot_mask es h"

definition next_slot :: "Entry list \<Rightarrow> nat \<Rightarrow> nat" where
  "next_slot es slot = slot_mask es (size64 slot + 1)"

text \<open>\<^verbatim>\<open>occupied && !tombstone\<close>; its negation is the test for a slot that may be written.\<close>

definition live :: "Entry \<Rightarrow> bool" where
  "live c \<longleftrightarrow> he_occupied c \<and> \<not> he_tombstone c"

text \<open>The loop of \<^verbatim>\<open>rehash\<close> that places one entry.\<close>

partial_function (option) rehash_loop ::
  "Entry list \<Rightarrow> nat \<Rightarrow> Entry \<Rightarrow> u64 \<Rightarrow> (Entry list \<times> u64) cpp option" where
  "rehash_loop es slot e sz =
     (if slot \<ge> length es then Some (Inl Undefined_behaviour)
      else
        let current = es ! slot in
        if \<not> he_occupied current \<or> he_tombstone current then Some (Inr (es[slot := e], sz + 1))
        else
          let (e', es') =
            (if he_probe e > he_probe current
             then (current\<lparr>he_probe := he_probe current + 1\<rparr>, es[slot := e])
             else (e, es))
          in rehash_loop es' (next_slot es slot) (e'\<lparr>he_probe := he_probe e' + 1\<rparr>) sz)"

text \<open>The loop over the old entries in \<^verbatim>\<open>rehash\<close>.\<close>

fun rehash_all :: "Entry list \<Rightarrow> Entry list \<Rightarrow> u64 \<Rightarrow> (Entry list \<times> u64) cpp option" where
  "rehash_all [] es sz = Some (Inr (es, sz))"
| "rehash_all (entry # old) es sz =
     (if he_occupied entry \<and> \<not> he_tombstone entry then
        (case rehash_loop es (idealSlot es (he_hash entry)) (entry\<lparr>he_probe := 0\<rparr>) sz of
           None \<Rightarrow> None
         | Some (Inl a) \<Rightarrow> Some (Inl a)
         | Some (Inr (es', sz')) \<Rightarrow> rehash_all old es' sz')
      else rehash_all old es sz)"

definition rehash :: "HashTable \<Rightarrow> nat \<Rightarrow> HashTable cpp option" where
  "rehash t newCapacity =
     (case rehash_all (ht_entries t) (replicate newCapacity empty_Entry) 0 of
        None \<Rightarrow> None
      | Some (Inl a) \<Rightarrow> Some (Inl a)
      | Some (Inr (es, sz)) \<Rightarrow> Some (Inr \<lparr>ht_entries = es, ht_size = sz\<rparr>))"

definition growIfNeeded :: "HashTable \<Rightarrow> HashTable cpp option" where
  "growIfNeeded t =
     (if 7 * length (ht_entries t) < 10 * unat (ht_size t)
      then rehash t (length (ht_entries t) * 2)
      else Some (Inr t))"

definition reserve :: "HashTable \<Rightarrow> nat \<Rightarrow> HashTable cpp option" where
  "reserve t newCapacity =
     (if newCapacity > length (ht_entries t) then rehash t newCapacity else Some (Inr t))"

text \<open>The loop of \<^verbatim>\<open>insert\<close>; \<open>fullHash\<close> and \<open>v\<close> are those of the key inserted,
  \<open>e\<close> is the entry carried along, which changes at a displacement.\<close>

partial_function (option) insert_loop ::
  "u64 \<Rightarrow> EntryID \<Rightarrow> Entry list \<Rightarrow> nat \<Rightarrow> Entry \<Rightarrow> u64 \<Rightarrow> (Entry list \<times> u64) cpp option" where
  "insert_loop fullHash v es slot e sz =
     (if slot \<ge> length es then Some (Inl Undefined_behaviour)
      else
        let current = es ! slot in
        if \<not> he_occupied current \<or> he_tombstone current then Some (Inr (es[slot := e], sz + 1))
        else if he_hash current = fullHash
        then Some (Inr (es[slot := current\<lparr>he_entryId := v\<rparr>], sz))
        else
          let (e', es') =
            (if he_probe e > he_probe current
             then (current\<lparr>he_probe := he_probe current + 1\<rparr>, es[slot := e])
             else (e, es))
          in insert_loop fullHash v es' (next_slot es slot) (e'\<lparr>he_probe := he_probe e' + 1\<rparr>) sz)"

definition ht_insert :: "HashTable \<Rightarrow> string \<Rightarrow> EntryID \<Rightarrow> HashTable cpp option" where
  "ht_insert t key v =
     (case growIfNeeded t of
        None \<Rightarrow> None
      | Some (Inl a) \<Rightarrow> Some (Inl a)
      | Some (Inr t') \<Rightarrow>
          let fullHash = hashKey key;
              slot = idealSlot (ht_entries t') fullHash;
              newEntry = \<lparr>he_hash = fullHash, he_entryId = v, he_probe = 0,
                          he_occupied = True, he_tombstone = False\<rparr> in
          (case insert_loop fullHash v (ht_entries t') slot newEntry (ht_size t') of
             None \<Rightarrow> None
           | Some (Inl a) \<Rightarrow> Some (Inl a)
           | Some (Inr (es, sz)) \<Rightarrow> Some (Inr \<lparr>ht_entries = es, ht_size = sz\<rparr>)))"

text \<open>
  The probe loop shared by \<^verbatim>\<open>find\<close> and \<^verbatim>\<open>remove\<close>: the slot of the live entry with the
  hash.  It stops because the probe count passes every stored 32-bit probe length.
\<close>

function find_loop :: "Entry list \<Rightarrow> u64 \<Rightarrow> nat \<Rightarrow> nat \<Rightarrow> nat option cpp" where
  "find_loop es fullHash slot probeLength =
     (if slot \<ge> length es then Inl Undefined_behaviour
      else if probeLength > unat (he_probe (es ! slot)) then Inr None
      else
        let entry = es ! slot in
        if he_occupied entry \<and> \<not> he_tombstone entry \<and> he_hash entry = fullHash
        then Inr (Some slot)
        else if \<not> he_occupied entry \<and> \<not> he_tombstone entry then Inr None
        else find_loop es fullHash (next_slot es slot) (Suc probeLength))"
  by pat_completeness auto
termination
proof (relation "measure (\<lambda>(es, fullHash, slot, probeLength). 2 ^ 32 - probeLength)")
  fix es :: "Entry list" and fullHash :: u64 and slot probeLength :: nat and entry
  assume "\<not> unat (he_probe (es ! slot)) < probeLength"
  moreover have "unat (he_probe (es ! slot)) < 2 ^ 32"
    using unsigned_less [of "he_probe (es ! slot)", where ?'a = nat] by simp
  ultimately show "((es, fullHash, next_slot es slot, Suc probeLength), es, fullHash, slot,
      probeLength) \<in> measure (\<lambda>(es, fullHash, slot, probeLength). 2 ^ 32 - probeLength)"
    by simp
qed simp

declare find_loop.simps [simp del]

definition ht_find :: "HashTable \<Rightarrow> string \<Rightarrow> EntryID option cpp" where
  "ht_find t key =
     (let fullHash = hashKey key in
      bind_cpp (find_loop (ht_entries t) fullHash (idealSlot (ht_entries t) fullHash) 0)
        (\<lambda>r. Inr (map_option (\<lambda>s. he_entryId (ht_entries t ! s)) r)))"

definition ht_contains :: "HashTable \<Rightarrow> string \<Rightarrow> bool cpp" where
  "ht_contains t key = bind_cpp (ht_find t key) (\<lambda>r. Inr (r \<noteq> None))"

definition ht_remove :: "HashTable \<Rightarrow> string \<Rightarrow> (bool \<times> HashTable) cpp" where
  "ht_remove t key =
     (let fullHash = hashKey key in
      bind_cpp (find_loop (ht_entries t) fullHash (idealSlot (ht_entries t) fullHash) 0)
        (\<lambda>r. Inr (case r of
            None \<Rightarrow> (False, t)
          | Some s \<Rightarrow>
              (True, t\<lparr>ht_entries := (ht_entries t)
                        [s := (ht_entries t ! s)\<lparr>he_tombstone := True, he_occupied := False\<rparr>],
                       ht_size := ht_size t - 1\<rparr>))))"

definition ht_clear :: "HashTable \<Rightarrow> HashTable" where
  "ht_clear t =
     \<lparr>ht_entries = map (\<lambda>e. e\<lparr>he_occupied := False, he_tombstone := False, he_probe := 0\<rparr>)
                    (ht_entries t),
      ht_size = 0\<rparr>"

section \<open>Serialisation\<close>

definition serialize_Entry :: "Entry \<Rightarrow> byte list" where
  "serialize_Entry e =
     [if he_occupied e then 1 else 0, if he_tombstone e then 1 else 0] @
     (if he_occupied e
      then encode (he_hash e) @ encode (he_entryId e) @ encode (ucast (he_probe e))
      else [])"

definition ht_serialize :: "HashTable \<Rightarrow> byte list" where
  "ht_serialize t =
     encode (size64 (length (ht_entries t))) @ encode (ht_size t) @
     concat (map serialize_Entry (ht_entries t))"

text \<open>\<^verbatim>\<open>std::vector::resize\<close>; a size above \<open>limit\<close> cannot be allocated.\<close>

definition resize_entries :: "nat \<Rightarrow> Entry list \<Rightarrow> nat \<Rightarrow> Entry list cpp" where
  "resize_entries limit es n =
     (if n > limit then Inl Alloc_failure
      else Inr (take n es @ replicate (n - length es) empty_Entry))"

text \<open>The reading loop, from slot \<open>i\<close> with \<open>n\<close> slots to go.\<close>

fun deserialize_entries ::
  "byte list \<Rightarrow> nat \<Rightarrow> nat \<Rightarrow> nat \<Rightarrow> Entry list \<Rightarrow> (ErrorCode \<times> Entry list) cpp" where
  "deserialize_entries data 0 i off es = Inr (Success, es)"
| "deserialize_entries data (Suc n) i off es =
     (if off + 2 > length data then Inr (Success, es)
      else
        let occ = data ! off \<noteq> 0; tomb = data ! (off + 1) \<noteq> 0; off = off + 2 in
        if occ then
          else_ret (read_varint data off) (CorruptIndex, es) (\<lambda>(h, off).
          let es = es[i := (es ! i)\<lparr>he_hash := h\<rparr>] in
          else_ret (read_varint data off) (CorruptIndex, es) (\<lambda>(eid, off).
          let es = es[i := (es ! i)\<lparr>he_entryId := eid\<rparr>] in
          else_ret (read_varint data off) (CorruptIndex, es) (\<lambda>(pr, off).
          deserialize_entries data n (Suc i) off
            (es[i := (es ! i)\<lparr>he_probe := ucast pr, he_occupied := True,
                              he_tombstone := tomb\<rparr>]))))
        else
          deserialize_entries data n (Suc i) off
            (es[i := (es ! i)\<lparr>he_occupied := False, he_tombstone := tomb, he_probe := 0\<rparr>]))"

definition ht_deserialize ::
  "nat \<Rightarrow> HashTable \<Rightarrow> byte list \<Rightarrow> (ErrorCode \<times> HashTable) cpp" where
  "ht_deserialize limit t data =
     else_ret (read_varint data 0) (CorruptIndex, t) (\<lambda>(capacity, off).
     else_ret (read_varint data off) (CorruptIndex, t) (\<lambda>(sz, off).
     let t = t\<lparr>ht_size := sz\<rparr> in
     bind_cpp (resize_entries limit (ht_entries t) (unat capacity)) (\<lambda>es.
     let t = t\<lparr>ht_entries := es\<rparr> in
     if off > length data then Inr (CorruptIndex, t)
     else if unat capacity > (length data - off) div 2 then Inr (CorruptIndex, t)
     else if unat capacity > 1024 * 1024 then Inr (CorruptIndex, t)
     else
       bind_cpp (deserialize_entries data (unat capacity) 0 off es) (\<lambda>(ec, es).
       Inr (ec, t\<lparr>ht_entries := es\<rparr>)))))"

section \<open>Iteration\<close>

text \<open>\<^verbatim>\<open>begin()\<close> and \<^verbatim>\<open>operator++\<close> stop at the first live slot at or after \<open>i\<close>.\<close>

function skip_to_live :: "Entry list \<Rightarrow> nat \<Rightarrow> nat" where
  "skip_to_live es i =
     (if i < length es then (if live (es ! i) then i else skip_to_live es (Suc i)) else i)"
  by pat_completeness auto
termination
  by (relation "measure (\<lambda>(es, i). length es - i)") auto

declare skip_to_live.simps [simp del]

definition ht_begin :: "HashTable \<Rightarrow> nat" where
  "ht_begin t = skip_to_live (ht_entries t) 0"

definition ht_iter_next :: "HashTable \<Rightarrow> nat \<Rightarrow> nat" where
  "ht_iter_next t i = skip_to_live (ht_entries t) (Suc i)"

section \<open>Invariants\<close>

definition used :: "Entry \<Rightarrow> bool" where
  "used c \<longleftrightarrow> he_occupied c \<or> he_tombstone c"

definition no_tombstones :: "Entry list \<Rightarrow> bool" where
  "no_tombstones es \<longleftrightarrow> (\<forall>c \<in> set es. \<not> he_tombstone c)"

text \<open>The capacity is a power of two and the probe counts fit their 32 bits.\<close>

definition cap_ok :: "Entry list \<Rightarrow> bool" where
  "cap_ok es \<longleftrightarrow> (\<exists>k \<in> {0..32}. length es = 2 ^ k)"

text \<open>The slot at distance \<open>j\<close> from the ideal slot of a hash.\<close>

definition slot_at :: "Entry list \<Rightarrow> u64 \<Rightarrow> nat \<Rightarrow> nat" where
  "slot_at es h j = (unat h + j) mod length es"

definition path_ok :: "Entry list \<Rightarrow> u64 \<Rightarrow> nat \<Rightarrow> bool" where
  "path_ok es h d \<longleftrightarrow>
     (\<forall>j < d. used (es ! slot_at es h j) \<and> j \<le> unat (he_probe (es ! slot_at es h j)))"

definition placed_ok :: "Entry list \<Rightarrow> nat \<Rightarrow> bool" where
  "placed_ok es p \<longleftrightarrow>
     unat (he_probe (es ! p)) < length es \<and>
     (\<exists>d \<in> {0..<length es}. p = slot_at es (he_hash (es ! p)) d \<and>
        path_ok es (he_hash (es ! p)) d \<and> d \<le> unat (he_probe (es ! p)))"

definition probe_inv :: "Entry list \<Rightarrow> bool" where
  "probe_inv es \<longleftrightarrow> cap_ok es \<and>
     (\<forall>p \<in> {0..<length es}. live (es ! p) \<longrightarrow> placed_ok es p) \<and>
     (\<forall>p \<in> {0..<length es}. \<forall>q \<in> {0..<length es}.
        live (es ! p) \<and> live (es ! q) \<and> he_hash (es ! p) = he_hash (es ! q) \<longrightarrow> p = q)"

text \<open>What the table stores.\<close>

definition holds :: "Entry list \<Rightarrow> u64 \<Rightarrow> EntryID \<Rightarrow> bool" where
  "holds es h v \<longleftrightarrow> (\<exists>c \<in> set es. live c \<and> he_hash c = h \<and> he_entryId c = v)"

definition live_slots :: "Entry list \<Rightarrow> nat set" where
  "live_slots es = {p. p < length es \<and> live (es ! p)}"

definition ht_inv :: "HashTable \<Rightarrow> bool" where
  "ht_inv t \<longleftrightarrow> probe_inv (ht_entries t) \<and>
     unat (ht_size t) = length (filter live (ht_entries t))"

section \<open>Slots\<close>

lemma slot_mask_mod:
  assumes "cap_ok es"
  shows "slot_mask es x = unat x mod length es"
proof -
  from assms obtain k where k: "k \<le> 32" "length es = 2 ^ k"
    by (auto simp: cap_ok_def)
  have "size64 (length es) - 1 = mask k"
    using k by (simp add: size64_def mask_eq_exp_minus_1)
  then have "slot_mask es x = unat (take_bit k x)"
    by (simp add: slot_mask_def take_bit_eq_mask)
  also have "\<dots> = take_bit k (unat x)"
    by (rule unsigned_take_bit_eq)
  also have "\<dots> = unat x mod 2 ^ k"
    by (simp add: take_bit_eq_mod)
  finally show ?thesis
    by (simp add: k)
qed

lemma cap_ok_pos: "cap_ok es \<Longrightarrow> 0 < length es \<and> length es \<le> 2 ^ 32"
  using power_increasing [of _ 32 "2 :: nat"] by (force simp: cap_ok_def)

lemma slot_at_less [simp]: "cap_ok es \<Longrightarrow> slot_at es h j < length es"
  using cap_ok_pos [of es] by (simp add: slot_at_def)

lemma idealSlot_slot_at: "cap_ok es \<Longrightarrow> idealSlot es h = slot_at es h 0"
  by (simp add: idealSlot_def slot_mask_mod slot_at_def)

lemma next_slot_mod:
  assumes "cap_ok es" "s < length es"
  shows "next_slot es s = Suc s mod length es"
proof -
  have "s < 2 ^ 32"
    using assms cap_ok_pos [of es] by linarith
  then have "unat (size64 s + 1) = Suc s"
    by (simp add: size64_def unat_word_ariths unat_of_nat)
  then show ?thesis
    using assms by (simp add: next_slot_def slot_mask_mod)
qed

lemma next_slot_at: "cap_ok es \<Longrightarrow> next_slot es (slot_at es h j) = slot_at es h (Suc j)"
  by (simp add: next_slot_mod) (simp add: slot_at_def mod_Suc_eq)

lemma slot_at_inj:
  assumes "j < length es" "i < length es" "slot_at es h i = slot_at es h j"
  shows "i = j"
proof -
  have *: "False" if "a < b" "b < length es" "(unat h + a) mod length es = (unat h + b) mod length es" for a b
  proof -
    have "length es dvd (unat h + b) - (unat h + a)"
      using that by (metis mod_eq_dvd_iff_nat less_or_eq_imp_le nat_add_left_cancel_le)
    then have "length es dvd b - a"
      by simp
    with that show False
      by (meson dvd_imp_le le_less_trans less_imp_diff_less not_less zero_less_diff)
  qed
  from assms * [of i j] * [of j i] show ?thesis
    by (cases i j rule: linorder_cases) (auto simp: slot_at_def)
qed

lemma live_used: "live c \<Longrightarrow> used c"
  by (simp add: live_def used_def)

lemma probe_invD:
  assumes "probe_inv es"
  shows "cap_ok es"
    and "p < length es \<Longrightarrow> live (es ! p) \<Longrightarrow> placed_ok es p"
    and "p < length es \<Longrightarrow> q < length es \<Longrightarrow> live (es ! p) \<Longrightarrow> live (es ! q) \<Longrightarrow>
         he_hash (es ! p) = he_hash (es ! q) \<Longrightarrow> p = q"
  using assms by (auto simp: probe_inv_def)

section \<open>Lookup\<close>

lemma find_loop_hit:
  assumes inv: "probe_inv es" and p: "p < length es" "live (es ! p)"
  shows "find_loop es (he_hash (es ! p)) (idealSlot es (he_hash (es ! p))) 0 = Inr (Some p)"
proof -
  let ?h = "he_hash (es ! p)"
  note cap = probe_invD(1) [OF inv]
  from probe_invD(2) [OF inv p] obtain d where d: "d < length es" "p = slot_at es ?h d"
    "path_ok es ?h d" "d \<le> unat (he_probe (es ! p))"
    by (auto simp: placed_ok_def)
  have "find_loop es ?h (slot_at es ?h 0) 0 = Inr (Some p)"
  proof (rule inc_induct [of 0 d "\<lambda>j. find_loop es ?h (slot_at es ?h j) j = Inr (Some p)"])
    show "find_loop es ?h (slot_at es ?h d) d = Inr (Some p)"
      using d p by (subst find_loop.simps) (simp add: Let_def live_def)
  next
    fix j
    assume j: "j < d" and IH: "find_loop es ?h (slot_at es ?h (Suc j)) (Suc j) = Inr (Some p)"
    let ?s = "slot_at es ?h j"
    have s: "?s < length es" using cap by simp
    have "?s \<noteq> p"
      using slot_at_inj [of d es j ?h] d(1,2) j by auto
    then have "\<not> (live (es ! ?s) \<and> he_hash (es ! ?s) = ?h)"
      using probe_invD(3) [OF inv s p(1) _ p(2)] by blast
    moreover have "used (es ! ?s)" "j \<le> unat (he_probe (es ! ?s))"
      using d(3) j by (auto simp: path_ok_def)
    ultimately show "find_loop es ?h ?s j = Inr (Some p)"
      using IH s next_slot_at [OF cap, of ?h j]
      by (subst find_loop.simps) (auto simp: Let_def live_def used_def)
  qed simp
  then show ?thesis
    by (simp add: idealSlot_slot_at cap)
qed

lemma find_loop_miss:
  assumes cap: "cap_ok es" and none: "\<And>c. c \<in> set es \<Longrightarrow> live c \<Longrightarrow> he_hash c \<noteq> h"
  shows "s < length es \<Longrightarrow> find_loop es h s j = Inr None"
proof (induction "2 ^ 32 - j" arbitrary: s j rule: less_induct)
  case less
  have c: "\<not> (live (es ! s) \<and> he_hash (es ! s) = h)"
    using none [of "es ! s"] less.prems by auto
  have n: "next_slot es s < length es"
    using less.prems cap cap_ok_pos [OF cap] by (simp add: next_slot_mod)
  show ?case
  proof (cases "j \<le> unat (he_probe (es ! s))")
    case True
    then have "2 ^ 32 - Suc j < 2 ^ 32 - j"
      using unsigned_less [of "he_probe (es ! s)", where ?'a = nat] by simp
    from less.hyps [OF this n] True c less.prems show ?thesis
      by (subst find_loop.simps) (auto simp: Let_def live_def)
  next
    case False
    with less.prems show ?thesis
      by (subst find_loop.simps) simp
  qed
qed

lemma holds_nth: "holds es h v \<longleftrightarrow> (\<exists>p < length es. live (es ! p) \<and> he_hash (es ! p) = h \<and> he_entryId (es ! p) = v)"
  unfolding holds_def by (metis in_set_conv_nth)

lemma ht_find_Some_iff:
  assumes inv: "probe_inv (ht_entries t)"
  shows "ht_find t key = Inr (Some v) \<longleftrightarrow> holds (ht_entries t) (hashKey key) v"
    and "ht_find t key = Inr None \<longleftrightarrow> (\<forall>v. \<not> holds (ht_entries t) (hashKey key) v)"
proof -
  let ?es = "ht_entries t" and ?h = "hashKey key"
  have "(ht_find t key = Inr (Some v) \<longleftrightarrow> holds ?es ?h v) \<and>
        (ht_find t key = Inr None \<longleftrightarrow> (\<forall>v. \<not> holds ?es ?h v))"
  proof (cases "\<exists>p < length ?es. live (?es ! p) \<and> he_hash (?es ! p) = ?h")
    case True
    then obtain p where p: "p < length ?es" "live (?es ! p)" "he_hash (?es ! p) = ?h"
      by blast
    have "ht_find t key = Inr (Some (he_entryId (?es ! p)))"
      using find_loop_hit [OF inv p(1,2)] p(3) by (simp add: ht_find_def)
    moreover have "q = p" if "q < length ?es" "live (?es ! q)" "he_hash (?es ! q) = ?h" for q
      using probe_invD(3) [OF inv that(1) p(1) that(2) p(2)] that(3) p(3) by simp
    ultimately have "holds ?es ?h w \<longleftrightarrow> w = he_entryId (?es ! p)" for w
      using p unfolding holds_nth by metis
    with \<open>ht_find t key = _\<close> show ?thesis
      by auto
  next
    case False
    then have "ht_find t key = Inr None"
      using find_loop_miss [OF probe_invD(1) [OF inv], of ?h "idealSlot ?es ?h" 0]
      by (force simp: ht_find_def Let_def in_set_conv_nth idealSlot_slot_at probe_invD(1) [OF inv])
    moreover have "\<not> holds ?es ?h w" for w
      using False unfolding holds_nth by blast
    ultimately show ?thesis
      by simp
  qed
  then show "ht_find t key = Inr (Some v) \<longleftrightarrow> holds ?es ?h v"
    and "ht_find t key = Inr None \<longleftrightarrow> (\<forall>v. \<not> holds ?es ?h v)"
    by blast+
qed

section \<open>Placing an entry\<close>

lemma slot_at_update [simp]: "slot_at (es[s := e]) h j = slot_at es h j"
  by (simp add: slot_at_def)

lemma cap_ok_update [simp]: "cap_ok (es[s := e]) = cap_ok es"
  by (simp add: cap_ok_def)

text \<open>Writing a slot keeps every path if the slot was unused or its probe length grows.\<close>

lemma path_ok_update:
  assumes "path_ok es h d" "used e" "used (es ! s) \<Longrightarrow> he_probe (es ! s) \<le> he_probe e"
  shows "path_ok (es[s := e]) h d"
  unfolding path_ok_def
proof (intro allI impI)
  fix j
  assume "j < d"
  with assms(1) have u: "used (es ! slot_at es h j)" "j \<le> unat (he_probe (es ! slot_at es h j))"
    by (auto simp: path_ok_def)
  show "used (es[s := e] ! slot_at (es[s := e]) h j) \<and>
        j \<le> unat (he_probe (es[s := e] ! slot_at (es[s := e]) h j))"
  proof (cases "slot_at es h j = s \<and> s < length es")
    case True
    with u assms show ?thesis
      by (auto simp: word_le_nat_alt)
  next
    case False
    then have "es[s := e] ! slot_at es h j = es ! slot_at es h j"
      by (metis list_update_beyond not_le nth_list_update_neq)
    with u show ?thesis by simp
  qed
qed

lemma probe_inv_update:
  assumes inv: "probe_inv es" and e: "live e" and s: "s < length es"
    and gr: "used (es ! s) \<Longrightarrow> he_probe (es ! s) \<le> he_probe e"
    and fresh: "\<And>p. p < length es \<Longrightarrow> live (es ! p) \<Longrightarrow> p \<noteq> s \<Longrightarrow> he_hash (es ! p) \<noteq> he_hash e"
    and d: "d < length es" "s = slot_at es (he_hash e) d" "path_ok es (he_hash e) d"
      "d \<le> unat (he_probe e)" "unat (he_probe e) < length es"
  shows "probe_inv (es[s := e])"
  unfolding probe_inv_def
proof (intro conjI ballI impI)
  show "cap_ok (es[s := e])"
    using probe_invD(1) [OF inv] by simp
next
  fix p
  assume p: "p \<in> {0..<length (es[s := e])}" "live (es[s := e] ! p)"
  note path = path_ok_update [OF _ live_used [OF e] gr]
  show "placed_ok (es[s := e]) p"
  proof (cases "p = s")
    case True
    have "path_ok (es[s := e]) (he_hash e) d"
      using d(3) by (rule path)
    with True d s show ?thesis
      by (auto simp: placed_ok_def)
  next
    case False
    with p probe_invD(2) [OF inv, of p] obtain d' where
      "unat (he_probe (es ! p)) < length es" "d' < length es"
      "p = slot_at es (he_hash (es ! p)) d'" "path_ok es (he_hash (es ! p)) d'"
      "d' \<le> unat (he_probe (es ! p))"
      by (auto simp: placed_ok_def)
    with False path show ?thesis
      by (auto simp: placed_ok_def intro!: bexI [of _ d'])
  qed
next
  fix p q
  assume p: "p \<in> {0..<length (es[s := e])}" and q: "q \<in> {0..<length (es[s := e])}"
    and h: "live (es[s := e] ! p) \<and> live (es[s := e] ! q) \<and>
            he_hash (es[s := e] ! p) = he_hash (es[s := e] ! q)"
  show "p = q"
  proof (cases "p = s \<or> q = s")
    case True
    with p q h fresh [of p] fresh [of q] s show ?thesis
      by (auto simp: nth_list_update split: if_splits)
  next
    case False
    with p q h probe_invD(3) [OF inv, of p q] show ?thesis by auto
  qed
qed

lemma no_tombstonesD: "no_tombstones es \<Longrightarrow> p < length es \<Longrightarrow> used (es ! p) \<longleftrightarrow> live (es ! p)"
  by (auto simp: no_tombstones_def used_def live_def)

lemma no_tombstones_update: "no_tombstones es \<Longrightarrow> live e \<Longrightarrow> no_tombstones (es[s := e])"
  by (auto simp: no_tombstones_def live_def dest!: set_update_subset_insert [THEN subsetD])

lemma live_slots_update:
  "s < length es \<Longrightarrow> live e \<Longrightarrow> live_slots (es[s := e]) = insert s (live_slots es)"
  by (auto simp: live_slots_def nth_list_update)

lemma holds_update_fresh:
  "s < length es \<Longrightarrow> live e \<Longrightarrow> \<not> live (es ! s) \<Longrightarrow>
   holds (es[s := e]) h v \<longleftrightarrow> holds es h v \<or> (h = he_hash e \<and> v = he_entryId e)"
  unfolding holds_nth length_list_update by (metis nth_list_update_eq nth_list_update_neq)

lemma holds_update_swap:
  "s < length es \<Longrightarrow> live e \<Longrightarrow> live (es ! s) \<Longrightarrow>
   holds (es[s := e]) h v \<or> (h = he_hash (es ! s) \<and> v = he_entryId (es ! s)) \<longleftrightarrow>
   holds es h v \<or> (h = he_hash e \<and> v = he_entryId e)"
  unfolding holds_nth length_list_update by (metis nth_list_update_eq nth_list_update_neq)

lemma ahead_neq:
  assumes "slot < n" "j < f" "f < (n :: nat)"
  shows "(slot + Suc j) mod n \<noteq> slot"
  using assms by (cases "slot + Suc j < n") (auto simp: mod_if)

text \<open>\<open>place_pre es slot e d f\<close>: the entry \<open>e\<close> is carried at distance \<open>d\<close> of its hash,
  the next slot that may be written is \<open>f\<close> steps ahead.\<close>

definition place_pre :: "Entry list \<Rightarrow> nat \<Rightarrow> Entry \<Rightarrow> nat \<Rightarrow> nat \<Rightarrow> bool" where
  "place_pre es slot e d f \<longleftrightarrow>
     probe_inv es \<and> no_tombstones es \<and> live e \<and> slot < length es \<and> f < length es \<and>
     (\<forall>j < f. live (es ! ((slot + j) mod length es))) \<and>
     \<not> live (es ! ((slot + f) mod length es)) \<and>
     slot = slot_at es (he_hash e) d \<and> d \<le> unat (he_probe e) \<and> path_ok es (he_hash e) d \<and>
     unat (he_probe e) + f < length es \<and>
     (\<forall>p < length es. live (es ! p) \<longrightarrow> he_hash (es ! p) \<noteq> he_hash e)"

definition place_post ::
  "Entry list \<Rightarrow> nat \<Rightarrow> Entry \<Rightarrow> Entry list \<Rightarrow> bool" where
  "place_post es s e es' \<longleftrightarrow>
     length es' = length es \<and> probe_inv es' \<and> no_tombstones es' \<and>
     (\<forall>h v. holds es' h v \<longleftrightarrow> holds es h v \<or> (h = he_hash e \<and> v = he_entryId e)) \<and>
     live_slots es' = insert s (live_slots es)"

lemma place_swap:
  assumes pre: "place_pre es slot e d (Suc f)" and lt: "he_probe (es ! slot) < he_probe e"
  obtains d' where
    "place_pre (es[slot := e]) (next_slot es slot)
       ((es ! slot)\<lparr>he_probe := he_probe (es ! slot) + 2\<rparr>) (Suc d') f"
proof -
  let ?c = "es ! slot" and ?es = "es[slot := e]"
  let ?e = "?c\<lparr>he_probe := he_probe ?c + 2\<rparr>"
  note p = pre [unfolded place_pre_def]
  have inv: "probe_inv es" and cap: "cap_ok es" and slot: "slot < length es" and le: "live e"
    using p probe_invD(1) by auto
  have lc: "live ?c"
    using p slot by (auto dest: spec [where x = 0])
  obtain d' where d': "unat (he_probe ?c) < length es" "d' < length es"
    "slot = slot_at es (he_hash ?c) d'" "path_ok es (he_hash ?c) d'" "d' \<le> unat (he_probe ?c)"
    using probe_invD(2) [OF inv slot lc] by (auto simp: placed_ok_def)
  have lt': "unat (he_probe ?c) < unat (he_probe e)"
    using lt by (simp add: word_less_nat_alt)
  have e2: "unat (he_probe ?c + 2) = unat (he_probe ?c) + 2"
  proof -
    have "unat (he_probe ?c) + 2 < 2 ^ 32"
      using lt' p cap_ok_pos [OF cap] by linarith
    then show ?thesis
      by (simp add: unat_word_ariths)
  qed
  have path: "path_ok ?es (he_hash ?c) (Suc d')"
    using path_ok_update [OF d'(4) live_used [OF le], of slot] lt d'(3,5) lt' slot live_used [OF le]
    by (auto simp: path_ok_def less_Suc_eq)
  have inv': "probe_inv ?es"
    using p lt by (intro probe_inv_update [OF inv le slot]) auto
  have ahead: "?es ! ((Suc slot mod length es + j) mod length es) = es ! ((slot + Suc j) mod length es)"
    if "j \<le> f" for j
    using ahead_neq [of slot "length es" j "Suc f"] that p by (simp add: mod_simps)
  have "place_pre ?es (next_slot es slot) ?e (Suc d') f"
    unfolding place_pre_def
  proof (intro conjI)
    show "no_tombstones ?es"
      using p le by (simp add: no_tombstones_update)
    show "live ?e"
      using lc by (simp add: live_def)
    show "next_slot es slot < length ?es" "f < length ?es"
      using p slot cap cap_ok_pos [OF cap] by (simp_all add: next_slot_mod)
    show "\<forall>j < f. live (?es ! ((next_slot es slot + j) mod length ?es))"
      using p ahead slot cap by (auto simp: next_slot_mod)
    show "\<not> live (?es ! ((next_slot es slot + f) mod length ?es))"
      using p ahead slot cap by (auto simp: next_slot_mod)
    show "next_slot es slot = slot_at ?es (he_hash ?e) (Suc d')"
      using d'(3) next_slot_at [OF cap, of "he_hash ?c" d'] by simp
    show "Suc d' \<le> unat (he_probe ?e)" "unat (he_probe ?e) + f < length ?es"
      using d'(5) e2 lt' p by auto
    show "\<forall>p < length ?es. live (?es ! p) \<longrightarrow> he_hash (?es ! p) \<noteq> he_hash ?e"
      using p lc slot probe_invD(3) [OF inv _ slot _ lc] by (auto simp: nth_list_update)
  qed (use inv' path in simp_all)
  then show ?thesis
    using that by blast
qed

lemma place_step:
  assumes pre: "place_pre es slot e d (Suc f)" and ge: "\<not> he_probe (es ! slot) < he_probe e"
  shows "place_pre es (next_slot es slot) (e\<lparr>he_probe := he_probe e + 1\<rparr>) (Suc d) f"
proof -
  note p = pre [unfolded place_pre_def]
  have inv: "probe_inv es" and cap: "cap_ok es" and slot: "slot < length es"
    using p probe_invD(1) by auto
  have lc: "live (es ! slot)"
    using p slot by (auto dest: spec [where x = 0])
  have e1: "unat (he_probe e + 1) = unat (he_probe e) + 1"
  proof -
    have "unat (he_probe e) + 1 < 2 ^ 32"
      using p cap_ok_pos [OF cap] by linarith
    then show ?thesis
      by (simp add: unat_word_ariths)
  qed
  have "path_ok es (he_hash e) (Suc d)"
    using p ge live_used [OF lc] by (auto simp: path_ok_def less_Suc_eq not_less word_le_nat_alt)
  moreover have "next_slot es slot = slot_at es (he_hash e) (Suc d)"
    using p next_slot_at [OF cap] by simp
  moreover have "(next_slot es slot + j) mod length es = (slot + Suc j) mod length es" for j
    using slot cap by (simp add: next_slot_mod mod_simps)
  moreover have "live (e\<lparr>he_probe := he_probe e + 1\<rparr>)"
    using p by (simp add: live_def)
  ultimately show ?thesis
    using p e1 by (auto simp: place_pre_def slot_at_less [OF cap])
qed

lemma rehash_loop_place:
  "place_pre es slot e d f \<Longrightarrow>
   \<exists>es'. rehash_loop es slot e sz = Some (Inr (es', sz + 1)) \<and>
         place_post es ((slot + f) mod length es) e es'"
proof (induction f arbitrary: es slot e d)
  case 0
  note p = 0 [unfolded place_pre_def]
  have "slot mod length es = slot"
    using p by (intro mod_less) blast
  then have "\<not> live (es ! slot)"
    using p by auto
  then have "rehash_loop es slot e sz = Some (Inr (es[slot := e], sz + 1))"
    using p by (subst rehash_loop.simps) (auto simp: Let_def live_def)
  moreover have "probe_inv (es[slot := e])"
    using p no_tombstonesD [of es slot] by (intro probe_inv_update [of es e slot d]) auto
  ultimately show ?case
    using p \<open>\<not> live (es ! slot)\<close>
    by (auto simp: place_post_def no_tombstones_update holds_update_fresh live_slots_update)
next
  case (Suc f)
  note p = Suc.prems [unfolded place_pre_def]
  have slot: "slot < length es" and cap: "cap_ok es" and le: "live e"
    using p probe_invD(1) by auto
  have lc: "live (es ! slot)"
    using p by (auto dest: spec [where x = 0])
  have nxt: "(next_slot es slot + f) mod length es = (slot + Suc f) mod length es"
    using slot cap by (simp add: next_slot_mod mod_simps)
  show ?case
  proof (cases "he_probe (es ! slot) < he_probe e")
    case True
    from place_swap [OF Suc.prems True] obtain d' where
      "place_pre (es[slot := e]) (next_slot es slot)
         ((es ! slot)\<lparr>he_probe := he_probe (es ! slot) + 2\<rparr>) (Suc d') f" .
    from Suc.IH [OF this] obtain es' where
      es': "rehash_loop (es[slot := e]) (next_slot es slot)
         ((es ! slot)\<lparr>he_probe := he_probe (es ! slot) + 2\<rparr>) sz = Some (Inr (es', sz + 1))"
      and post: "place_post (es[slot := e]) ((slot + Suc f) mod length es)
         ((es ! slot)\<lparr>he_probe := he_probe (es ! slot) + 2\<rparr>) es'"
      using nxt by auto
    have "rehash_loop es slot e sz = Some (Inr (es', sz + 1))"
      using slot lc True es' by (subst rehash_loop.simps) (simp add: Let_def live_def add.assoc)
    moreover have "place_post es ((slot + Suc f) mod length es) e es'"
      using post holds_update_swap [OF slot le lc] live_slots_update [OF slot le] slot lc
      by (auto simp: place_post_def live_slots_def)
    ultimately show ?thesis by blast
  next
    case False
    from Suc.IH [OF place_step [OF Suc.prems False]] obtain es' where
      es': "rehash_loop es (next_slot es slot) (e\<lparr>he_probe := he_probe e + 1\<rparr>) sz = Some (Inr (es', sz + 1))"
      and post: "place_post es ((slot + Suc f) mod length es) (e\<lparr>he_probe := he_probe e + 1\<rparr>) es'"
      using nxt by auto
    have "rehash_loop es slot e sz = Some (Inr (es', sz + 1))"
      using slot lc False es' by (subst rehash_loop.simps) (simp add: Let_def live_def)
    moreover have "place_post es ((slot + Suc f) mod length es) e es'"
      using post by (simp add: place_post_def)
    ultimately show ?thesis by blast
  qed
qed

section \<open>Insertion and rehashing\<close>

lemma first_free:
  assumes "slot < length es" "card (live_slots es) < length es"
  obtains f where "f < length es" "\<forall>j < f. live (es ! ((slot + j) mod length es))"
    "\<not> live (es ! ((slot + f) mod length es))"
proof -
  let ?n = "length es" and ?P = "\<lambda>f. \<not> live (es ! ((slot + f) mod length es))"
  have "live_slots es \<noteq> {0..<?n}"
    using assms(2) by auto
  moreover have "live_slots es \<subseteq> {0..<?n}"
    by (auto simp: live_slots_def)
  ultimately obtain p where p: "p < ?n" "\<not> live (es ! p)"
    unfolding live_slots_def by fastforce
  define f0 where "f0 = (if slot \<le> p then p - slot else ?n - slot + p)"
  have "(slot + f0) mod ?n = p" "f0 < ?n"
    using p(1) assms(1) by (auto simp: f0_def)
  with p(2) have f0: "?P f0"
    by simp
  have "?P (LEAST f. ?P f)"
    using f0 by (rule LeastI)
  moreover have "\<forall>j < (LEAST f. ?P f). \<not> ?P j"
    using not_less_Least by blast
  moreover have "(LEAST f. ?P f) < ?n"
    using Least_le [of ?P f0] f0 \<open>f0 < ?n\<close> by simp
  ultimately show ?thesis
    using that by blast
qed

lemma count_live_slots: "length (filter live es) = card (live_slots es)"
  by (simp add: live_slots_def length_filter_conv_card)

lemma finite_live_slots [simp]: "finite (live_slots es)"
  by (simp add: live_slots_def)

lemma place_pre_fresh:
  assumes "probe_inv es" "no_tombstones es" "card (live_slots es) < length es" "live e"
    "he_probe e = 0" "\<And>v. \<not> holds es (he_hash e) v"
  obtains f where "place_pre es (idealSlot es (he_hash e)) e 0 f"
proof -
  let ?s = "slot_at es (he_hash e) 0"
  have s: "?s < length es" and ideal: "idealSlot es (he_hash e) = ?s"
    using probe_invD(1) [OF assms(1)] by (simp_all add: idealSlot_slot_at)
  obtain f where "f < length es" "\<forall>j < f. live (es ! ((?s + j) mod length es))"
    "\<not> live (es ! ((?s + f) mod length es))"
    using first_free [OF s assms(3)] .
  then have "place_pre es ?s e 0 f"
    using assms s by (auto simp: place_pre_def path_ok_def holds_nth)
  with ideal that show ?thesis by simp
qed

text \<open>On a hash the table does not hold, \<^verbatim>\<open>insert\<close> runs the loop of \<^verbatim>\<open>rehash\<close>.\<close>

lemma insert_loop_fresh:
  "\<lbrakk>cap_ok es; slot < length es; f < length es;
    \<forall>j < f. live (es ! ((slot + j) mod length es)) \<and> he_hash (es ! ((slot + j) mod length es)) \<noteq> h;
    \<not> live (es ! ((slot + f) mod length es))\<rbrakk> \<Longrightarrow>
   insert_loop h v es slot e sz = rehash_loop es slot e sz"
proof (induction f arbitrary: es slot e)
  case 0
  then have "\<not> live (es ! slot)"
    by simp
  with 0 show ?case
    by (subst insert_loop.simps, subst rehash_loop.simps) (simp add: Let_def live_def)
next
  case (Suc f)
  have c: "live (es ! slot)" "he_hash (es ! slot) \<noteq> h"
    using Suc.prems(2,4) by (auto dest: spec [where x = 0])
  have nxt: "(next_slot es slot + j) mod length es = (slot + Suc j) mod length es" for j
    using Suc.prems(1,2) by (simp add: next_slot_mod mod_simps)
  have n: "next_slot es slot < length es"
    using Suc.prems(1,2) cap_ok_pos [of es] by (simp add: next_slot_mod)
  have neq: "j \<le> f \<Longrightarrow> es[slot := e] ! ((slot + Suc j) mod length es) = es ! ((slot + Suc j) mod length es)" for j
    using ahead_neq [of slot "length es" j "Suc f"] Suc.prems(2,3) by simp
  have "insert_loop h v es (next_slot es slot) x sz = rehash_loop es (next_slot es slot) x sz" for x
    using Suc.prems n by (intro Suc.IH) (auto simp: nxt)
  moreover have "insert_loop h v (es[slot := e]) (next_slot es slot) x sz =
      rehash_loop (es[slot := e]) (next_slot es slot) x sz" for x
    using Suc.prems n neq by (intro Suc.IH) (auto simp: nxt)
  ultimately show ?case
    using c Suc.prems(2) by (subst insert_loop.simps, subst rehash_loop.simps) (simp add: Let_def live_def)
qed

lemma insert_loop_place:
  assumes pre: "place_pre es slot e d f" and h: "he_hash e = h"
  shows "insert_loop h v es slot e sz = rehash_loop es slot e sz"
  using pre probe_invD(1) [of es] cap_ok_pos [of es] unfolding place_pre_def
  by (intro insert_loop_fresh [of es slot f]) (auto simp: h [symmetric])

text \<open>On a hash the table holds, it overwrites the value.\<close>

lemma insert_loop_hit:
  assumes inv: "probe_inv es" and nt: "no_tombstones es" and p: "p < length es" "live (es ! p)"
    and e: "he_probe e = 0"
  shows "insert_loop (he_hash (es ! p)) v es (idealSlot es (he_hash (es ! p))) e sz =
         Some (Inr (es[p := (es ! p)\<lparr>he_entryId := v\<rparr>], sz))"
proof -
  let ?h = "he_hash (es ! p)" and ?r = "Some (Inr (es[p := (es ! p)\<lparr>he_entryId := v\<rparr>], sz))"
  note cap = probe_invD(1) [OF inv]
  from probe_invD(2) [OF inv p] obtain d where d: "d < length es" "p = slot_at es ?h d" "path_ok es ?h d"
      "d \<le> unat (he_probe (es ! p))"
    by (auto simp: placed_ok_def)
  have "insert_loop ?h v es (slot_at es ?h 0) (e\<lparr>he_probe := word_of_nat 0\<rparr>) sz = ?r"
  proof (rule inc_induct [of 0 d
        "\<lambda>j. insert_loop ?h v es (slot_at es ?h j) (e\<lparr>he_probe := word_of_nat j\<rparr>) sz = ?r"])
    show "insert_loop ?h v es (slot_at es ?h d) (e\<lparr>he_probe := word_of_nat d\<rparr>) sz = ?r"
      using d p by (subst insert_loop.simps) (simp add: Let_def live_def)
  next
    fix j
    assume j: "j < d" and IH: "insert_loop ?h v es (slot_at es ?h (Suc j))
      (e\<lparr>he_probe := word_of_nat (Suc j)\<rparr>) sz = ?r"
    let ?s = "slot_at es ?h j"
    have s: "?s < length es" using cap by simp
    have "?s \<noteq> p"
      using slot_at_inj [of d es j ?h] d(1,2) j by auto
    moreover have l: "live (es ! ?s)" and "j \<le> unat (he_probe (es ! ?s))"
      using d(3) j no_tombstonesD [OF nt s] by (auto simp: path_ok_def)
    moreover have "j < 2 ^ 32"
      using j d(1) cap_ok_pos [OF cap] by linarith
    ultimately have "he_hash (es ! ?s) \<noteq> ?h" "\<not> word_of_nat j > he_probe (es ! ?s)"
      using probe_invD(3) [OF inv s p(1) l p(2)] by (auto simp: word_less_nat_alt unat_of_nat)
    with l s IH show "insert_loop ?h v es ?s (e\<lparr>he_probe := word_of_nat j\<rparr>) sz = ?r"
      by (subst insert_loop.simps) (simp add: Let_def live_def next_slot_at [OF cap] add.commute)
  qed simp
  moreover have "e\<lparr>he_probe := word_of_nat 0\<rparr> = e"
    using e by (cases e) simp
  ultimately show ?thesis
    by (simp add: idealSlot_slot_at cap)
qed

lemma holds_Cons:
  "holds (c # es) h v \<longleftrightarrow> (live c \<and> h = he_hash c \<and> v = he_entryId c) \<or> holds es h v"
  by (auto simp: holds_def)

lemma rehash_all_places:
  "\<lbrakk>probe_inv es; no_tombstones es; distinct (map he_hash (filter live old));
    \<forall>c \<in> set (filter live old). \<forall>v. \<not> holds es (he_hash c) v;
    card (live_slots es) + length (filter live old) < length es\<rbrakk> \<Longrightarrow>
   \<exists>es'. rehash_all old es sz = Some (Inr (es', sz + word_of_nat (length (filter live old)))) \<and>
     length es' = length es \<and> probe_inv es' \<and> no_tombstones es' \<and>
     (\<forall>h v. holds es' h v \<longleftrightarrow> holds es h v \<or> holds old h v) \<and>
     card (live_slots es') = card (live_slots es) + length (filter live old)"
proof (induction old arbitrary: es sz)
  case Nil
  then show ?case by (simp add: holds_def)
next
  case (Cons c old)
  show ?case
  proof (cases "live c")
    case False
    with Cons.IH [of es sz] Cons.prems show ?thesis
      by (auto simp: live_def holds_def)
  next
    case True
    let ?c = "c\<lparr>he_probe := 0\<rparr>"
    have "live ?c" "\<And>v. \<not> holds es (he_hash ?c) v" "card (live_slots es) < length es"
      using True Cons.prems by (auto simp: live_def)
    then obtain f where f: "place_pre es (idealSlot es (he_hash ?c)) ?c 0 f"
      using place_pre_fresh [OF Cons.prems(1,2), of ?c] by auto
    let ?s = "(idealSlot es (he_hash ?c) + f) mod length es"
    from rehash_loop_place [OF f] obtain es1 where
      es1: "rehash_loop es (idealSlot es (he_hash c)) ?c sz = Some (Inr (es1, sz + 1))"
      and post: "place_post es ?s ?c es1"
      by auto
    have "?s \<notin> live_slots es"
      using f by (auto simp: place_pre_def live_slots_def)
    with post have card1: "card (live_slots es1) = Suc (card (live_slots es))"
      by (simp add: place_post_def)
    have fresh: "\<forall>x \<in> set (filter live old). \<forall>v. \<not> holds es1 (he_hash x) v"
    proof
      fix x
      assume x: "x \<in> set (filter live old)"
      have "he_hash c \<notin> set (map he_hash (filter live old))"
        using Cons.prems(3) True by simp
      with x have "he_hash x \<noteq> he_hash c"
        by (metis imageI list.set_map)
      with x Cons.prems(4) post show "\<forall>v. \<not> holds es1 (he_hash x) v"
        by (simp add: place_post_def)
    qed
    obtain es' where "rehash_all old es1 (sz + 1) = Some (Inr (es', sz + 1 + word_of_nat (length (filter live old))))"
      "length es' = length es1" "probe_inv es'" "no_tombstones es'"
      "\<forall>h v. holds es' h v \<longleftrightarrow> holds es1 h v \<or> holds old h v"
      "card (live_slots es') = card (live_slots es1) + length (filter live old)"
      using Cons.IH [of es1 "sz + 1"] Cons.prems(3,5) True post fresh card1
      by (auto simp: place_post_def)
    moreover have "rehash_all (c # old) es sz = rehash_all old es1 (sz + 1)"
      using es1 True by (simp add: live_def)
    ultimately show ?thesis
      using post card1 True by (auto simp: holds_Cons place_post_def add.assoc)
  qed
qed

lemma holds_Nil_entries: "\<not> holds (replicate n empty_Entry) h v"
  by (auto simp: holds_def empty_Entry_def live_def)

lemma probe_inv_replicate: "cap_ok (replicate n empty_Entry) \<Longrightarrow> probe_inv (replicate n empty_Entry)"
  by (auto simp: probe_inv_def empty_Entry_def live_def)

lemma no_tombstones_replicate: "no_tombstones (replicate n empty_Entry)"
  by (auto simp: no_tombstones_def empty_Entry_def)

lemma live_slots_replicate: "live_slots (replicate n empty_Entry) = {}"
  by (auto simp: live_slots_def empty_Entry_def live_def)

lemmas empty_table = holds_Nil_entries probe_inv_replicate no_tombstones_replicate live_slots_replicate

lemma distinct_live_hashes:
  assumes "probe_inv es"
  shows "distinct (map he_hash (filter live es))"
proof -
  have *: "distinct (map he_hash (filter live xs))"
    if "\<And>p q. p < length xs \<Longrightarrow> q < length xs \<Longrightarrow> live (xs ! p) \<Longrightarrow> live (xs ! q) \<Longrightarrow>
          he_hash (xs ! p) = he_hash (xs ! q) \<Longrightarrow> p = q" for xs
    using that
  proof (induction xs)
    case (Cons x xs)
    have "distinct (map he_hash (filter live xs))"
    proof (rule Cons.IH)
      fix p q
      assume "p < length xs" "q < length xs" "live (xs ! p)" "live (xs ! q)" "he_hash (xs ! p) = he_hash (xs ! q)"
      then show "p = q"
        using Cons.prems [of "Suc p" "Suc q"] by simp
    qed
    moreover have "he_hash x \<noteq> he_hash y" if "live x" "y \<in> set xs" "live y" for y
    proof -
      from that(2) obtain q where "q < length xs" "xs ! q = y"
        by (auto simp: in_set_conv_nth)
      with that Cons.prems [of 0 "Suc q"] show ?thesis by auto
    qed
    ultimately show ?case by auto
  qed simp
  show ?thesis
    using probe_invD(3) [OF assms] by (intro *) blast
qed

lemma rehash_correct:
  assumes inv: "ht_inv t" and n: "cap_ok (replicate n empty_Entry)"
    and room: "unat (ht_size t) < n"
  shows "\<exists>t'. rehash t n = Some (Inr t') \<and> ht_inv t' \<and> no_tombstones (ht_entries t') \<and>
    length (ht_entries t') = n \<and> ht_size t' = ht_size t \<and>
    (\<forall>h v. holds (ht_entries t') h v \<longleftrightarrow> holds (ht_entries t) h v)"
proof -
  let ?old = "ht_entries t" and ?es = "replicate n empty_Entry"
  have pinv: "probe_inv ?old" and sz: "unat (ht_size t) = length (filter live ?old)"
    using inv by (auto simp: ht_inv_def)
  have w: "word_of_nat (length (filter live ?old)) = ht_size t"
    by (simp add: sz [symmetric])
  obtain es' where "rehash_all ?old ?es 0 = Some (Inr (es', ht_size t))" "length es' = n" "probe_inv es'"
    "no_tombstones es'" "\<forall>h v. holds es' h v \<longleftrightarrow> holds ?old h v"
    "card (live_slots es') = length (filter live ?old)"
    using rehash_all_places [OF probe_inv_replicate [OF n] no_tombstones_replicate
        distinct_live_hashes [OF pinv], of 0] room w
    by (auto simp: empty_table sz)
  then show ?thesis
    by (simp add: rehash_def ht_inv_def sz count_live_slots)
qed

lemma growIfNeeded_correct:
  assumes inv: "ht_inv t" and nt: "no_tombstones (ht_entries t)" and cap: "length (ht_entries t) \<le> 2 ^ 31"
  shows "\<exists>t'. growIfNeeded t = Some (Inr t') \<and> ht_inv t' \<and> no_tombstones (ht_entries t') \<and>
    unat (ht_size t') < length (ht_entries t') \<and> ht_size t' = ht_size t \<and>
    (\<forall>h v. holds (ht_entries t') h v \<longleftrightarrow> holds (ht_entries t) h v)"
proof -
  let ?n = "length (ht_entries t)"
  have cap1: "cap_ok (ht_entries t)" and le: "unat (ht_size t) \<le> ?n"
    using inv probe_invD(1) by (auto simp: ht_inv_def)
  show ?thesis
  proof (cases "7 * ?n < 10 * unat (ht_size t)")
    case False
    then have "unat (ht_size t) < ?n"
      using cap_ok_pos [OF cap1] by linarith
    with False inv nt show ?thesis
      by (auto simp: growIfNeeded_def)
  next
    case True
    obtain k where k: "?n = 2 ^ k" "k \<le> 32"
      using cap1 by (auto simp: cap_ok_def)
    have "k \<noteq> 32"
      using k cap by auto
    with k have "Suc k \<in> {0..32}" "?n * 2 = 2 ^ Suc k"
      by auto
    then have "cap_ok (replicate (?n * 2) empty_Entry)"
      unfolding cap_ok_def length_replicate by blast
    from rehash_correct [OF inv this] le True cap_ok_pos [OF cap1] show ?thesis
      by (auto simp: growIfNeeded_def)
  qed
qed

text \<open>Overwriting the value of a live slot.\<close>

lemma holds_update:
  assumes "p < length es"
  shows "holds (es[p := e]) h w \<longleftrightarrow> (live e \<and> h = he_hash e \<and> w = he_entryId e) \<or>
     (\<exists>q < length es. q \<noteq> p \<and> live (es ! q) \<and> he_hash (es ! q) = h \<and> he_entryId (es ! q) = w)"
proof -
  have "holds (es[p := e]) h w \<longleftrightarrow> (\<exists>q < length es. live (es[p := e] ! q) \<and>
      he_hash (es[p := e] ! q) = h \<and> he_entryId (es[p := e] ! q) = w)"
    by (simp add: holds_nth)
  also have "\<dots> \<longleftrightarrow> (\<exists>q < length es. (q = p \<and> live e \<and> he_hash e = h \<and> he_entryId e = w) \<or>
      (q \<noteq> p \<and> live (es ! q) \<and> he_hash (es ! q) = h \<and> he_entryId (es ! q) = w))"
  proof (intro ex_cong1 conj_cong refl)
    fix q
    show "(live (es[p := e] ! q) \<and> he_hash (es[p := e] ! q) = h \<and> he_entryId (es[p := e] ! q) = w) \<longleftrightarrow>
      (q = p \<and> live e \<and> he_hash e = h \<and> he_entryId e = w) \<or>
      (q \<noteq> p \<and> live (es ! q) \<and> he_hash (es ! q) = h \<and> he_entryId (es ! q) = w)"
      using assms by (cases "q = p") simp_all
  qed
  finally show ?thesis
    using assms by auto
qed

lemma overwrite_correct:
  fixes es :: "Entry list" and v :: EntryID
  assumes inv: "probe_inv es" and p: "p < length es" "live (es ! p)"
  defines "es' \<equiv> es[p := (es ! p)\<lparr>he_entryId := v\<rparr>]"
  shows "probe_inv es'" "no_tombstones es \<Longrightarrow> no_tombstones es'"
    "live_slots es' = live_slots es"
    "holds es' h w \<longleftrightarrow> (if h = he_hash (es ! p) then w = v else holds es h w)"
proof -
  let ?e = "(es ! p)\<lparr>he_entryId := v\<rparr>"
  have le: "live ?e"
    using p by (simp add: live_def)
  obtain d where d: "unat (he_probe (es ! p)) < length es" "d < length es" "p = slot_at es (he_hash (es ! p)) d"
    "path_ok es (he_hash (es ! p)) d" "d \<le> unat (he_probe (es ! p))"
    using probe_invD(2) [OF inv p] by (auto simp: placed_ok_def)
  show "probe_inv es'"
    unfolding es'_def
    using d probe_invD(3) [OF inv _ p(1) _ p(2)] by (intro probe_inv_update [OF inv le p(1)]) auto
  show "no_tombstones es \<Longrightarrow> no_tombstones es'"
    unfolding es'_def using le by (simp add: no_tombstones_update)
  show "live_slots es' = live_slots es"
    unfolding es'_def using p le by (subst live_slots_update) (auto simp: live_slots_def)
  have uniq: "q = p" if "q < length es" "live (es ! q)" "he_hash (es ! q) = he_hash (es ! p)" for q
    using probe_invD(3) [OF inv that(1) p(1) that(2) p(2)] that(3) .
  show "holds es' h w \<longleftrightarrow> (if h = he_hash (es ! p) then w = v else holds es h w)"
    unfolding es'_def holds_update [OF p(1)] using le uniq by (auto simp: holds_nth)
qed

lemma ht_insert_spec:
  assumes inv: "ht_inv t" and nt: "no_tombstones (ht_entries t)" and cap: "length (ht_entries t) \<le> 2 ^ 31"
  shows "\<exists>t'. ht_insert t key v = Some (Inr t') \<and> ht_inv t' \<and> no_tombstones (ht_entries t') \<and>
    (\<forall>h w. holds (ht_entries t') h w \<longleftrightarrow> (if h = hashKey key then w = v else holds (ht_entries t) h w))"
proof -
  from growIfNeeded_correct [OF assms] obtain t1 where grow: "growIfNeeded t = Some (Inr t1)"
    and inv1: "ht_inv t1" and nt1: "no_tombstones (ht_entries t1)"
    and room: "unat (ht_size t1) < length (ht_entries t1)"
    and same: "\<And>h w. holds (ht_entries t1) h w \<longleftrightarrow> holds (ht_entries t) h w"
    by blast
  let ?es = "ht_entries t1" and ?h = "hashKey key" and ?sz = "ht_size t1"
  let ?e = "\<lparr>he_hash = ?h, he_entryId = v, he_probe = 0, he_occupied = True, he_tombstone = False\<rparr>"
  have pinv: "probe_inv ?es" and sz: "unat ?sz = card (live_slots ?es)"
    using inv1 by (simp_all add: ht_inv_def count_live_slots)
  have le: "live ?e"
    by (simp add: live_def)
  show ?thesis
  proof (cases "\<exists>w. holds ?es ?h w")
    case True
    then obtain p where p: "p < length ?es" "live (?es ! p)" "he_hash (?es ! p) = ?h"
      by (auto simp: holds_nth)
    note ow = overwrite_correct [OF pinv p(1,2), where v = v]
    have "ht_insert t key v = Some (Inr \<lparr>ht_entries = ?es[p := (?es ! p)\<lparr>he_entryId := v\<rparr>], ht_size = ?sz\<rparr>)"
      using insert_loop_hit [OF pinv nt1 p(1,2), of ?e v ?sz] p(3) by (simp add: ht_insert_def grow)
    with ow nt1 sz p(3) same show ?thesis
      by (simp add: ht_inv_def count_live_slots)
  next
    case False
    obtain f where pre: "place_pre ?es (idealSlot ?es ?h) ?e 0 f"
      using place_pre_fresh [OF pinv nt1, of ?e] le room sz False by auto
    let ?s = "(idealSlot ?es ?h + f) mod length ?es"
    from rehash_loop_place [OF pre, of ?sz] insert_loop_place [OF pre, of ?h v ?sz] obtain es' where
      ins: "insert_loop ?h v ?es (idealSlot ?es ?h) ?e ?sz = Some (Inr (es', ?sz + 1))"
      and post: "place_post ?es ?s ?e es'"
      by auto
    have "?s \<notin> live_slots ?es"
      using pre by (auto simp: place_pre_def live_slots_def)
    with post sz have "card (live_slots es') = Suc (unat ?sz)"
      by (simp add: place_post_def)
    moreover have "unat ?sz < 2 ^ 32"
      using room cap_ok_pos [OF probe_invD(1) [OF pinv]] by linarith
    then have "unat (?sz + 1) = Suc (unat ?sz)"
      by (simp add: unat_word_ariths)
    moreover have "ht_insert t key v = Some (Inr \<lparr>ht_entries = es', ht_size = ?sz + 1\<rparr>)"
      using ins by (simp add: ht_insert_def grow)
    ultimately show ?thesis
      using post same False by (auto simp: place_post_def ht_inv_def count_live_slots)
  qed
qed

lemma tombstone_correct:
  fixes es :: "Entry list"
  assumes inv: "probe_inv es" and p: "p < length es" "live (es ! p)"
  defines "es' \<equiv> es[p := (es ! p)\<lparr>he_tombstone := True, he_occupied := False\<rparr>]"
  shows "probe_inv es'" "live_slots es' = live_slots es - {p}"
    "holds es' h w \<longleftrightarrow> h \<noteq> he_hash (es ! p) \<and> holds es h w"
proof -
  let ?e = "(es ! p)\<lparr>he_tombstone := True, he_occupied := False\<rparr>"
  have ue: "used ?e" and le: "\<not> live ?e"
    by (simp_all add: used_def live_def)
  have nth: "es' ! q = (if q = p then ?e else es ! q)" for q
    using p(1) by (auto simp: es'_def nth_list_update)
  have len: "length es' = length es" "slot_at es' = slot_at es"
    by (simp_all add: es'_def fun_eq_iff)
  have path: "path_ok es h d \<Longrightarrow> path_ok es' h d" for h d
    unfolding es'_def by (rule path_ok_update [OF _ ue]) simp_all
  have uniq: "q = p" if "q < length es" "live (es ! q)" "he_hash (es ! q) = he_hash (es ! p)" for q
    using probe_invD(3) [OF inv that(1) p(1) that(2) p(2)] that(3) .
  have placed: "placed_ok es' q" if q: "q < length es" "q \<noteq> p" "live (es ! q)" for q
  proof -
    obtain d where "unat (he_probe (es ! q)) < length es" "d < length es" "q = slot_at es (he_hash (es ! q)) d"
      "path_ok es (he_hash (es ! q)) d" "d \<le> unat (he_probe (es ! q))"
      using probe_invD(2) [OF inv q(1,3)] by (auto simp: placed_ok_def)
    with q path show ?thesis
      by (auto simp: placed_ok_def nth len intro!: bexI [of _ d])
  qed
  show "probe_inv es'"
    unfolding probe_inv_def
  proof (intro conjI ballI impI)
    show "cap_ok es'"
      using probe_invD(1) [OF inv] by (simp add: es'_def)
    fix q
    assume "q \<in> {0..<length es'}" "live (es' ! q)"
    then show "placed_ok es' q"
      using placed [of q] le by (auto simp: nth len split: if_splits)
  next
    fix q r
    assume "q \<in> {0..<length es'}" "r \<in> {0..<length es'}"
      "live (es' ! q) \<and> live (es' ! r) \<and> he_hash (es' ! q) = he_hash (es' ! r)"
    then show "q = r"
      using probe_invD(3) [OF inv, of q r] le by (auto simp: nth len split: if_splits)
  qed
  show "live_slots es' = live_slots es - {p}"
    using le by (auto simp: live_slots_def nth len split: if_splits)
  show "holds es' h w \<longleftrightarrow> h \<noteq> he_hash (es ! p) \<and> holds es h w"
    unfolding es'_def holds_update [OF p(1)] using le uniq by (auto simp: holds_nth)
qed

lemma ht_remove_spec:
  assumes inv: "ht_inv t"
  shows "\<exists>b t'. ht_remove t key = Inr (b, t') \<and> ht_inv t' \<and>
     b = (\<exists>v. holds (ht_entries t) (hashKey key) v) \<and>
     (\<forall>h w. holds (ht_entries t') h w \<longleftrightarrow> h \<noteq> hashKey key \<and> holds (ht_entries t) h w)"
proof -
  let ?es = "ht_entries t" and ?h = "hashKey key"
  have pinv: "probe_inv ?es" and sz: "unat (ht_size t) = card (live_slots ?es)"
    using inv by (simp_all add: ht_inv_def count_live_slots)
  show ?thesis
  proof (cases "\<exists>v. holds ?es ?h v")
    case True
    then obtain p where p: "p < length ?es" "live (?es ! p)" "he_hash (?es ! p) = ?h"
      by (auto simp: holds_nth)
    note ts = tombstone_correct [OF pinv p(1,2)]
    have "p \<in> live_slots ?es"
      using p by (simp add: live_slots_def)
    then have "0 < card (live_slots ?es)"
      by (auto simp: card_gt_0_iff)
    then have "ht_size t \<noteq> 0"
      using sz by auto
    then have "unat (ht_size t - 1) = unat (ht_size t) - 1"
      by (rule unat_minus_one)
    with ts sz \<open>p \<in> live_slots ?es\<close> have "unat (ht_size t - 1) =
        card (live_slots (?es[p := (?es ! p)\<lparr>he_tombstone := True, he_occupied := False\<rparr>]))"
      by simp
    with find_loop_hit [OF pinv p(1,2)] ts p(3) True show ?thesis
      by (auto simp: ht_remove_def Let_def ht_inv_def count_live_slots)
  next
    case False
    then have "\<And>c. c \<in> set ?es \<Longrightarrow> live c \<Longrightarrow> he_hash c \<noteq> ?h"
      by (auto simp: holds_def)
    then have "find_loop ?es ?h (idealSlot ?es ?h) 0 = Inr None"
      using find_loop_miss [OF probe_invD(1) [OF pinv], of ?h "idealSlot ?es ?h" 0]
      by (simp add: idealSlot_slot_at probe_invD(1) [OF pinv])
    with inv False show ?thesis
      by (auto simp: ht_remove_def Let_def)
  qed
qed

section \<open>Properties\<close>

text \<open>A run of insertions.\<close>

fun ht_insert_all :: "HashTable \<Rightarrow> (string \<times> EntryID) list \<Rightarrow> HashTable cpp option" where
  "ht_insert_all t [] = Some (Inr t)"
| "ht_insert_all t ((k, v) # kvs) =
     (case ht_insert t k v of
        None \<Rightarrow> None
      | Some (Inl a) \<Rightarrow> Some (Inl a)
      | Some (Inr t') \<Rightarrow> ht_insert_all t' kvs)"

lemma ht_find_cases:
  assumes "probe_inv (ht_entries t)"
  obtains v where "ht_find t k = Inr (Some v)" "holds (ht_entries t) (hashKey k) v"
  | "ht_find t k = Inr None" "\<And>v. \<not> holds (ht_entries t) (hashKey k) v"
  using ht_find_Some_iff [OF assms] by metis

lemma ht_find_eq:
  assumes "probe_inv (ht_entries t)" "probe_inv (ht_entries t')"
    "\<And>w. holds (ht_entries t) (hashKey k) w \<longleftrightarrow> holds (ht_entries t') (hashKey k) w"
  shows "ht_find t k = ht_find t' k"
  by (rule ht_find_cases [OF assms(2), of k]) (use ht_find_Some_iff [OF assms(1)] assms(3) in auto)

text \<open>C3: insertion into a Robin Hood table that satisfies the probe invariant and holds no
  tombstone returns, keeps the invariant, and afterwards \<^verbatim>\<open>find\<close> yields the new value for
  every key with the inserted key's hash and what it yielded before for every other key.\<close>

theorem ht_insert_find:
  assumes "ht_inv t" "no_tombstones (ht_entries t)" "length (ht_entries t) \<le> 2 ^ 31"
  shows "\<exists>t'. ht_insert t key v = Some (Inr t') \<and> ht_inv t' \<and> no_tombstones (ht_entries t') \<and>
    (\<forall>k. ht_find t' k = (if hashKey k = hashKey key then Inr (Some v) else ht_find t k))"
proof -
  from ht_insert_spec [OF assms, of key v] obtain t' where t': "ht_insert t key v = Some (Inr t')"
    "ht_inv t'" "no_tombstones (ht_entries t')"
    and holds: "\<And>h w. holds (ht_entries t') h w \<longleftrightarrow>
      (if h = hashKey key then w = v else holds (ht_entries t) h w)"
    by blast
  have inv: "probe_inv (ht_entries t')" "probe_inv (ht_entries t)"
    using t'(2) assms(1) by (auto simp: ht_inv_def)
  have "ht_find t' k = (if hashKey k = hashKey key then Inr (Some v) else ht_find t k)" for k
    using ht_find_Some_iff(1) [OF inv(1)] ht_find_eq [OF inv, of k] holds by auto
  with t' show ?thesis by blast
qed

lemma newHashTable_16: "ht_inv (newHashTable 16)" "no_tombstones (ht_entries (newHashTable 16))"
proof -
  show "ht_inv (newHashTable 16)"
    by (auto simp: ht_inv_def newHashTable_def no_tombstones_replicate filter_replicate empty_Entry_def
        live_def probe_inv_def cap_ok_def intro!: bexI [of _ 4])
  show "no_tombstones (ht_entries (newHashTable 16))"
    by (simp add: newHashTable_def no_tombstones_replicate)
qed

theorem ht_insert_find_witness:
  "\<exists>t'. ht_insert (newHashTable 16) ''a'' 7 = Some (Inr t') \<and> ht_find t' ''a'' = Inr (Some 7)"
  using ht_insert_find [OF newHashTable_16, of "''a''" 7] by (auto simp: newHashTable_def)

text \<open>C5: removal returns whether the key's hash was stored, keeps the probe invariant, and
  afterwards \<^verbatim>\<open>find\<close> fails for every key with that hash and is unchanged for every other key.\<close>

theorem ht_remove_find:
  assumes "ht_inv t"
  shows "\<exists>b t'. ht_remove t key = Inr (b, t') \<and> ht_inv t' \<and> ht_contains t key = Inr b \<and>
    (\<forall>k. ht_find t' k = (if hashKey k = hashKey key then Inr None else ht_find t k))"
proof -
  from ht_remove_spec [OF assms, of key] obtain b t' where t': "ht_remove t key = Inr (b, t')" "ht_inv t'"
    and b: "b = (\<exists>v. holds (ht_entries t) (hashKey key) v)"
    and holds: "\<And>h w. holds (ht_entries t') h w \<longleftrightarrow> h \<noteq> hashKey key \<and> holds (ht_entries t) h w"
    by blast
  have inv: "probe_inv (ht_entries t')" "probe_inv (ht_entries t)"
    using t'(2) assms(1) by (auto simp: ht_inv_def)
  have "ht_contains t key = Inr b"
    by (rule ht_find_cases [OF inv(2), of key]) (auto simp: ht_contains_def b)
  moreover have "ht_find t' k = (if hashKey k = hashKey key then Inr None else ht_find t k)" for k
    using ht_find_Some_iff(2) [OF inv(1)] ht_find_eq [OF inv, of k] holds by auto
  ultimately show ?thesis
    using t' by blast
qed

theorem ht_remove_find_witness:
  "\<exists>t'. ht_remove (newHashTable 16) ''a'' = Inr (False, t') \<and> ht_find t' ''a'' = Inr None"
proof -
  have "ht_contains (newHashTable 16) ''a'' = Inr False"
    using ht_find_Some_iff(2) [of "newHashTable 16" "''a''"] newHashTable_16
    by (auto simp: ht_contains_def ht_inv_def newHashTable_def holds_Nil_entries)
  with ht_remove_find [OF newHashTable_16(1), of "''a''"] show ?thesis by auto
qed

lemma hash_values:
  "hashKey ''e'' = 12638182802509129152" "hashKey ''u'' = 12638200394695180528"
  "hashKey ''al'' = 620430255404187808" "hashKey ''n'' = 12638194897137039473"
  "hashKey ''a'' = 12638187200555641996" "hashKey ''i'' = 12638195996648667684"
  "hashKey ''ah'' = 620434653450700652"
  by code_simp+

lemmas ht_eval = ht_insert_def growIfNeeded_def idealSlot_def next_slot_def slot_mask_def size64_def
  insert_loop.simps find_loop.simps ht_find_def ht_remove_def hash_values Let_def
  ht_insert_all.simps

lemma replicate_16: "replicate 16 x = [x,x,x,x,x,x,x,x,x,x,x,x,x,x,x,x]"
  by (simp add: eval_nat_numeral)

lemma replicate_20: "replicate 20 x = [x,x,x,x,x,x,x,x,x,x,x,x,x,x,x,x,x,x,x,x]"
  by (simp add: eval_nat_numeral)

text \<open>Writing an insertion into the slot of a tombstone gives that slot a smaller probe
  length than the entries placed past it need, and \<^verbatim>\<open>find\<close> stops there: after inserting three
  keys with one ideal slot, removing the second and inserting a fourth key whose ideal slot is
  the freed one, the third key, which was never removed, is no longer found although the table
  still counts it.\<close>

theorem ht_tombstone_reuse_loses_key:
  "\<exists>t1 t2 t3. ht_insert_all (newHashTable 16) [(''e'', 1), (''u'', 2), (''al'', 3)] = Some (Inr t1) \<and>
     ht_find t1 ''al'' = Inr (Some 3) \<and> ht_remove t1 ''u'' = Inr (True, t2) \<and>
     ht_insert t2 ''n'' 4 = Some (Inr t3) \<and> ht_find t3 ''al'' = Inr None \<and> ht_size t3 = 3"
  by (simp add: ht_eval newHashTable_def replicate_16 empty_Entry_def)

text \<open>The constructor takes any capacity of at least 16, but slots are computed by masking
  with the capacity minus one; with capacity 20 only slots 0 to 3 and 16 to 19 are ever used and the probe
  cycles among four of them, so the fifth of five insertions drops the fourth key.\<close>

theorem ht_capacity_not_power_of_two:
  "\<exists>t. ht_insert_all (newHashTable 20) [(''a'', 1), (''e'', 2), (''i'', 3), (''ah'', 4), (''al'', 5)] = Some (Inr t) \<and>
     ht_find t ''ah'' = Inr None \<and> ht_size t = 4"
  by (simp add: ht_eval newHashTable_def replicate_20 empty_Entry_def)

end
