(* ===== verification/Index_BTree.thy ===== *)
theory Index_BTree
  imports VarInt Core_Types
begin

text \<open>
  \<^verbatim>\<open>src/index/BTree.cpp\<close>, instantiated as in the source at keys \<^verbatim>\<open>uint64_t\<close> and values
  \<^verbatim>\<open>IndexEntry\<close>: insertion with preventive splitting, lookup, removal, the in-order iterator
  and the binary form.

  A node owns its children, so a node is a tree value and an update in place returns the
  new node.  Vector accesses outside the bounds are undefined behaviour, and the node
  constructor reserves \<^verbatim>\<open>order - 1\<close> slots, which throws for order 0 and for orders beyond
  what can be allocated (the parameter \<open>limit\<close>).  After a failed \<^verbatim>\<open>deserialize\<close> the root
  pointer is null, hence the option type of the root.

  Shown: insertion refines insertion into the sorted list of entries, lookup agrees with
  that list, the iterator enumerates it, and the binary form decodes to the same tree.
\<close>

section \<open>State\<close>

datatype Node = Node (nd_keys: "u64 list") (nd_values: "IndexEntry list")
  (nd_children: "Node list") (nd_isLeaf: bool)

record BTree =
  bt_order :: nat
  bt_size :: nat
  bt_root :: "Node option"

text \<open>\<^verbatim>\<open>order - 1\<close> on \<^verbatim>\<open>size_t\<close>.\<close>

definition pred_order :: "nat \<Rightarrow> nat" where
  "pred_order order = (if order = 0 then 2 ^ 64 - 1 else order - 1)"

definition newNode :: "nat \<Rightarrow> nat \<Rightarrow> Node cpp" where
  "newNode limit order =
     (if order = 0 then Inl Length_error
      else if order > limit then Inl Alloc_failure
      else Inr (Node [] [] [] True))"

definition newBTree :: "nat \<Rightarrow> nat \<Rightarrow> BTree cpp" where
  "newBTree limit order =
     bind_cpp (newNode limit order) (\<lambda>r. Inr \<lparr>bt_order = order, bt_size = 0, bt_root = Some r\<rparr>)"

text \<open>\<^verbatim>\<open>while (i < node->keys.size() && key > node->keys[i]) ++i;\<close>\<close>

definition key_pos :: "u64 \<Rightarrow> u64 list \<Rightarrow> nat" where
  "key_pos key ks = length (takeWhile (\<lambda>k. key > k) ks)"

text \<open>\<^verbatim>\<open>v.insert(v.begin() + i, x)\<close> and \<^verbatim>\<open>v.erase(v.begin() + i)\<close>.\<close>

definition insert_at :: "nat \<Rightarrow> 'a \<Rightarrow> 'a list \<Rightarrow> 'a list cpp" where
  "insert_at i x xs =
     (if i > length xs then Inl Undefined_behaviour else Inr (take i xs @ x # drop i xs))"

definition erase_at :: "nat \<Rightarrow> 'a list \<Rightarrow> 'a list cpp" where
  "erase_at i xs =
     (if i \<ge> length xs then Inl Undefined_behaviour else Inr (take i xs @ drop (Suc i) xs))"

fun depth :: "Node \<Rightarrow> nat" where
  "depth (Node ks vs cs lf) = fold (\<lambda>c d. max (Suc (depth c)) d) cs 0"

section \<open>Insertion\<close>

text \<open>The two halves \<^verbatim>\<open>splitChild\<close> makes of a child: \<^verbatim>\<open>resize\<close> keeps the left one in place,
  \<^verbatim>\<open>assign\<close> fills the new right one.\<close>

definition split_left :: "nat \<Rightarrow> Node \<Rightarrow> Node" where
  "split_left mid child =
     Node (take mid (nd_keys child)) (take mid (nd_values child))
       (if nd_isLeaf child then nd_children child else take (Suc mid) (nd_children child))
       (nd_isLeaf child)"

definition split_right :: "nat \<Rightarrow> Node \<Rightarrow> Node" where
  "split_right mid child =
     Node (drop (Suc mid) (nd_keys child)) (drop (Suc mid) (nd_values child))
       (if nd_isLeaf child then [] else drop (Suc mid) (nd_children child)) (nd_isLeaf child)"

definition splitChild :: "nat \<Rightarrow> nat \<Rightarrow> Node \<Rightarrow> nat \<Rightarrow> Node cpp" where
  "splitChild limit order parent index =
     bind_cpp (vec_at (nd_children parent) index) (\<lambda>child.
     let mid = pred_order order div 2 in
     bind_cpp (newNode limit order) (\<lambda>_.
     bind_cpp (vec_at (nd_keys child) mid) (\<lambda>midKey.
     bind_cpp (vec_at (nd_values child) mid) (\<lambda>midValue.
     if \<not> nd_isLeaf child \<and> Suc mid > length (nd_children child) then Inl Undefined_behaviour
     else
       bind_cpp (insert_at index midKey (nd_keys parent)) (\<lambda>ks.
       bind_cpp (insert_at index midValue (nd_values parent)) (\<lambda>vs.
       bind_cpp (insert_at (Suc index) (split_right mid child)
                  ((nd_children parent)[index := split_left mid child])) (\<lambda>cs.
       Inr (Node ks vs cs (nd_isLeaf parent)))))))))"

text \<open>The internal-node branch of \<^verbatim>\<open>insertInternal\<close> up to the recursive call: the node after a
  possible split and the child to descend into.\<close>

definition choose_child :: "nat \<Rightarrow> nat \<Rightarrow> Node \<Rightarrow> u64 \<Rightarrow> nat \<Rightarrow> (Node \<times> nat) cpp" where
  "choose_child limit order node key i =
     bind_cpp (vec_at (nd_children node) i) (\<lambda>child.
     if length (nd_keys child) = pred_order order then
       bind_cpp (splitChild limit order node i) (\<lambda>node'.
       bind_cpp (vec_at (nd_keys node') i) (\<lambda>k.
       Inr (node', if key > k then Suc i else i)))
     else Inr (node, i))"

lemma depth_le_fold: "d \<le> fold (\<lambda>c d. max (Suc (depth c)) d) cs d"
  by (induction cs arbitrary: d) (auto, meson max.bounded_iff order_refl)

lemma depth_less: "c \<in> set cs \<Longrightarrow> depth c < fold (\<lambda>c d. max (Suc (depth c)) d) cs d"
proof (induction cs arbitrary: d)
  case (Cons a cs)
  then show ?case
    using depth_le_fold [of "max (Suc (depth a)) d" cs] by auto
qed simp

lemma depth_fold_le_iff:
  "fold (\<lambda>c d. max (Suc (depth c)) d) cs d \<le> n \<longleftrightarrow> d \<le> n \<and> (\<forall>c \<in> set cs. depth c < n)"
  by (induction cs arbitrary: d) auto

lemma depth_le_iff: "depth (Node ks vs cs lf) \<le> n \<longleftrightarrow> (\<forall>c \<in> set cs. depth c < n)"
  by (simp add: depth_fold_le_iff)

lemma depth_child: "c \<in> set (nd_children node) \<Longrightarrow> depth c < depth node"
  by (cases node) (simp add: depth_less)

declare depth.simps [simp del]

lemma depth_mono:
  "set (nd_children a) \<subseteq> set (nd_children b) \<Longrightarrow> depth a \<le> depth b"
  using depth_child [of _ b] by (cases a) (auto simp: depth_le_iff)

lemma split_children:
  "set (nd_children (split_left mid c)) \<subseteq> set (nd_children c)"
  "set (nd_children (split_right mid c)) \<subseteq> set (nd_children c)"
  by (auto simp: split_left_def split_right_def dest: in_set_takeD in_set_dropD)

lemma splitChild_children:
  "splitChild limit order node i = Inr node' \<Longrightarrow>
   i < length (nd_children node) \<and>
   set (nd_children node') \<subseteq> set (nd_children node) \<union>
     {split_left (pred_order order div 2) (nd_children node ! i),
      split_right (pred_order order div 2) (nd_children node ! i)}"
  by (auto simp: splitChild_def bind_cpp_eq_Inr vec_at_Inr_iff Let_def insert_at_def
      split: if_splits dest!: in_set_takeD in_set_dropD set_update_subset_insert [THEN subsetD])

lemma splitChild_depth:
  assumes "splitChild limit order node i = Inr node'"
  shows "depth node' \<le> depth node"
proof -
  let ?c = "nd_children node ! i" and ?mid = "pred_order order div 2"
  have c: "depth ?c < depth node"
    using splitChild_children [OF assms] by (intro depth_child) simp
  have "depth (split_left ?mid ?c) < depth node" "depth (split_right ?mid ?c) < depth node"
    using c depth_mono [OF split_children(1), of ?mid ?c]
      depth_mono [OF split_children(2), of ?mid ?c] by linarith+
  then have "depth d < depth node" if "d \<in> set (nd_children node')" for d
    using that splitChild_children [OF assms] depth_child [of d node] by blast
  then show ?thesis
    by (cases node') (simp add: depth_le_iff)
qed

lemma choose_child_depth:
  "choose_child limit order node key i = Inr (node', j) \<Longrightarrow> depth node' \<le> depth node"
  by (auto simp: choose_child_def bind_cpp_eq_Inr splitChild_depth split: if_splits)

function (sequential) insertInternal :: "nat \<Rightarrow> nat \<Rightarrow> Node \<Rightarrow> u64 \<Rightarrow> IndexEntry \<Rightarrow> Node cpp" where
  "insertInternal limit order node key v =
     (let i = key_pos key (nd_keys node) in
      if nd_isLeaf node then
        bind_cpp (insert_at i key (nd_keys node)) (\<lambda>ks.
        bind_cpp (insert_at i v (nd_values node)) (\<lambda>vs.
        Inr (Node ks vs (nd_children node) (nd_isLeaf node))))
      else
        bind_cpp (choose_child limit order node key i) (\<lambda>(node', j).
        bind_cpp (vec_at (nd_children node') j) (\<lambda>child.
        bind_cpp (insertInternal limit order child key v) (\<lambda>child'.
        Inr (Node (nd_keys node') (nd_values node') ((nd_children node')[j := child'])
          (nd_isLeaf node'))))))"
  by pat_completeness auto
termination
proof (relation "measure (\<lambda>(limit, order, node, key, v). depth node)")
  fix limit order node key v i x node' j child
  assume "choose_child limit order node key i = Inr x" "(node', j) = x"
    "vec_at (nd_children node') j = Inr child"
  then show "((limit, order, child, key, v), limit, order, node, key, v)
     \<in> measure (\<lambda>(limit, order, node, key, v). depth node)"
    using choose_child_depth [of limit order node key i node' j] depth_child [of child node']
    by (auto simp: vec_at_Inr_iff)
qed simp

declare insertInternal.simps [simp del]

definition bt_insert :: "nat \<Rightarrow> BTree \<Rightarrow> u64 \<Rightarrow> IndexEntry \<Rightarrow> BTree cpp" where
  "bt_insert limit t key v =
     (case bt_root t of
        None \<Rightarrow> Inl Undefined_behaviour
      | Some root \<Rightarrow>
          bind_cpp
            (if length (nd_keys root) = pred_order (bt_order t) then
               bind_cpp (newNode limit (bt_order t)) (\<lambda>_.
               splitChild limit (bt_order t) (Node [] [] [root] False) 0)
             else Inr root) (\<lambda>root'.
          bind_cpp (insertInternal limit (bt_order t) root' key v) (\<lambda>root''.
          Inr (t\<lparr>bt_root := Some root'', bt_size := (bt_size t + 1) mod 2 ^ 64\<rparr>))))"

section \<open>Lookup\<close>

function findInternal :: "Node \<Rightarrow> u64 \<Rightarrow> IndexEntry option cpp" where
  "findInternal node key =
     (let i = key_pos key (nd_keys node) in
      if i < length (nd_keys node) \<and> key = nd_keys node ! i then
        bind_cpp (vec_at (nd_values node) i) (\<lambda>v. Inr (Some v))
      else if nd_isLeaf node then Inr None
      else bind_cpp (vec_at (nd_children node) i) (\<lambda>child. findInternal child key))"
  by pat_completeness auto
termination
  by (relation "measure (\<lambda>(node, key). depth node)") (auto simp: vec_at_Inr_iff intro!: depth_child)

declare findInternal.simps [simp del]

definition bt_find :: "BTree \<Rightarrow> u64 \<Rightarrow> IndexEntry option cpp" where
  "bt_find t key =
     (case bt_root t of None \<Rightarrow> Inl Undefined_behaviour | Some root \<Rightarrow> findInternal root key)"

definition bt_contains :: "BTree \<Rightarrow> u64 \<Rightarrow> bool cpp" where
  "bt_contains t key = bind_cpp (bt_find t key) (\<lambda>r. Inr (r \<noteq> None))"

definition bt_clear :: "nat \<Rightarrow> BTree \<Rightarrow> BTree cpp" where
  "bt_clear limit t =
     bind_cpp (newNode limit (bt_order t)) (\<lambda>r. Inr (t\<lparr>bt_root := Some r, bt_size := 0\<rparr>))"

section \<open>Removal\<close>

text \<open>\<^verbatim>\<open>v.back()\<close>, undefined on an empty vector.\<close>

definition vec_back :: "'a list \<Rightarrow> 'a cpp" where
  "vec_back xs = (if xs = [] then Inl Undefined_behaviour else Inr (last xs))"

text \<open>The loop of \<^verbatim>\<open>getPredecessor\<close>, started at \<^verbatim>\<open>node->children[index]\<close>.\<close>

function getPredecessor :: "Node \<Rightarrow> u64 cpp" where
  "getPredecessor current =
     (if nd_isLeaf current then vec_back (nd_keys current)
      else if nd_children current = [] then Inl Undefined_behaviour
      else getPredecessor (last (nd_children current)))"
  by pat_completeness auto
termination
  by (relation "measure depth") (auto intro!: depth_child)

declare getPredecessor.simps [simp del]

definition mergeChildren :: "Node \<Rightarrow> nat \<Rightarrow> Node cpp" where
  "mergeChildren node index =
     bind_cpp (vec_at (nd_children node) index) (\<lambda>child.
     bind_cpp (vec_at (nd_children node) (Suc index)) (\<lambda>sibling.
     bind_cpp (vec_at (nd_keys node) index) (\<lambda>k.
     bind_cpp (vec_at (nd_values node) index) (\<lambda>v.
     let child' = Node (nd_keys child @ [k] @ nd_keys sibling) (nd_values child @ [v] @ nd_values sibling)
           (nd_children child @ (if nd_isLeaf child then [] else nd_children sibling))
           (nd_isLeaf child) in
     bind_cpp (erase_at index (nd_keys node)) (\<lambda>ks.
     bind_cpp (erase_at index (nd_values node)) (\<lambda>vs.
     bind_cpp (erase_at (Suc index) ((nd_children node)[index := child'])) (\<lambda>cs.
     Inr (Node ks vs cs (nd_isLeaf node)))))))))"

definition borrowFromPrev :: "Node \<Rightarrow> nat \<Rightarrow> Node cpp" where
  "borrowFromPrev node index =
     bind_cpp (vec_at (nd_children node) index) (\<lambda>child.
     bind_cpp (vec_at (nd_children node) (index - 1)) (\<lambda>sibling.
     bind_cpp (vec_at (nd_keys node) (index - 1)) (\<lambda>k.
     bind_cpp (vec_at (nd_values node) (index - 1)) (\<lambda>v.
     bind_cpp (if nd_isLeaf child then Inr (nd_children child, nd_children sibling)
               else bind_cpp (vec_back (nd_children sibling)) (\<lambda>c.
                 Inr (c # nd_children child, butlast (nd_children sibling)))) (\<lambda>(cc, sc).
     bind_cpp (vec_back (nd_keys sibling)) (\<lambda>sk.
     bind_cpp (vec_back (nd_values sibling)) (\<lambda>sv.
     Inr (Node ((nd_keys node)[index - 1 := sk]) ((nd_values node)[index - 1 := sv])
       ((nd_children node)
          [index := Node (k # nd_keys child) (v # nd_values child) cc (nd_isLeaf child),
           index - 1 := Node (butlast (nd_keys sibling)) (butlast (nd_values sibling)) sc
             (nd_isLeaf sibling)])
       (nd_isLeaf node)))))))))"

definition borrowFromNext :: "Node \<Rightarrow> nat \<Rightarrow> Node cpp" where
  "borrowFromNext node index =
     bind_cpp (vec_at (nd_children node) index) (\<lambda>child.
     bind_cpp (vec_at (nd_children node) (Suc index)) (\<lambda>sibling.
     bind_cpp (vec_at (nd_keys node) index) (\<lambda>k.
     bind_cpp (vec_at (nd_values node) index) (\<lambda>v.
     bind_cpp (if nd_isLeaf child then Inr (nd_children child, nd_children sibling)
               else bind_cpp (vec_at (nd_children sibling) 0) (\<lambda>c.
                 Inr (nd_children child @ [c], tl (nd_children sibling)))) (\<lambda>(cc, sc).
     bind_cpp (vec_at (nd_keys sibling) 0) (\<lambda>sk.
     bind_cpp (vec_at (nd_values sibling) 0) (\<lambda>sv.
     Inr (Node ((nd_keys node)[index := sk]) ((nd_values node)[index := sv])
       ((nd_children node)
          [index := Node (nd_keys child @ [k]) (nd_values child @ [v]) cc (nd_isLeaf child),
           Suc index := Node (tl (nd_keys sibling)) (tl (nd_values sibling)) sc
             (nd_isLeaf sibling)])
       (nd_isLeaf node)))))))))"

text \<open>\<open>n1\<close> is \<^verbatim>\<open>node->children.size() - 1\<close>, which wraps for no children.\<close>

definition fillChild :: "nat \<Rightarrow> Node \<Rightarrow> nat \<Rightarrow> Node cpp" where
  "fillChild order node index =
     (let minKeys = pred_order order div 2;
          cs = nd_children node;
          n1 = (if cs = [] then 2 ^ 64 - 1 else length cs - 1);
          spare = (\<lambda>j. bind_cpp (vec_at cs j) (\<lambda>s. Inr (length (nd_keys s) > minKeys))) in
      bind_cpp (if index > 0 then spare (index - 1) else Inr False) (\<lambda>fromPrev.
      if fromPrev then borrowFromPrev node index
      else bind_cpp (if index < n1 then spare (Suc index) else Inr False) (\<lambda>fromNext.
        if fromNext then borrowFromNext node index
        else if index = n1 then
          (if index = 0 then Inl Undefined_behaviour else mergeChildren node (index - 1))
        else mergeChildren node index)))"

text \<open>No helper makes the node deeper: every new child draws its children from two old ones.\<close>

lemma depth_from_grandchildren:
  assumes "a \<in> set (nd_children node)" "b \<in> set (nd_children node)"
    "set (nd_children d) \<subseteq> set (nd_children a) \<union> set (nd_children b)"
  shows "depth d < depth node"
proof -
  have "depth a < depth node" "depth b < depth node"
    using assms(1,2) by (auto intro: depth_child)
  moreover have "depth g < depth a \<or> depth g < depth b" if "g \<in> set (nd_children d)" for g
    using that assms(3) depth_child by blast
  ultimately have "\<forall>g \<in> set (nd_children d). depth g < depth node - 1"
    by fastforce
  then have "depth d \<le> depth node - 1"
    by (cases d) (simp add: depth_le_iff)
  then show ?thesis
    using \<open>depth a < depth node\<close> by simp
qed

lemma depth_le_children: "(\<And>c. c \<in> set (nd_children node') \<Longrightarrow> depth c < depth node) \<Longrightarrow> depth node' \<le> depth node"
  by (cases node') (simp add: depth_le_iff)

lemmas in_set_updD = set_update_subset_insert [THEN subsetD]

lemma in_set_tlD: "x \<in> set (tl xs) \<Longrightarrow> x \<in> set xs"
  by (cases xs) auto

lemma mergeChildren_depth:
  assumes "mergeChildren node i = Inr node'"
  shows "depth node' \<le> depth node"
proof -
  let ?c = "nd_children node ! i" and ?s = "nd_children node ! Suc i"
  have i: "?c \<in> set (nd_children node)" "?s \<in> set (nd_children node)"
    and sub: "\<forall>d \<in> set (nd_children node'). d \<in> set (nd_children node) \<or>
      set (nd_children d) \<subseteq> set (nd_children ?c) \<union> set (nd_children ?s)"
    using assms by (auto simp: mergeChildren_def bind_cpp_eq_Inr vec_at_Inr_iff erase_at_def Let_def
        split: if_splits dest!: in_set_takeD in_set_dropD in_set_updD)
  show ?thesis
    by (rule depth_le_children)
      (use sub in \<open>blast intro: depth_child depth_from_grandchildren [OF i]\<close>)
qed

lemma borrowFromPrev_depth:
  assumes "borrowFromPrev node i = Inr node'"
  shows "depth node' \<le> depth node"
proof -
  let ?c = "nd_children node ! i" and ?s = "nd_children node ! (i - 1)"
  have i: "?c \<in> set (nd_children node)" "?s \<in> set (nd_children node)"
    and sub: "\<forall>d \<in> set (nd_children node'). d \<in> set (nd_children node) \<or>
      set (nd_children d) \<subseteq> set (nd_children ?c) \<union> set (nd_children ?s)"
    using assms by (auto simp: borrowFromPrev_def bind_cpp_eq_Inr vec_at_Inr_iff vec_back_def
        split: if_splits dest!: in_set_updD in_set_butlastD)
  show ?thesis
    by (rule depth_le_children)
      (use sub in \<open>blast intro: depth_child depth_from_grandchildren [OF i]\<close>)
qed

lemma borrowFromNext_depth:
  assumes "borrowFromNext node i = Inr node'"
  shows "depth node' \<le> depth node"
proof -
  let ?c = "nd_children node ! i" and ?s = "nd_children node ! Suc i"
  have i: "?c \<in> set (nd_children node)" "?s \<in> set (nd_children node)"
    and sub: "\<forall>d \<in> set (nd_children node'). d \<in> set (nd_children node) \<or>
      set (nd_children d) \<subseteq> set (nd_children ?c) \<union> set (nd_children ?s)"
    using assms by (auto simp: borrowFromNext_def bind_cpp_eq_Inr vec_at_Inr_iff
        split: if_splits dest!: in_set_updD in_set_tlD)
  show ?thesis
    by (rule depth_le_children)
      (use sub in \<open>blast intro: depth_child depth_from_grandchildren [OF i]\<close>)
qed

lemma fillChild_depth: "fillChild order node i = Inr node' \<Longrightarrow> depth node' \<le> depth node"
  by (auto simp: fillChild_def Let_def bind_cpp_eq_Inr
      intro: mergeChildren_depth borrowFromPrev_depth borrowFromNext_depth split: if_splits)

function removeInternal :: "nat \<Rightarrow> Node \<Rightarrow> u64 \<Rightarrow> (bool \<times> Node) cpp" where
  "removeInternal order node key =
     (let i = key_pos key (nd_keys node) in
      if i < length (nd_keys node) \<and> key = nd_keys node ! i then
        if nd_isLeaf node then
          bind_cpp (erase_at i (nd_keys node)) (\<lambda>ks.
          bind_cpp (erase_at i (nd_values node)) (\<lambda>vs.
          Inr (True, Node ks vs (nd_children node) (nd_isLeaf node))))
        else
          bind_cpp (vec_at (nd_children node) i) (\<lambda>child.
          bind_cpp (getPredecessor child) (\<lambda>pr.
          bind_cpp (removeInternal order child pr) (\<lambda>(_, child').
          Inr (True, Node ((nd_keys node)[i := pr]) (nd_values node)
                      ((nd_children node)[i := child']) (nd_isLeaf node)))))
      else if nd_isLeaf node then Inr (False, node)
      else
        bind_cpp (fillChild order node i) (\<lambda>node'.
        bind_cpp (vec_at (nd_children node') i) (\<lambda>_.
        let j = (if i < length (nd_keys node') \<and> key > nd_keys node' ! i then Suc i else i) in
        bind_cpp (vec_at (nd_children node') j) (\<lambda>child.
        bind_cpp (removeInternal order child key) (\<lambda>(b, child').
        Inr (b, Node (nd_keys node') (nd_values node') ((nd_children node')[j := child'])
                  (nd_isLeaf node')))))))"
  by pat_completeness auto
termination
proof (relation "measure (\<lambda>(order, node, key). depth node)", goal_cases)
  case 1
  then show ?case by simp
next
  case (2 order node key i child pr)
  then show ?case
    by (auto simp: vec_at_Inr_iff intro!: depth_child)
next
  case (3 order node key i node' a j child)
  then have "child \<in> set (nd_children node')"
    by (auto simp: vec_at_Inr_iff)
  with fillChild_depth [OF 3(4)] depth_child show ?case
    by fastforce
qed

declare removeInternal.simps [simp del]

definition bt_remove :: "BTree \<Rightarrow> u64 \<Rightarrow> (bool \<times> BTree) cpp" where
  "bt_remove t key =
     bind_cpp (bt_contains t key) (\<lambda>b.
     if \<not> b then Inr (False, t)
     else
       (case bt_root t of
          None \<Rightarrow> Inl Undefined_behaviour
        | Some root \<Rightarrow>
            bind_cpp (removeInternal (bt_order t) root key) (\<lambda>(_, root').
            let t' = t\<lparr>bt_root := Some root', bt_size := (bt_size t + 2 ^ 64 - 1) mod 2 ^ 64\<rparr> in
            if nd_keys root' = [] \<and> \<not> nd_isLeaf root' then
              bind_cpp (vec_at (nd_children root') 0) (\<lambda>c. Inr (True, t'\<lparr>bt_root := Some c\<rparr>))
            else Inr (True, t'))))"

section \<open>Iteration\<close>

text \<open>
  The iterator's stack, top first.  Position \<open>2 * j\<close> of an internal node is its child \<open>j\<close>,
  position \<open>2 * j + 1\<close> its key \<open>j\<close>; in a leaf the position is the key index.  \<open>iter_descend\<close>
  is the loop that pushes first children; \<open>end()\<close> is the empty stack.
\<close>

type_synonym Iterator = "(Node \<times> nat) list"

function iter_descend :: "Node \<Rightarrow> Iterator \<Rightarrow> Iterator" where
  "iter_descend n stack =
     (if nd_isLeaf n \<or> nd_children n = [] then (n, 0) # stack
      else iter_descend (hd (nd_children n)) ((n, 0) # stack))"
  by pat_completeness auto
termination
  by (relation "measure (\<lambda>(n, stack). depth n)") (auto intro!: depth_child)

declare iter_descend.simps [simp del]

definition bt_begin :: "BTree \<Rightarrow> Iterator" where
  "bt_begin t = (case bt_root t of None \<Rightarrow> [] | Some root \<Rightarrow> iter_descend root [])"

definition iter_maxPos :: "Node \<Rightarrow> nat" where
  "iter_maxPos n =
     (if nd_isLeaf n then length (nd_keys n) else length (nd_children n) + length (nd_keys n))"

fun iter_advance :: "Iterator \<Rightarrow> Iterator" where
  "iter_advance [] = []"
| "iter_advance ((n, p) # stack) =
     (let p' = Suc p in
      if p' \<ge> iter_maxPos n then iter_advance stack
      else if nd_isLeaf n then (n, p') # stack
      else if even p' \<and> p' div 2 < length (nd_children n)
      then iter_descend (nd_children n ! (p' div 2)) ((n, p') # stack)
      else (n, p') # stack)"

definition iter_deref :: "Iterator \<Rightarrow> (u64 \<times> IndexEntry) cpp" where
  "iter_deref stack =
     (case stack of
        [] \<Rightarrow> Inl Undefined_behaviour
      | (n, p) # _ \<Rightarrow>
          let keyIdx = (if nd_isLeaf n then p else p div 2) in
          bind_cpp (vec_at (nd_keys n) keyIdx) (\<lambda>k.
          bind_cpp (vec_at (nd_values n) keyIdx) (\<lambda>v. Inr (k, v))))"

text \<open>\<^verbatim>\<open>for (auto it = begin(); it != end(); ++it) out.push_back(*it);\<close> with at most \<open>fuel\<close>
  steps; \<open>None\<close> when they do not suffice.\<close>

fun iter_collect :: "nat \<Rightarrow> Iterator \<Rightarrow> (u64 \<times> IndexEntry) list cpp option" where
  "iter_collect fuel [] = Some (Inr [])"
| "iter_collect 0 (f # stack) = None"
| "iter_collect (Suc fuel) (f # stack) =
     (case iter_deref (f # stack) of
        Inl a \<Rightarrow> Some (Inl a)
      | Inr kv \<Rightarrow> map_option (\<lambda>r. bind_cpp r (\<lambda>kvs. Inr (kv # kvs)))
                  (iter_collect fuel (iter_advance (f # stack))))"

section \<open>The binary form\<close>

fun serialize_kvs :: "u64 list \<Rightarrow> IndexEntry list \<Rightarrow> byte list cpp" where
  "serialize_kvs [] vs = Inr []"
| "serialize_kvs (k # ks) [] = Inl Undefined_behaviour"
| "serialize_kvs (k # ks) (v # vs) =
     bind_cpp (serialize_kvs ks vs) (\<lambda>rest.
     Inr (encode k @ encode (ie_entryId v) @ encode (ie_offset v) @ encode (ie_size v) @
          ie_checksum v @ rest))"

fun serializeNode :: "Node \<Rightarrow> byte list cpp" and serializeNodes :: "Node list \<Rightarrow> byte list cpp" where
  "serializeNode (Node ks vs cs lf) =
     bind_cpp (serialize_kvs ks vs) (\<lambda>kvs.
     bind_cpp (if lf then Inr [] else serializeNodes cs) (\<lambda>rest.
     Inr (encode (size64 (length ks)) @ encode (if lf then 1 else 0) @ kvs @ rest)))"
| "serializeNodes [] = Inr []"
| "serializeNodes (c # cs) =
     bind_cpp (serializeNode c) (\<lambda>b. bind_cpp (serializeNodes cs) (\<lambda>bs. Inr (b @ bs)))"

definition bt_serialize :: "BTree \<Rightarrow> byte list cpp" where
  "bt_serialize t =
     (case bt_root t of
        None \<Rightarrow> Inl Undefined_behaviour
      | Some root \<Rightarrow>
          bind_cpp (serializeNode root) (\<lambda>b.
          Inr (encode (size64 (bt_order t)) @ encode (size64 (bt_size t)) @ b)))"

text \<open>The checksum is copied only when 32 bytes are left.\<close>

definition read_checksum :: "byte list \<Rightarrow> nat \<Rightarrow> ChecksumValue \<times> nat" where
  "read_checksum data off =
     (if off + 32 \<le> length data then (take 32 (drop off data), off + 32) else (zero_checksum, off))"

fun deserialize_kvs ::
  "byte list \<Rightarrow> nat \<Rightarrow> nat \<Rightarrow> (u64 list \<times> IndexEntry list \<times> nat) rd" where
  "deserialize_kvs data 0 off = Inr (Some ([], [], off))"
| "deserialize_kvs data (Suc n) off =
     bind_rd (read_varint data off) (\<lambda>(key, off).
     bind_rd (read_varint data off) (\<lambda>(eid, off).
     bind_rd (read_varint data off) (\<lambda>(ofs, off).
     bind_rd (read_varint data off) (\<lambda>(sz, off).
     let (sum, off) = read_checksum data off in
     bind_rd (deserialize_kvs data n off) (\<lambda>(ks, vs, off).
     Inr (Some (key # ks,
       \<lparr>ie_entryId = eid, ie_offset = ofs, ie_size = sz, ie_checksum = sum\<rparr> # vs, off)))))))"

text \<open>
  \<open>deserializeNode stack\<close> may nest \<open>stack\<close> calls; deeper recursion exhausts the stack.
  \<open>Inr None\<close> is the null pointer.  The second component of the result is the span after
  the node.
\<close>

fun deserializeNode :: "nat \<Rightarrow> nat \<Rightarrow> nat \<Rightarrow> byte list \<Rightarrow> (Node \<times> byte list) rd"
  and deserializeNodes :: "nat \<Rightarrow> nat \<Rightarrow> nat \<Rightarrow> nat \<Rightarrow> byte list \<Rightarrow> (Node list \<times> byte list) rd" where
  "deserializeNode 0 limit order data = Inl Stack_overflow"
| "deserializeNode (Suc stack) limit order data =
     bind_rd (read_varint data 0) (\<lambda>(numKeys, off).
     bind_rd (read_varint data off) (\<lambda>(lf, off).
     case newNode limit order of
       Inl a \<Rightarrow> Inl a
     | Inr _ \<Rightarrow>
       bind_rd (deserialize_kvs data (unat numKeys) off) (\<lambda>(ks, vs, off).
       if lf \<noteq> 0 then Inr (Some (Node ks vs [] True, drop off data))
       else
         bind_rd (deserializeNodes stack limit order (Suc (unat numKeys)) (drop off data)) (\<lambda>(cs, rest).
         Inr (Some (Node ks vs cs False, rest))))))"
| "deserializeNodes stack limit order 0 data = Inr (Some ([], data))"
| "deserializeNodes stack limit order (Suc n) data =
     bind_rd (deserializeNode stack limit order data) (\<lambda>(c, data).
     bind_rd (deserializeNodes stack limit order n data) (\<lambda>(cs, data).
     Inr (Some (c # cs, data))))"

definition bt_deserialize :: "nat \<Rightarrow> nat \<Rightarrow> BTree \<Rightarrow> byte list \<Rightarrow> (ErrorCode \<times> BTree) cpp" where
  "bt_deserialize stack limit t data =
     else_ret (read_varint data 0) (CorruptIndex, t) (\<lambda>(order, off).
     let t = t\<lparr>bt_order := unat order\<rparr> in
     else_ret (read_varint data off) (CorruptIndex, t) (\<lambda>(sz, off).
     let t = t\<lparr>bt_size := unat sz\<rparr> in
     bind_cpp (deserializeNode stack limit (bt_order t) (drop off data)) (\<lambda>r.
     Inr (Success, t\<lparr>bt_root := map_option fst r\<rparr>))))"

section \<open>The list a tree stands for\<close>

fun interleave :: "'a list list \<Rightarrow> 'a list \<Rightarrow> 'a list" where
  "interleave [] xs = xs"
| "interleave (c # cs) [] = c @ concat cs"
| "interleave (c # cs) (x # xs) = c @ x # interleave cs xs"

fun inorder :: "Node \<Rightarrow> (u64 \<times> IndexEntry) list" where
  "inorder (Node ks vs cs lf) =
     (if lf then zip ks vs else interleave (map inorder cs) (zip ks vs))"

definition ins :: "u64 \<Rightarrow> IndexEntry \<Rightarrow> (u64 \<times> IndexEntry) list \<Rightarrow> (u64 \<times> IndexEntry) list" where
  "ins key v xs = takeWhile (\<lambda>kv. fst kv < key) xs @ (key, v) # dropWhile (\<lambda>kv. fst kv < key) xs"

abbreviation sorted_keys :: "(u64 \<times> IndexEntry) list \<Rightarrow> bool" where
  "sorted_keys xs \<equiv> sorted (map fst xs)"

text \<open>A node of height \<open>h\<close>: parallel key and value vectors, at most \<open>order - 1\<close> of them, no
  children in a leaf, one more child than keys otherwise, all of one height and with at least
  one key.\<close>

fun node_ok :: "nat \<Rightarrow> nat \<Rightarrow> Node \<Rightarrow> bool" where
  "node_ok order h (Node ks vs cs lf) \<longleftrightarrow>
     length vs = length ks \<and> length ks < order \<and>
     (if lf then cs = [] \<and> h = 0
      else (case h of 0 \<Rightarrow> False | Suc h' \<Rightarrow>
        length cs = Suc (length ks) \<and> (\<forall>c \<in> set cs. node_ok order h' c \<and> nd_keys c \<noteq> [])))"

definition bt_inv :: "BTree \<Rightarrow> bool" where
  "bt_inv t \<longleftrightarrow>
     (case bt_root t of None \<Rightarrow> False | Some root \<Rightarrow>
        node_ok (bt_order t) (depth root) root \<and> (nd_isLeaf root \<or> nd_keys root \<noteq> []) \<and> sorted_keys (inorder root) \<and>
        bt_size t = length (inorder root))"

definition bt_list :: "BTree \<Rightarrow> (u64 \<times> IndexEntry) list" where
  "bt_list t = (case bt_root t of None \<Rightarrow> [] | Some root \<Rightarrow> inorder root)"

definition ipre :: "'a list list \<Rightarrow> 'a list \<Rightarrow> 'a list" where
  "ipre cs xs = concat (map2 (\<lambda>c x. c @ [x]) cs xs)"

definition ipost :: "'a list \<Rightarrow> 'a list list \<Rightarrow> 'a list" where
  "ipost xs cs = concat (map2 (\<lambda>x c. x # c) xs cs)"

lemma interleave_append:
  "length A = length xs \<Longrightarrow> interleave (A @ B) (xs @ ys) = ipre A xs @ interleave B ys"
  by (induction A xs rule: list_induct2) (auto simp: ipre_def)

lemma interleave_Cons: "length D = length ys \<Longrightarrow> interleave (c # D) ys = c @ ipost ys D"
proof (induction D ys arbitrary: c rule: list_induct2)
  case Nil
  then show ?case by (simp add: ipost_def)
next
  case (Cons d D y ys)
  then show ?case by (simp add: ipost_def)
qed

lemma interleave_cut:
  "length A = Suc (length xs) \<Longrightarrow>
   interleave (A @ B) (xs @ m # ys) = interleave A xs @ m # interleave B ys"
proof (induction xs arbitrary: A)
  case Nil
  then obtain a where "A = [a]" by (auto simp: length_Suc_conv)
  then show ?case by simp
next
  case (Cons x xs)
  then obtain a A' where "A = a # A'" "length A' = Suc (length xs)" by (auto simp: length_Suc_conv)
  with Cons show ?case by simp
qed

lemma interleave_at:
  assumes "length cs = Suc (length xs)" "i < length cs"
  shows "interleave cs xs = ipre (take i cs) (take i xs) @ cs ! i @ ipost (drop i xs) (drop (Suc i) cs)"
proof -
  have "interleave cs xs = interleave (take i cs @ cs ! i # drop (Suc i) cs) (take i xs @ drop i xs)"
    using assms by (simp flip: id_take_nth_drop)
  also have "\<dots> = ipre (take i cs) (take i xs) @ cs ! i @ ipost (drop i xs) (drop (Suc i) cs)"
    using assms by (subst interleave_append) (auto simp: interleave_Cons)
  finally show ?thesis .
qed

lemma interleave_update:
  assumes "length cs = Suc (length xs)" "i < length cs"
  shows "interleave (cs[i := c]) xs = ipre (take i cs) (take i xs) @ c @ ipost (drop i xs) (drop (Suc i) cs)"
  using interleave_at [of "cs[i := c]" xs i] assms by simp

lemma ipre_eq_Nil [simp]: "ipre [] [] = []"
  by (simp add: ipre_def)

lemma ipost_hd: "length cs = length xs \<Longrightarrow> xs \<noteq> [] \<Longrightarrow> ipost xs cs \<noteq> [] \<and> hd (ipost xs cs) = hd xs"
  by (cases xs; cases cs) (auto simp: ipost_def)

lemma ipre_last:
  assumes "length cs = length xs" "xs \<noteq> []"
  shows "\<exists>l. ipre cs xs = l @ [last xs]"
  using assms by (induction cs xs rule: list_induct2) (auto simp: ipre_def)

lemma ins_mid:
  assumes "\<forall>x \<in> set A. fst x < key" "B = [] \<or> \<not> fst (hd B) < key"
  shows "ins key v (A @ C @ B) = A @ ins key v C @ B"
proof (cases "\<forall>x \<in> set C. fst x < key")
  case True
  then have "takeWhile (\<lambda>kv. fst kv < key) (C @ B) = C" "dropWhile (\<lambda>kv. fst kv < key) (C @ B) = B"
    using assms(2) by (cases B; simp)+
  with True assms(1) show ?thesis
    by (simp add: ins_def takeWhile_append2 dropWhile_append2 takeWhile_eq_all_conv [THEN iffD2] dropWhile_eq_Nil_conv [THEN iffD2])
next
  case False
  then show ?thesis
    using assms(1) by (auto simp: ins_def takeWhile_append1 dropWhile_append1)
qed

lemma sorted_ins: "sorted_keys xs \<Longrightarrow> sorted_keys (ins key v xs)"
proof (induction xs)
  case Nil
  then show ?case by (simp add: ins_def)
next
  case (Cons x xs)
  then show ?case
    by (auto simp: ins_def not_less dest: set_takeWhileD set_dropWhileD)
qed

lemma length_ins [simp]: "length (ins key v xs) = Suc (length xs)"
  by (induction xs) (auto simp: ins_def)

lemma node_ok_depth: "node_ok order h node \<Longrightarrow> depth node = h"
proof (induction h arbitrary: node)
  case 0
  then show ?case by (cases node) (auto simp: depth.simps split: if_splits)
next
  case (Suc h)
  obtain ks vs cs lf where n: "node = Node ks vs cs lf" by (cases node)
  with Suc.prems have cs: "cs \<noteq> []" "\<forall>c \<in> set cs. depth c = h"
    using Suc.IH by (auto split: if_splits)
  then have "depth node \<le> Suc h" "h < depth node"
    using depth_child [of "hd cs" node] by (auto simp: n depth_le_iff)
  then show ?case by simp
qed

section \<open>Insertion refines insertion into the sorted list\<close>

lemma key_pos_le: "key_pos key ks \<le> length ks"
  by (simp add: key_pos_def length_takeWhile_le)

lemma key_pos_less: "a < key_pos key ks \<Longrightarrow> ks ! a < key"
  by (metis key_pos_def nth_mem set_takeWhileD takeWhile_nth)

lemma key_pos_at: "key_pos key ks < length ks \<Longrightarrow> key \<le> ks ! key_pos key ks"
  using nth_length_takeWhile [of "\<lambda>k. k < key" ks] by (simp add: key_pos_def not_less)

text \<open>\<open>bracket key ks j\<close>: position \<open>j\<close> separates the keys below \<open>key\<close> from the others.\<close>

definition bracket :: "u64 \<Rightarrow> u64 list \<Rightarrow> nat \<Rightarrow> bool" where
  "bracket key ks j \<longleftrightarrow> j \<le> length ks \<and> (\<forall>a < j. ks ! a < key) \<and> (j < length ks \<longrightarrow> key \<le> ks ! j)"

lemma bracket_key_pos: "bracket key ks (key_pos key ks)"
  by (simp add: bracket_def key_pos_le key_pos_less key_pos_at)

lemma ins_zip:
  fixes key
  assumes "length vs = length ks"
  defines "i \<equiv> key_pos key ks"
  shows "ins key v (zip ks vs) = zip (take i ks @ key # drop i ks) (take i vs @ v # drop i vs)"
proof -
  have "takeWhile (\<lambda>kv. fst kv < key) (zip ks vs) = take i (zip ks vs)"
    "dropWhile (\<lambda>kv. fst kv < key) (zip ks vs) = drop i (zip ks vs)"
    using assms(1) unfolding i_def key_pos_def
    by (induction vs ks rule: list_induct2) auto
  then show ?thesis
    using assms by (simp add: ins_def take_zip drop_zip key_pos_le)
qed

lemma sorted_ipre:
  assumes "length cs = length xs" "sorted_keys (ipre cs xs)" "xs \<noteq> []" "fst (last xs) < key" "x \<in> set (ipre cs xs)"
  shows "fst x < key"
proof -
  obtain l where "ipre cs xs = l @ [last xs]"
    using ipre_last assms(1,3) by blast
  with assms show ?thesis
    by (auto simp: sorted_append)
qed

lemma bracket_pre_post:
  assumes "length cs = Suc (length ks)" "length vs = length ks" "bracket key ks j"
    "sorted_keys (interleave cs (zip ks vs))"
  shows "\<forall>x \<in> set (ipre (take j cs) (take j (zip ks vs))). fst x < key"
    and "j < length ks \<Longrightarrow> key < ks ! j \<Longrightarrow>
      \<forall>x \<in> set (ipost (drop j (zip ks vs)) (drop (Suc j) cs)). key < fst x"
proof -
  let ?x = "zip ks vs"
  let ?A = "ipre (take j cs) (take j ?x)" and ?B = "ipost (drop j ?x) (drop (Suc j) cs)"
  have j: "j < length cs" "length cs = Suc (length ?x)"
    using assms by (auto simp: bracket_def)
  note eq = interleave_at [OF j(2,1)]
  show "\<forall>x \<in> set ?A. fst x < key"
  proof (cases "j = 0")
    case False
    then have "take j ?x = take (j - 1) ?x @ [?x ! (j - 1)]"
      using take_Suc_conv_app_nth [of "j - 1" ?x] assms by (auto simp: bracket_def)
    then have "last (take j ?x) = ?x ! (j - 1)" "take j ?x \<noteq> []"
      by (metis last_snoc, metis snoc_eq_iff_butlast)
    moreover have "sorted_keys ?A"
      using assms(4) eq by (simp add: sorted_append)
    ultimately show ?thesis
      using sorted_ipre [of "take j cs" "take j ?x" key] False assms
      by (auto simp: bracket_def min_def)
  qed simp
  assume lt: "j < length ks" "key < ks ! j"
  then have "?B \<noteq> []" "hd ?B = ?x ! j"
    using ipost_hd [of "drop (Suc j) cs" "drop j ?x"] assms by (auto simp: hd_drop_conv_nth)
  moreover have "sorted_keys ?B"
    using assms(4) eq by (simp add: sorted_append)
  ultimately show "\<forall>x \<in> set ?B. key < fst x"
    using lt assms(2) by (cases ?B) auto
qed

lemma ins_inorder:
  assumes "length cs = Suc (length ks)" "length vs = length ks" "bracket key ks j"
    "sorted_keys (interleave cs (zip ks vs))"
  shows "interleave (cs[j := ins key v (cs ! j)]) (zip ks vs) = ins key v (interleave cs (zip ks vs))"
proof -
  let ?x = "zip ks vs"
  let ?A = "ipre (take j cs) (take j ?x)" and ?B = "ipost (drop j ?x) (drop (Suc j) cs)"
  have j: "j < length cs" "length cs = Suc (length ?x)"
    using assms by (auto simp: bracket_def)
  have "?B = [] \<or> \<not> fst (hd ?B) < key"
  proof (cases "j < length ks")
    case True
    then have "hd ?B = ?x ! j"
      using ipost_hd [of "drop (Suc j) cs" "drop j ?x"] assms by (auto simp: hd_drop_conv_nth)
    then show ?thesis
      using True assms by (auto simp: bracket_def)
  qed (use assms in \<open>simp add: ipost_def\<close>)
  with bracket_pre_post(1) [OF assms] show ?thesis
    using ins_mid [of ?A key ?B v "cs ! j"]
    by (simp add: interleave_at [OF j(2,1)] interleave_update [OF j(2,1)])
qed

text \<open>Splitting a full child keeps the list and the shape.\<close>

lemma split_inorder:
  assumes "node_ok order h c" "mid < length (nd_keys c)"
  shows "inorder c = inorder (split_left mid c) @
           (nd_keys c ! mid, nd_values c ! mid) # inorder (split_right mid c)"
proof -
  obtain ks vs cs lf where c: "c = Node ks vs cs lf" by (cases c)
  have z: "zip ks vs = take mid (zip ks vs) @ (ks ! mid, vs ! mid) # drop (Suc mid) (zip ks vs)"
    using id_take_nth_drop [of mid "zip ks vs"] assms by (simp add: c)
  show ?thesis
  proof (cases lf)
    case True
    with z show ?thesis
      by (simp add: c split_left_def split_right_def take_zip drop_zip)
  next
    case False
    then have len: "length cs = Suc (length ks)" "length vs = length ks"
      using assms by (auto simp: c split: nat.splits)
    then have "interleave (map inorder cs) (zip ks vs) =
      interleave (map inorder (take (Suc mid) cs) @ map inorder (drop (Suc mid) cs))
        (take mid (zip ks vs) @ (ks ! mid, vs ! mid) # drop (Suc mid) (zip ks vs))"
      using z by (simp flip: map_append)
    also have "\<dots> = interleave (map inorder (take (Suc mid) cs)) (take mid (zip ks vs)) @
        (ks ! mid, vs ! mid) # interleave (map inorder (drop (Suc mid) cs)) (drop (Suc mid) (zip ks vs))"
      using len assms(2) by (intro interleave_cut) (simp add: c min_def)
    finally show ?thesis
      using False by (simp add: c split_left_def split_right_def take_zip drop_zip)
  qed
qed

lemma split_ok:
  assumes "node_ok order h c" "length (nd_keys c) = order - 1" "4 \<le> order"
  defines "mid \<equiv> pred_order order div 2"
  shows "mid < length (nd_keys c)" "mid < length (nd_values c)"
    "nd_isLeaf c \<or> Suc mid \<le> length (nd_children c)"
    "node_ok order h (split_left mid c)" "node_ok order h (split_right mid c)"
    "length (nd_keys (split_left mid c)) < order - 1" "length (nd_keys (split_right mid c)) < order - 1"
    "nd_keys (split_left mid c) \<noteq> []" "nd_keys (split_right mid c) \<noteq> []"
proof -
  obtain ks vs cs lf where c: "c = Node ks vs cs lf" by (cases c)
  have mid: "mid < length ks" "Suc mid \<le> length ks"
    using assms by (auto simp: c pred_order_def)
  then show "mid < length (nd_keys c)" "mid < length (nd_values c)"
    "nd_isLeaf c \<or> Suc mid \<le> length (nd_children c)"
    using assms(1) by (auto simp: c split: if_splits nat.splits)
  show "node_ok order h (split_left mid c)"
    using assms(1) mid by (auto simp: c split_left_def split: if_splits nat.splits dest: in_set_takeD)
  show "node_ok order h (split_right mid c)"
    using assms(1) mid by (auto simp: c split_right_def split: if_splits nat.splits dest: in_set_dropD)
  show "nd_keys (split_left mid c) \<noteq> []" "nd_keys (split_right mid c) \<noteq> []"
    using assms mid by (auto simp: c split_left_def split_right_def pred_order_def)
  show "length (nd_keys (split_left mid c)) < order - 1" "length (nd_keys (split_right mid c)) < order - 1"
    using assms(2,3) mid by (auto simp: c split_left_def split_right_def)
qed

lemma splitChild_spec:
  assumes "length vs = length ks" "length cs = Suc (length ks)" "i \<le> length ks"
    "length ks < order - 1 \<or> (ks = [] \<and> 4 \<le> order)" "\<forall>c \<in> set cs. node_ok order h c \<and> nd_keys c \<noteq> []"
    "length (nd_keys (cs ! i)) = order - 1" "4 \<le> order" "order \<le> limit"
  defines "mid \<equiv> pred_order order div 2"
  defines "c \<equiv> cs ! i"
  defines "n' \<equiv> Node (take i ks @ nd_keys c ! mid # drop i ks) (take i vs @ nd_values c ! mid # drop i vs)
            (take i cs @ split_left mid c # split_right mid c # drop (Suc i) cs) False"
  shows "splitChild limit order (Node ks vs cs False) i = Inr n'"
    and "node_ok order (Suc h) n'" and "inorder n' = inorder (Node ks vs cs False)"
proof -
  have c: "node_ok order h c"
    using assms by (simp add: c_def)
  note s = split_ok [OF c assms(6) [folded c_def] assms(7), folded mid_def]
  have i: "i < length cs"
    using assms by simp
  have "drop (Suc i) (cs[i := split_left mid c]) = drop (Suc i) cs"
    "take (Suc i) (cs[i := split_left mid c]) = take i cs @ [split_left mid c]"
    using i by (auto simp: take_Suc_conv_app_nth)
  then show "splitChild limit order (Node ks vs cs False) i = Inr n'"
    using assms(1-3,7,8) s(1-3) i
    by (auto simp: splitChild_def insert_at_def newNode_def Let_def n'_def simp flip: c_def mid_def)
  show "node_ok order (Suc h) n'"
    using assms(1-5,7) s(4,5,8,9) by (auto simp: n'_def dest: in_set_takeD in_set_dropD)
  have z: "zip (take i ks @ nd_keys c ! mid # drop i ks) (take i vs @ nd_values c ! mid # drop i vs) =
      take i (zip ks vs) @ (nd_keys c ! mid, nd_values c ! mid) # drop i (zip ks vs)"
    using assms(1,3) by (simp add: take_zip drop_zip)
  have "interleave (map inorder (take i cs) @ inorder (split_left mid c) # inorder (split_right mid c) #
      map inorder (drop (Suc i) cs))
      (take i (zip ks vs) @ (nd_keys c ! mid, nd_values c ! mid) # drop i (zip ks vs)) =
    ipre (map inorder (take i cs)) (take i (zip ks vs)) @ inorder c @
      ipost (drop i (zip ks vs)) (map inorder (drop (Suc i) cs))"
    using assms(1-3) split_inorder [OF c s(1)]
    by (subst interleave_append) (auto simp: interleave_Cons)
  also have "\<dots> = interleave (map inorder cs) (zip ks vs)"
    using interleave_at [of "map inorder cs" "zip ks vs" i] assms(1-3)
    by (simp add: c_def take_map drop_map)
  finally show "inorder n' = inorder (Node ks vs cs False)"
    by (simp add: n'_def z)
qed

lemma choose_child_spec:
  assumes ok: "node_ok order (Suc h) node" "length (nd_keys node) < order - 1"
    and order: "4 \<le> order" "order \<le> limit" and i: "i = key_pos key (nd_keys node)"
  shows "\<exists>node' j. choose_child limit order node key i = Inr (node', j) \<and>
     node_ok order (Suc h) node' \<and> nd_isLeaf node' = False \<and> inorder node' = inorder node \<and>
     length (nd_keys node) \<le> length (nd_keys node') \<and>
     bracket key (nd_keys node') j \<and> length (nd_keys (nd_children node' ! j)) < order - 1"
proof -
  obtain ks vs cs where n: "node = Node ks vs cs False"
    and len: "length vs = length ks" "length cs = Suc (length ks)" "\<forall>c \<in> set cs. node_ok order h c \<and> nd_keys c \<noteq> []"
    using ok(1) by (cases node) (auto split: if_splits)
  have br: "bracket key ks i"
    using bracket_key_pos i by (simp add: n)
  then have lt: "i \<le> length ks" "i < length cs"
    using len by (auto simp: bracket_def)
  let ?c = "cs ! i" and ?mid = "pred_order order div 2"
  have c: "node_ok order h ?c" "length (nd_keys ?c) < order"
    using len lt by (simp, metis node_ok.simps nth_mem Node.exhaust_sel)
  have po: "pred_order order = order - 1"
    using order by (simp add: pred_order_def)
  show ?thesis
  proof (cases "length (nd_keys ?c) = order - 1")
    case False
    with c order have "length (nd_keys ?c) < order - 1"
      by simp
    with False br lt ok show ?thesis
      by (simp add: choose_child_def n po)
  next
    case True
    have full: "length ks < order - 1 \<or> (ks = [] \<and> 4 \<le> order)"
      using ok(2) by (simp add: n)
    note sp = splitChild_spec [OF len(1,2) lt(1) full len(3) True order]
    note s = split_ok [OF c(1) True order(1)]
    let ?k = "nd_keys ?c ! ?mid"
    let ?ks = "take i ks @ ?k # drop i ks"
    let ?cs = "take i cs @ split_left ?mid ?c # split_right ?mid ?c # drop (Suc i) cs"
    have "bracket key ?ks (if key > ?k then Suc i else i)"
      using br lt by (auto simp: bracket_def nth_append min_def less_Suc_eq)
    moreover have "nd_children (Node ?ks vs' ?cs False) ! (if key > ?k then Suc i else i) =
        (if key > ?k then split_right ?mid ?c else split_left ?mid ?c)" for vs'
      using lt by (auto simp: nth_append)
    ultimately show ?thesis
      using True lt sp s by (simp add: choose_child_def n po nth_append)
  qed
qed

lemma insertInternal_spec:
  assumes order: "4 \<le> order" "order \<le> limit"
  shows "node_ok order h node \<Longrightarrow> length (nd_keys node) < order - 1 \<Longrightarrow> sorted_keys (inorder node) \<Longrightarrow>
    \<exists>node'. insertInternal limit order node key v = Inr node' \<and> node_ok order h node' \<and>
      length (nd_keys node) \<le> length (nd_keys node') \<and> inorder node' = ins key v (inorder node)"
proof (induction h arbitrary: node)
  case 0
  obtain ks vs where n: "node = Node ks vs [] True" "length vs = length ks"
    using 0 by (cases node) (auto split: if_splits)
  have "key_pos key ks \<le> length vs"
    using key_pos_le n by metis
  with 0 n key_pos_le [of key ks] order show ?case
    by (subst insertInternal.simps) (auto simp: insert_at_def ins_zip Let_def)
next
  case (Suc h)
  obtain node' j where cc: "choose_child limit order node key (key_pos key (nd_keys node)) = Inr (node', j)"
    and ok: "node_ok order (Suc h) node'" "nd_isLeaf node' = False" "inorder node' = inorder node"
      "length (nd_keys node) \<le> length (nd_keys node')" "bracket key (nd_keys node') j" "length (nd_keys (nd_children node' ! j)) < order - 1"
    using choose_child_spec [OF Suc.prems(1,2) order refl] by blast
  obtain ks vs cs where n: "node' = Node ks vs cs False"
    and len: "length vs = length ks" "length cs = Suc (length ks)" "\<forall>c \<in> set cs. node_ok order h c \<and> nd_keys c \<noteq> []"
    using ok(1,2) by (cases node') (auto split: if_splits)
  have j: "j < length cs" "bracket key ks j"
    using ok(5) len by (auto simp: n bracket_def)
  have sorted: "sorted_keys (interleave (map inorder cs) (zip ks vs))"
    using Suc.prems(3) ok(3) by (simp add: n)
  have "sorted_keys (inorder (cs ! j))"
    using sorted interleave_at [of "map inorder cs" "zip ks vs" j] len j by (simp add: sorted_append)
  then obtain c' where c': "insertInternal limit order (cs ! j) key v = Inr c'" "node_ok order h c'"
    "inorder c' = ins key v (inorder (cs ! j))" "length (nd_keys (cs ! j)) \<le> length (nd_keys c')"
    using Suc.IH [of "cs ! j"] len j ok(6) by (auto simp: n)
  have "nd_keys c' \<noteq> []"
    using c'(4) len(3) j(1) by (metis le_zero_eq length_0_conv nth_mem)
  have "\<not> nd_isLeaf node"
    using Suc.prems(1) by (cases node) (auto split: if_splits)
  then have "insertInternal limit order node key v = Inr (Node ks vs (cs[j := c']) False)"
    using cc j c' by (subst insertInternal.simps) (simp add: n)
  moreover have "node_ok order (Suc h) (Node ks vs (cs[j := c']) False)"
    using ok(1) len c'(2) \<open>nd_keys c' \<noteq> []\<close> by (auto simp: n dest!: in_set_updD)
  moreover have "inorder (Node ks vs (cs[j := c']) False) = ins key v (inorder node)"
    using ins_inorder [of "map inorder cs" ks vs key j v] len j sorted ok(3) c'(3)
    by (simp add: n map_update)
  ultimately show ?case
    using ok(4) by (auto simp: n)
qed

lemma split_root:
  assumes "node_ok order h root" "length (nd_keys root) = order - 1" "4 \<le> order" "order \<le> limit"
  shows "\<exists>n. splitChild limit order (Node [] [] [root] False) 0 = Inr n \<and> node_ok order (Suc h) n \<and>
    length (nd_keys n) = 1 \<and> inorder n = inorder root"
proof -
  have "nd_keys root \<noteq> []"
    using assms by auto
  then show ?thesis
    using splitChild_spec [of "[]" "[]" "[root]" 0 order h limit] assms by simp
qed

text \<open>C2: insertion into a well-formed B-tree of order at least 4 returns, keeps the tree well
  formed (balanced, node sizes within the order, keys sorted, size exact) and acts on the sorted
  list of entries as insertion in front of the first key that is not smaller.\<close>

theorem bt_insert_refines:
  assumes "bt_inv t" "4 \<le> bt_order t" "bt_order t \<le> limit" "bt_size t < 2 ^ 64 - 1"
  shows "\<exists>t'. bt_insert limit t key v = Inr t' \<and> bt_inv t' \<and> bt_order t' = bt_order t \<and>
     bt_list t' = ins key v (bt_list t)"
proof -
  obtain root where root: "bt_root t = Some root" "node_ok (bt_order t) (depth root) root"
    "sorted_keys (inorder root)" "bt_size t = length (inorder root)"
    "nd_isLeaf root \<or> nd_keys root \<noteq> []"
    using assms(1) by (auto simp: bt_inv_def split: option.splits)
  have "length (nd_keys root) < bt_order t"
    using root(2) by (cases root) simp
  obtain r h where r: "(if length (nd_keys root) = pred_order (bt_order t) then
               bind_cpp (newNode limit (bt_order t)) (\<lambda>_.
               splitChild limit (bt_order t) (Node [] [] [root] False) 0)
             else Inr root) = Inr r"
    "node_ok (bt_order t) h r" "length (nd_keys r) < bt_order t - 1" "inorder r = inorder root"
    "nd_isLeaf r \<or> nd_keys r \<noteq> []"
  proof (cases "length (nd_keys root) = bt_order t - 1")
    case False
    then show ?thesis
      using that [of root] root \<open>length (nd_keys root) < bt_order t\<close> assms by (simp add: pred_order_def)
  next
    case True
    then show ?thesis
      using that assms split_root [OF root(2) True assms(2,3)] by (fastforce simp: pred_order_def newNode_def)
  qed
  obtain r' where r': "insertInternal limit (bt_order t) r key v = Inr r'" "node_ok (bt_order t) h r'"
    "inorder r' = ins key v (inorder r)" "length (nd_keys r) \<le> length (nd_keys r')"
    using insertInternal_spec [OF assms(2,3) r(2,3)] r(4) root(3) by auto
  have "bt_insert limit t key v = Inr (t\<lparr>bt_root := Some r', bt_size := bt_size t + 1\<rparr>)"
    unfolding bt_insert_def root(1) option.case r(1) using r'(1) assms(4) by simp
  moreover have "nd_isLeaf r' \<or> nd_keys r' \<noteq> []"
    using r(2,5) r'(2,4) by (cases r; cases r') (auto split: nat.splits if_splits)
  ultimately show ?thesis
    using r' r(4) root node_ok_depth [OF r'(2)]
    by (auto simp: bt_inv_def bt_list_def sorted_ins)
qed

section \<open>Lookup agrees with the list\<close>

lemma inorder_mem_at: "length vs = length ks \<Longrightarrow> i < length ks \<Longrightarrow> (lf \<or> length cs = Suc (length ks)) \<Longrightarrow>
  (ks ! i, vs ! i) \<in> set (inorder (Node ks vs cs lf))"
proof -
  assume a: "length vs = length ks" "i < length ks" "lf \<or> length cs = Suc (length ks)"
  have mem: "(ks ! i, vs ! i) \<in> set (zip ks vs)"
    using a by (auto simp: set_zip)
  have "set xs \<subseteq> set (interleave cs' xs)" for cs' and xs :: "(u64 \<times> IndexEntry) list"
    by (induction cs' xs rule: interleave.induct) auto
  with mem show ?thesis by (cases lf) auto
qed

lemma findInternal_spec:
  "node_ok order h node \<Longrightarrow> sorted_keys (inorder node) \<Longrightarrow>
   \<exists>r. findInternal node key = Inr r \<and>
     (case r of None \<Rightarrow> key \<notin> fst ` set (inorder node) | Some v \<Rightarrow> (key, v) \<in> set (inorder node))"
proof (induction h arbitrary: node)
  case 0
  obtain ks vs where n: "node = Node ks vs [] True" "length vs = length ks"
    using 0 by (cases node) (auto split: if_splits)
  let ?i = "key_pos key ks"
  have "ks ! ?i = key \<and> ?i < length ks" if mem: "key \<in> set ks"
  proof -
    obtain a where a: "a < length ks" "ks ! a = key"
      using mem by (auto simp: in_set_conv_nth)
    then have "?i \<le> a"
      using key_pos_less [of a key ks] by (metis less_irrefl not_le)
    with a 0(2) n key_pos_at [of key ks] show ?thesis
      by (auto simp: sorted_iff_nth_mono intro: antisym)
  qed
  with n inorder_mem_at [of vs ks ?i True "[]"] show ?case
    by (subst findInternal.simps) (auto simp: Let_def dest: set_zip_leftD)
next
  case (Suc h)
  obtain ks vs cs where n: "node = Node ks vs cs False"
    and len: "length vs = length ks" "length cs = Suc (length ks)" "\<forall>c \<in> set cs. node_ok order h c \<and> nd_keys c \<noteq> []"
    using Suc.prems(1) by (cases node) (auto split: if_splits)
  let ?i = "key_pos key ks"
  show ?case
  proof (cases "?i < length ks \<and> ks ! ?i = key")
    case True
    with n len inorder_mem_at [of vs ks ?i False cs] show ?thesis
      by (subst findInternal.simps) (auto simp: Let_def)
  next
    case False
    have i: "?i < length cs" "length (map inorder cs) = Suc (length ks)"
      using key_pos_le [of key ks] len by auto
    have sorted: "sorted_keys (interleave (map inorder cs) (zip ks vs))"
      using Suc.prems(2) by (simp add: n)
    note pp = bracket_pre_post [OF i(2) len(1) bracket_key_pos [of key ks] sorted]
    note eq = interleave_at [of "map inorder cs" "zip ks vs" ?i]
    have post: "\<forall>x \<in> set (ipost (drop ?i (zip ks vs)) (drop (Suc ?i) (map inorder cs))). key < fst x"
    proof (cases "?i < length ks")
      case True
      with False key_pos_at [of key ks] pp(2) show ?thesis by (simp add: le_less)
    qed (use len in \<open>simp add: ipost_def\<close>)
    have "sorted_keys (inorder (cs ! ?i))"
      using sorted eq len i by (simp add: sorted_append)
    then obtain r where r: "findInternal (cs ! ?i) key = Inr r"
      "case r of None \<Rightarrow> key \<notin> fst ` set (inorder (cs ! ?i)) | Some v \<Rightarrow> (key, v) \<in> set (inorder (cs ! ?i))"
      using Suc.IH [of "cs ! ?i"] len i by auto
    have "findInternal node key = Inr r"
      using False i r(1) by (subst findInternal.simps) (auto simp: n Let_def)
    moreover have "set (inorder node) = set (ipre (take ?i (map inorder cs)) (take ?i (zip ks vs))) \<union>
       set (inorder (cs ! ?i)) \<union> set (ipost (drop ?i (zip ks vs)) (drop (Suc ?i) (map inorder cs)))"
      using eq len i by (auto simp: n)
    ultimately show ?thesis
      using r(2) pp(1) post by (auto split: option.splits)
  qed
qed

text \<open>C8: in a well-formed B-tree without duplicate keys \<^verbatim>\<open>find\<close> is lookup in the list of
  entries.\<close>

theorem bt_find_map_of:
  assumes "bt_inv t" "distinct (map fst (bt_list t))"
  shows "bt_find t key = Inr (map_of (bt_list t) key)"
proof -
  obtain root where root: "bt_root t = Some root" "node_ok (bt_order t) (depth root) root"
    "sorted_keys (inorder root)"
    using assms(1) by (auto simp: bt_inv_def split: option.splits)
  obtain r where "findInternal root key = Inr r" 
     "case r of None \<Rightarrow> key \<notin> fst ` set (inorder root) | Some v \<Rightarrow> (key, v) \<in> set (inorder root)"
    using findInternal_spec [OF root(2,3)] by blast
  with assms(2) root(1) show ?thesis
    by (auto simp: bt_find_def bt_list_def split: option.splits) (metis map_of_eq_None_iff)
qed

section \<open>The iterator enumerates the list\<close>

text \<open>The entries strictly after a frame's position, and those after the whole stack's.\<close>

fun frame_after :: "Node \<times> nat \<Rightarrow> (u64 \<times> IndexEntry) list" where
  "frame_after (Node ks vs cs lf, p) =
     (if lf then drop (Suc p) (zip ks vs)
      else
        let rest = ipost (drop (p div 2) (zip ks vs)) (drop (Suc (p div 2)) (map inorder cs)) in
        if even p then rest else tl rest)"

definition iter_todo :: "Iterator \<Rightarrow> (u64 \<times> IndexEntry) list" where
  "iter_todo st = concat (map frame_after st)"

fun frame_ok :: "Node \<times> nat \<Rightarrow> bool" where
  "frame_ok (Node ks vs cs lf, p) \<longleftrightarrow>
     (\<exists>order h. node_ok order h (Node ks vs cs lf)) \<and> ks \<noteq> [] \<and>
     (if lf then p < length ks else p \<le> 2 * length ks)"

lemma iter_descend_spec:
  "node_ok order h n \<Longrightarrow> nd_keys n \<noteq> [] \<Longrightarrow> list_all frame_ok st \<Longrightarrow>
   \<exists>x st'. iter_descend n st = st' \<and> iter_deref st' = Inr x \<and> list_all frame_ok st' \<and> st' \<noteq> [] \<and>
     x # iter_todo st' = inorder n @ iter_todo st"
proof (induction h arbitrary: n st)
  case 0
  then obtain ks vs where n: "n = Node ks vs [] True" "length vs = length ks" "ks \<noteq> []"
    by (cases n) (auto split: if_splits)
  then have "(ks ! 0, vs ! 0) # tl (zip ks vs) = zip ks vs"
    by (cases ks; cases vs; simp)
  with n 0 show ?case
    by (subst iter_descend.simps) (auto simp: iter_deref_def iter_todo_def drop_Suc)
next
  case (Suc h)
  then obtain ks vs cs where n: "n = Node ks vs cs False"
    and len: "length vs = length ks" "length cs = Suc (length ks)"
      "\<forall>c \<in> set cs. node_ok order h c \<and> nd_keys c \<noteq> []"
    by (cases n) (auto split: if_splits)
  then obtain c cs' where cs: "cs = c # cs'" "length cs' = length ks"
    by (auto simp: length_Suc_conv)
  have "frame_ok (n, 0)"
    using Suc.prems(1,2) unfolding n frame_ok.simps
    by (intro conjI exI [of _ order] exI [of _ "Suc h"]) simp_all
  then obtain x st' where st': "iter_descend c ((n, 0) # st) = st'" "iter_deref st' = Inr x"
    "list_all frame_ok st'" "st' \<noteq> []" "x # iter_todo st' = inorder c @ iter_todo ((n, 0) # st)"
    using Suc.IH [of c "(n, 0) # st"] Suc.prems len cs by auto
  have "iter_descend n st = st'"
    using st'(1) by (subst iter_descend.simps) (simp add: n cs)
  moreover have "inorder n = inorder c @ frame_after (n, 0)"
    using len cs by (simp add: n interleave_Cons)
  ultimately show ?case
    using st' by (simp add: iter_todo_def)
qed

lemma iter_advance_spec:
  "list_all frame_ok st \<Longrightarrow>
   (iter_advance st = [] \<and> iter_todo st = []) \<or>
   (\<exists>x. iter_deref (iter_advance st) = Inr x \<and> list_all frame_ok (iter_advance st) \<and>
     iter_advance st \<noteq> [] \<and> x # iter_todo (iter_advance st) = iter_todo st)"
proof (induction st rule: iter_advance.induct)
  case 1
  then show ?case by (simp add: iter_todo_def)
next
  case (2 n p stack)
  obtain ks vs cs lf where n: "n = Node ks vs cs lf" by (cases n)
  from 2(2) obtain order h where ok: "node_ok order h n" "ks \<noteq> []" "list_all frame_ok stack"
    by (auto simp: n)
  show ?case
  proof (cases lf)
    case True
    have len: "length vs = length ks" "p < length ks"
      using 2(2) True by (auto simp: n)
    show ?thesis
    proof (cases "Suc p < length ks")
      case False
      with 2(1) [OF refl] 2(2) True len show ?thesis
        by (simp add: n iter_maxPos_def iter_todo_def Let_def)
    next
      case lt: True
      then have "drop (Suc p) (zip ks vs) = (ks ! Suc p, vs ! Suc p) # drop (Suc (Suc p)) (zip ks vs)"
        using len by (simp flip: Cons_nth_drop_Suc)
      with lt True len ok 2(2) show ?thesis
        by (auto simp: n iter_maxPos_def iter_todo_def iter_deref_def Let_def)
    qed
  next
    case False
    then obtain h' where h': "h = Suc h'" and len: "length vs = length ks" "length cs = Suc (length ks)"
      "\<forall>c \<in> set cs. node_ok order h' c \<and> nd_keys c \<noteq> []" and p: "p \<le> 2 * length ks"
      using ok(1) 2(2) by (auto simp: n split: nat.splits)
    have ipost_step: "ipost (drop j (zip ks vs)) (drop (Suc j) (map inorder cs)) =
        (ks ! j, vs ! j) # inorder (cs ! Suc j) @
        ipost (drop (Suc j) (zip ks vs)) (drop (Suc (Suc j)) (map inorder cs))" if j: "j < length ks" for j
      using j len by (simp add: ipost_def flip: Cons_nth_drop_Suc)
    consider (pop) "p = 2 * length ks" | (key) j where "p = 2 * j" "j < length ks"
      | (child) j where "p = 2 * j + 1" "j < length ks"
      using p by (metis even_Suc le_neq_implies_less less_Suc_eq_le nat_mult_less_cancel_disj
          oddE evenE Suc_eq_plus1 Suc_leI Suc_lessD mult_le_mono2 not_less)
    then show ?thesis
    proof cases
      case pop
      with 2(1) [OF refl] ok(3) False len show ?thesis
        by (simp add: n iter_maxPos_def iter_todo_def Let_def ipost_def)
    next
      case (key j)
      with ipost_step [OF key(2)] False len ok 2(2) show ?thesis
        by (auto simp: n iter_maxPos_def iter_todo_def iter_deref_def Let_def)
    next
      case (child j)
      let ?st = "(n, 2 * Suc j) # stack"
      have fo: "list_all frame_ok ?st"
        using child ok False by (auto simp: n)
      have "cs ! Suc j \<in> set cs"
        using child len by simp
      then obtain x st' where st': "iter_descend (cs ! Suc j) ?st = st'" "iter_deref st' = Inr x"
        "list_all frame_ok st'" "st' \<noteq> []" "x # iter_todo st' = inorder (cs ! Suc j) @ iter_todo ?st"
        using iter_descend_spec [OF _ _ fo] len by blast
      have adv: "iter_advance ((n, p) # stack) = st'"
        using st'(1) child len False by (simp add: n iter_maxPos_def Let_def)
      have "frame_after (n, p) = inorder (cs ! Suc j) @ frame_after (n, 2 * Suc j)"
        using ipost_step [OF child(2)] child False by (simp add: n)
      with st' adv show ?thesis
        by (simp add: iter_todo_def)
    qed
  qed
qed

lemma iter_collect_spec:
  "list_all frame_ok st \<Longrightarrow> st \<noteq> [] \<Longrightarrow> iter_deref st = Inr x \<Longrightarrow> length (iter_todo st) < fuel \<Longrightarrow>
   iter_collect fuel st = Some (Inr (x # iter_todo st))"
proof (induction fuel arbitrary: st x)
  case (Suc fuel)
  obtain f stack where st: "st = f # stack"
    using Suc.prems by (cases st) auto
  from iter_advance_spec [OF Suc.prems(1)] show ?case
  proof (elim disjE exE conjE)
    assume "iter_advance st = []" "iter_todo st = []"
    with Suc.prems st show ?thesis by simp
  next
    fix y
    assume y: "iter_deref (iter_advance st) = Inr y" "list_all frame_ok (iter_advance st)"
      "iter_advance st \<noteq> []" "y # iter_todo (iter_advance st) = iter_todo st"
    then have "iter_collect fuel (iter_advance st) = Some (Inr (y # iter_todo (iter_advance st)))"
      using Suc.IH [OF y(2,3,1)] Suc.prems(4) by (metis Suc_less_eq length_Cons)
    with y Suc.prems st show ?thesis by simp
  qed
qed simp

text \<open>C9: iterating from \<^verbatim>\<open>begin()\<close> to \<^verbatim>\<open>end()\<close> over a non-empty well-formed B-tree takes one
  step per entry and yields all entries in key order.\<close>

theorem bt_iterate:
  assumes "bt_inv t" "bt_list t \<noteq> []"
  shows "iter_collect (length (bt_list t)) (bt_begin t) = Some (Inr (bt_list t))"
proof -
  obtain root where root: "bt_root t = Some root" "node_ok (bt_order t) (depth root) root"
    "bt_list t = inorder root" "nd_isLeaf root \<or> nd_keys root \<noteq> []"
    using assms(1) by (auto simp: bt_inv_def bt_list_def split: option.splits)
  have "nd_keys root \<noteq> []"
    using assms(2) root by (cases root) auto
  then obtain x st where st: "iter_descend root [] = st" "iter_deref st = Inr x" "list_all frame_ok st"
    "st \<noteq> []" "x # iter_todo st = inorder root"
    using iter_descend_spec [OF root(2), of "[]"] by (auto simp: iter_todo_def)
  then have "length (iter_todo st) < length (inorder root)"
    by (metis length_Cons lessI)
  from iter_collect_spec [OF st(3,4,2) this] st root show ?thesis
    by (simp add: bt_begin_def)
qed

section \<open>The binary form decodes to the same tree\<close>

definition ie_ok :: "IndexEntry \<Rightarrow> bool" where
  "ie_ok v \<longleftrightarrow> length (ie_checksum v) = 32"

fun node_codable :: "Node \<Rightarrow> bool" where
  "node_codable (Node ks vs cs lf) \<longleftrightarrow> list_all ie_ok vs \<and> list_all node_codable cs"

lemma deserialize_kvs_serialize:
  "serialize_kvs ks vs = Inr b \<Longrightarrow> length vs = length ks \<Longrightarrow> list_all ie_ok vs \<Longrightarrow>
   drop off data = b @ rest \<Longrightarrow> length data = off + length b + length rest \<Longrightarrow>
   deserialize_kvs data (length ks) off = Inr (Some (ks, vs, off + length b))"
proof (induction ks vs arbitrary: b off rule: serialize_kvs.induct)
  case (3 k ks v vs)
  from 3(2) obtain b' where b': "serialize_kvs ks vs = Inr b'"
    and b: "b = encode k @ encode (ie_entryId v) @ encode (ie_offset v) @ encode (ie_size v) @
          ie_checksum v @ b'"
    by (auto simp: bind_cpp_eq_Inr)
  let ?o = "off + length (encode k) + length (encode (ie_entryId v)) + length (encode (ie_offset v)) +
     length (encode (ie_size v)) + 32"
  have "deserialize_kvs data (length ks) ?o = Inr (Some (ks, vs, ?o + length b'))"
    using 3(3-6) b' by (intro 3(1)) (auto simp: b ie_ok_def drop_add simp del: drop_drop)
  then show ?case
    using 3(3-6)
    by (simp add: b read_varint_def read_checksum_def ie_ok_def drop_add add.assoc del: drop_drop)
qed auto

lemma serialize_kvs_total: "length vs = length ks \<Longrightarrow> \<exists>b. serialize_kvs ks vs = Inr b"
  by (induction ks vs rule: serialize_kvs.induct) auto

lemma serializeNodes_total:
  "(\<And>c. c \<in> set cs \<Longrightarrow> \<exists>b. serializeNode c = Inr b) \<Longrightarrow> \<exists>b. serializeNodes cs = Inr b"
  by (induction cs) (simp, fastforce)

lemma serializeNode_total: "node_ok order h node \<Longrightarrow> \<exists>b. serializeNode node = Inr b"
proof (induction h arbitrary: node)
  case 0
  then show ?case
    using serialize_kvs_total by (cases node) (fastforce split: if_splits)
next
  case (Suc h)
  then obtain ks vs cs where n: "node = Node ks vs cs False" "length vs = length ks"
      "\<forall>c \<in> set cs. node_ok order h c"
    by (cases node) (auto split: if_splits)
  with Suc.IH serializeNodes_total [of cs] serialize_kvs_total [of vs ks] show ?case
    by auto
qed

lemma deserializeNodes_serialize:
  "(\<And>c b rest. c \<in> set cs \<Longrightarrow> serializeNode c = Inr b \<Longrightarrow>
      deserializeNode stack limit order (b @ rest) = Inr (Some (c, rest))) \<Longrightarrow>
   serializeNodes cs = Inr b \<Longrightarrow>
   deserializeNodes stack limit order (length cs) (b @ rest) = Inr (Some (cs, rest))"
proof (induction cs arbitrary: b)
  case (Cons c cs)
  from Cons.prems(2) obtain x y where b: "serializeNode c = Inr x" "serializeNodes cs = Inr y" "b = x @ y"
    by (auto simp: bind_cpp_eq_Inr)
  have "deserializeNode stack limit order (x @ y @ rest) = Inr (Some (c, y @ rest))"
    using Cons.prems(1) b(1) by simp
  moreover have "deserializeNodes stack limit order (length cs) (y @ rest) = Inr (Some (cs, rest))"
    using Cons.prems(1) by (intro Cons.IH [OF _ b(2)]) simp
  ultimately show ?case
    by (simp add: b(3))
qed simp

lemma deserializeNode_serialize:
  assumes order: "0 < order" "order \<le> limit" "order \<le> 2 ^ 64"
  shows "node_ok order h node \<Longrightarrow> node_codable node \<Longrightarrow> h < stack \<Longrightarrow> serializeNode node = Inr b \<Longrightarrow>
    deserializeNode stack limit order (b @ rest) = Inr (Some (node, rest))"
proof (induction h arbitrary: node b stack rest)
  case 0
  then obtain ks vs kb s where n: "node = Node ks vs [] True" "length vs = length ks" "length ks < order"
    and s: "stack = Suc s" and kb: "serialize_kvs ks vs = Inr kb"
    by (cases node; cases stack) (auto simp: bind_cpp_eq_Inr split: if_splits)
  let ?hd = "encode (size64 (length ks)) @ encode 1"
  have b: "b = ?hd @ kb"
    using 0(4) kb by (simp add: n)
  have "deserialize_kvs (b @ rest) (length ks) (length ?hd) = Inr (Some (ks, vs, length ?hd + length kb))"
    using 0(2) n by (intro deserialize_kvs_serialize [OF kb]) (auto simp: b)
  then show ?case
    using n order by (simp add: s b read_varint_def newNode_def)
next
  case (Suc h)
  from Suc.prems obtain ks vs cs kb cb s where n: "node = Node ks vs cs False"
    and len: "length vs = length ks" "length cs = Suc (length ks)" "length ks < order"
      "\<forall>c \<in> set cs. node_ok order h c" "list_all node_codable cs"
    and s: "stack = Suc s" "h < s" and kb: "serialize_kvs ks vs = Inr kb" "serializeNodes cs = Inr cb"
    by (cases node; cases stack) (auto simp: bind_cpp_eq_Inr split: if_splits)
  let ?hd = "encode (size64 (length ks)) @ encode 0"
  have b: "b = ?hd @ kb @ cb"
    using Suc.prems(4) kb by (simp add: n)
  have k: "deserialize_kvs (b @ rest) (length ks) (length ?hd) = Inr (Some (ks, vs, length ?hd + length kb))"
    using Suc.prems(2) n len by (intro deserialize_kvs_serialize [OF kb(1)]) (auto simp: b)
  have "deserializeNodes s limit order (Suc (length ks)) (cb @ rest) = Inr (Some (cs, rest))"
    using deserializeNodes_serialize [OF Suc.IH kb(2)] len s(2) by (metis list_all_iff)
  then show ?case
    using len order k n by (simp add: s b read_varint_def newNode_def)
qed

text \<open>C10: deserialising the binary form of a well-formed B-tree succeeds and restores the
  tree, order and size, whatever tree it is read into, provided the recursion fits the stack.\<close>

theorem bt_roundtrip:
  assumes "bt_inv t" "node_codable (the (bt_root t))" "0 < bt_order t" "bt_order t \<le> limit" "bt_order t < 2 ^ 64"
    "bt_size t < 2 ^ 64" "depth (the (bt_root t)) < stack"
  shows "\<exists>b. bt_serialize t = Inr b \<and> bt_deserialize stack limit t' b = Inr (Success, t)"
proof -
  obtain root where root: "bt_root t = Some root" "node_ok (bt_order t) (depth root) root"
    using assms(1) by (auto simp: bt_inv_def split: option.splits)
  obtain b where b: "serializeNode root = Inr b"
    using serializeNode_total root by blast
  have "deserializeNode stack limit (bt_order t) b = Inr (Some (root, []))"
    using deserializeNode_serialize [OF assms(3,4) _ root(2) _ _ b, of stack "[]"] assms root(1) by simp
  then show ?thesis
    using root(1) b assms(5,6)
    by (auto simp: bt_serialize_def bt_deserialize_def read_varint_def)
qed

section \<open>Examples\<close>

fun bt_insert_all :: "nat \<Rightarrow> BTree cpp \<Rightarrow> (u64 \<times> IndexEntry) list \<Rightarrow> BTree cpp" where
  "bt_insert_all limit t [] = t"
| "bt_insert_all limit t ((k, v) # kvs) =
     bt_insert_all limit (bind_cpp t (\<lambda>t. bt_insert limit t k v)) kvs"

definition ie_example :: "u64 \<Rightarrow> IndexEntry" where
  "ie_example n = \<lparr>ie_entryId = n, ie_offset = 0, ie_size = 7, ie_checksum = replicate 32 0\<rparr>"

definition bt_example :: BTree where
  "bt_example = \<lparr>bt_order = 4, bt_size = 3, bt_root = Some (Node [2] [ie_example 2]
     [Node [1] [ie_example 1] [] True, Node [3] [ie_example 3] [] True] False)\<rparr>"

lemma bt_example_list: "bt_list bt_example = [(1, ie_example 1), (2, ie_example 2), (3, ie_example 3)]"
  by (simp add: bt_example_def bt_list_def)

lemma bt_example_fields: "bt_order bt_example = 4" "bt_size bt_example = 3"
  by (simp_all add: bt_example_def)

lemma bt_example_inv: "bt_inv bt_example"
  by (simp add: bt_inv_def bt_example_def depth.simps)

lemmas bt_eval = bt_insert_def newBTree_def newNode_def pred_order_def splitChild_def choose_child_def
  insertInternal.simps key_pos_def insert_at_def split_left_def split_right_def findInternal.simps
  bt_find_def bt_contains_def bt_remove_def removeInternal.simps fillChild_def mergeChildren_def
  getPredecessor.simps vec_back_def erase_at_def Let_def

theorem bt_insert_refines_witness:
  "\<exists>t'. bt_insert 4 bt_example 7 (ie_example 9) = Inr t' \<and>
     bt_list t' = bt_list bt_example @ [(7, ie_example 9)]"
  using bt_insert_refines [OF bt_example_inv, of 4 7 "ie_example 9"]
  by (auto simp: bt_example_list ins_def bt_example_fields)

theorem bt_find_map_of_witness: "bt_find bt_example 3 = Inr (Some (ie_example 3))"
  using bt_find_map_of [OF bt_example_inv, of 3] by (simp add: bt_example_list)

theorem bt_iterate_witness: "iter_collect 3 (bt_begin bt_example) = Some (Inr (bt_list bt_example))"
  using bt_iterate [OF bt_example_inv] by (simp add: bt_example_list numeral_3_eq_3)

theorem bt_roundtrip_witness:
  "\<exists>b. bt_serialize bt_example = Inr b \<and> bt_deserialize 2 4 bt_example b = Inr (Success, bt_example)"
  by (rule bt_roundtrip [OF bt_example_inv]) (simp_all add: bt_example_def ie_example_def ie_ok_def depth.simps)

text \<open>After inserting the keys 1 to 4 into a tree of order 4, removing the key 2 of the
  root replaces that key by its predecessor 1 but not its value, so looking up 1 yields the
  value that was stored for 2; and removing the key 4 merges the last child away and then
  indexes it, which is undefined.\<close>

theorem bt_remove_faults:
  assumes "4 \<le> limit"
  shows "\<exists>t. bt_insert_all limit (newBTree limit 4) [(1, v1), (2, v2), (3, v3), (4, v4)] = Inr t \<and>
     bt_find t 1 = Inr (Some v1) \<and>
     (\<exists>t'. bt_remove t 2 = Inr (True, t') \<and> bt_find t' 1 = Inr (Some v2)) \<and>
     bt_remove t 4 = Inl Undefined_behaviour"
  using assms by (simp add: bt_eval)

theorem bt_remove_faults_witness:
  "\<exists>t. bt_insert_all 4 (newBTree 4 4)
       [(1, ie_example 1), (2, ie_example 2), (3, ie_example 3), (4, ie_example 4)] = Inr t \<and>
     bt_remove t 4 = Inl Undefined_behaviour"
  using bt_remove_faults [of 4 "ie_example 1" "ie_example 2" "ie_example 3" "ie_example 4"] by auto

text \<open>\<^verbatim>\<open>deserialize\<close> does not look at whether the root node could be read: on truncated
  input it reports success and leaves a null root, and the next lookup or insertion dereferences
  it.\<close>

theorem bt_deserialize_null_root:
  "\<exists>t'. bt_deserialize (Suc stack) limit t [4, 0] = Inr (Success, t') \<and>
     bt_find t' key = Inl Undefined_behaviour \<and> bt_insert limit t' key v = Inl Undefined_behaviour"
  by (simp add: bt_deserialize_def read_varint_def decode_def bt_find_def bt_insert_def Let_def)

end
