(* ===== verification/Record_Codec.thy ===== *)
theory Record_Codec
  imports VarInt
begin

text \<open>
  The interface every serialised record of the library follows: a reader takes the input and
  an offset and yields the record and the offset behind it, refuses, or aborts.  The locales
  state what the containers rely on: that a reader moves forward within the input
  (\<open>bounded_reader\<close>), that it is undefined exactly where a varint it decodes is (\<open>safe_reader\<close>), that it
  inverts the record's encoding (\<open>record_codec\<close>), and both (\<open>safe_codec\<close>).  What
  the loops \<^verbatim>\<open>for (i = 0; i < count; ++i)\<close> of the deserialisers do with such a reader is
  proved once, inside the locales, for \<open>read_upto\<close>.
\<close>

text \<open>
  The loop reading \<open>n\<close> records.  It returns the records read, and the offset behind them, or
  \<open>None\<close> when a record was refused and the function returns early.
\<close>

fun read_upto ::
  "(byte list \<Rightarrow> nat \<Rightarrow> ('a \<times> nat) rd) \<Rightarrow> nat \<Rightarrow> byte list \<Rightarrow> nat \<Rightarrow> ('a list \<times> nat option) cpp" where
  "read_upto rec 0 data off = Inr ([], Some off)"
| "read_upto rec (Suc n) data off =
     (case rec data off of
        Inl a \<Rightarrow> Inl a
      | Inr None \<Rightarrow> Inr ([], None)
      | Inr (Some (x, off')) \<Rightarrow>
          bind_cpp (read_upto rec n data off') (\<lambda>(xs, r). Inr (x # xs, r)))"

text \<open>At this offset the decoder shifts too far: ten bytes with the continuation bit and one more.\<close>

definition overwide :: "byte list \<Rightarrow> nat \<Rightarrow> bool" where
  "overwide data off \<longleftrightarrow> off + 10 < length data \<and> list_all (\<lambda>b. b AND 0x80 \<noteq> 0) (take 10 (drop off data))"

lemma read_varint_abort_iff:
  "off \<le> length data \<Longrightarrow> read_varint data off = Inl e \<longleftrightarrow> e = Undefined_behaviour \<and> overwide data off"
  by (auto simp: read_varint_def bind_cpp_eq_Inl decode_undefined overwide_def list_all_iff)

text \<open>The offsets at which the loop decodes a varint, from those at which a record does.\<close>

fun upto_varints ::
  "(byte list \<Rightarrow> nat \<Rightarrow> ('a \<times> nat) rd) \<Rightarrow> (byte list \<Rightarrow> nat \<Rightarrow> nat list) \<Rightarrow> nat \<Rightarrow> byte list \<Rightarrow> nat \<Rightarrow> nat list" where
  "upto_varints rec at 0 data off = []"
| "upto_varints rec at (Suc n) data off =
     at data off @ (case rec data off of Inr (Some (x, off')) \<Rightarrow> upto_varints rec at n data off' | _ \<Rightarrow> [])"

lemma read_varint_abort: "read_varint data off = Inl e \<Longrightarrow> e = Undefined_behaviour"
  by (auto simp: read_varint_def bind_cpp_eq_Inl decode_undefined split: if_splits)

lemma read_block_not_abort [simp]: "read_block data off n \<noteq> Inl e"
  by (simp add: read_block_def)

locale bounded_reader =
  fixes rec :: "byte list \<Rightarrow> nat \<Rightarrow> ('a \<times> nat) rd"
  assumes rec_bounds: "rec data off = Inr (Some (x, off')) \<Longrightarrow> off \<le> length data \<Longrightarrow> off \<le> off' \<and> off' \<le> length data"
begin

lemma read_upto_bounds:
  "read_upto rec n data off = Inr (xs, r) \<Longrightarrow> off \<le> length data \<Longrightarrow>
   length xs \<le> n \<and> (\<forall>off'. r = Some off' \<longrightarrow> length xs = n \<and> off \<le> off' \<and> off' \<le> length data)"
proof (induction n arbitrary: off xs)
  case (Suc n)
  show ?case
  proof (cases "rec data off")
    case (Inr o1)
    then show ?thesis
    proof (cases o1)
      case (Some p)
      obtain x off' where p: "p = (x, off')" by (cases p)
      have b: "off \<le> off'" "off' \<le> length data"
        using rec_bounds [of data off x off'] Inr Some p Suc.prems(2) by auto
      from Inr Some p Suc.prems(1) obtain ys where ys: "xs = x # ys" "read_upto rec n data off' = Inr (ys, r)"
        by (auto simp: bind_cpp_eq_Inr)
      from Suc.IH [OF ys(2) b(2)] ys(1) b show ?thesis
        by auto
    qed (use Suc.prems Inr in auto)
  qed (use Suc.prems in simp)
qed auto

end

locale safe_reader = bounded_reader rec for rec :: "byte list \<Rightarrow> nat \<Rightarrow> ('a \<times> nat) rd" +
  fixes at :: "byte list \<Rightarrow> nat \<Rightarrow> nat list"
  assumes rec_abort_iff: "off \<le> length data \<Longrightarrow>
    rec data off = Inl e \<longleftrightarrow> e = Undefined_behaviour \<and> list_ex (overwide data) (at data off)"
begin

lemma read_upto_abort_iff:
  "off \<le> length data \<Longrightarrow>
   read_upto rec n data off = Inl e \<longleftrightarrow> e = Undefined_behaviour \<and> list_ex (overwide data) (upto_varints rec at n data off)"
proof (induction n arbitrary: off)
  case (Suc n)
  note rec = rec_abort_iff [OF Suc.prems]
  show ?case
  proof (cases "rec data off")
    case (Inl a)
    with rec [of a] show ?thesis by auto
  next
    case (Inr o1)
    then have no: "\<not> list_ex (overwide data) (at data off)"
      using rec by simp
    show ?thesis
    proof (cases o1)
      case (Some p)
      obtain x off' where p: "p = (x, off')" by (cases p)
      then have "off' \<le> length data"
        using rec_bounds [of data off x off'] Inr Some Suc.prems by simp
      from Suc.IH [OF this] no Inr Some p show ?thesis
        by (simp add: bind_cpp_eq_Inl)
    qed (use no Inr in simp)
  qed
qed simp

end

locale record_codec = bounded_reader rec for rec :: "byte list \<Rightarrow> nat \<Rightarrow> ('a \<times> nat) rd" +
  fixes enc :: "'a \<Rightarrow> byte list" and ok :: "'a \<Rightarrow> bool"
  assumes rec_enc: "ok x \<Longrightarrow> drop off data = enc x @ rest \<Longrightarrow> length data = off + length (enc x) + length rest \<Longrightarrow>
    length data < 2 ^ 63 \<Longrightarrow> rec data off = Inr (Some (x, off + length (enc x)))"
begin

lemma read_upto_enc:
  "list_all ok xs \<Longrightarrow> drop off data = concat (map enc xs) @ rest \<Longrightarrow>
   length data = off + length (concat (map enc xs)) + length rest \<Longrightarrow> length data < 2 ^ 63 \<Longrightarrow>
   read_upto rec (length xs) data off = Inr (xs, Some (off + length (concat (map enc xs))))"
proof (induction xs arbitrary: off)
  case (Cons x xs)
  have "rec data off = Inr (Some (x, off + length (enc x)))"
    using Cons.prems by (intro rec_enc [of x off data "concat (map enc xs) @ rest"]) auto
  moreover have "read_upto rec (length xs) data (off + length (enc x)) =
      Inr (xs, Some (off + length (enc x) + length (concat (map enc xs))))"
    using Cons.prems by (intro Cons.IH) (auto simp: drop_add simp del: drop_drop)
  ultimately show ?case
    by (simp add: add.assoc)
qed simp

end

locale safe_codec = safe_reader rec at + record_codec rec enc ok
  for rec :: "byte list \<Rightarrow> nat \<Rightarrow> ('a \<times> nat) rd" and at and enc :: "'a \<Rightarrow> byte list" and ok :: "'a \<Rightarrow> bool"

text \<open>Varints and length-prefixed strings at an offset.\<close>

lemma read_varint_at: "drop off data = encode v @ rest \<Longrightarrow> off \<le> length data \<Longrightarrow> read_varint data off = Inr (Some (v, off + length (encode v)))"
  by (simp add: read_varint_def)

interpretation ids: safe_codec read_varint "\<lambda>data off. [off]" encode "\<lambda>_. True"
  by unfold_locales (auto dest: read_varint_bounds simp: read_varint_abort_iff read_varint_at)

lemma read_string_at:
  assumes "drop off data = bytes_of_string s @ rest" "length data = off + length s + length rest"
    "length data < 2 ^ 63"
  shows "read_string data off (size64 (length s)) = Inr (Some (s, off + length s))"
  using assms read_string_in_bounds [of off "size64 (length s)" data]
  by (simp add: take_append)

end
