(* ===== verification/Store_Interface.thy ===== *)
theory Store_Interface
  imports Nebula_Prelude
begin

text \<open>
  The contract of the library's keyed containers as locales, and the convention for
  \<^verbatim>\<open>std::unordered_map\<close>: its content is a map, and a function that iterates over it takes
  the iteration order as an argument, a list that \<open>enumerates\<close> the map.  Nothing is assumed
  about the order.
\<close>

definition enumerates :: "('k \<times> 'v) list \<Rightarrow> ('k \<rightharpoonup> 'v) \<Rightarrow> bool" where
  "enumerates it m \<longleftrightarrow> distinct (map fst it) \<and> map_of it = m"

lemma enumerates_mem: "enumerates it m \<Longrightarrow> (k, v) \<in> set it \<longleftrightarrow> m k = Some v"
  unfolding enumerates_def by (metis map_of_eq_Some_iff)

lemma enumerates_empty [simp]: "enumerates it Map.empty \<longleftrightarrow> it = []"
  by (cases it) (auto simp: enumerates_def fun_eq_iff split: if_splits)

lemma enumerates_length: "enumerates it m \<Longrightarrow> length it = card (dom m)"
  unfolding enumerates_def
  by (metis distinct_card dom_map_of_conv_image_fst length_map set_map)

text \<open>A store in which a write at one key is seen at that key only.\<close>

locale keyed_store =
  fixes inv :: "'s \<Rightarrow> bool"
    and lookup :: "'s \<Rightarrow> 'k \<Rightarrow> 'v rd"
    and put :: "'s \<Rightarrow> 'k \<Rightarrow> 'a \<Rightarrow> 's"
    and stored :: "'k \<Rightarrow> 'a \<Rightarrow> 'v"
  assumes put_inv: "inv s \<Longrightarrow> inv (put s k a)"
    and lookup_put: "inv s \<Longrightarrow> lookup (put s k a) k' = (if k' = k then Inr (Some (stored k a)) else lookup s k')"
begin

lemma puts_inv: "inv s \<Longrightarrow> inv (foldl (\<lambda>s (k, a). put s k a) s kas)"
  by (induction kas arbitrary: s) (auto simp: put_inv)

text \<open>After a run of writes every key has the last value written to it.\<close>

lemma lookup_puts:
  "inv s \<Longrightarrow> lookup (foldl (\<lambda>s (k, a). put s k a) s kas) k =
     (case map_of (rev kas) k of None \<Rightarrow> lookup s k | Some a \<Rightarrow> Inr (Some (stored k a)))"
proof (induction kas rule: rev_induct)
  case (snoc ka kas)
  obtain k' a where "ka = (k', a)" by (cases ka)
  with snoc show ?case
    using puts_inv [OF snoc.prems, of kas] by (auto simp: lookup_put)
qed simp

lemma put_overwrite:
  "inv s \<Longrightarrow> lookup (put (put s k a) k b) k' = lookup (put s k b) k'"
  by (simp add: lookup_put put_inv)

end

text \<open>A store from which a key can be removed.\<close>

locale erasable_store = keyed_store inv lookup put stored
  for inv :: "'s \<Rightarrow> bool" and lookup :: "'s \<Rightarrow> 'k \<Rightarrow> 'v rd"
    and put :: "'s \<Rightarrow> 'k \<Rightarrow> 'a \<Rightarrow> 's" and stored :: "'k \<Rightarrow> 'a \<Rightarrow> 'v" +
  fixes erase :: "'s \<Rightarrow> 'k \<Rightarrow> 's"
  assumes erase_inv: "inv s \<Longrightarrow> inv (erase s k)"
    and lookup_erase: "inv s \<Longrightarrow> lookup (erase s k) k' = (if k' = k then Inr None else lookup s k')"
begin

lemma erase_put: "inv s \<Longrightarrow> lookup (erase (put s k a) k) k' = lookup (erase s k) k'"
  by (simp add: lookup_erase lookup_put put_inv)

lemma erase_commute: "inv s \<Longrightarrow> lookup (erase (erase s k) l) k' = lookup (erase (erase s l) k) k'"
  by (simp add: lookup_erase erase_inv)

end

end
