(* ===== verification/Index_Manager.thy ===== *)
theory Index_Manager
  imports Record_Codec Store_Interface Core_Types
begin

text \<open>
  \<^verbatim>\<open>src/index/IndexManager.cpp\<close>: the vector of index entries with its three lookup
  tables (identifier to position, path to identifier, type to positions) and the binary
  form of the vector.  Functions that iterate over a table take the iteration order.

  Shown: \<^verbatim>\<open>validate\<close> decides that the position table is exact; insertion of a fresh
  identifier and removal keep it exact and change one lookup; the binary form restores the
  entries and the position table; removal leaves stale positions in the type table.
\<close>

record IndexManager =
  im_entries :: "IndexEntry list"
  im_idIndex :: "EntryID \<rightharpoonup> nat"
  im_pathMap :: "string \<rightharpoonup> EntryID"
  im_typeIndex :: "EntryType \<rightharpoonup> nat list"
  im_sorted :: bool

definition newIndexManager :: IndexManager where
  "newIndexManager = \<lparr>im_entries = [], im_idIndex = Map.empty, im_pathMap = Map.empty,
     im_typeIndex = Map.empty, im_sorted = False\<rparr>"

definition index_entry_of :: "ArchiveEntry \<Rightarrow> IndexEntry" where
  "index_entry_of e = \<lparr>ie_entryId = ae_id e, ie_offset = ae_offset e, ie_size = ae_storedSize e,
     ie_checksum = ae_checksum e\<rparr>"

definition im_insert :: "IndexManager \<Rightarrow> ArchiveEntry \<Rightarrow> IndexManager" where
  "im_insert m entry =
     (let es = im_entries m @ [index_entry_of entry]; pos = length es - 1 in
      m\<lparr>im_entries := es,
        im_idIndex := (im_idIndex m)(ae_id entry \<mapsto> pos),
        im_pathMap := (if ae_path entry \<noteq> [] then (im_pathMap m)(ae_path entry \<mapsto> ae_id entry)
                       else im_pathMap m),
        im_typeIndex := (im_typeIndex m)
          (ae_type entry \<mapsto> (case im_typeIndex m (ae_type entry) of None \<Rightarrow> [] | Some is \<Rightarrow> is) @ [pos]),
        im_sorted := False\<rparr>)"

definition im_insert_span :: "IndexManager \<Rightarrow> ArchiveEntry list \<Rightarrow> IndexManager" where
  "im_insert_span m entries = foldl im_insert m entries"

definition im_findById :: "IndexManager \<Rightarrow> EntryID \<Rightarrow> IndexEntry option cpp" where
  "im_findById m eid =
     (case im_idIndex m eid of
        None \<Rightarrow> Inr None
      | Some i \<Rightarrow> bind_cpp (vec_at (im_entries m) i) (\<lambda>e. Inr (Some e)))"

definition im_findByPath :: "IndexManager \<Rightarrow> string \<Rightarrow> IndexEntry option cpp" where
  "im_findByPath m path =
     (case im_pathMap m path of None \<Rightarrow> Inr None | Some eid \<Rightarrow> im_findById m eid)"

fun im_findByPrefix :: "(string \<times> EntryID) list \<Rightarrow> IndexManager \<Rightarrow> string \<Rightarrow> IndexEntry list cpp" where
  "im_findByPrefix [] m prefix = Inr []"
| "im_findByPrefix ((path, eid) # it) m prefix =
     (if take (length prefix) path = prefix then
        bind_cpp (im_findById m eid) (\<lambda>entry.
        bind_cpp (im_findByPrefix it m prefix) (\<lambda>results.
        Inr (case entry of None \<Rightarrow> results | Some e \<Rightarrow> e # results)))
      else im_findByPrefix it m prefix)"

fun entries_at :: "IndexEntry list \<Rightarrow> nat list \<Rightarrow> IndexEntry list cpp" where
  "entries_at es [] = Inr []"
| "entries_at es (i # is) =
     bind_cpp (vec_at es i) (\<lambda>e. bind_cpp (entries_at es is) (\<lambda>rs. Inr (e # rs)))"

definition im_findByType :: "IndexManager \<Rightarrow> EntryType \<Rightarrow> IndexEntry list cpp" where
  "im_findByType m ty =
     (case im_typeIndex m ty of None \<Rightarrow> Inr [] | Some is \<Rightarrow> entries_at (im_entries m) is)"

definition im_contains :: "IndexManager \<Rightarrow> EntryID \<Rightarrow> bool" where
  "im_contains m eid \<longleftrightarrow> im_idIndex m eid \<noteq> None"

definition im_containsPath :: "IndexManager \<Rightarrow> string \<Rightarrow> bool" where
  "im_containsPath m path \<longleftrightarrow> im_pathMap m path \<noteq> None"

text \<open>The two loops of \<^verbatim>\<open>remove\<close> that stop at the first match.\<close>

fun erase_path :: "(string \<times> EntryID) list \<Rightarrow> EntryID \<Rightarrow> (string \<rightharpoonup> EntryID) \<Rightarrow> (string \<rightharpoonup> EntryID)" where
  "erase_path [] eid pm = pm"
| "erase_path ((path, pid) # it) eid pm =
     (if pid = eid then pm(path := None) else erase_path it eid pm)"

fun erase_type :: "(EntryType \<times> nat list) list \<Rightarrow> nat \<Rightarrow> (EntryType \<rightharpoonup> nat list) \<Rightarrow> (EntryType \<rightharpoonup> nat list)" where
  "erase_type [] idx ti = ti"
| "erase_type ((ty, indices) # it) idx ti =
     (if idx \<in> set indices then ti(ty \<mapsto> remove1 idx indices) else erase_type it idx ti)"

definition shift_down :: "nat \<Rightarrow> nat \<Rightarrow> nat" where
  "shift_down idx i = (if i > idx then i - 1 else i)"

definition im_remove ::
  "(string \<times> EntryID) list \<Rightarrow> (EntryType \<times> nat list) list \<Rightarrow> IndexManager \<Rightarrow> EntryID
    \<Rightarrow> (bool \<times> IndexManager) cpp" where
  "im_remove paths types m eid =
     (case im_idIndex m eid of
        None \<Rightarrow> Inr (False, m)
      | Some idx \<Rightarrow>
          bind_cpp (vec_at (im_entries m) idx) (\<lambda>_.
          Inr (True, m\<lparr>
            im_pathMap := erase_path paths eid (im_pathMap m),
            im_typeIndex := erase_type types idx (im_typeIndex m),
            im_entries := take idx (im_entries m) @ drop (Suc idx) (im_entries m),
            im_idIndex := map_option (shift_down idx) \<circ> (im_idIndex m)(eid := None)\<rparr>)))"

definition im_clear :: "IndexManager \<Rightarrow> IndexManager" where
  "im_clear m = newIndexManager"

text \<open>\<^verbatim>\<open>processEntry\<close> deletes its copy twice.\<close>

definition im_clearAndNotify :: "IndexEntry list \<Rightarrow> IndexManager \<Rightarrow> IndexManager cpp" where
  "im_clearAndNotify rawEntryCache m =
     (if rawEntryCache = [] then Inr (im_clear m) else Inl Undefined_behaviour)"

definition im_validate :: "(EntryID \<times> nat) list \<Rightarrow> IndexManager \<Rightarrow> bool" where
  "im_validate ids m \<longleftrightarrow>
     length (im_entries m) = length ids \<and>
     list_all (\<lambda>(eid, idx). idx < length (im_entries m) \<and> ie_entryId (im_entries m ! idx) = eid) ids"

section \<open>The binary form\<close>

definition serialize_IndexEntry :: "IndexEntry \<Rightarrow> byte list" where
  "serialize_IndexEntry e =
     encode (ie_entryId e) @ encode (ie_offset e) @ encode (ie_size e) @ ie_checksum e"

definition im_serialize :: "IndexManager \<Rightarrow> byte list" where
  "im_serialize m =
     encode (size64 (length (im_entries m))) @ concat (map serialize_IndexEntry (im_entries m))"

definition read_IndexEntry :: "byte list \<Rightarrow> nat \<Rightarrow> (IndexEntry \<times> nat) rd" where
  "read_IndexEntry data off =
     bind_rd (read_varint data off) (\<lambda>(eid, off).
     bind_rd (read_varint data off) (\<lambda>(ofs, off).
     bind_rd (read_varint data off) (\<lambda>(sz, off).
     bind_rd (read_block data off 32) (\<lambda>(sum, off).
     Inr (Some (\<lparr>ie_entryId = eid, ie_offset = ofs, ie_size = sz, ie_checksum = sum\<rparr>, off))))))"

definition im_push :: "IndexManager \<Rightarrow> IndexEntry \<Rightarrow> IndexManager" where
  "im_push m e = m\<lparr>im_entries := im_entries m @ [e],
     im_idIndex := (im_idIndex m)(ie_entryId e \<mapsto> length (im_entries m))\<rparr>"

definition im_deserialize :: "IndexManager \<Rightarrow> byte list \<Rightarrow> (ErrorCode \<times> IndexManager) cpp" where
  "im_deserialize m data =
     (let m = im_clear m in
      else_ret (read_varint data 0) (CorruptIndex, m) (\<lambda>(count, off).
      if unat count > (length data - off) div 35 then Inr (CorruptIndex, m)
      else
        bind_cpp (read_upto read_IndexEntry (unat count) data off) (\<lambda>(es, end).
        let m = foldl im_push m es in
        Inr (case end of None \<Rightarrow> (CorruptIndex, m) | Some _ \<Rightarrow> (Success, m\<lparr>im_sorted := False\<rparr>)))))"

section \<open>The position table\<close>

text \<open>Every position stored is in range.\<close>

definition im_in_range :: "IndexManager \<Rightarrow> bool" where
  "im_in_range m \<longleftrightarrow> (\<forall>i \<in> ran (im_idIndex m). i < length (im_entries m))"

text \<open>The table is exact: it holds the position of every entry, and nothing else.\<close>

definition im_exact :: "IndexManager \<Rightarrow> bool" where
  "im_exact m \<longleftrightarrow>
     (\<forall>i \<in> {0..<length (im_entries m)}. im_idIndex m (ie_entryId (im_entries m ! i)) = Some i) \<and>
     (\<forall>eid \<in> dom (im_idIndex m). \<exists>i \<in> {0..<length (im_entries m)}. ie_entryId (im_entries m ! i) = eid)"

lemma im_exact_iff:
  "im_exact m \<longleftrightarrow>
     (\<forall>eid i. im_idIndex m eid = Some i \<longleftrightarrow> i < length (im_entries m) \<and> ie_entryId (im_entries m ! i) = eid)"
  (is "?l = ?r")
proof
  assume ?l
  then show ?r
    unfolding im_exact_def by (metis atLeast0LessThan domI lessThan_iff option.inject)
next
  assume ?r
  then show ?l
    unfolding im_exact_def by (auto simp: dom_def)
qed

lemma im_exact_in_range: "im_exact m \<Longrightarrow> im_in_range m"
  by (auto simp: im_exact_iff im_in_range_def ran_def)

lemma im_exact_None:
  "im_exact m \<Longrightarrow> im_idIndex m eid = None \<Longrightarrow> i < length (im_entries m) \<Longrightarrow> ie_entryId (im_entries m ! i) \<noteq> eid"
  by (metis im_exact_iff option.distinct(1))

lemma im_findById_in_range:
  "im_in_range m \<Longrightarrow> im_findById m eid = Inr (map_option (\<lambda>i. im_entries m ! i) (im_idIndex m eid))"
  by (auto simp: im_findById_def im_in_range_def ran_def split: option.splits)

lemma im_insert_in_range: "im_in_range m \<Longrightarrow> im_in_range (im_insert m e)"
  by (auto simp: im_in_range_def im_insert_def Let_def ran_def less_Suc_eq split: if_splits)

lemma im_insert_lookup:
  "im_in_range m \<Longrightarrow> im_findById (im_insert m e) k =
     (if k = ae_id e then Inr (Some (index_entry_of e)) else im_findById m k)"
  using im_insert_in_range [of m e]
  by (cases "im_idIndex m k")
    (auto simp: im_findById_in_range im_insert_def Let_def im_in_range_def ran_def nth_append)

text \<open>An insertion writes at the entry's own identifier.\<close>

interpretation im: keyed_store im_in_range im_findById
  "\<lambda>m eid e. im_insert m (e\<lparr>ae_id := eid\<rparr>)" "\<lambda>eid e. index_entry_of (e\<lparr>ae_id := eid\<rparr>)"
  by unfold_locales (simp_all add: im_insert_in_range im_insert_lookup)

lemma im_insert_exact: "im_exact m \<Longrightarrow> im_idIndex m (ae_id e) = None \<Longrightarrow> im_exact (im_insert m e)"
  using im_exact_None [of m "ae_id e"] unfolding im_exact_iff
  by (auto simp: im_insert_def Let_def index_entry_of_def nth_append less_Suc_eq)

lemma nth_erased:
  "i < length xs - 1 \<Longrightarrow> idx < length xs \<Longrightarrow>
   (take idx xs @ drop (Suc idx) xs) ! i = xs ! (if i < idx then i else Suc i)"
  by (auto simp: nth_append)

lemma im_remove_exact:
  assumes ex: "im_exact m" and idx: "im_idIndex m eid = Some idx"
    and m': "im_remove paths types m eid = Inr (b, m')"
  shows "im_exact m'" "k \<noteq> eid \<Longrightarrow> im_findById m' k = im_findById m k" "im_findById m' eid = Inr None"
proof -
  have lt: "idx < length (im_entries m)" "ie_entryId (im_entries m ! idx) = eid"
    using ex idx by (auto simp: im_exact_iff)
  then have m'_eq: "im_entries m' = take idx (im_entries m) @ drop (Suc idx) (im_entries m)"
    "im_idIndex m' = map_option (shift_down idx) \<circ> (im_idIndex m)(eid := None)"
    using m' idx by (auto simp: im_remove_def)
  have len: "length (im_entries m') = length (im_entries m) - 1"
    using lt by (simp add: m'_eq)
  show exact: "im_exact m'"
    unfolding im_exact_iff
  proof (intro allI iffI)
    fix k i
    assume "im_idIndex m' k = Some i"
    then obtain j where j: "k \<noteq> eid" "im_idIndex m k = Some j" "i = shift_down idx j"
      by (auto simp: m'_eq split: if_splits)
    then have "j < length (im_entries m)" "ie_entryId (im_entries m ! j) = k" "j \<noteq> idx"
      using ex lt by (auto simp: im_exact_iff)
    then show "i < length (im_entries m') \<and> ie_entryId (im_entries m' ! i) = k"
      using lt j(3) by (auto simp: len m'_eq(1) nth_erased shift_down_def)
  next
    fix k i
    assume a: "i < length (im_entries m') \<and> ie_entryId (im_entries m' ! i) = k"
    let ?j = "if i < idx then i else Suc i"
    have j: "?j < length (im_entries m)" "ie_entryId (im_entries m ! ?j) = k"
      using a lt by (auto simp: len m'_eq(1) nth_erased)
    then have "im_idIndex m k = Some ?j"
      using ex by (simp add: im_exact_iff)
    moreover from this idx have "k \<noteq> eid"
      by (auto split: if_splits)
    ultimately show "im_idIndex m' k = Some i"
      by (auto simp: m'_eq(2) shift_down_def)
  qed
  show "im_findById m' eid = Inr None"
    by (simp add: im_findById_in_range [OF im_exact_in_range [OF exact]] m'_eq(2))
  assume k: "k \<noteq> eid"
  have "im_entries m' ! shift_down idx j = im_entries m ! j" if "im_idIndex m k = Some j" for j
  proof -
    have "j < length (im_entries m)" "j \<noteq> idx"
      using that ex idx k by (auto simp: im_exact_iff)
    with lt show ?thesis
      by (auto simp: m'_eq(1) nth_append shift_down_def)
  qed
  then show "im_findById m' k = im_findById m k"
    using k by (auto simp: im_findById_in_range im_exact_in_range exact ex m'_eq(2) option.map_comp
        o_def intro!: option.map_cong0 split: option.splits)
qed

lemma im_remove_total:
  "im_exact m \<Longrightarrow> \<exists>m'. im_remove paths types m eid = Inr (im_contains m eid, m')"
  using im_exact_in_range [of m]
  by (cases "im_idIndex m eid") (auto simp: im_remove_def im_contains_def im_in_range_def ran_def)

section \<open>Properties\<close>

text \<open>C11: removing an identifier from an index whose position table is exact returns whether
  it was present, keeps the table exact although all later entries move down, and afterwards the
  identifier is not found and every other lookup is unchanged, in whatever order the tables are
  iterated.\<close>

theorem im_remove_lookup:
  assumes "im_exact m"
  shows "\<exists>m'. im_remove paths types m eid = Inr (im_contains m eid, m') \<and> im_exact m' \<and>
    (\<forall>k. im_findById m' k = (if k = eid then Inr None else im_findById m k))"
proof (cases "im_idIndex m eid")
  case None
  then show ?thesis
    using assms by (auto simp: im_remove_def im_contains_def im_findById_def)
next
  case (Some idx)
  obtain m' where "im_remove paths types m eid = Inr (im_contains m eid, m')"
    using im_remove_total [OF assms] by blast
  with im_remove_exact [OF assms Some this] show ?thesis by auto
qed

definition im_example :: IndexManager where
  "im_example = im_insert_span newIndexManager
     [default_entry\<lparr>ae_id := 5, ae_type := File, ae_offset := 50\<rparr>,
      default_entry\<lparr>ae_id := 9, ae_type := Directory, ae_offset := 90\<rparr>,
      default_entry\<lparr>ae_id := 7, ae_type := File, ae_offset := 70\<rparr>]"

lemma newIndexManager_exact: "im_exact newIndexManager"
  by (simp add: im_exact_def newIndexManager_def)

lemma im_example_exact: "im_exact im_example"
  unfolding im_example_def im_insert_span_def foldl.simps
  by (intro im_insert_exact newIndexManager_exact)
     (simp_all add: im_insert_def newIndexManager_def Let_def default_entry_def)

theorem im_remove_lookup_witness:
  "\<exists>m'. im_remove [] [] im_example 5 = Inr (True, m') \<and> im_findById m' 7 = im_findById im_example 7"
  using im_remove_lookup [OF im_example_exact, of "[]" "[]" 5]
  by (auto simp: im_contains_def im_example_def im_insert_span_def im_insert_def newIndexManager_def
      Let_def default_entry_def)

text \<open>Inserting several entries and then looking up an identifier yields the entry inserted
  last with it, if there is one, and otherwise what the index held before, and no lookup goes
  out of bounds.\<close>

theorem im_insert_span_lookup:
  assumes "im_in_range m"
  shows "im_findById (im_insert_span m es) k =
    (case map_of (rev (map (\<lambda>e. (ae_id e, e)) es)) k of
       None \<Rightarrow> im_findById m k | Some e \<Rightarrow> Inr (Some (index_entry_of e)))"
proof -
  have "foldl (\<lambda>m (eid, e). im_insert m (e\<lparr>ae_id := eid\<rparr>)) m (map (\<lambda>e. (ae_id e, e)) es) =
      im_insert_span m es"
    unfolding im_insert_span_def by (induction es arbitrary: m) auto
  then show ?thesis
    using im.lookup_puts [OF assms, of "map (\<lambda>e. (ae_id e, e)) es" k]
    by (auto simp: rev_map map_of_map_keys split: option.splits dest!: map_of_SomeD)
qed

theorem im_insert_span_lookup_witness:
  "im_findById (im_insert_span im_example
     [default_entry\<lparr>ae_id := 5, ae_offset := 1\<rparr>, default_entry\<lparr>ae_id := 5, ae_offset := 2\<rparr>]) 5 =
     Inr (Some (index_entry_of (default_entry\<lparr>ae_id := 5, ae_offset := 2\<rparr>)))"
  using im_insert_span_lookup [OF im_exact_in_range [OF im_example_exact], of
      "[default_entry\<lparr>ae_id := 5, ae_offset := 1\<rparr>, default_entry\<lparr>ae_id := 5, ae_offset := 2\<rparr>]" 5]
  by simp

text \<open>\<^verbatim>\<open>validate\<close> decides exactly that the position table is exact: it counts the table's
  entries and checks each against the vector, and that is enough.\<close>

theorem im_validate_iff:
  assumes "enumerates ids (im_idIndex m)"
  shows "im_validate ids m \<longleftrightarrow> im_exact m"
proof
  assume v: "im_validate ids m"
  then have sound: "im_idIndex m eid = Some i \<Longrightarrow> i < length (im_entries m) \<and> ie_entryId (im_entries m ! i) = eid"
    for eid i
    using enumerates_mem [OF assms, of eid i] by (fastforce simp: im_validate_def list_all_iff)
  let ?D = "dom (im_idIndex m)" and ?f = "\<lambda>k. the (im_idIndex m k)"
  have inj: "inj_on ?f ?D"
    using sound by (intro inj_onI) (auto simp: dom_def, metis)
  have "?f ` ?D \<subseteq> {0..<length (im_entries m)}"
    using sound by (auto simp: dom_def)
  moreover have "card (?f ` ?D) = length (im_entries m)"
    using card_image [OF inj] enumerates_length [OF assms] v by (simp add: im_validate_def)
  ultimately have "?f ` ?D = {0..<length (im_entries m)}"
    by (intro card_subset_eq) auto
  then have "\<exists>eid. im_idIndex m eid = Some i" if "i < length (im_entries m)" for i
    using that by (auto simp: set_eq_iff image_iff) (metis atLeast0LessThan domD lessThan_iff option.sel zero_le)
  then show "im_exact m"
    unfolding im_exact_iff using sound by blast
next
  assume ex: "im_exact m"
  let ?D = "dom (im_idIndex m)"
  have "?D = (\<lambda>i. ie_entryId (im_entries m ! i)) ` {0..<length (im_entries m)}"
    using ex by (auto simp: im_exact_iff dom_def)
  moreover have "inj_on (\<lambda>i. ie_entryId (im_entries m ! i)) {0..<length (im_entries m)}"
    using ex by (intro inj_onI) (metis atLeastLessThan_iff im_exact_iff option.inject)
  ultimately have "card ?D = length (im_entries m)"
    by (simp add: card_image)
  with ex enumerates_mem [OF assms] enumerates_length [OF assms] show "im_validate ids m"
    by (auto simp: im_validate_def list_all_iff im_exact_iff)
qed

theorem im_validate_iff_witness: "im_validate [(5, 0), (9, 1), (7, 2)] im_example"
proof -
  have "enumerates [(5, 0), (9, 1), (7, 2)] (im_idIndex im_example)"
    by (auto simp: enumerates_def im_example_def im_insert_span_def im_insert_def newIndexManager_def
        Let_def default_entry_def fun_eq_iff)
  from im_validate_iff [OF this] im_example_exact show ?thesis by simp
qed

section \<open>Reading back\<close>

definition ie_wf :: "IndexEntry \<Rightarrow> bool" where
  "ie_wf e \<longleftrightarrow> length (ie_checksum e) = 32"

lemma length_serialize_IndexEntry: "ie_wf e \<Longrightarrow> 35 \<le> length (serialize_IndexEntry e)"
  using length_encode_pos [of "ie_entryId e"] length_encode_pos [of "ie_offset e"]
    length_encode_pos [of "ie_size e"]
  unfolding serialize_IndexEntry_def ie_wf_def length_append by linarith

text \<open>The offsets at which an entry decodes a varint: up to three, not its checksum.\<close>

definition entry_varints :: "byte list \<Rightarrow> nat \<Rightarrow> nat list" where
  "entry_varints data off =
     off # (case read_varint data off of
       Inr (Some (_, off1)) \<Rightarrow>
         off1 # (case read_varint data off1 of Inr (Some (_, off2)) \<Rightarrow> [off2] | _ \<Rightarrow> [])
     | _ \<Rightarrow> [])"

lemma read_IndexEntry_abort_iff:
  assumes "off \<le> length data"
  shows "read_IndexEntry data off = Inl e \<longleftrightarrow> e = Undefined_behaviour \<and> list_ex (overwide data) (entry_varints data off)"
proof -
  have other: "\<not> overwide data off" if "read_varint data off = Inr x" "off \<le> length data" for off x
    using read_varint_abort_iff [OF that(2)] that(1) by simp
  show ?thesis
    using assms
    by (auto simp: read_IndexEntry_def entry_varints_def bind_rd_eq_Inl read_varint_abort_iff
        dest: read_varint_bounds other split: sum.splits option.splits)
qed

interpretation ie: safe_codec read_IndexEntry entry_varints serialize_IndexEntry ie_wf
proof
  show "off \<le> off' \<and> off' \<le> length data"
    if "read_IndexEntry data off = Inr (Some (x, off'))" for data off x off'
    using that
    by (auto simp: read_IndexEntry_def bind_rd_eq_Some dest!: read_varint_bounds read_block_bounds)
  show "read_IndexEntry data off = Inl e \<longleftrightarrow> e = Undefined_behaviour \<and> list_ex (overwide data) (entry_varints data off)"
    if "off \<le> length data" for data off e
    by (rule read_IndexEntry_abort_iff [OF that])
  show "read_IndexEntry data off = Inr (Some (x, off + length (serialize_IndexEntry x)))"
    if "ie_wf x" "drop off data = serialize_IndexEntry x @ rest"
      "length data = off + length (serialize_IndexEntry x) + length rest" for x off data rest
    using that by (simp add: read_IndexEntry_def serialize_IndexEntry_def read_varint_def read_block_def
        ie_wf_def drop_add add.assoc del: drop_drop)
qed

lemma im_push_entries: "im_entries (foldl im_push m es) = im_entries m @ es"
  by (induction es arbitrary: m) (auto simp: im_push_def)

lemma im_push_other:
  "im_pathMap (foldl im_push m es) = im_pathMap m" "im_typeIndex (foldl im_push m es) = im_typeIndex m"
  by (induction es arbitrary: m) (auto simp: im_push_def)

lemma im_push_in_range: "im_in_range (foldl im_push newIndexManager es)"
proof (induction es rule: rev_induct)
  case (snoc e es)
  then show ?case
    by (auto simp: im_in_range_def im_push_def ran_def less_Suc_eq)
qed (simp add: im_in_range_def newIndexManager_def)

lemma im_push_exact: "distinct (map ie_entryId es) \<Longrightarrow> im_exact (foldl im_push newIndexManager es)"
proof (induction es rule: rev_induct)
  case (snoc e es)
  then have ex: "im_exact (foldl im_push newIndexManager es)" and ne: "ie_entryId e \<notin> ie_entryId ` set es"
    by auto
  have es: "im_entries (foldl im_push newIndexManager es) = es"
    by (simp add: im_push_entries newIndexManager_def)
  have "ie_entryId (es ! i) \<noteq> ie_entryId e" if "i < length es" for i
    using that ne by (metis image_eqI nth_mem)
  with ex show ?case
    unfolding im_exact_iff by (auto simp: im_push_def es nth_append less_Suc_eq)
qed (simp add: im_exact_def newIndexManager_def)

lemma im_exact_distinct: "im_exact m \<Longrightarrow> distinct (map ie_entryId (im_entries m))"
  unfolding distinct_conv_nth by (metis im_exact_iff length_map nth_map option.inject)

lemma im_exact_idIndex_eq:
  assumes "im_exact m" "im_exact m'" "im_entries m' = im_entries m"
  shows "im_idIndex m' = im_idIndex m"
proof
  fix k
  have "im_idIndex m' k = Some i \<longleftrightarrow> im_idIndex m k = Some i" for i
    using assms by (simp add: im_exact_iff)
  then show "im_idIndex m' k = im_idIndex m k"
    by (cases "im_idIndex m k"; cases "im_idIndex m' k") auto
qed

lemma length_concat_entries:
  "list_all ie_wf es \<Longrightarrow> 35 * length es \<le> length (concat (map serialize_IndexEntry es))"
proof (induction es)
  case (Cons e es)
  then show ?case
    using length_serialize_IndexEntry [of e] by auto
qed simp

lemma im_deserialize_serialized:
  assumes "list_all ie_wf (im_entries m)" "length (im_serialize m) < 2 ^ 63"
  shows "im_deserialize m0 (im_serialize m) = Inr (Success, (foldl im_push newIndexManager (im_entries m))\<lparr>im_sorted := False\<rparr>)"
proof -
  let ?es = "im_entries m" and ?data = "im_serialize m"
  let ?n = "encode (size64 (length ?es))"
  have "35 * length ?es \<le> length (concat (map serialize_IndexEntry ?es))"
    by (rule length_concat_entries [OF assms(1)])
  moreover have len: "length ?data = length ?n + length (concat (map serialize_IndexEntry ?es))"
    by (simp add: im_serialize_def)
  ultimately have le: "length ?es \<le> (length ?data - length ?n) div 35" "length ?es < 2 ^ 64"
    using assms(2) by (linarith, simp)
  have "read_upto read_IndexEntry (length ?es) ?data (length ?n) =
      Inr (?es, Some (length ?n + length (concat (map serialize_IndexEntry ?es))))"
    using assms by (intro ie.read_upto_enc [where rest = "[]"]) (auto simp: im_serialize_def)
  moreover have "read_varint ?data 0 = Inr (Some (size64 (length ?es), length ?n))"
    by (simp add: im_serialize_def read_varint_def)
  ultimately show ?thesis
    using le by (simp add: im_deserialize_def im_clear_def Let_def)
qed

text \<open>C12: deserialising the serialised index succeeds and restores the entries and the position
  table, so every lookup by identifier gives the same result; the path and type tables are not
  stored and come back empty.\<close>

theorem im_roundtrip:
  assumes "im_exact m" "list_all ie_wf (im_entries m)" "length (im_serialize m) < 2 ^ 63"
  shows "\<exists>m'. im_deserialize m0 (im_serialize m) = Inr (Success, m') \<and> im_exact m' \<and>
    im_entries m' = im_entries m \<and> (\<forall>k. im_findById m' k = im_findById m k) \<and>
    im_pathMap m' = Map.empty \<and> im_typeIndex m' = Map.empty"
proof -
  let ?es = "im_entries m" and ?data = "im_serialize m"
  have m': "im_deserialize m0 ?data =
      Inr (Success, (foldl im_push newIndexManager ?es)\<lparr>im_sorted := False\<rparr>)"
    by (rule im_deserialize_serialized [OF assms(2,3)])
  let ?m' = "(foldl im_push newIndexManager ?es)\<lparr>im_sorted := False\<rparr>"
  have ex: "im_exact ?m'"
    using im_push_exact [OF im_exact_distinct [OF assms(1)]] by (simp add: im_exact_def)
  have es: "im_entries ?m' = ?es"
    by (simp add: im_push_entries newIndexManager_def)
  have "im_findById ?m' k = im_findById m k" for k
    using im_exact_idIndex_eq [OF assms(1) ex es] es by (auto simp: im_findById_def split: option.split)
  with m' ex es show ?thesis
    by (auto simp: im_push_other newIndexManager_def)
qed

theorem im_roundtrip_witness:
  "\<exists>m'. im_deserialize newIndexManager (im_serialize im_example) = Inr (Success, m') \<and>
     im_findById m' 7 = im_findById im_example 7"
proof -
  have es: "im_entries im_example = map index_entry_of
     [default_entry\<lparr>ae_id := 5, ae_type := File, ae_offset := 50\<rparr>,
      default_entry\<lparr>ae_id := 9, ae_type := Directory, ae_offset := 90\<rparr>,
      default_entry\<lparr>ae_id := 7, ae_type := File, ae_offset := 70\<rparr>]"
    by (simp add: im_example_def im_insert_span_def im_insert_def newIndexManager_def Let_def)
  have sz: "length (encode v) < 11" for v
    using length_encode_le [of v] by simp
  have "length (im_serialize im_example) < 2 ^ 63"
    using sz [of "size64 (Suc (Suc (Suc 0)))"] sz [of 5] sz [of 50] sz [of 0] sz [of 9] sz [of 90] sz [of 7] sz [of 70]
    by (simp add: im_serialize_def es serialize_IndexEntry_def index_entry_of_def default_entry_def
        zero_checksum_def)
  moreover have "list_all ie_wf (im_entries im_example)"
    by (simp add: es ie_wf_def index_entry_of_def default_entry_def zero_checksum_def)
  ultimately show ?thesis
    using im_roundtrip [OF im_example_exact] by blast
qed

text \<open>The offsets at which \<^verbatim>\<open>deserialize\<close> decodes a varint: the count, and the varints of every entry it comes to.\<close>

definition index_varints :: "byte list \<Rightarrow> nat list" where
  "index_varints data =
     0 # (case read_varint data 0 of
       Inr (Some (count, off)) \<Rightarrow>
         if unat count > (length data - off) div 35 then []
         else upto_varints read_IndexEntry entry_varints (unat count) data off
     | _ \<Rightarrow> [])"

lemma im_deserialize_abort_iff:
  "im_deserialize m data = Inl e \<longleftrightarrow> e = Undefined_behaviour \<and> list_ex (overwide data) (index_varints data)"
proof (cases "read_varint data 0")
  case (Inl a)
  then have "a = Undefined_behaviour" "overwide data 0"
    using read_varint_abort_iff [of 0 data a] by auto
  with Inl show ?thesis
    by (auto simp: im_deserialize_def else_ret_eq_Inl index_varints_def)
next
  case (Inr o1)
  then have 0: "\<not> overwide data 0"
    using read_varint_abort_iff [of 0 data] by simp
  show ?thesis
  proof (cases o1)
    case (Some p)
    obtain count off where p: "p = (count, off)" by (cases p)
    then have "off \<le> length data"
      using read_varint_bounds [of data 0 count off] Inr Some by simp
    from ie.read_upto_abort_iff [OF this] 0 Inr Some p show ?thesis
      by (simp add: im_deserialize_def else_ret_eq_Inl index_varints_def bind_cpp_eq_Inl Let_def)
  qed (use Inr 0 in \<open>simp add: im_deserialize_def else_ret_eq_Inl index_varints_def\<close>)
qed

lemma im_deserialize_in_range: "im_deserialize m data = Inr (ec, m') \<Longrightarrow> im_in_range m'"
  using im_push_in_range im_push_in_range [of "[]"]
  by (auto simp: im_deserialize_def Let_def else_ret_eq_Inr bind_cpp_eq_Inr im_clear_def im_in_range_def
      split: if_splits option.splits)

text \<open>C13: On arbitrary input, \<^verbatim>\<open>deserialize\<close> reads out of bounds nowhere.  It is undefined exactly when one of the varints
  it decodes (the count, or one of the three of an entry it comes to; checksums are not decoded) is over-wide, ten
  bytes with the continuation bit and one more.  Otherwise it returns, and whether it accepts or
  refuses the input, every later lookup by identifier is in bounds.\<close>

theorem im_deserialize_safe:
  "(\<forall>e. im_deserialize m data = Inl e \<longleftrightarrow> e = Undefined_behaviour \<and> list_ex (overwide data) (index_varints data)) \<and>
   (\<forall>ec m'. im_deserialize m data = Inr (ec, m') \<longrightarrow> im_in_range m' \<and> (\<forall>k. defined (im_findById m' k)))"
proof (intro conjI allI impI)
  fix ec m' k
  assume "im_deserialize m data = Inr (ec, m')"
  then show "im_in_range m'" "defined (im_findById m' k)"
    using im_deserialize_in_range by (auto simp: im_findById_in_range)
qed (rule im_deserialize_abort_iff)

text \<open>An entry whose checksum consists of bytes with the continuation bit is read.\<close>

theorem im_deserialize_safe_witness:
  "\<exists>ec m'. im_deserialize im_example ([1, 5, 6, 7] @ replicate 32 0xFF) = Inr (ec, m') \<and> defined (im_findById m' 5)"
proof -
  let ?data = "[1, 5, 6, 7] @ replicate 32 0xFF"
  have "\<not> list_ex (overwide ?data) (index_varints ?data)" by code_simp
  with im_deserialize_safe [of im_example ?data] show ?thesis
    by (metis old.sum.exhaust surj_pair)
qed

text \<open>\<^verbatim>\<open>remove\<close> shifts the positions in the identifier table but not those in the type
  table: after removing the first of a file, a directory and a file, the files are looked up at
  a stale position past the end.\<close>

theorem im_remove_stale_types:
  "\<exists>m'. im_remove [] [(File, [0, 2]), (Directory, [1])] im_example 5 = Inr (True, m') \<and>
     im_findById m' 7 = im_findById im_example 7 \<and>
     im_findByType m' File = Inl Undefined_behaviour \<and>
     enumerates [(File, [0, 2]), (Directory, [1])] (im_typeIndex im_example)"
  by (auto simp: im_example_def im_insert_span_def im_insert_def newIndexManager_def Let_def default_entry_def
      im_remove_def im_findById_def shift_down_def im_findByType_def enumerates_def fun_eq_iff index_entry_of_def)

end
