(* ===== verification/Byte_Buffer.thy ===== *)
theory Byte_Buffer
  imports VarInt
begin

text \<open>
  \<^verbatim>\<open>src/utils/Buffer.cpp\<close>: the growable byte buffer, its bounds check, its little-endian
  and varint accessors and its hexadecimal rendering.  The bounds check adds position and
  length in \<^verbatim>\<open>size_t\<close>, so it is modelled modulo \<open>2 ^ 64\<close>: a wrapped sum passes the check and
  the access that follows is undefined.

  The little-endian conversions also serve the records that the library copies to and from
  memory with \<^verbatim>\<open>memcpy\<close> on a little-endian machine.
\<close>

unbundle bit_operations_syntax

section \<open>Little-endian integers\<close>

text \<open>The loops of \<^verbatim>\<open>writeLE\<close> and \<^verbatim>\<open>readLE\<close>, byte by byte from the lowest; \<open>n\<close> is
  \<^verbatim>\<open>sizeof(T)\<close>.\<close>

fun to_le :: "nat \<Rightarrow> 'a::len word \<Rightarrow> byte list" where
  "to_le 0 w = []"
| "to_le (Suc n) w = ucast w # to_le n (drop_bit 8 w)"

fun from_le :: "byte list \<Rightarrow> 'a::len word" where
  "from_le [] = 0"
| "from_le (b # bs) = ucast b OR push_bit 8 (from_le bs)"

section \<open>The buffer\<close>

type_synonym Buffer = "byte list"

definition checkBounds :: "Buffer \<Rightarrow> nat \<Rightarrow> nat \<Rightarrow> unit cpp" where
  "checkBounds buf pos len =
     (if (pos + len) mod 2 ^ 64 > length buf then Inl Out_of_range_exn else Inr ())"

text \<open>The bytes from \<open>pos\<close> on, \<open>len\<close> of them, through a raw pointer.\<close>

definition raw_range :: "Buffer \<Rightarrow> nat \<Rightarrow> nat \<Rightarrow> byte list cpp" where
  "raw_range buf pos len =
     (if pos + len > length buf then Inl Undefined_behaviour else Inr (take len (drop pos buf)))"

definition buf_write_byte :: "Buffer \<Rightarrow> byte \<Rightarrow> Buffer" where
  "buf_write_byte buf b = buf @ [b]"

definition buf_write :: "Buffer \<Rightarrow> byte list \<Rightarrow> Buffer" where
  "buf_write buf bs = (if length bs = 0 then buf else buf @ bs)"

definition buf_writeAt :: "Buffer \<Rightarrow> nat \<Rightarrow> byte list \<Rightarrow> Buffer cpp" where
  "buf_writeAt buf pos bs =
     bind_cpp (checkBounds buf pos (length bs)) (\<lambda>_.
     bind_cpp (raw_range buf pos (length bs)) (\<lambda>_.
     Inr (take pos buf @ bs @ drop (pos + length bs) buf)))"

definition buf_readByte :: "Buffer \<Rightarrow> nat \<Rightarrow> byte cpp" where
  "buf_readByte buf pos = bind_cpp (checkBounds buf pos 1) (\<lambda>_. vec_at buf pos)"

definition buf_read :: "Buffer \<Rightarrow> nat \<Rightarrow> nat \<Rightarrow> byte list cpp" where
  "buf_read buf pos len = bind_cpp (checkBounds buf pos len) (\<lambda>_. raw_range buf pos len)"

definition buf_view :: "Buffer \<Rightarrow> nat \<Rightarrow> nat \<Rightarrow> byte list cpp" where
  "buf_view buf pos len = bind_cpp (checkBounds buf pos len) (\<lambda>_. raw_range buf pos len)"

definition buf_slice :: "Buffer \<Rightarrow> nat \<Rightarrow> nat \<Rightarrow> Buffer cpp" where
  "buf_slice buf pos len = bind_cpp (checkBounds buf pos len) (\<lambda>_. raw_range buf pos len)"

definition buf_append :: "Buffer \<Rightarrow> Buffer \<Rightarrow> Buffer" where
  "buf_append buf other = buf_write buf other"

definition buf_writeLE :: "nat \<Rightarrow> Buffer \<Rightarrow> 'a::len word \<Rightarrow> Buffer" where
  "buf_writeLE n buf v = buf_write buf (to_le n v)"

definition buf_readLE :: "nat \<Rightarrow> Buffer \<Rightarrow> nat \<Rightarrow> 'a::len word cpp" where
  "buf_readLE n buf pos =
     (if (pos + n) mod 2 ^ 64 > length buf then Inl Out_of_range_exn
      else bind_cpp (raw_range buf pos n) (\<lambda>bs. Inr (from_le bs)))"

definition buf_writeVarInt :: "Buffer \<Rightarrow> u64 \<Rightarrow> Buffer" where
  "buf_writeVarInt buf v = buf @ encode v"

text \<open>The loop of \<^verbatim>\<open>readVarInt\<close>: value and number of bytes passed over.  It stops once the shift
  reaches 64, so no shift is too wide, and gives no sign of an unterminated number.\<close>

fun readVarInt_loop :: "byte list \<Rightarrow> u64 \<Rightarrow> nat \<Rightarrow> nat \<Rightarrow> u64 \<times> nat" where
  "readVarInt_loop [] val shift i = (val, i)"
| "readVarInt_loop (b # bs) val shift i =
     (let val' = val OR push_bit shift (ucast (b AND 0x7F)) in
      if b AND 0x80 = 0 then (val', Suc i)
      else if shift + 7 \<ge> 64 then (val', Suc i)
      else readVarInt_loop bs val' (shift + 7) (Suc i))"

definition buf_readVarInt :: "Buffer \<Rightarrow> nat \<Rightarrow> u64 \<times> nat" where
  "buf_readVarInt buf pos = readVarInt_loop (drop pos buf) 0 0 0"

definition buf_toString :: "Buffer \<Rightarrow> string" where
  "buf_toString buf = string_of_bytes buf"

definition hex_digit :: "nat \<Rightarrow> char" where
  "hex_digit n = (if n < 10 then char_of (48 + n) else char_of (87 + n))"

text \<open>\<^verbatim>\<open>std::hex\<close>, \<^verbatim>\<open>setfill('0')\<close>, \<^verbatim>\<open>setw(2)\<close>.\<close>

definition hex_byte :: "byte \<Rightarrow> string" where
  "hex_byte b = [hex_digit (unat b div 16), hex_digit (unat b mod 16)]"

definition buf_toHexString :: "Buffer \<Rightarrow> string" where
  "buf_toHexString buf = concat (map hex_byte buf)"

section \<open>Lemmas\<close>

lemma length_to_le [simp]: "length (to_le n w) = n"
  by (induction n arbitrary: w) auto

lemma from_le_to_le: "from_le (to_le n w) = take_bit (8 * n) w"
proof (induction n arbitrary: w)
  case (Suc n)
  have "(from_le (to_le (Suc n) w) :: 'a word) = ucast (ucast w :: byte) OR push_bit 8 (take_bit (8 * n) (drop_bit 8 w))"
    using Suc by simp
  also have "\<dots> = take_bit (8 * Suc n) w"
    by (rule bit_word_eqI) (auto simp: bit_simps)
  finally show ?case .
qed simp

lemma from_le_to_le_full: "LENGTH('a) = 8 * n \<Longrightarrow> from_le (to_le n (w :: 'a::len word)) = w"
  by (simp add: from_le_to_le take_bit_word_eq_self)

lemma from_le_to_le_u64 [simp]: "from_le (to_le 8 (w :: u64)) = w"
  by (rule from_le_to_le_full) simp

lemma from_le_to_le_u32 [simp]: "from_le (to_le 4 (w :: u32)) = w"
  by (rule from_le_to_le_full) simp

lemma from_le_to_le_u16 [simp]: "from_le (to_le 2 (w :: u16)) = w"
  by (rule from_le_to_le_full) simp

lemma bit_from_le: "bit (from_le bs :: 'a::len word) n \<Longrightarrow> n < 8 * length bs"
proof (induction bs arbitrary: n)
  case (Cons b bs)
  then show ?case
    by (auto simp: bit_simps dest!: bit_imp_le_length [where ?'a = 8] Cons.IH)
qed simp

lemma to_le_from_le: "8 * length bs \<le> LENGTH('a) \<Longrightarrow> to_le (length bs) (from_le bs :: 'a::len word) = bs"
proof (induction bs)
  case (Cons b bs)
  have "(ucast (from_le (b # bs) :: 'a word) :: byte) = b"
    using Cons.prems by (intro bit_word_eqI) (auto simp: bit_simps)
  moreover have "drop_bit 8 (from_le (b # bs) :: 'a word) = take_bit (LENGTH('a) - 8) (from_le bs)"
    using Cons.prems by (intro bit_word_eqI) (auto simp: bit_simps dest: bit_imp_le_length)
  moreover have "take_bit (LENGTH('a) - 8) (from_le bs :: 'a word) = from_le bs"
    using Cons.prems by (intro bit_word_eqI) (auto simp: bit_simps dest: bit_from_le)
  ultimately show ?case
    using Cons by simp
qed simp

lemma readVarInt_loop_encode:
  "s < 64 \<Longrightarrow> unat v < 2 ^ (64 - s) \<Longrightarrow>
   readVarInt_loop (encode v @ rest) acc s i = (acc OR push_bit s v, i + length (encode v))"
proof (induction v arbitrary: acc s i rule: encode.induct)
  case (1 v)
  show ?case
  proof (cases "drop_bit 7 v = 0")
    case True
    have "encode v = [ucast (v AND 0x7F)]"
      using True by (subst encode.simps) simp
    then have "readVarInt_loop (encode v @ rest) acc s i = (acc OR push_bit s (v AND 0x7F), Suc i)"
      by (simp only: append.simps readVarInt_loop.simps byte_facts Let_def) simp
    with \<open>encode v = _\<close> show ?thesis
      by (simp add: and_mask_7_small [OF True])
  next
    case False
    let ?v = "drop_bit 7 v"
    have enc: "encode v = (ucast (v AND 0x7F) OR 0x80) # encode ?v"
      using False by (subst encode.simps) (simp add: Let_def)
    note s = shift_room [OF False 1(3)]
    show ?thesis
      using 1(1) [OF refl refl False s] s(1)
      by (simp add: enc byte_facts Let_def or_assoc_push_bit del: push_bit_and)
  qed
qed

section \<open>Properties\<close>

text \<open>An integer written with \<^verbatim>\<open>writeLE\<close> is read back by \<^verbatim>\<open>readLE\<close> at the position where
  the buffer ended, for every width that is a whole number of bytes, and a varint written with
  \<^verbatim>\<open>writeVarInt\<close> by \<^verbatim>\<open>readVarInt\<close>, which advances by its encoded size.\<close>

theorem buffer_read_write:
  assumes "LENGTH('a) = 8 * n" "length buf + n < 2 ^ 64"
  shows "buf_readLE n (buf_writeLE n buf (v :: 'a::len word) @ rest) (length buf) = Inr v \<and>
    buf_readVarInt (buf_writeVarInt buf w @ rest) (length buf) = (w, encodedSize w)"
proof
  have "0 < n"
    using assms(1) len_gt_0 [where ?'a = 'a] by (cases n) auto
  then show "buf_readLE n (buf_writeLE n buf v @ rest) (length buf) = Inr v"
    using assms by (simp add: buf_readLE_def buf_writeLE_def buf_write_def raw_range_def from_le_to_le_full)
  show "buf_readVarInt (buf_writeVarInt buf w @ rest) (length buf) = (w, encodedSize w)"
    using readVarInt_loop_encode [of 0 w rest 0 0] unsigned_less [of w, where ?'a = nat]
    by (simp add: buf_readVarInt_def buf_writeVarInt_def encodedSize_length)
qed

theorem buffer_read_write_witness:
  "buf_readLE 4 (buf_writeLE 4 [9] (0xDEADBEEF :: u32) @ [7]) 1 = Inr (0xDEADBEEF :: u32) \<and>
   buf_readVarInt (buf_writeVarInt [9] 300 @ [7]) 1 = (300, encodedSize 300)"
  using buffer_read_write [of 4 "[9]" "0xDEADBEEF :: u32" "[7]" 300] by simp

text \<open>Every positioned access of the buffer (\<^verbatim>\<open>read\<close>, \<^verbatim>\<open>view\<close>, \<^verbatim>\<open>slice\<close>) at a
  \<^verbatim>\<open>size_t\<close> position and length yields exactly the bytes asked for when they lie in the buffer,
  and throws otherwise, except when position plus length wraps to at most the buffer's size:
  then the check passes and the access is out of bounds.\<close>

theorem buffer_access:
  assumes "pos < 2 ^ 64" "len < 2 ^ 64" "length buf < 2 ^ 64"
  shows "buf_read buf pos len =
      (if pos + len \<le> length buf then Inr (take len (drop pos buf))
       else if 2 ^ 64 \<le> pos + len \<and> pos + len - 2 ^ 64 \<le> length buf then Inl Undefined_behaviour
       else Inl Out_of_range_exn) \<and>
    buf_view buf pos len = buf_read buf pos len \<and> buf_slice buf pos len = buf_read buf pos len"
proof -
  have "(pos + len) mod 2 ^ 64 = (if pos + len < 2 ^ 64 then pos + len else pos + len - 2 ^ 64)"
    using assms by (simp add: mod_if)
  then show ?thesis
    using assms(3) by (auto simp: buf_read_def buf_view_def buf_slice_def checkBounds_def raw_range_def)
qed

theorem buffer_access_witness:
  "buf_read [1, 2, 3] 1 2 = Inr [2, 3] \<and> buf_read [1, 2, 3] 1 (2 ^ 64 - 1) = Inl Undefined_behaviour"
  using buffer_access [of 1 2 "[1, 2, 3]"] buffer_access [of 1 "2 ^ 64 - 1" "[1, 2, 3]"] by simp

end
