(* ===== verification/Checksum_Engine.thy ===== *)
theory Checksum_Engine
  imports Core_Types Byte_Buffer
begin

text \<open>
  \<^verbatim>\<open>src/utils/Checksum.cpp\<close>: the incremental checksum engine.  The digests themselves
  (OpenSSL or the bundled SHA-256) are the parameter \<open>digest\<close>, a function of the algorithm and
  the bytes absorbed.  The context is \<open>Some\<close> of the bytes absorbed so far, or \<open>None\<close> for the
  null pointer.  No context is ever created for CRC32, which makes every CRC32 checksum of the
  engine the zero value.  The model is that of the build with the bundled digests, and of every
  algorithm but \<^verbatim>\<open>Blake3\<close> with OpenSSL, whose BLAKE2b has 64 bytes of output and does not fit into
  the value.
\<close>

type_synonym digest_fn = "HashAlgorithm \<Rightarrow> byte list \<Rightarrow> ChecksumValue"

record ChecksumEngine =
  ce_algo :: HashAlgorithm
  ce_ctx :: "byte list option"

definition ce_initContext :: "ChecksumEngine \<Rightarrow> ChecksumEngine" where
  "ce_initContext e =
     (if ce_algo e = SHA256 \<or> ce_algo e = Blake3 then e\<lparr>ce_ctx := Some []\<rparr> else e)"

definition newChecksumEngine :: "HashAlgorithm \<Rightarrow> ChecksumEngine" where
  "newChecksumEngine algo = ce_initContext \<lparr>ce_algo = algo, ce_ctx = None\<rparr>"

definition ce_destroyContext :: "ChecksumEngine \<Rightarrow> ChecksumEngine" where
  "ce_destroyContext e = e\<lparr>ce_ctx := None\<rparr>"

definition ce_reset :: "ChecksumEngine \<Rightarrow> ChecksumEngine" where
  "ce_reset e = ce_initContext (ce_destroyContext e)"

definition ce_update :: "byte list \<Rightarrow> ChecksumEngine \<Rightarrow> ChecksumEngine" where
  "ce_update bs e =
     (case ce_ctx e of
        None \<Rightarrow> e
      | Some absorbed \<Rightarrow> if length bs > 0 then e\<lparr>ce_ctx := Some (absorbed @ bs)\<rparr> else e)"

text \<open>This is the result wherever the digest has the 32 bytes of the value.  \<^verbatim>\<open>Blake3\<close> with OpenSSL is excluded: there
  \<^verbatim>\<open>finalize\<close> lets BLAKE2b-512 write 64 bytes into the array of 32, which is undefined, and no statement of
  the development applies to it.\<close>

definition ce_finalize :: "digest_fn \<Rightarrow> ChecksumEngine \<Rightarrow> ChecksumValue" where
  "ce_finalize digest e =
     (case ce_ctx e of None \<Rightarrow> zero_checksum | Some absorbed \<Rightarrow> digest (ce_algo e) absorbed)"

definition ce_compute :: "digest_fn \<Rightarrow> HashAlgorithm \<Rightarrow> byte list \<Rightarrow> ChecksumValue" where
  "ce_compute digest algo bs = ce_finalize digest (ce_update bs (newChecksumEngine algo))"

definition ce_compute_buffers :: "digest_fn \<Rightarrow> HashAlgorithm \<Rightarrow> byte list list \<Rightarrow> ChecksumValue" where
  "ce_compute_buffers digest algo bufs = ce_finalize digest (fold ce_update bufs (newChecksumEngine algo))"

definition ce_verify :: "digest_fn \<Rightarrow> HashAlgorithm \<Rightarrow> byte list \<Rightarrow> ChecksumValue \<Rightarrow> bool" where
  "ce_verify digest algo bs expected \<longleftrightarrow> ce_compute digest algo bs = expected"

definition ce_toHex :: "ChecksumValue \<Rightarrow> string" where
  "ce_toHex digest_bytes = concat (map hex_byte digest_bytes)"

text \<open>\<^verbatim>\<open>std::stoul(sub, nullptr, 16)\<close>: white space, a sign, an optional \<^verbatim>\<open>0x\<close>, digits; no digits
  throw \<^verbatim>\<open>std::invalid_argument\<close>.  Two characters cannot overflow.\<close>

definition hex_value :: "char \<Rightarrow> nat option" where
  "hex_value c =
     (let n = of_char c :: nat in
      if 48 \<le> n \<and> n \<le> 57 then Some (n - 48)
      else if 97 \<le> n \<and> n \<le> 102 then Some (n - 87)
      else if 65 \<le> n \<and> n \<le> 70 then Some (n - 55)
      else None)"

definition is_space :: "char \<Rightarrow> bool" where
  "is_space c \<longleftrightarrow> (let n = of_char c :: nat in n = 32 \<or> (9 \<le> n \<and> n \<le> 13))"

fun hex_digits :: "string \<Rightarrow> nat \<Rightarrow> nat" where
  "hex_digits [] acc = acc"
| "hex_digits (c # cs) acc =
     (case hex_value c of None \<Rightarrow> acc | Some d \<Rightarrow> hex_digits cs (16 * acc + d))"

definition strip_0x :: "string \<Rightarrow> string" where
  "strip_0x s =
     (case s of
        a # b # c # _ \<Rightarrow> if a = CHR ''0'' \<and> (b = CHR ''x'' \<or> b = CHR ''X'') \<and> hex_value c \<noteq> None
                       then drop 2 s else s
      | _ \<Rightarrow> s)"

definition stoul16 :: "string \<Rightarrow> u64 option" where
  "stoul16 s =
     (let s = dropWhile is_space s;
          neg = (s \<noteq> [] \<and> hd s = CHR ''-'');
          s = (if s \<noteq> [] \<and> (hd s = CHR ''-'' \<or> hd s = CHR ''+'') then tl s else s);
          s = strip_0x s in
      if s = [] \<or> hex_value (hd s) = None then None
      else Some (if neg then - size64 (hex_digits s 0) else size64 (hex_digits s 0)))"

text \<open>The loop of \<^verbatim>\<open>fromHex\<close> over pairs of characters.\<close>

fun fromHex_pairs :: "string \<Rightarrow> byte list cpp" where
  "fromHex_pairs (a # b # cs) =
     (case stoul16 [a, b] of
        None \<Rightarrow> Inl Invalid_argument_exn
      | Some v \<Rightarrow> bind_cpp (fromHex_pairs cs) (\<lambda>bs. Inr (ucast v # bs)))"
| "fromHex_pairs _ = Inr []"

definition ce_fromHex :: "string \<Rightarrow> ChecksumValue cpp" where
  "ce_fromHex hex = (if length hex \<noteq> 64 then Inr zero_checksum else fromHex_pairs hex)"

section \<open>Lemmas\<close>

lemma ce_crc32_no_ctx: "ce_ctx (fold ce_update bufs (newChecksumEngine CRC32)) = None"
proof -
  have "ce_ctx e = None \<Longrightarrow> ce_ctx (fold ce_update bufs e) = None" for e
    by (induction bufs arbitrary: e) (auto simp: ce_update_def)
  then show ?thesis
    by (simp add: newChecksumEngine_def ce_initContext_def)
qed

lemma ce_update_ctx: "ce_ctx e = Some a \<Longrightarrow> ce_update bs e = e\<lparr>ce_ctx := Some (a @ bs)\<rparr>"
  by (simp add: ce_update_def)

lemma ce_fold_update: "ce_ctx e = Some a \<Longrightarrow> fold ce_update bufs e = e\<lparr>ce_ctx := Some (a @ concat bufs)\<rparr>"
  by (induction bufs arbitrary: e a) (auto simp: ce_update_ctx)

text \<open>Hashing buffers one after the other gives the digest of their concatenation for the
  two algorithms that have a context, and the all-zero value for CRC32, whatever the data.\<close>

theorem checksum_streaming:
  "ce_compute_buffers digest algo bufs =
     (if algo = CRC32 then zero_checksum else digest algo (concat bufs))"
proof (cases algo)
  case CRC32
  then show ?thesis
    by (simp add: ce_compute_buffers_def ce_finalize_def ce_crc32_no_ctx)
qed (auto simp: ce_compute_buffers_def ce_finalize_def newChecksumEngine_def ce_initContext_def
      ce_fold_update [where a = "[]"])

lemma ce_compute_eq: "ce_compute digest algo bs = (if algo = CRC32 then zero_checksum else digest algo bs)"
  by (cases algo) (auto simp: ce_compute_def ce_finalize_def newChecksumEngine_def ce_initContext_def
      ce_update_def)

lemma hex_value_digit: "n < 16 \<Longrightarrow> hex_value (hex_digit n) = Some n"
proof -
  assume "n < 16"
  then consider "n < 10" | "10 \<le> n" "n < 16" by linarith
  then show ?thesis
    by cases (auto simp: hex_value_def hex_digit_def Let_def of_char_of)
qed

lemma hex_digit_special:
  assumes "n < 16"
  shows "\<not> is_space (hex_digit n)" "hex_digit n \<noteq> CHR ''-''" "hex_digit n \<noteq> CHR ''+''"
  using hex_value_digit [OF assms] by (auto simp: is_space_def hex_value_def Let_def split: if_splits)

lemma ucast_byte_u64 [simp]: "ucast (ucast b :: u64) = (b :: byte)"
  by (rule bit_word_eqI) (simp add: bit_simps)

lemma stoul16_hex_byte: "stoul16 (hex_byte b) = Some (ucast b)"
proof -
  have b: "unat b < 256"
    using unsigned_less [of b, where ?'a = nat] by simp
  let ?h = "unat b div 16" and ?l = "unat b mod 16"
  have hl: "?h < 16" "?l < 16"
    using b by auto
  have "hex_digits (hex_byte b) 0 = unat b"
    by (simp add: hex_byte_def hex_value_digit hl)
  moreover have "size64 (unat b) = ucast b"
    by (simp add: size64_def of_nat_unat)
  ultimately show ?thesis
    using hl by (simp add: stoul16_def hex_byte_def hex_value_digit hex_digit_special strip_0x_def Let_def)
qed

text \<open>Parsing the hexadecimal rendering of a 32-byte checksum gives back the checksum.\<close>

theorem checksum_hex_roundtrip:
  assumes "length digest_bytes = 32"
  shows "ce_fromHex (ce_toHex digest_bytes) = Inr digest_bytes"
proof -
  have "fromHex_pairs (concat (map hex_byte bs)) = Inr bs" for bs
  proof (induction bs)
    case (Cons b bs)
    then show ?case
      using stoul16_hex_byte [of b] by (simp add: hex_byte_def)
  qed simp
  moreover have "length (concat (map hex_byte bs)) = 2 * length bs" for bs
    by (induction bs) (auto simp: hex_byte_def)
  ultimately show ?thesis
    using assms by (simp add: ce_fromHex_def ce_toHex_def)
qed

theorem checksum_hex_roundtrip_witness:
  "ce_fromHex (ce_toHex (replicate 32 0xA7)) = Inr (replicate 32 0xA7)"
  by (rule checksum_hex_roundtrip) simp

end
