(* ===== verification/Journal.thy ===== *)
theory Journal
  imports Checksum_Engine Record_Codec
begin

text \<open>
  \<^verbatim>\<open>src/filesystem/JournalManager.cpp\<close> and \<^verbatim>\<open>Recovery.cpp\<close>: the write-ahead journal as a
  state machine, its binary form, and recovery.

  The clock is the argument \<open>now\<close> of the operations that create an entry, the digest the
  argument \<open>digest\<close>.  \<^verbatim>\<open>writeToFile\<close> is empty in the source (it returns success without
  writing), so the file descriptor has no part in the state.  The callback \<^verbatim>\<open>applyEntry\<close> of
  recovery is a state transformer over an arbitrary state that returns an error message or none.

  Shown: invariants of the runs of the journal (size accounting in every run; sequence numbers, checkpoint
  nesting and agreement with replay where the journal makes its entries itself), the binary form, which
  entries recovery applies, and that integrity checking does not depend on the entries' content.
\<close>

section \<open>State and operations\<close>

record JournalConfig =
  jc_maxJournalSize :: nat
  jc_enableChecksums :: bool

record JournalManager =
  jm_config :: JournalConfig
  jm_entries :: "JournalEntry list"
  jm_sequence :: u64
  jm_total :: u64
  jm_inCheckpoint :: bool
  jm_needsRecovery :: bool

definition newJournalManager :: "JournalConfig \<Rightarrow> JournalManager" where
  "newJournalManager config =
     \<lparr>jm_config = config, jm_entries = [], jm_sequence = 0, jm_total = 0, jm_inCheckpoint = False,
      jm_needsRecovery = False\<rparr>"

definition createEntry ::
  "Timestamp \<Rightarrow> JournalEntryType \<Rightarrow> byte list \<Rightarrow> JournalManager \<Rightarrow> JournalEntry \<times> JournalManager" where
  "createEntry now ty bs j =
     (\<lparr>je_type = ty, je_sequence = jm_sequence j, je_timestamp = now, je_data = bs,
       je_checksum = zero_checksum\<rparr>,
      j\<lparr>jm_sequence := jm_sequence j + 1\<rparr>)"

definition entry_checksum :: "digest_fn \<Rightarrow> JournalEntry \<Rightarrow> ChecksumValue" where
  "entry_checksum digest e =
     ce_finalize digest
       (ce_update (je_data e)
         (ce_update (to_le 8 (je_sequence e))
           (ce_update [journal_type_to_byte (je_type e)] (ce_reset (newChecksumEngine CRC32)))))"

definition jm_push :: "JournalEntry \<Rightarrow> JournalManager \<Rightarrow> JournalManager" where
  "jm_push e j = j\<lparr>jm_entries := jm_entries j @ [e]\<rparr>"

definition beginCheckpoint :: "Timestamp \<Rightarrow> JournalManager \<Rightarrow> ErrorCode \<times> JournalManager" where
  "beginCheckpoint now j =
     (if jm_inCheckpoint j then (InvalidOperation, j)
      else
        let (entry, j) = createEntry now BeginCheckpoint [] j in
        (Success, (jm_push entry j)\<lparr>jm_inCheckpoint := True, jm_needsRecovery := True\<rparr>))"

definition endCheckpoint :: "Timestamp \<Rightarrow> JournalManager \<Rightarrow> ErrorCode \<times> JournalManager" where
  "endCheckpoint now j =
     (if \<not> jm_inCheckpoint j then (InvalidOperation, j)
      else
        let (entry, j) = createEntry now EndCheckpoint [] j in
        (Success, (jm_push entry j)\<lparr>jm_inCheckpoint := False\<rparr>))"

definition isJournalFull :: "JournalManager \<Rightarrow> bool" where
  "isJournalFull j \<longleftrightarrow> unat (jm_total j) \<ge> jc_maxJournalSize (jm_config j)"

definition jm_log :: "digest_fn \<Rightarrow> JournalEntry \<Rightarrow> JournalManager \<Rightarrow> ErrorCode \<times> JournalManager" where
  "jm_log digest entry j =
     (if isJournalFull j then (JournalFull, j)
      else
        let entry = (if jc_enableChecksums (jm_config j)
                     then entry\<lparr>je_checksum := entry_checksum digest entry\<rparr> else entry) in
        (Success, (jm_push entry j)\<lparr>jm_total := jm_total j + size64 (length (je_data entry))\<rparr>))"

definition jm_log_new ::
  "digest_fn \<Rightarrow> Timestamp \<Rightarrow> JournalEntryType \<Rightarrow> byte list \<Rightarrow> JournalManager \<Rightarrow> ErrorCode \<times> JournalManager" where
  "jm_log_new digest now ty bs j = (let (entry, j) = createEntry now ty bs j in jm_log digest entry j)"

definition logCreate ::
  "digest_fn \<Rightarrow> Timestamp \<Rightarrow> EntryID \<Rightarrow> byte list \<Rightarrow> JournalManager \<Rightarrow> ErrorCode \<times> JournalManager" where
  "logCreate digest now eid bs j = jm_log_new digest now CreateEntry (encode eid @ bs) j"

definition logUpdate ::
  "digest_fn \<Rightarrow> Timestamp \<Rightarrow> EntryID \<Rightarrow> byte list \<Rightarrow> JournalManager \<Rightarrow> ErrorCode \<times> JournalManager" where
  "logUpdate digest now eid bs j = jm_log_new digest now UpdateEntry (encode eid @ bs) j"

definition logDelete ::
  "digest_fn \<Rightarrow> Timestamp \<Rightarrow> EntryID \<Rightarrow> JournalManager \<Rightarrow> ErrorCode \<times> JournalManager" where
  "logDelete digest now eid j = jm_log_new digest now DeleteEntry (encode eid) j"

definition logWriteBlock ::
  "digest_fn \<Rightarrow> Timestamp \<Rightarrow> ChunkDescriptor \<Rightarrow> JournalManager \<Rightarrow> ErrorCode \<times> JournalManager" where
  "logWriteBlock digest now chunk j =
     jm_log_new digest now WriteBlock
       (cd_hash chunk @ encode (cd_offset chunk) @ encode (cd_compressedSize chunk) @
        encode (cd_originalSize chunk)) j"

definition jm_commit :: "Timestamp \<Rightarrow> JournalManager \<Rightarrow> ErrorCode \<times> JournalManager" where
  "jm_commit now j =
     (let j = (if jm_inCheckpoint j
               then let (endEntry, j) = createEntry now EndCheckpoint [] j in
                    (jm_push endEntry j)\<lparr>jm_inCheckpoint := False\<rparr>
               else j);
          (entry, j) = createEntry now Commit [] j in
      (Success, (jm_push entry j)\<lparr>jm_needsRecovery := False\<rparr>))"

definition jm_abort :: "Timestamp \<Rightarrow> JournalManager \<Rightarrow> ErrorCode \<times> JournalManager" where
  "jm_abort now j =
     (let (entry, j) = createEntry now Abort [] j in
      (Success, (jm_push entry j)\<lparr>jm_inCheckpoint := False, jm_needsRecovery := True\<rparr>))"

definition jm_recover :: "JournalManager \<Rightarrow> ErrorCode \<times> JournalManager" where
  "jm_recover j =
     (if \<not> jm_needsRecovery j then (Success, j) else (Success, j\<lparr>jm_needsRecovery := False\<rparr>))"

definition replayEntry :: "JournalEntry \<Rightarrow> JournalManager \<Rightarrow> ErrorCode \<times> JournalManager" where
  "replayEntry e j =
     (Success,
      case je_type e of
        BeginCheckpoint \<Rightarrow> j\<lparr>jm_inCheckpoint := True\<rparr>
      | EndCheckpoint \<Rightarrow> j\<lparr>jm_inCheckpoint := False\<rparr>
      | Commit \<Rightarrow> j\<lparr>jm_inCheckpoint := False\<rparr>
      | Abort \<Rightarrow> j\<lparr>jm_inCheckpoint := False\<rparr>
      | _ \<Rightarrow> j)"

definition jm_hasUncommitted :: "JournalManager \<Rightarrow> bool" where
  "jm_hasUncommitted j \<longleftrightarrow> jm_inCheckpoint j"

definition jm_clear :: "JournalManager \<Rightarrow> JournalManager" where
  "jm_clear j = j\<lparr>jm_entries := [], jm_sequence := 0, jm_total := 0, jm_inCheckpoint := False,
     jm_needsRecovery := False\<rparr>"

definition verifyIntegrity :: "digest_fn \<Rightarrow> JournalManager \<Rightarrow> bool" where
  "verifyIntegrity digest j \<longleftrightarrow> list_all (\<lambda>e. entry_checksum digest e = je_checksum e) (jm_entries j)"

section \<open>The binary form\<close>

definition serialize_JournalEntry :: "JournalEntry \<Rightarrow> byte list" where
  "serialize_JournalEntry e =
     [journal_type_to_byte (je_type e)] @ encode (je_sequence e) @
     to_le 8 (ts_seconds (je_timestamp e)) @ to_le 4 (ts_nanos (je_timestamp e)) @
     encode (size64 (length (je_data e))) @ je_data e @ je_checksum e"

definition jm_serialize :: "JournalManager \<Rightarrow> byte list" where
  "jm_serialize j =
     encode (jm_sequence j) @ encode (size64 (length (jm_entries j))) @
     concat (map serialize_JournalEntry (jm_entries j))"

text \<open>The sum \<^verbatim>\<open>offset + dataSize + 32\<close> wraps; when it does and still passes the test, the
  range given to \<^verbatim>\<open>assign\<close> ends before it begins.\<close>

definition read_JournalEntry :: "byte list \<Rightarrow> nat \<Rightarrow> (JournalEntry \<times> nat) rd" where
  "read_JournalEntry data off =
     bind_rd (need_more data off) (\<lambda>_.
     bind_rd (read_block data off 1) (\<lambda>(ty, off).
     bind_rd (read_varint data off) (\<lambda>(sq, off).
     bind_rd (read_block data off 12) (\<lambda>(ts, off).
     bind_rd (read_varint data off) (\<lambda>(dataSize, off).
     if (off + unat dataSize + 32) mod 2 ^ 64 > length data then Inr None
     else if off + unat dataSize + 32 > length data then Inl Undefined_behaviour
     else
       let bs = take (unat dataSize) (drop off data); off = off + unat dataSize in
       Inr (Some (\<lparr>je_type = journal_type_of_byte (hd ty), je_sequence = sq,
                   je_timestamp = \<lparr>ts_seconds = from_le (take 8 ts), ts_nanos = from_le (drop 8 ts)\<rparr>,
                   je_data = bs, je_checksum = take 32 (drop off data)\<rparr>, off + 32)))))))"

definition jm_deserialize :: "JournalManager \<Rightarrow> byte list \<Rightarrow> (ErrorCode \<times> JournalManager) cpp" where
  "jm_deserialize j data =
     (let j = jm_clear j in
      else_ret (read_varint data 0) (JournalCorrupt, j) (\<lambda>(sq, off).
      let j = j\<lparr>jm_sequence := sq\<rparr> in
      else_ret (read_varint data off) (JournalCorrupt, j) (\<lambda>(count, off).
      bind_cpp (read_upto read_JournalEntry (unat count) data off) (\<lambda>(es, _).
      Inr (Success, j\<lparr>jm_entries := es,
                      jm_total := size64 (sum_list (map (\<lambda>e. length (je_data e)) es))\<rparr>)))))"

section \<open>Recovery\<close>

datatype RecoveryStrategy = Automatic | Manual | BestEffort

record RecoveryConfig =
  rc_strategy :: RecoveryStrategy
  rc_validateChecksums :: bool

record RecoveryResult =
  rr_success :: bool
  rr_replayed :: nat
  rr_skipped :: nat
  rr_corrupt :: nat
  rr_errors :: "ParseError list"
  rr_summary :: string

definition empty_result :: RecoveryResult where
  "empty_result = \<lparr>rr_success = False, rr_replayed = 0, rr_skipped = 0, rr_corrupt = 0,
     rr_errors = [], rr_summary = []\<rparr>"

text \<open>\<^verbatim>\<open>isCheckpointConsistent\<close> and \<^verbatim>\<open>findIncompleteTransactions\<close> with their counters.\<close>

fun checkpoint_scan :: "JournalEntry list \<Rightarrow> int \<Rightarrow> bool \<Rightarrow> int \<times> bool" where
  "checkpoint_scan [] depth hasCommit = (depth, hasCommit)"
| "checkpoint_scan (e # es) depth hasCommit =
     (case je_type e of
        BeginCheckpoint \<Rightarrow> checkpoint_scan es (depth + 1) hasCommit
      | EndCheckpoint \<Rightarrow> checkpoint_scan es (depth - 1) hasCommit
      | Commit \<Rightarrow> checkpoint_scan es depth True
      | Abort \<Rightarrow> checkpoint_scan es depth True
      | _ \<Rightarrow> checkpoint_scan es depth hasCommit)"

definition isCheckpointConsistent :: "JournalEntry list \<Rightarrow> bool" where
  "isCheckpointConsistent es \<longleftrightarrow> (let (depth, hasCommit) = checkpoint_scan es 0 False in depth = 0 \<and> hasCommit)"

fun incomplete_scan :: "JournalEntry list \<Rightarrow> nat \<Rightarrow> JournalEntry list" where
  "incomplete_scan [] depth = []"
| "incomplete_scan (e # es) depth =
     (if je_type e = BeginCheckpoint then incomplete_scan es (Suc depth)
      else if je_type e \<in> {EndCheckpoint, Commit, Abort} then incomplete_scan es (depth - 1)
      else if depth > 0 then e # incomplete_scan es depth
      else incomplete_scan es depth)"

definition findIncompleteTransactions :: "JournalEntry list \<Rightarrow> JournalEntry list" where
  "findIncompleteTransactions es = incomplete_scan es 0"

definition rec_analyze :: "JournalManager \<Rightarrow> RecoveryResult" where
  "rec_analyze j =
     (let entries = jm_entries j in
      if entries = [] then
        empty_result\<lparr>rr_success := True, rr_summary := ''No journal entries to analyze''\<rparr>
      else
        let ok = isCheckpointConsistent entries;
            skipped = length (findIncompleteTransactions entries);
            replayed = length (filter (\<lambda>e. je_type e \<noteq> BeginCheckpoint \<and> je_type e \<noteq> EndCheckpoint) entries) in
        empty_result\<lparr>rr_success := ok, rr_skipped := skipped, rr_replayed := replayed,
          rr_summary := ''Analysis complete: '' @ nat_to_string replayed @ '' entries, '' @
            nat_to_string skipped @ '' skipped, '' @ nat_to_string 0 @ '' corrupt. '' @
            (if ok then ''Consistent'' else ''Inconsistent'')\<rparr>)"

text \<open>
  The loop of \<^verbatim>\<open>recover\<close>.  \<open>valid\<close> is the integrity of the whole journal, which the source
  asks anew for every entry.  The flag in the result tells whether the loop ran to its end.
\<close>

fun recover_loop ::
  "RecoveryConfig \<Rightarrow> bool \<Rightarrow> ('s \<Rightarrow> JournalEntry \<Rightarrow> string option \<times> 's) \<Rightarrow> JournalEntry list \<Rightarrow> bool
    \<Rightarrow> 's \<Rightarrow> RecoveryResult \<Rightarrow> bool \<times> 's \<times> RecoveryResult" where
  "recover_loop cfg valid app [] active s r = (True, s, r)"
| "recover_loop cfg valid app (e # es) active s r =
     (if rc_validateChecksums cfg \<and> \<not> valid then
        let r = r\<lparr>rr_corrupt := rr_corrupt r + 1\<rparr> in
        (case rc_strategy cfg of
           BestEffort \<Rightarrow> recover_loop cfg valid app es active s r
         | Manual \<Rightarrow> recover_loop cfg valid app es active s
             (r\<lparr>rr_errors := rr_errors r @
                [toParseError JournalCorrupt PS_Init (je_sequence e) ''corrupt journal entry'']\<rparr>)
         | Automatic \<Rightarrow>
             (False, s, r\<lparr>rr_success := False, rr_summary := ''Recovery failed: corrupt journal''\<rparr>))
      else if je_type e = BeginCheckpoint then recover_loop cfg valid app es True s r
      else if je_type e = EndCheckpoint \<or> je_type e = Commit then recover_loop cfg valid app es False s r
      else if je_type e = Abort then recover_loop cfg valid app es False s r
      else if active then
        (case app s e of
           (Some msg, s) \<Rightarrow>
             if rc_strategy cfg = BestEffort
             then recover_loop cfg valid app es active s (r\<lparr>rr_skipped := rr_skipped r + 1\<rparr>)
             else recover_loop cfg valid app es active s
               (r\<lparr>rr_errors := rr_errors r @ [toParseError IOError PS_Init (je_sequence e) msg],
                  rr_corrupt := rr_corrupt r + 1\<rparr>)
         | (None, s) \<Rightarrow> recover_loop cfg valid app es active s (r\<lparr>rr_replayed := rr_replayed r + 1\<rparr>))
      else recover_loop cfg valid app es active s (r\<lparr>rr_replayed := rr_replayed r + 1\<rparr>))"

definition rec_recover ::
  "digest_fn \<Rightarrow> RecoveryConfig \<Rightarrow> ('s \<Rightarrow> JournalEntry \<Rightarrow> string option \<times> 's) \<Rightarrow> JournalManager \<Rightarrow> 's
    \<Rightarrow> RecoveryResult \<times> JournalManager \<times> 's" where
  "rec_recover digest cfg app j s =
     (let analysis = rec_analyze j;
          r = empty_result\<lparr>rr_skipped := rr_skipped analysis, rr_corrupt := rr_corrupt analysis\<rparr>;
          (done, s, r) = recover_loop cfg (verifyIntegrity digest j) app (jm_entries j) False s r in
      if \<not> done then (r, j, s)
      else
        (r\<lparr>rr_success := True,
           rr_summary := ''Recovery complete: '' @ nat_to_string (rr_replayed r) @ '' replayed, '' @
             nat_to_string (rr_skipped r) @ '' skipped, '' @ nat_to_string (rr_corrupt r) @ '' corrupt''\<rparr>,
         if rc_strategy cfg = Automatic then jm_clear j else j, s))"

definition rec_needsRecovery :: "JournalManager \<Rightarrow> bool" where
  "rec_needsRecovery j \<longleftrightarrow> jm_needsRecovery j \<or> jm_hasUncommitted j"

definition estimateRecoveryTime :: "JournalManager \<Rightarrow> nat" where
  "estimateRecoveryTime j =
     (let n = length (jm_entries j) in if n = 0 then 0 else n div 10000 + 1)"

section \<open>The journal as a state machine\<close>

datatype JournalOp = OBegin | OEnd | OCreate EntryID "byte list" | OUpdate EntryID "byte list"
  | ODelete EntryID | OWriteBlock ChunkDescriptor | OCommit | OAbort | ORecover | OClear
  | OLog JournalEntry | OReplay JournalEntry | ODeserialize "byte list"

definition jm_exec ::
  "digest_fn \<Rightarrow> Timestamp \<Rightarrow> JournalOp \<Rightarrow> JournalManager \<Rightarrow> (ErrorCode \<times> JournalManager) cpp" where
  "jm_exec digest now op j =
     (case op of
        OBegin \<Rightarrow> Inr (beginCheckpoint now j)
      | OEnd \<Rightarrow> Inr (endCheckpoint now j)
      | OCreate eid bs \<Rightarrow> Inr (logCreate digest now eid bs j)
      | OUpdate eid bs \<Rightarrow> Inr (logUpdate digest now eid bs j)
      | ODelete eid \<Rightarrow> Inr (logDelete digest now eid j)
      | OWriteBlock chunk \<Rightarrow> Inr (logWriteBlock digest now chunk j)
      | OCommit \<Rightarrow> Inr (jm_commit now j)
      | OAbort \<Rightarrow> Inr (jm_abort now j)
      | ORecover \<Rightarrow> Inr (jm_recover j)
      | OClear \<Rightarrow> Inr (Success, jm_clear j)
      | OLog entry \<Rightarrow> Inr (jm_log digest entry j)
      | OReplay entry \<Rightarrow> Inr (replayEntry entry j)
      | ODeserialize data \<Rightarrow> jm_deserialize j data)"

text \<open>The operations with which the journal makes its entries itself.  The other three take an entry, or all of them,
  from the caller: any type, sequence number and checkpoint marker.\<close>

fun own_entries :: "JournalOp \<Rightarrow> bool" where
  "own_entries (OLog entry) = False"
| "own_entries (OReplay entry) = False"
| "own_entries (ODeserialize data) = False"
| "own_entries _ = True"

text \<open>\<open>jm_reach ok digest cfg n j\<close>: \<open>n\<close> operations that \<open>ok\<close> admits lead from a new journal to \<open>j\<close>.\<close>

inductive jm_reach :: "(JournalOp \<Rightarrow> bool) \<Rightarrow> digest_fn \<Rightarrow> JournalConfig \<Rightarrow> nat \<Rightarrow> JournalManager \<Rightarrow> bool" for ok digest cfg where
  start: "jm_reach ok digest cfg 0 (newJournalManager cfg)"
| step: "jm_reach ok digest cfg n j \<Longrightarrow> ok op \<Longrightarrow> jm_exec digest now op j = Inr (ec, j') \<Longrightarrow> jm_reach ok digest cfg (Suc n) j'"

text \<open>The checkpoint flag that replaying a list of entries leaves.\<close>

definition replay_flag :: "bool \<Rightarrow> JournalEntry list \<Rightarrow> bool" where
  "replay_flag b es = foldl (\<lambda>b e.
     if je_type e = BeginCheckpoint then True
     else if je_type e \<in> {EndCheckpoint, Commit, Abort} then False else b) b es"

lemma replay_flag_replayEntry:
  "jm_inCheckpoint (foldl (\<lambda>j e. snd (replayEntry e j)) j es) = replay_flag (jm_inCheckpoint j) es"
  unfolding replay_flag_def
proof (induction es arbitrary: j)
  case (Cons e es)
  then show ?case
    by (cases "je_type e") (auto simp: replayEntry_def)
qed simp

definition jm_inv :: "nat \<Rightarrow> JournalManager \<Rightarrow> bool" where
  "jm_inv n j \<longleftrightarrow>
     sorted_wrt (<) (map je_sequence (jm_entries j)) \<and>
     list_all (\<lambda>e. je_sequence e < jm_sequence j) (jm_entries j) \<and>
     unat (jm_sequence j) \<le> n \<and>
     jm_total j = size64 (sum_list (map (\<lambda>e. length (je_data e)) (jm_entries j))) \<and>
     jm_inCheckpoint j = replay_flag False (jm_entries j) \<and>
     (list_all (\<lambda>e. je_type e \<noteq> Abort) (jm_entries j) \<longrightarrow>
       fst (checkpoint_scan (jm_entries j) 0 False) = (if jm_inCheckpoint j then 1 else 0))"

lemma checkpoint_scan_append:
  "checkpoint_scan (xs @ ys) d c = (case checkpoint_scan xs d c of (d', c') \<Rightarrow> checkpoint_scan ys d' c')"
  by (induction xs arbitrary: d c) (auto split: JournalEntryType.splits)

lemma replay_flag_append: "replay_flag b (xs @ ys) = replay_flag (replay_flag b xs) ys"
  by (simp add: replay_flag_def)

lemma checkpoint_scan_fst: "fst (checkpoint_scan xs d c) = d + fst (checkpoint_scan xs 0 False)"
proof (induction xs arbitrary: d c)
  case (Cons e xs)
  have "fst (checkpoint_scan xs d c) = d + fst (checkpoint_scan xs 0 False)" for d c
    by (rule Cons.IH)
  from this [of 1 False] this [of "-1" False] this [of 0 True] this [of "d + 1" c] this [of "d - 1" c] this [of d True] this [of d c]
  show ?case
    by (cases "je_type e") simp_all
qed simp

lemma unat_succ: "unat (s :: u64) + 1 < 2 ^ 64 \<Longrightarrow> unat (s + 1) = unat s + 1"
  by (simp add: unat_word_ariths)

text \<open>Appending one entry made from the current sequence number.\<close>

lemma jm_inv_append:
  assumes inv: "jm_inv n j" and room: "n + 1 < 2 ^ 64"
    and e: "je_sequence e = jm_sequence j"
    and j': "jm_entries j' = jm_entries j @ [e]" "jm_sequence j' = jm_sequence j + 1"
      "jm_total j' = jm_total j + size64 (length (je_data e))"
      "jm_inCheckpoint j' = replay_flag (jm_inCheckpoint j) [e]"
    and nest: "je_type e = BeginCheckpoint \<Longrightarrow> \<not> jm_inCheckpoint j" "je_type e = EndCheckpoint \<Longrightarrow> jm_inCheckpoint j"
      "je_type e = Commit \<Longrightarrow> \<not> jm_inCheckpoint j"
  shows "jm_inv (Suc n) j'"
proof -
  have "unat (jm_sequence j) \<le> n"
    using inv by (simp add: jm_inv_def)
  then have un: "unat (jm_sequence j') = unat (jm_sequence j) + 1"
    using room j'(2) unat_succ [of "jm_sequence j"] by simp
  have sorted: "sorted_wrt (<) (map je_sequence (jm_entries j'))"
    using inv e j'(1) by (auto simp: jm_inv_def sorted_wrt_append list_all_iff)
  have lt: "jm_sequence j < jm_sequence j'"
    using un by (simp add: word_less_nat_alt)
  have below: "list_all (\<lambda>e. je_sequence e < jm_sequence j') (jm_entries j')"
    using inv e j'(1) lt by (auto simp: jm_inv_def list_all_iff intro: less_trans)
  have total: "jm_total j' = size64 (sum_list (map (\<lambda>e. length (je_data e)) (jm_entries j')))"
    using inv j'(1,3) by (simp add: jm_inv_def size64_def)
  have flag: "jm_inCheckpoint j' = replay_flag False (jm_entries j')"
    using inv j'(1,4) by (simp add: jm_inv_def replay_flag_append)
  have "fst (checkpoint_scan (jm_entries j') 0 False) = (if jm_inCheckpoint j' then 1 else 0)"
    if na: "list_all (\<lambda>e. je_type e \<noteq> Abort) (jm_entries j')"
  proof -
    have "fst (checkpoint_scan (jm_entries j) 0 False) = (if jm_inCheckpoint j then 1 else 0)"
      using inv na j'(1) by (simp add: jm_inv_def)
    then show ?thesis
      using na j'(1,4) nest
      by (cases "je_type e")
        (auto simp: checkpoint_scan_append checkpoint_scan_fst [of "[e]"] replay_flag_def split: prod.splits)
  qed
  then show ?thesis
    using sorted below total flag un \<open>unat (jm_sequence j) \<le> n\<close> by (simp add: jm_inv_def)
qed

lemmas jm_ops = beginCheckpoint_def endCheckpoint_def jm_commit_def jm_abort_def jm_recover_def
  jm_log_new_def jm_log_def createEntry_def jm_push_def jm_clear_def Let_def

lemma jm_inv_mono: "jm_inv n j \<Longrightarrow> n \<le> m \<Longrightarrow> jm_inv m j"
  by (auto simp: jm_inv_def)

lemma jm_inv_clear: "jm_inv n (jm_clear j)"
  by (simp add: jm_inv_def jm_clear_def size64_def replay_flag_def)

lemma jm_inv_flags: "jm_inv n (j\<lparr>jm_needsRecovery := b\<rparr>) \<longleftrightarrow> jm_inv n j"
  by (simp add: jm_inv_def)

lemma jm_inv_skip_sequence:
  assumes "jm_inv n j" "n + 1 < 2 ^ 64"
  shows "jm_inv (Suc n) (j\<lparr>jm_sequence := jm_sequence j + 1\<rparr>)"
proof -
  have u: "unat (jm_sequence j + 1) = unat (jm_sequence j) + 1"
    using assms by (intro unat_succ) (auto simp: jm_inv_def)
  then have "x < jm_sequence j \<Longrightarrow> x < jm_sequence j + 1" for x
    by (simp add: word_less_nat_alt)
  then show ?thesis
    using assms u by (auto simp: jm_inv_def list_all_iff)
qed

lemma jm_inv_log_new:
  assumes "jm_inv n j" "n + 1 < 2 ^ 64" "jm_log_new digest now ty bs j = (ec, j')"
    "ty \<in> {CreateEntry, UpdateEntry, DeleteEntry, WriteBlock}"
  shows "jm_inv (Suc n) j'"
proof (cases "isJournalFull j")
  case True
  then have "j' = j\<lparr>jm_sequence := jm_sequence j + 1\<rparr>"
    using assms(3) by (auto simp: jm_ops isJournalFull_def split: if_splits)
  with jm_inv_skip_sequence [OF assms(1,2)] show ?thesis by simp
next
  case False
  let ?e0 = "\<lparr>je_type = ty, je_sequence = jm_sequence j, je_timestamp = now, je_data = bs, je_checksum = zero_checksum\<rparr>"
  let ?e = "if jc_enableChecksums (jm_config j) then ?e0\<lparr>je_checksum := entry_checksum digest ?e0\<rparr> else ?e0"
  show ?thesis
    by (rule jm_inv_append [OF assms(1,2), where e = ?e])
      (use assms(3,4) False in \<open>auto simp: jm_ops isJournalFull_def replay_flag_def split: if_splits\<close>)
qed

lemma jm_inv_begin:
  "jm_inv n j \<Longrightarrow> n + 1 < 2 ^ 64 \<Longrightarrow> beginCheckpoint now j = (ec, j') \<Longrightarrow> jm_inv (Suc n) j'"
  using jm_inv_append [of n j "fst (createEntry now BeginCheckpoint [] j)" j'] jm_inv_mono [of n j "Suc n"]
  by (auto simp: jm_ops replay_flag_def size64_def split: if_splits)

lemma jm_inv_end:
  "jm_inv n j \<Longrightarrow> n + 1 < 2 ^ 64 \<Longrightarrow> endCheckpoint now j = (ec, j') \<Longrightarrow> jm_inv (Suc n) j'"
  using jm_inv_append [of n j "fst (createEntry now EndCheckpoint [] j)" j'] jm_inv_mono [of n j "Suc n"]
  by (auto simp: jm_ops replay_flag_def size64_def split: if_splits)

lemma jm_inv_abort:
  "jm_inv n j \<Longrightarrow> n + 1 < 2 ^ 64 \<Longrightarrow> jm_abort now j = (ec, j') \<Longrightarrow> jm_inv (Suc n) j'"
  using jm_inv_append [of n j "fst (createEntry now Abort [] j)" j']
  by (auto simp: jm_ops replay_flag_def size64_def split: if_splits)

text \<open>\<^verbatim>\<open>commit\<close> first ends an open checkpoint, like \<^verbatim>\<open>endCheckpoint\<close>.\<close>

lemma jm_commit_eq:
  "jm_commit now j =
     (let j1 = (if jm_inCheckpoint j then snd (endCheckpoint now j) else j);
          (entry, j2) = createEntry now Commit [] j1 in
      (Success, (jm_push entry j2)\<lparr>jm_needsRecovery := False\<rparr>))"
  by (simp add: jm_ops)

lemma jm_inv_commit:
  assumes "jm_inv n j" "n + 2 < 2 ^ 64" "jm_commit now j = (ec, j')"
  shows "jm_inv (Suc (Suc n)) j'"
proof -
  define j1 where "j1 = (if jm_inCheckpoint j then snd (endCheckpoint now j) else j)"
  have j1: "jm_inv (Suc n) j1" "\<not> jm_inCheckpoint j1"
    using jm_inv_end [OF assms(1), of now "fst (endCheckpoint now j)" "snd (endCheckpoint now j)"]
      jm_inv_mono [OF assms(1)] assms(2)
    by (auto simp: j1_def) (auto simp: jm_ops)
  show ?thesis
    by (rule jm_inv_append [OF j1(1), where e = "fst (createEntry now Commit [] j1)"])
      (use assms(2,3) j1(2) in \<open>auto simp: jm_commit_eq j1_def [symmetric] createEntry_def jm_push_def
        replay_flag_def size64_def Let_def\<close>)
qed

lemma jm_inv_exec:
  assumes "jm_inv (2 * n) j" "2 * n + 2 < 2 ^ 64" "own_entries op" "jm_exec digest now op j = Inr (ec, j')"
  shows "jm_inv (2 * Suc n) j'"
proof -
  have m: "jm_inv (Suc (2 * n)) x \<Longrightarrow> jm_inv (2 * Suc n) x" for x
    by (erule jm_inv_mono) simp
  show ?thesis
  proof (cases op)
    case OBegin
    with assms jm_inv_begin [of "2 * n" j now ec j'] m [of j'] show ?thesis by (simp add: jm_exec_def)
  next
    case OEnd
    with assms jm_inv_end [of "2 * n" j now ec j'] m [of j'] show ?thesis by (simp add: jm_exec_def)
  next
    case OCommit
    with assms jm_inv_commit [of "2 * n" j now ec j'] show ?thesis by (simp add: jm_exec_def)
  next
    case OAbort
    with assms jm_inv_abort [of "2 * n" j now ec j'] m [of j'] show ?thesis by (simp add: jm_exec_def)
  next
    case ORecover
    with assms jm_inv_mono [of "2 * n" j "2 * Suc n"] show ?thesis
      by (auto simp: jm_exec_def jm_recover_def jm_inv_flags split: if_splits)
  next
    case OClear
    with assms show ?thesis by (auto simp: jm_exec_def jm_inv_clear)
  qed (use assms m [of j'] jm_inv_log_new [of "2 * n" j digest now _ _ ec j'] in
      \<open>auto simp: jm_exec_def logCreate_def logUpdate_def logDelete_def logWriteBlock_def\<close>)
qed

lemma jm_reach_own:
  "jm_reach ok digest cfg n j \<Longrightarrow> \<forall>op. ok op \<longrightarrow> own_entries op \<Longrightarrow> 2 * n + 2 < 2 ^ 64 \<Longrightarrow> jm_inv (2 * n) j"
proof (induction rule: jm_reach.induct)
  case start
  then show ?case
    by (simp add: newJournalManager_def jm_inv_def size64_def replay_flag_def)
next
  case (step n j op now ec j')
  then show ?case
    by (intro jm_inv_exec [OF _ _ _ step.hyps(3)]) auto
qed

text \<open>The size counter is exact whatever is run.\<close>

definition data_size :: "JournalEntry list \<Rightarrow> u64" where
  "data_size es = size64 (sum_list (map (\<lambda>e. length (je_data e)) es))"

lemma data_size_simps [simp]:
  "data_size [] = 0" "data_size (e # es) = size64 (length (je_data e)) + data_size es" "data_size (es @ es') = data_size es + data_size es'"
  by (simp_all add: data_size_def size64_def)

lemma data_size_log:
  "jm_log digest e j = (ec, j') \<Longrightarrow> jm_total j = data_size (jm_entries j) \<Longrightarrow> jm_total j' = data_size (jm_entries j')"
  by (auto simp: jm_log_def jm_push_def Let_def split: if_splits)

lemma data_size_exec:
  assumes "jm_total j = data_size (jm_entries j)" "jm_exec digest now op j = Inr (ec, j')"
  shows "jm_total j' = data_size (jm_entries j')"
proof (cases op)
  case OBegin
  with assms show ?thesis by (auto simp: jm_exec_def jm_ops size64_def split: if_splits)
next
  case OEnd
  with assms show ?thesis by (auto simp: jm_exec_def jm_ops size64_def split: if_splits)
next
  case OCommit
  with assms show ?thesis by (auto simp: jm_exec_def jm_ops size64_def split: if_splits)
next
  case OAbort
  with assms show ?thesis by (auto simp: jm_exec_def jm_ops size64_def)
next
  case (OReplay entry)
  with assms show ?thesis by (cases "je_type entry") (auto simp: jm_exec_def replayEntry_def)
next
  case (ODeserialize data)
  with assms show ?thesis
    by (auto simp: jm_exec_def jm_deserialize_def jm_clear_def Let_def else_ret_eq_Inr bind_cpp_eq_Inr simp flip: data_size_def)
next
  case ORecover
  with assms show ?thesis by (auto simp: jm_exec_def jm_recover_def split: if_splits)
next
  case OClear
  with assms show ?thesis by (auto simp: jm_exec_def jm_clear_def)
qed (use assms in \<open>auto simp: jm_exec_def logCreate_def logUpdate_def logDelete_def logWriteBlock_def jm_log_new_def createEntry_def
  dest!: data_size_log\<close>)

lemma jm_reach_size: "jm_reach ok digest cfg n j \<Longrightarrow> jm_total j = data_size (jm_entries j)"
proof (induction rule: jm_reach.induct)
  case start
  show ?case by (simp add: newJournalManager_def)
next
  case (step n j op now ec j')
  then show ?case using data_size_exec by blast
qed

section \<open>Properties of runs\<close>

definition jc_example :: JournalConfig where
  "jc_example = \<lparr>jc_maxJournalSize = 67108864, jc_enableChecksums = True\<rparr>"

definition jm_begun :: JournalManager where
  "jm_begun = snd (beginCheckpoint zero_timestamp (newJournalManager jc_example))"

lemma jm_begun_reach: "jm_reach own_entries (\<lambda>_ bs. zero_checksum) jc_example 1 jm_begun"
  using jm_reach.step [OF jm_reach.start, of own_entries OBegin "\<lambda>_ bs. zero_checksum" zero_timestamp jc_example
      "fst (beginCheckpoint zero_timestamp (newJournalManager jc_example))" jm_begun]
  by (simp add: jm_exec_def jm_begun_def)

text \<open>C14: in every state that a sequence of fewer than \<open>2 ^ 62\<close> calls of the public operations reaches, the size
  counter is the sum of the entries' data sizes, modulo \<open>2 ^ 64\<close>.  Where the calls do not include
  \<^verbatim>\<open>log(JournalEntry)\<close>, \<^verbatim>\<open>replayEntry\<close> and \<^verbatim>\<open>deserialize\<close>, which take entries from the caller as they are,
  moreover the sequence numbers of the entries are strictly increasing and below the next one,
  and replaying the entries with \<^verbatim>\<open>replayEntry\<close> from a new journal reproduces whether a checkpoint is open.\<close>

theorem journal_invariant:
  assumes "jm_reach ok digest cfg n j" "n < 2 ^ 62"
  shows "jm_total j = size64 (sum_list (map (\<lambda>e. length (je_data e)) (jm_entries j))) \<and>
    ((\<forall>op. ok op \<longrightarrow> own_entries op) \<longrightarrow>
      sorted_wrt (<) (map je_sequence (jm_entries j) @ [jm_sequence j]) \<and>
      jm_inCheckpoint j =
        jm_inCheckpoint (foldl (\<lambda>j e. snd (replayEntry e j)) (newJournalManager cfg) (jm_entries j)))"
  using jm_reach_own [OF assms(1)] assms(2) replay_flag_replayEntry [of "newJournalManager cfg" "jm_entries j"]
    jm_reach_size [OF assms(1)]
  by (auto simp: jm_inv_def sorted_wrt_append list_all_iff newJournalManager_def data_size_def)

theorem journal_invariant_witness:
  "sorted_wrt (<) (map je_sequence (jm_entries jm_begun) @ [jm_sequence jm_begun]) \<and> jm_inCheckpoint jm_begun"
  using journal_invariant [OF jm_begun_reach]
  by (auto simp: jm_begun_def jm_ops newJournalManager_def jc_example_def)

text \<open>C15: take a journal that fewer than \<open>2 ^ 62\<close> calls have led to, none of them \<^verbatim>\<open>log(JournalEntry)\<close>,
  \<^verbatim>\<open>replayEntry\<close> or \<^verbatim>\<open>deserialize\<close>, and that holds no abort since it was last cleared.  Committing succeeds and
  leaves a journal that recovery analyses as consistent, with no open checkpoint and no recovery
  needed.\<close>

theorem journal_commit_consistent:
  assumes "jm_reach own_entries digest cfg n j" "n < 2 ^ 62" "list_all (\<lambda>e. je_type e \<noteq> Abort) (jm_entries j)"
  shows "\<exists>j'. jm_commit now j = (Success, j') \<and> isCheckpointConsistent (jm_entries j') \<and>
    rr_success (rec_analyze j') \<and> \<not> rec_needsRecovery j'"
proof -
  obtain j' where j': "jm_commit now j = (Success, j')"
    by (simp add: jm_ops)
  have inv: "jm_inv (2 * n + 2) j'"
    using jm_inv_commit [OF jm_reach_own [OF assms(1)] _ j'] assms(2) by simp
  have es: "jm_entries j' = jm_entries j @
      (if jm_inCheckpoint j then [fst (createEntry now EndCheckpoint [] j)] else []) @
      [last (jm_entries j')]" "je_type (last (jm_entries j')) = Commit" "\<not> jm_inCheckpoint j'"
      "\<not> jm_needsRecovery j'"
    using j' by (auto simp: jm_ops split: if_splits)
  have "list_all (\<lambda>e. je_type e \<noteq> Abort) (jm_entries j')"
    using assms(3) es(2) by (subst es(1)) (auto simp: createEntry_def)
  then have "fst (checkpoint_scan (jm_entries j') 0 False) = 0"
    using inv es(3) by (simp add: jm_inv_def)
  moreover have "snd (checkpoint_scan (jm_entries j') 0 False)"
    using es(2) by (subst es(1)) (simp add: checkpoint_scan_append split: prod.splits)
  ultimately have c: "isCheckpointConsistent (jm_entries j')"
    by (auto simp: isCheckpointConsistent_def Let_def split: prod.splits)
  then show ?thesis
    using j' es by (auto simp: rec_analyze_def rec_needsRecovery_def jm_hasUncommitted_def empty_result_def Let_def)
qed

theorem journal_commit_consistent_witness:
  "\<exists>j'. jm_commit zero_timestamp jm_begun = (Success, j') \<and> isCheckpointConsistent (jm_entries j')"
  using journal_commit_consistent [OF jm_begun_reach, of zero_timestamp]
  by (auto simp: jm_begun_def jm_ops newJournalManager_def)

text \<open>\<^verbatim>\<open>abort\<close> closes the checkpoint without an end marker and analysis counts only end
  markers, so a journal with one aborted checkpoint is reported inconsistent, even after a later
  checkpoint has been committed.\<close>

theorem journal_abort_inconsistent:
  "let j1 = snd (beginCheckpoint now (newJournalManager cfg));
       j2 = snd (jm_abort now j1);
       j3 = snd (jm_commit now (snd (beginCheckpoint now j2))) in
   \<not> isCheckpointConsistent (jm_entries j2) \<and> \<not> isCheckpointConsistent (jm_entries j3) \<and>
   \<not> rr_success (rec_analyze j3)"
  by (simp add: jm_ops newJournalManager_def isCheckpointConsistent_def rec_analyze_def empty_result_def)

text \<open>\<^verbatim>\<open>verifyIntegrity\<close> asks a CRC32 engine, which computes nothing, so it accepts a
  journal exactly when all stored checksums are zero and says nothing about the entries' content.\<close>

theorem journal_integrity_blind:
  "verifyIntegrity digest j \<longleftrightarrow> list_all (\<lambda>e. je_checksum e = zero_checksum) (jm_entries j)"
proof -
  have "entry_checksum digest e = zero_checksum" for e
    by (simp add: entry_checksum_def ce_reset_def ce_destroyContext_def ce_initContext_def
        newChecksumEngine_def ce_update_def ce_finalize_def)
  then show ?thesis
    by (auto simp: verifyIntegrity_def list_all_iff)
qed

section \<open>Reading back\<close>

definition je_wf :: "JournalEntry \<Rightarrow> bool" where
  "je_wf e \<longleftrightarrow> length (je_checksum e) = 32 \<and> journal_type_of_byte (journal_type_to_byte (je_type e)) = je_type e"

interpretation je: record_codec read_JournalEntry serialize_JournalEntry je_wf
proof
  show "off \<le> off' \<and> off' \<le> length data"
    if "read_JournalEntry data off = Inr (Some (x, off'))" for data off x off'
    using that
    by (auto simp: read_JournalEntry_def bind_rd_eq_Some Let_def split: if_splits
        dest!: read_varint_bounds read_block_bounds)
  show "read_JournalEntry data off = Inr (Some (x, off + length (serialize_JournalEntry x)))"
    if "je_wf x" "drop off data = serialize_JournalEntry x @ rest"
      "length data = off + length (serialize_JournalEntry x) + length rest" "length data < 2 ^ 63" for x off data rest
    using that(1,3,4)
    by (simp add: drop_from [OF that(2)] read_JournalEntry_def serialize_JournalEntry_def read_varint_def
        read_block_def need_more_def je_wf_def add.assoc Let_def drop_Cons')
qed

text \<open>C17: reading a serialised journal back restores the entries, the next sequence number and
  the size counter, but neither the open checkpoint nor the need for recovery, so a journal
  saved in the middle of a transaction is loaded as one that needs no recovery.\<close>

theorem journal_roundtrip:
  assumes "list_all je_wf (jm_entries j)" "length (jm_serialize j) < 2 ^ 63"
  shows "\<exists>j'. jm_deserialize j0 (jm_serialize j) = Inr (Success, j') \<and>
    jm_entries j' = jm_entries j \<and> jm_sequence j' = jm_sequence j \<and>
    jm_total j' = size64 (sum_list (map (\<lambda>e. length (je_data e)) (jm_entries j))) \<and>
    \<not> jm_inCheckpoint j' \<and> \<not> rec_needsRecovery j'"
proof -
  let ?es = "jm_entries j" and ?data = "jm_serialize j"
  let ?hd = "encode (jm_sequence j) @ encode (size64 (length ?es))"
  have "length es \<le> length (concat (map serialize_JournalEntry es))" for es
    by (induction es) (auto simp: serialize_JournalEntry_def)
  from this [of ?es] have len: "length ?es < 2 ^ 64"
    using assms(2) by (simp add: jm_serialize_def)
  have es: "read_upto read_JournalEntry (length ?es) ?data (length ?hd) =
      Inr (?es, Some (length ?hd + length (concat (map serialize_JournalEntry ?es))))"
    using assms by (intro je.read_upto_enc [where rest = "[]"]) (auto simp: jm_serialize_def)
  have "read_varint ?data 0 = Inr (Some (jm_sequence j, length (encode (jm_sequence j))))"
    "read_varint ?data (length (encode (jm_sequence j))) = Inr (Some (size64 (length ?es), length ?hd))"
    by (simp_all add: jm_serialize_def read_varint_def)
  with es len show ?thesis
    by (simp add: jm_deserialize_def Let_def jm_clear_def rec_needsRecovery_def jm_hasUncommitted_def)
qed

theorem journal_roundtrip_witness:
  "\<exists>j'. jm_deserialize (newJournalManager jc_example) (jm_serialize jm_begun) = Inr (Success, j') \<and>
     jm_entries j' = jm_entries jm_begun \<and> jm_inCheckpoint jm_begun \<and> \<not> rec_needsRecovery j'"
proof -
  have "list_all je_wf (jm_entries jm_begun)"
    by (simp add: jm_begun_def jm_ops newJournalManager_def je_wf_def zero_checksum_def
        journal_type_to_byte_def journal_type_of_byte_def)
  moreover have "length (jm_serialize jm_begun) < 2 ^ 63"
    using length_encode_le [of "jm_sequence jm_begun"] length_encode_le [of "size64 1"] length_encode_le [of 0]
      length_encode_le [of "size64 0"]
    by (simp add: jm_begun_def jm_ops newJournalManager_def jm_serialize_def serialize_JournalEntry_def
        zero_checksum_def)
  moreover have "jm_inCheckpoint jm_begun"
    by (simp add: jm_begun_def jm_ops newJournalManager_def)
  ultimately show ?thesis
    using journal_roundtrip [of jm_begun "newJournalManager jc_example"] by auto
qed

text \<open>The length test of \<^verbatim>\<open>deserialize\<close> adds an attacker-chosen data size to the offset
  without looking at overflow: a 26-byte journal whose only entry claims \<open>2 ^ 64 - 58\<close> bytes of
  data passes the test and makes the following copy undefined.\<close>

theorem journal_crafted_size:
  "jm_deserialize j ([0, 1, 3, 0] @ replicate 12 0 @ encode (- 58)) = Inl Undefined_behaviour"
proof -
  have e: "encode (- 58) = [0xC6, 0xFF, 0xFF, 0xFF, 0xFF, 0xFF, 0xFF, 0xFF, 0xFF, 0x01]"
    by code_simp
  have d: "decode [0xC6, 0xFF, 0xFF, 0xFF, 0xFF, 0xFF, 0xFF, 0xFF, 0xFF, 0x01] =
      Inr \<lparr>dr_value = - 58, dr_consumed = 10, dr_valid = True\<rparr>"
    using decode_encode_only [of "- 58"] by (simp add: e)
  have d0: "decode (0 # xs) = Inr \<lparr>dr_value = 0, dr_consumed = 1, dr_valid = True\<rparr>"
    "decode (1 # xs) = Inr \<lparr>dr_value = 1, dr_consumed = 1, dr_valid = True\<rparr>" for xs
    by (simp_all add: decode_def)
  have r: "replicate 12 (0 :: byte) = [0, 0, 0, 0, 0, 0, 0, 0, 0, 0, 0, 0]"
    by (simp add: eval_nat_numeral)
  show ?thesis
    by (simp add: e r jm_deserialize_def read_varint_def d d0 Let_def read_JournalEntry_def need_more_def
        read_block_def)
qed

section \<open>What recovery applies\<close>

text \<open>The data entries that stand inside a checkpoint, whether it was completed or not.\<close>

fun open_entries :: "bool \<Rightarrow> JournalEntry list \<Rightarrow> JournalEntry list" where
  "open_entries active [] = []"
| "open_entries active (e # es) =
     (if je_type e = BeginCheckpoint then open_entries True es
      else if je_type e \<in> {EndCheckpoint, Commit, Abort} then open_entries False es
      else if active then e # open_entries active es else open_entries active es)"

lemma recover_loop_applies:
  "\<not> rc_validateChecksums cfg \<or> valid \<Longrightarrow>
   \<exists>r'. recover_loop cfg valid app es active s r =
     (True, foldl (\<lambda>s e. snd (app s e)) s (open_entries active es), r')"
proof (induction es arbitrary: active s r)
  case (Cons e es)
  then show ?case
    by (cases "app s e"; cases "fst (app s e)") auto
qed simp

text \<open>C16: when integrity checking is off or passes, \<^verbatim>\<open>recover\<close> succeeds under each of the three strategies and hands to the
  callback, in order, exactly the entries logged inside a checkpoint: those of transactions that
  were never committed or were aborted as well as the committed ones, and none of those logged
  outside; under the automatic strategy, and only there, the journal is empty afterwards.  The comments of the
  strategies in \<^verbatim>\<open>Recovery.hpp\<close> say otherwise: that \<^verbatim>\<open>Automatic\<close> applies all journal entries, and that \<^verbatim>\<open>Manual\<close>
  returns them for review.\<close>

theorem recovery_applies:
  assumes "\<not> rc_validateChecksums cfg \<or> verifyIntegrity digest j"
  shows "\<exists>r j'. rec_recover digest cfg app j s =
      (r, j', foldl (\<lambda>s e. snd (app s e)) s (open_entries False (jm_entries j))) \<and>
    rr_success r \<and> j' = (if rc_strategy cfg = Automatic then jm_clear j else j)"
proof -
  obtain r' where "recover_loop cfg (verifyIntegrity digest j) app (jm_entries j) False s
      (empty_result\<lparr>rr_skipped := rr_skipped (rec_analyze j), rr_corrupt := rr_corrupt (rec_analyze j)\<rparr>) =
     (True, foldl (\<lambda>s e. snd (app s e)) s (open_entries False (jm_entries j)), r')"
    using recover_loop_applies [OF assms, of app "jm_entries j" False s "empty_result
      \<lparr>rr_skipped := rr_skipped (rec_analyze j), rr_corrupt := rr_corrupt (rec_analyze j)\<rparr>"] by auto
  then show ?thesis
    by (simp add: rec_recover_def Let_def)
qed

theorem recovery_applies_witness:
  "let d = (\<lambda>_ _. zero_checksum);
       j = snd (jm_abort zero_timestamp (snd (logDelete d zero_timestamp 7 jm_begun)));
       cfg = \<lparr>rc_strategy = Automatic, rc_validateChecksums = True\<rparr> in
   \<exists>r j'. rec_recover d cfg (\<lambda>s e. (None, s @ [je_type e])) j [] = (r, j', [DeleteEntry]) \<and> rr_success r"
proof -
  let ?d = "\<lambda>_ _. zero_checksum"
  let ?j = "snd (jm_abort zero_timestamp (snd (logDelete ?d zero_timestamp 7 jm_begun)))"
  let ?cfg = "\<lparr>rc_strategy = Automatic, rc_validateChecksums = True\<rparr>"
  have es: "map je_type (jm_entries ?j) = [BeginCheckpoint, DeleteEntry, Abort]"
    "map je_checksum (jm_entries ?j) = [zero_checksum, zero_checksum, zero_checksum]"
    by (simp_all add: jm_begun_def jm_ops newJournalManager_def logDelete_def isJournalFull_def jc_example_def
        entry_checksum_def ce_reset_def ce_destroyContext_def ce_initContext_def
        newChecksumEngine_def ce_update_def ce_finalize_def)
  then obtain a b c where abc: "jm_entries ?j = [a, b, c]" "je_type a = BeginCheckpoint" "je_type b = DeleteEntry"
    "je_type c = Abort" "list_all (\<lambda>e. je_checksum e = zero_checksum) [a, b, c]"
    by (auto simp: map_eq_Cons_conv)
  then have "verifyIntegrity ?d ?j"
    by (simp add: verifyIntegrity_def entry_checksum_def ce_reset_def ce_destroyContext_def ce_initContext_def
        newChecksumEngine_def ce_update_def ce_finalize_def)
  then show ?thesis
    using recovery_applies [of ?cfg ?d ?j "\<lambda>s e. (None :: string option, s @ [je_type e])" "[]"] abc
    by (auto simp: Let_def)
qed

end
