(* ===== verification/Snapshot_Manifest.thy ===== *)
theory Snapshot_Manifest
  imports Record_Codec Store_Interface
begin

text \<open>
  \<^verbatim>\<open>src/snapshot/SnapshotManifest.cpp\<close>: the manifest of one snapshot, a table of nodes by path,
  and its binary form.  The clock is the argument \<open>now\<close> of the constructor, which replaces a
  zero timestamp; \<open>limit\<close> bounds what \<^verbatim>\<open>reserve\<close> can allocate, since the deserialiser reserves
  a block count it has not checked.

  Shown: the manifest is an erasable keyed store (an interpretation), and its binary form
  decodes to the same manifest in whatever order the table is iterated.
\<close>

record SnapshotNode =
  sn_entryId :: u64
  sn_path :: string
  sn_size :: u64
  sn_checksum :: u32
  sn_modifiedTime :: u64
  sn_blockIds :: "u64 list"

record SnapshotManifest =
  mf_id :: u64
  mf_parentId :: u64
  mf_label :: string
  mf_timestamp :: u64
  mf_nodes :: "string \<rightharpoonup> SnapshotNode"

definition newManifest :: "u64 \<Rightarrow> u64 \<Rightarrow> u64 \<Rightarrow> string \<Rightarrow> u64 \<Rightarrow> SnapshotManifest" where
  "newManifest now sid parentId label timestamp =
     \<lparr>mf_id = sid, mf_parentId = parentId, mf_label = label,
      mf_timestamp = (if timestamp = 0 then now else timestamp), mf_nodes = Map.empty\<rparr>"

definition addNode :: "SnapshotNode \<Rightarrow> SnapshotManifest \<Rightarrow> SnapshotManifest" where
  "addNode node mf = mf\<lparr>mf_nodes := (mf_nodes mf)(sn_path node \<mapsto> node)\<rparr>"

definition removeNode :: "string \<Rightarrow> SnapshotManifest \<Rightarrow> bool \<times> SnapshotManifest" where
  "removeNode path mf = (mf_nodes mf path \<noteq> None, mf\<lparr>mf_nodes := (mf_nodes mf)(path := None)\<rparr>)"

definition findNode :: "SnapshotManifest \<Rightarrow> string \<Rightarrow> SnapshotNode option" where
  "findNode mf path = mf_nodes mf path"

definition hasNode :: "SnapshotManifest \<Rightarrow> string \<Rightarrow> bool" where
  "hasNode mf path \<longleftrightarrow> mf_nodes mf path \<noteq> None"

definition mf_totalSize :: "(string \<times> SnapshotNode) list \<Rightarrow> u64" where
  "mf_totalSize it = fold (\<lambda>(_, node) s. s + sn_size node) it 0"

definition mf_clear :: "SnapshotManifest \<Rightarrow> SnapshotManifest" where
  "mf_clear mf = mf\<lparr>mf_nodes := Map.empty\<rparr>"

section \<open>The binary form\<close>

definition serialize_string :: "string \<Rightarrow> byte list" where
  "serialize_string s = encode (size64 (length s)) @ bytes_of_string s"

text \<open>The fields of a node after its path, shared with the delta format.\<close>

definition serialize_node_body :: "SnapshotNode \<Rightarrow> byte list" where
  "serialize_node_body node =
     encode (sn_entryId node) @ encode (sn_size node) @ encode (ucast (sn_checksum node)) @
     encode (sn_modifiedTime node) @ encode (size64 (length (sn_blockIds node))) @
     concat (map encode (sn_blockIds node))"

definition serialize_node :: "string \<times> SnapshotNode \<Rightarrow> byte list" where
  "serialize_node pn = serialize_string (fst pn) @ serialize_node_body (snd pn)"

definition mf_serialize :: "(string \<times> SnapshotNode) list \<Rightarrow> SnapshotManifest \<Rightarrow> byte list" where
  "mf_serialize it mf =
     encode (mf_id mf) @ encode (mf_parentId mf) @ encode (mf_timestamp mf) @
     serialize_string (mf_label mf) @
     encode (size64 (length it)) @ concat (map serialize_node it)"

text \<open>\<^verbatim>\<open>if (offset >= bytes.size()) return std::nullopt;\<close> and then a varint.\<close>

definition more_varint :: "byte list \<Rightarrow> nat \<Rightarrow> (u64 \<times> nat) rd" where
  "more_varint data off = bind_rd (need_more data off) (\<lambda>_. read_varint data off)"

text \<open>A loop whose early return makes the whole function return \<^verbatim>\<open>nullopt\<close>.\<close>

definition read_all ::
  "(byte list \<Rightarrow> nat \<Rightarrow> ('a \<times> nat) rd) \<Rightarrow> nat \<Rightarrow> byte list \<Rightarrow> nat \<Rightarrow> ('a list \<times> nat) rd" where
  "read_all rec n data off =
     bind_cpp (read_upto rec n data off) (\<lambda>(xs, r). Inr (map_option (\<lambda>off. (xs, off)) r))"

definition read_node :: "nat \<Rightarrow> byte list \<Rightarrow> nat \<Rightarrow> (SnapshotNode \<times> nat) rd" where
  "read_node limit data off =
     bind_rd (more_varint data off) (\<lambda>(pathLen, off).
     bind_rd (read_string data off pathLen) (\<lambda>(path, off).
     bind_rd (more_varint data off) (\<lambda>(eid, off).
     bind_rd (more_varint data off) (\<lambda>(sz, off).
     bind_rd (more_varint data off) (\<lambda>(ck, off).
     bind_rd (more_varint data off) (\<lambda>(mtime, off).
     bind_rd (more_varint data off) (\<lambda>(numBlocks, off).
     if unat numBlocks > limit then Inl Alloc_failure
     else
       bind_rd (read_all more_varint (unat numBlocks) data off) (\<lambda>(blockIds, off).
       Inr (Some (\<lparr>sn_entryId = eid, sn_path = path, sn_size = sz, sn_checksum = ucast ck,
                   sn_modifiedTime = mtime, sn_blockIds = blockIds\<rparr>, off))))))))))"

definition mf_deserialize :: "u64 \<Rightarrow> nat \<Rightarrow> byte list \<Rightarrow> SnapshotManifest rd" where
  "mf_deserialize now limit data =
     (if data = [] then Inr None
      else
        bind_rd (read_varint data 0) (\<lambda>(sid, off).
        bind_rd (more_varint data off) (\<lambda>(parentId, off).
        bind_rd (more_varint data off) (\<lambda>(ts, off).
        bind_rd (more_varint data off) (\<lambda>(labelLen, off).
        bind_rd (read_string data off labelLen) (\<lambda>(label, off).
        let mf = newManifest now sid parentId label ts in
        if off \<ge> length data then Inr (Some mf)
        else
          bind_rd (read_varint data off) (\<lambda>(numNodes, off).
          bind_rd (read_all (read_node limit) (unat numNodes) data off) (\<lambda>(nodes, _).
          Inr (Some (foldl (\<lambda>mf node. addNode node mf) mf nodes))))))))))"

section \<open>Lemmas\<close>

lemma more_varint_bounds: "more_varint data off = Inr (Some (v, off')) \<Longrightarrow> off < off' \<and> off' \<le> length data"
  by (auto simp: more_varint_def bind_rd_eq_Some dest: read_varint_bounds)

lemma more_varint_abort_iff:
  "off \<le> length data \<Longrightarrow> more_varint data off = Inl e \<longleftrightarrow> e = Undefined_behaviour \<and> overwide data off"
  by (auto simp: more_varint_def need_more_def bind_rd_eq_Inl read_varint_abort_iff overwide_def)

lemma more_varint_encode:
  "drop off data = encode v @ rest \<Longrightarrow> length data = off + length (encode v) + length rest \<Longrightarrow>
   more_varint data off = Inr (Some (v, off + length (encode v)))"
  by (simp add: more_varint_def need_more_def read_varint_def)

interpretation blocks: safe_codec more_varint "\<lambda>data off. [off]" encode "\<lambda>_. True"
  by unfold_locales (auto dest: more_varint_bounds simp: more_varint_abort_iff more_varint_encode)

lemma read_all_bounds:
  assumes "bounded_reader rec" "read_all rec n data off = Inr (Some (xs, off'))" "off \<le> length data"
  shows "off \<le> off' \<and> off' \<le> length data \<and> length xs = n"
proof -
  have "read_upto rec n data off = Inr (xs, Some off')"
    using assms(2) by (auto simp: read_all_def bind_cpp_eq_Inr)
  from bounded_reader.read_upto_bounds [OF assms(1) this assms(3)] show ?thesis
    by simp
qed

lemma read_all_enc:
  assumes "record_codec rec enc ok" "list_all ok xs" "drop off data = concat (map enc xs) @ rest"
    "length data = off + length (concat (map enc xs)) + length rest" "length data < 2 ^ 63"
  shows "read_all rec (length xs) data off = Inr (Some (xs, off + length (concat (map enc xs))))"
  using record_codec.read_upto_enc [OF assms] by (simp add: read_all_def)

lemma ucast_u32_u64 [simp]: "ucast (ucast (w :: u32) :: u64) = w"
  by (rule bit_word_eqI) (simp add: bit_simps)

definition node_wf :: "nat \<Rightarrow> SnapshotNode \<Rightarrow> bool" where
  "node_wf limit node \<longleftrightarrow> length (sn_blockIds node) \<le> limit"

lemma node_path_len: "sn_path x = p \<Longrightarrow> serialize_node (p, x) = serialize_node (sn_path x, x)"
  by simp

lemma read_node_enc:
  assumes wf: "node_wf limit x" and d: "drop off data = serialize_node (sn_path x, x) @ rest"
    and len: "length data = off + length (serialize_node (sn_path x, x)) + length rest" "length data < 2 ^ 63"
  shows "read_node limit data off = Inr (Some (x, off + length (serialize_node (sn_path x, x))))"
proof -
  let ?p = "sn_path x"
  let ?o1 = "off + length (encode (size64 (length ?p)))"
  let ?o2 = "?o1 + length ?p + length (encode (sn_entryId x)) + length (encode (sn_size x)) +
      length (encode (ucast (sn_checksum x) :: u64)) + length (encode (sn_modifiedTime x)) +
      length (encode (size64 (length (sn_blockIds x))))"
  have nb: "length (sn_blockIds x) < 2 ^ 64" "length ?p < 2 ^ 64"
    using length_le_concat [of encode "sn_blockIds x"] len
    by (auto simp: serialize_node_def serialize_node_body_def serialize_string_def)
  have "read_string data ?o1 (size64 (length ?p)) = Inr (Some (?p, ?o1 + length ?p))"
    using d len by (intro read_string_at) (auto simp: serialize_node_def serialize_string_def drop_add simp del: drop_drop)
  moreover have "read_all more_varint (length (sn_blockIds x)) data ?o2 =
      Inr (Some (sn_blockIds x, ?o2 + length (concat (map encode (sn_blockIds x)))))"
    using d len
    by (intro read_all_enc [OF blocks.record_codec_axioms, where rest = rest])
      (auto simp: serialize_node_def serialize_string_def serialize_node_body_def drop_add list_all_iff
        simp del: drop_drop)
  ultimately show ?thesis
    using d len nb wf
    by (simp add: read_node_def serialize_node_def serialize_string_def serialize_node_body_def
        more_varint_def need_more_def read_varint_def node_wf_def drop_add add.assoc del: drop_drop)
qed

lemma read_node_bounds:
  "read_node limit data off = Inr (Some (x, off')) \<Longrightarrow> off \<le> off' \<and> off' \<le> length data"
  by (auto simp: read_node_def bind_rd_eq_Some split: if_splits dest!: more_varint_bounds read_string_bounds
      read_all_bounds [OF blocks.bounded_reader_axioms])

interpretation node: record_codec "read_node limit" "\<lambda>x. serialize_node (sn_path x, x)" "node_wf limit" for limit
  by unfold_locales (auto dest: read_node_bounds intro: read_node_enc)

text \<open>The paths under which nodes are stored are their own.\<close>

definition mf_ok :: "SnapshotManifest \<Rightarrow> bool" where
  "mf_ok mf \<longleftrightarrow> (\<forall>path \<in> dom (mf_nodes mf). sn_path (the (mf_nodes mf path)) = path)"

lemma addNode_ok: "mf_ok mf \<Longrightarrow> mf_ok (addNode node mf)"
  by (auto simp: mf_ok_def addNode_def dom_def)

lemma removeNode_ok: "mf_ok mf \<Longrightarrow> mf_ok (snd (removeNode path mf))"
  by (auto simp: mf_ok_def removeNode_def dom_def)

interpretation mf: erasable_store mf_ok "\<lambda>mf path. Inr (findNode mf path)"
  "\<lambda>mf path node. addNode (node\<lparr>sn_path := path\<rparr>) mf" "\<lambda>path node. node\<lparr>sn_path := path\<rparr>"
  "\<lambda>mf path. snd (removeNode path mf)"
  by unfold_locales (simp_all add: addNode_ok removeNode_ok, auto simp: findNode_def addNode_def removeNode_def)

lemma addNodes_nodes:
  "mf_nodes (foldl (\<lambda>mf node. addNode node mf) mf nodes) = mf_nodes mf ++ map_of (rev (map (\<lambda>n. (sn_path n, n)) nodes))"
  by (induction nodes arbitrary: mf) (auto simp: addNode_def map_add_def fun_eq_iff split: option.splits)

lemma addNodes_other:
  "mf_id (foldl (\<lambda>mf node. addNode node mf) mf nodes) = mf_id mf"
  "mf_parentId (foldl (\<lambda>mf node. addNode node mf) mf nodes) = mf_parentId mf"
  "mf_label (foldl (\<lambda>mf node. addNode node mf) mf nodes) = mf_label mf"
  "mf_timestamp (foldl (\<lambda>mf node. addNode node mf) mf nodes) = mf_timestamp mf"
  by (induction nodes arbitrary: mf) (auto simp: addNode_def)

lemma enumerates_own_paths:
  assumes "mf_ok mf" "enumerates it (mf_nodes mf)"
  shows "it = map (\<lambda>n. (sn_path n, n)) (map snd it)"
proof -
  have "p = sn_path n" if "(p, n) \<in> set it" for p n
    using that assms enumerates_mem [OF assms(2), of p n] by (auto simp: mf_ok_def dom_def)
  then show ?thesis
    by (auto intro!: nth_equalityI simp: prod_eq_iff)
qed

text \<open>A manifest with a timestamp, serialised in any iteration order of its node table,
  is read back as the same manifest: identifiers, label, timestamp and every node with its
  block list.\<close>

theorem manifest_roundtrip:
  assumes "mf_ok mf" "enumerates it (mf_nodes mf)" "mf_timestamp mf \<noteq> 0"
    "list_all (\<lambda>(_, node). node_wf limit node) it" "length (mf_serialize it mf) < 2 ^ 63"
  shows "mf_deserialize now limit (mf_serialize it mf) = Inr (Some mf)"
proof -
  let ?data = "mf_serialize it mf" and ?ns = "map snd it"
  let ?o1 = "length (encode (mf_id mf)) + length (encode (mf_parentId mf)) + length (encode (mf_timestamp mf)) +
      length (encode (size64 (length (mf_label mf))))"
  let ?o2 = "?o1 + length (mf_label mf) + length (encode (size64 (length it)))"
  have it: "it = map (\<lambda>n. (sn_path n, n)) ?ns"
    by (rule enumerates_own_paths [OF assms(1,2)])
  have conc: "concat (map serialize_node it) = concat (map (\<lambda>x. serialize_node (sn_path x, x)) ?ns)"
    by (subst it) (simp add: o_def)
  have wf: "list_all (node_wf limit) ?ns"
    using assms(4) by (auto simp: list_all_iff)
  have ne: "serialize_node x \<noteq> []" for x
    by (simp add: serialize_node_def serialize_string_def)
  have len: "length it < 2 ^ 64" "length (mf_label mf) < 2 ^ 63"
    using length_le_concat [of serialize_node it, OF ne] assms(5) by (auto simp: mf_serialize_def serialize_string_def)
  have "read_string ?data ?o1 (size64 (length (mf_label mf))) = Inr (Some (mf_label mf, ?o1 + length (mf_label mf)))"
    using assms(5) by (intro read_string_at) (auto simp: mf_serialize_def serialize_string_def)
  moreover have "read_all (read_node limit) (length ?ns) ?data ?o2 =
      Inr (Some (?ns, ?o2 + length (concat (map (\<lambda>x. serialize_node (sn_path x, x)) ?ns))))"
    using wf assms(5)
    by (intro read_all_enc [OF node.record_codec_axioms, where rest = "[]"])
      (auto simp: mf_serialize_def serialize_string_def conc)
  moreover have "foldl (\<lambda>mf node. addNode node mf)
      (newManifest now (mf_id mf) (mf_parentId mf) (mf_label mf) (mf_timestamp mf)) ?ns = mf"
    using assms(2,3) it
    by (intro SnapshotManifest.equality)
      (auto simp: addNodes_nodes addNodes_other newManifest_def enumerates_def map_of_rev_distinct simp flip: it)
  ultimately show ?thesis
    using len
    by (simp add: mf_deserialize_def mf_serialize_def serialize_string_def more_varint_def need_more_def read_varint_def
        drop_add add.assoc Let_def del: drop_drop)
qed

definition mf_example :: SnapshotManifest where
  "mf_example = addNode \<lparr>sn_entryId = 4, sn_path = ''b'', sn_size = 9, sn_checksum = 77, sn_modifiedTime = 5,
       sn_blockIds = [10, 20]\<rparr>
     (addNode \<lparr>sn_entryId = 3, sn_path = ''a'', sn_size = 1, sn_checksum = 7, sn_modifiedTime = 5,
       sn_blockIds = []\<rparr> (newManifest 0 1 0 ''first'' 1700000000))"

definition mf_example_order :: "(string \<times> SnapshotNode) list" where
  "mf_example_order = map (\<lambda>p. (p, the (mf_nodes mf_example p))) [''b'', ''a'']"

lemma mf_example_ok: "mf_ok mf_example"
  unfolding mf_example_def by (intro addNode_ok) (simp add: mf_ok_def newManifest_def)

lemma mf_example_enumerates: "enumerates mf_example_order (mf_nodes mf_example)"
  by (auto simp: enumerates_def mf_example_order_def mf_example_def addNode_def newManifest_def fun_eq_iff)

lemma length_mf_example: "length (mf_serialize mf_example_order mf_example) < 2 ^ 63"
proof -
  have le: "length (encode v) \<le> 10" for v
    by (rule length_encode_le)
  show ?thesis
    using le [of 1] le [of 0] le [of 1700000000] le [of "size64 (Suc (Suc (Suc (Suc (Suc 0)))))"] le [of "size64 (Suc (Suc 0))"] le [of 4] le [of 9]
      le [of 77] le [of 5] le [of 10] le [of 20] le [of 3] le [of 7] le [of "size64 (Suc 0)"] le [of "size64 0"]
    by (simp add: mf_serialize_def mf_example_order_def mf_example_def addNode_def newManifest_def
        serialize_node_def serialize_string_def serialize_node_body_def)
qed

theorem manifest_roundtrip_witness:
  "mf_deserialize 0 2 (mf_serialize mf_example_order mf_example) = Inr (Some mf_example)"
  by (rule manifest_roundtrip [OF mf_example_ok mf_example_enumerates _ _ length_mf_example])
    (simp_all add: mf_example_def mf_example_order_def addNode_def newManifest_def node_wf_def)

end
