(* ===== verification/Snapshot_Delta.thy ===== *)
theory Snapshot_Delta
  imports Snapshot_Manifest Core_Types
begin

text \<open>
  \<^verbatim>\<open>src/snapshot/DeltaEngine.cpp\<close>, \<^verbatim>\<open>PatchApplier.cpp\<close> and \<^verbatim>\<open>SnapshotManager.cpp\<close>: the
  difference of two manifests, its binary form, its application, and the table of snapshots.
  Iteration orders of the node tables are arguments.  The mutex of the manager makes each
  operation atomic, so an operation is one function on the manager's state.

  Shown: applying the computed delta to the base, also after a trip through the binary form,
  rebuilds the target's node table up to nodes the engine takes for unchanged; and invariants
  of every run of the manager, with freshness of new snapshot identifiers.
\<close>

section \<open>Deltas\<close>

datatype DeltaAction = Unchanged | Added | Modified | Deleted | Delta_raw byte

definition delta_action_to_byte :: "DeltaAction \<Rightarrow> byte" where
  "delta_action_to_byte a =
     (case a of Unchanged \<Rightarrow> 0 | Added \<Rightarrow> 1 | Modified \<Rightarrow> 2 | Deleted \<Rightarrow> 3 | Delta_raw b \<Rightarrow> b)"

definition delta_action_of_byte :: "byte \<Rightarrow> DeltaAction" where
  "delta_action_of_byte b =
     (if b = 0 then Unchanged else if b = 1 then Added else if b = 2 then Modified
      else if b = 3 then Deleted else Delta_raw b)"

record DeltaEntry =
  de_path :: string
  de_action :: DeltaAction
  de_oldNode :: "SnapshotNode option"
  de_newNode :: "SnapshotNode option"
  de_newBlockIds :: "u64 list"

record SnapshotDelta =
  sd_baseId :: u64
  sd_targetId :: u64
  sd_entries :: "DeltaEntry list"

definition addedCount :: "SnapshotDelta \<Rightarrow> nat" where
  "addedCount d = length (filter (\<lambda>e. de_action e = Added) (sd_entries d))"

definition modifiedCount :: "SnapshotDelta \<Rightarrow> nat" where
  "modifiedCount d = length (filter (\<lambda>e. de_action e = Modified) (sd_entries d))"

definition deletedCount :: "SnapshotDelta \<Rightarrow> nat" where
  "deletedCount d = length (filter (\<lambda>e. de_action e = Deleted) (sd_entries d))"

definition entry_addedBytes :: "DeltaEntry \<Rightarrow> u64" where
  "entry_addedBytes e =
     (case (de_action e, de_newNode e, de_oldNode e) of
        (Added, Some new, _) \<Rightarrow> sn_size new
      | (Modified, Some new, Some old) \<Rightarrow> if sn_size new > sn_size old then sn_size new - sn_size old else 0
      | _ \<Rightarrow> 0)"

definition addedBytes :: "SnapshotDelta \<Rightarrow> u64" where
  "addedBytes d = fold (\<lambda>e total. total + entry_addedBytes e) (sd_entries d) 0"

definition entry_deletedBytes :: "DeltaEntry \<Rightarrow> u64" where
  "entry_deletedBytes e =
     (case (de_action e, de_newNode e, de_oldNode e) of
        (Deleted, _, Some old) \<Rightarrow> sn_size old
      | (Modified, Some new, Some old) \<Rightarrow> if sn_size old > sn_size new then sn_size old - sn_size new else 0
      | _ \<Rightarrow> 0)"

definition deletedBytes :: "SnapshotDelta \<Rightarrow> u64" where
  "deletedBytes d = fold (\<lambda>e total. total + entry_deletedBytes e) (sd_entries d) 0"

definition empty_delta_entry :: DeltaEntry where
  "empty_delta_entry = \<lparr>de_path = [], de_action = Unchanged, de_oldNode = None, de_newNode = None,
     de_newBlockIds = []\<rparr>"

text \<open>The entry for one node of the target, and for one node of the base.\<close>

definition delta_of_target :: "SnapshotManifest \<Rightarrow> string \<times> SnapshotNode \<Rightarrow> DeltaEntry list" where
  "delta_of_target base pn =
     (case pn of (path, targetNode) \<Rightarrow>
        (case findNode base path of
           None \<Rightarrow>
             [empty_delta_entry\<lparr>de_path := path, de_action := Added, de_newNode := Some targetNode,
                de_newBlockIds := sn_blockIds targetNode\<rparr>]
         | Some baseNode \<Rightarrow>
             if sn_checksum baseNode \<noteq> sn_checksum targetNode \<or> sn_size baseNode \<noteq> sn_size targetNode
             then [empty_delta_entry\<lparr>de_path := path, de_action := Modified, de_oldNode := Some baseNode,
                     de_newNode := Some targetNode,
                     de_newBlockIds := filter (\<lambda>b. b \<notin> set (sn_blockIds baseNode)) (sn_blockIds targetNode)\<rparr>]
             else []))"

definition delta_of_base :: "SnapshotManifest \<Rightarrow> string \<times> SnapshotNode \<Rightarrow> DeltaEntry list" where
  "delta_of_base target pn =
     (case pn of (path, baseNode) \<Rightarrow>
        if \<not> hasNode target path
        then [empty_delta_entry\<lparr>de_path := path, de_action := Deleted, de_oldNode := Some baseNode\<rparr>]
        else [])"

definition computeDelta ::
  "(string \<times> SnapshotNode) list \<Rightarrow> (string \<times> SnapshotNode) list \<Rightarrow> SnapshotManifest \<Rightarrow> SnapshotManifest
    \<Rightarrow> SnapshotDelta" where
  "computeDelta baseIt targetIt base target =
     \<lparr>sd_baseId = mf_id base, sd_targetId = mf_id target,
      sd_entries = concat (map (delta_of_target base) targetIt) @ concat (map (delta_of_base target) baseIt)\<rparr>"

definition computeReusedBlocks :: "SnapshotDelta \<Rightarrow> u64 list" where
  "computeReusedBlocks d =
     concat (map (\<lambda>e. case (de_action e, de_oldNode e, de_newNode e) of
         (Modified, Some old, Some new) \<Rightarrow> filter (\<lambda>b. b \<in> set (sn_blockIds old)) (sn_blockIds new)
       | _ \<Rightarrow> []) (sd_entries d))"

section \<open>The binary form of a delta\<close>

definition serialize_DeltaEntry :: "DeltaEntry \<Rightarrow> byte list" where
  "serialize_DeltaEntry e =
     serialize_string (de_path e) @ [delta_action_to_byte (de_action e)] @
     (case de_newNode e of None \<Rightarrow> [0] | Some node \<Rightarrow> 1 # serialize_node_body node)"

definition sd_serialize :: "SnapshotDelta \<Rightarrow> byte list" where
  "sd_serialize d =
     encode (sd_baseId d) @ encode (sd_targetId d) @ encode (size64 (length (sd_entries d))) @
     concat (map serialize_DeltaEntry (sd_entries d))"

definition read_delta_node :: "string \<Rightarrow> byte list \<Rightarrow> nat \<Rightarrow> (SnapshotNode \<times> nat) rd" where
  "read_delta_node path data off =
     bind_rd (read_varint data off) (\<lambda>(eid, off).
     bind_rd (read_varint data off) (\<lambda>(sz, off).
     bind_rd (read_varint data off) (\<lambda>(ck, off).
     bind_rd (read_varint data off) (\<lambda>(mtime, off).
     bind_rd (read_varint data off) (\<lambda>(bCount, off).
     bind_rd (read_all read_varint (unat bCount) data off) (\<lambda>(blockIds, off).
     Inr (Some (\<lparr>sn_entryId = eid, sn_path = path, sn_size = sz, sn_checksum = ucast ck,
                 sn_modifiedTime = mtime, sn_blockIds = blockIds\<rparr>, off))))))))"

definition read_DeltaEntry :: "byte list \<Rightarrow> nat \<Rightarrow> (DeltaEntry \<times> nat) rd" where
  "read_DeltaEntry data off =
     bind_rd (more_varint data off) (\<lambda>(pathLen, off).
     bind_rd (read_string data off pathLen) (\<lambda>(path, off).
     bind_rd (read_block data off 1) (\<lambda>(actionByte, off).
     bind_rd (read_block data off 1) (\<lambda>(hasNewNode, off).
     let entry = empty_delta_entry\<lparr>de_path := path, de_action := delta_action_of_byte (hd actionByte)\<rparr> in
     if hd hasNewNode \<noteq> 0 then
       bind_rd (read_delta_node path data off) (\<lambda>(node, off).
       Inr (Some (entry\<lparr>de_newNode := Some node\<rparr>, off)))
     else Inr (Some (entry, off))))))"

definition sd_deserialize :: "nat \<Rightarrow> byte list \<Rightarrow> SnapshotDelta rd" where
  "sd_deserialize limit data =
     (if data = [] then Inr None
      else
        bind_rd (read_varint data 0) (\<lambda>(baseId, off).
        bind_rd (more_varint data off) (\<lambda>(targetId, off).
        bind_rd (more_varint data off) (\<lambda>(numEntries, off).
        if unat numEntries > limit then Inl Alloc_failure
        else
          bind_rd (read_all read_DeltaEntry (unat numEntries) data off) (\<lambda>(entries, _).
          Inr (Some \<lparr>sd_baseId = baseId, sd_targetId = targetId, sd_entries = entries\<rparr>))))))"

section \<open>Applying a delta\<close>

definition apply_entry :: "SnapshotManifest \<Rightarrow> DeltaEntry \<Rightarrow> SnapshotManifest" where
  "apply_entry target e =
     (case de_action e of
        Added \<Rightarrow> (case de_newNode e of None \<Rightarrow> target | Some node \<Rightarrow> addNode node target)
      | Modified \<Rightarrow> (case de_newNode e of None \<Rightarrow> target | Some node \<Rightarrow> addNode node target)
      | Deleted \<Rightarrow> snd (removeNode (de_path e) target)
      | _ \<Rightarrow> target)"

definition applyPatch ::
  "u64 \<Rightarrow> (string \<times> SnapshotNode) list \<Rightarrow> SnapshotManifest \<Rightarrow> SnapshotDelta \<Rightarrow> string \<Rightarrow> SnapshotManifest option" where
  "applyPatch now baseIt base d targetLabel =
     (if sd_baseId d \<noteq> mf_id base then None
      else
        let label = (if targetLabel = [] then ''reconstructed_snap_'' @ nat_to_string (unat (sd_targetId d))
                     else targetLabel);
            target = newManifest now (sd_targetId d) (mf_id base) label 0;
            target = foldl (\<lambda>t (path, node). addNode node t) target baseIt in
        Some (foldl apply_entry target (sd_entries d)))"

section \<open>The snapshot manager\<close>

record SnapshotManager =
  sm_current :: u64
  sm_next :: u64
  sm_manifests :: "u64 \<rightharpoonup> SnapshotManifest"

definition newSnapshotManager :: SnapshotManager where
  "newSnapshotManager = \<lparr>sm_current = 0, sm_next = 1, sm_manifests = Map.empty\<rparr>"

definition createSnapshot ::
  "u64 \<Rightarrow> string \<Rightarrow> SnapshotNode list \<Rightarrow> SnapshotManager \<Rightarrow> u64 \<times> SnapshotManager" where
  "createSnapshot now label nodes sm =
     (let newId = sm_next sm;
          manifest = foldl (\<lambda>mf node. addNode node mf) (newManifest now newId (sm_current sm) label 0) nodes in
      (newId, sm\<lparr>sm_next := sm_next sm + 1, sm_manifests := (sm_manifests sm)(newId \<mapsto> manifest),
                 sm_current := newId\<rparr>))"

definition registerSnapshot :: "SnapshotManifest \<Rightarrow> SnapshotManager \<Rightarrow> bool \<times> SnapshotManager" where
  "registerSnapshot manifest sm =
     (let sid = mf_id manifest in
      if sm_manifests sm sid \<noteq> None then (False, sm)
      else
        (True, sm\<lparr>sm_next := (if sid \<ge> sm_next sm then sid + 1 else sm_next sm), sm_current := sid,
                  sm_manifests := (sm_manifests sm)(sid \<mapsto> manifest)\<rparr>))"

definition getSnapshot :: "SnapshotManager \<Rightarrow> u64 \<Rightarrow> SnapshotManifest option" where
  "getSnapshot sm sid = sm_manifests sm sid"

definition currentSnapshot :: "SnapshotManager \<Rightarrow> SnapshotManifest option" where
  "currentSnapshot sm = sm_manifests sm (sm_current sm)"

definition checkoutSnapshot :: "u64 \<Rightarrow> SnapshotManager \<Rightarrow> bool \<times> SnapshotManager" where
  "checkoutSnapshot sid sm =
     (if sm_manifests sm sid = None then (False, sm) else (True, sm\<lparr>sm_current := sid\<rparr>))"

text \<open>\<open>it\<close> is the iteration order of the table after the erasure; \<^verbatim>\<open>begin()\<close> is its first
  element.\<close>

definition deleteSnapshot ::
  "(u64 \<times> SnapshotManifest) list \<Rightarrow> u64 \<Rightarrow> SnapshotManager \<Rightarrow> bool \<times> SnapshotManager" where
  "deleteSnapshot it sid sm =
     (if sm_manifests sm sid = None then (False, sm)
      else
        (True, sm\<lparr>sm_manifests := (sm_manifests sm)(sid := None),
                  sm_current := (if sm_current sm = sid then (if it = [] then 0 else fst (hd it))
                                 else sm_current sm)\<rparr>))"

definition listSnapshots :: "(u64 \<times> SnapshotManifest) list \<Rightarrow> SnapshotManifest list" where
  "listSnapshots it = sort_key mf_id (map snd it)"

definition createDelta ::
  "(string \<times> SnapshotNode) list \<Rightarrow> (string \<times> SnapshotNode) list \<Rightarrow> u64 \<Rightarrow> u64 \<Rightarrow> SnapshotManager
    \<Rightarrow> SnapshotDelta option" where
  "createDelta fromIt toIt fromId toId sm =
     (case (sm_manifests sm fromId, sm_manifests sm toId) of
        (Some from, Some to) \<Rightarrow> Some (computeDelta fromIt toIt from to)
      | _ \<Rightarrow> None)"

definition sm_clear :: "SnapshotManager \<Rightarrow> SnapshotManager" where
  "sm_clear sm = newSnapshotManager"

section \<open>Applying the computed delta\<close>

definition entry_consistent :: "DeltaEntry \<Rightarrow> bool" where
  "entry_consistent e \<longleftrightarrow>
     (case de_newNode e of
        Some node \<Rightarrow> de_action e \<in> {Added, Modified} \<and> sn_path node = de_path e
      | None \<Rightarrow> de_action e = Deleted)"

lemma apply_entry_nodes:
  "entry_consistent e \<Longrightarrow> mf_nodes (apply_entry t e) = (mf_nodes t)(de_path e := de_newNode e)"
  by (auto simp: entry_consistent_def apply_entry_def addNode_def removeNode_def split: option.splits)

lemma apply_entry_other:
  "mf_id (apply_entry t e) = mf_id t" "mf_parentId (apply_entry t e) = mf_parentId t"
  "mf_label (apply_entry t e) = mf_label t"
  by (auto simp: apply_entry_def addNode_def removeNode_def split: DeltaAction.splits option.splits)

lemma apply_entries_other:
  "mf_id (foldl apply_entry t es) = mf_id t" "mf_parentId (foldl apply_entry t es) = mf_parentId t"
  "mf_label (foldl apply_entry t es) = mf_label t"
  by (induction es arbitrary: t) (simp_all add: apply_entry_other)

lemma apply_entries_nodes:
  "list_all entry_consistent es \<Longrightarrow> distinct (map de_path es) \<Longrightarrow>
   mf_nodes (foldl apply_entry t es) p =
     (case map_of (map (\<lambda>e. (de_path e, de_newNode e)) es) p of None \<Rightarrow> mf_nodes t p | Some r \<Rightarrow> r)"
proof (induction es arbitrary: t)
  case (Cons e es)
  have "map_of (map (\<lambda>e. (de_path e, de_newNode e)) es) (de_path e) = None"
    using Cons.prems by (auto simp: map_of_eq_None_iff)
  with Cons show ?case
    by (auto simp: apply_entry_nodes split: option.split)
qed simp

lemma distinct_delta_paths:
  "(\<And>x. map de_path (f x) = [] \<or> map de_path (f x) = [fst x]) \<Longrightarrow> distinct (map fst xs) \<Longrightarrow>
   distinct (map de_path (concat (map f xs))) \<and> de_path ` set (concat (map f xs)) \<subseteq> fst ` set xs"
proof (induction xs)
  case (Cons x xs)
  have IH: "distinct (map de_path (concat (map f xs)))" "de_path ` set (concat (map f xs)) \<subseteq> fst ` set xs"
    using Cons.IH [OF Cons.prems(1)] Cons.prems(2) by simp_all
  from Cons.prems(1) [of x] show ?case
  proof
    assume fx: "map de_path (f x) = [fst x]"
    then obtain e where e: "f x = [e]" "de_path e = fst x"
      by auto
    have "de_path e \<notin> de_path ` set (concat (map f xs))"
      using IH(2) Cons.prems(2) e(2) by auto
    with IH e show ?thesis
      by auto
  qed (use IH in auto)
qed simp

lemma delta_of_target_paths: "map de_path (delta_of_target base x) = [] \<or> map de_path (delta_of_target base x) = [fst x]"
  by (auto simp: delta_of_target_def split: prod.splits option.splits)

lemma delta_of_base_paths: "map de_path (delta_of_base target x) = [] \<or> map de_path (delta_of_base target x) = [fst x]"
  by (auto simp: delta_of_base_def split: prod.splits)

lemma delta_of_target_mem:
  "e \<in> set (delta_of_target base (p, n)) \<Longrightarrow> sn_path n = p \<Longrightarrow>
   entry_consistent e \<and> de_path e = p \<and> de_newNode e = Some n"
  by (auto simp: delta_of_target_def entry_consistent_def empty_delta_entry_def split: option.splits if_splits)

lemma delta_of_base_mem:
  "e \<in> set (delta_of_base target (p, n)) \<Longrightarrow>
   entry_consistent e \<and> de_path e = p \<and> de_newNode e = None \<and> mf_nodes target p = None"
  by (auto simp: delta_of_base_def entry_consistent_def empty_delta_entry_def hasNode_def split: if_splits)

lemma mf_ok_path: "mf_ok mf \<Longrightarrow> mf_nodes mf p = Some n \<Longrightarrow> sn_path n = p"
  by (auto simp: mf_ok_def dom_def)

text \<open>The engine takes a node for unchanged when checksum and size agree.\<close>

definition same_node :: "SnapshotNode \<Rightarrow> SnapshotNode \<Rightarrow> bool" where
  "same_node b t \<longleftrightarrow> sn_checksum b = sn_checksum t \<and> sn_size b = sn_size t"

definition patched_nodes :: "SnapshotManifest \<Rightarrow> SnapshotManifest \<Rightarrow> string \<Rightarrow> SnapshotNode option" where
  "patched_nodes base target p =
     (case (mf_nodes target p, mf_nodes base p) of
        (Some t, Some b) \<Rightarrow> Some (if same_node b t then b else t)
      | (t, _) \<Rightarrow> t)"

lemma computeDelta_consistent:
  assumes "mf_ok target" "enumerates baseIt (mf_nodes base)" "enumerates targetIt (mf_nodes target)"
  shows "list_all entry_consistent (sd_entries (computeDelta baseIt targetIt base target))"
    and "distinct (map de_path (sd_entries (computeDelta baseIt targetIt base target)))"
proof -
  let ?T = "concat (map (delta_of_target base) targetIt)" and ?B = "concat (map (delta_of_base target) baseIt)"
  have T: "entry_consistent e \<and> mf_nodes target (de_path e) \<noteq> None" if "e \<in> set ?T" for e
    using that enumerates_mem [OF assms(3)] mf_ok_path [OF assms(1)] by (fastforce dest: delta_of_target_mem)
  have B: "entry_consistent e \<and> mf_nodes target (de_path e) = None" if "e \<in> set ?B" for e
    using that by (auto dest: delta_of_base_mem)
  show "list_all entry_consistent (sd_entries (computeDelta baseIt targetIt base target))"
    using T B by (auto simp: computeDelta_def list_all_iff)
  have "distinct (map de_path ?T)" "distinct (map de_path ?B)"
    using distinct_delta_paths [of "delta_of_target base", OF delta_of_target_paths, of targetIt]
      distinct_delta_paths [of "delta_of_base target", OF delta_of_base_paths, of baseIt] assms(2,3)
    by (auto simp: enumerates_def)
  moreover have "de_path ` set ?T \<inter> de_path ` set ?B = {}"
    using T B by fastforce
  ultimately show "distinct (map de_path (sd_entries (computeDelta baseIt targetIt base target)))"
    by (simp add: computeDelta_def)
qed

lemma delta_target_image:
  "(p, r) \<in> (\<lambda>e. (de_path e, de_newNode e)) ` (\<Union>x \<in> set it. set (delta_of_target base x)) \<longleftrightarrow>
     (\<exists>n. (p, n) \<in> set it \<and> r = Some n \<and> delta_of_target base (p, n) \<noteq> [])"
proof -
  have "(p, r) \<in> (\<lambda>e. (de_path e, de_newNode e)) ` set (delta_of_target base (q, n)) \<longleftrightarrow>
      p = q \<and> r = Some n \<and> delta_of_target base (q, n) \<noteq> []" for q n
    by (auto simp: delta_of_target_def empty_delta_entry_def split: option.splits)
  then show ?thesis
    unfolding image_UN UN_iff Bex_def split_paired_Ex by simp
qed

lemma delta_base_image:
  "(p, r) \<in> (\<lambda>e. (de_path e, de_newNode e)) ` (\<Union>x \<in> set it. set (delta_of_base target x)) \<longleftrightarrow>
     (\<exists>n. (p, n) \<in> set it \<and> r = None \<and> delta_of_base target (p, n) \<noteq> [])"
proof -
  have "(p, r) \<in> (\<lambda>e. (de_path e, de_newNode e)) ` set (delta_of_base target (q, n)) \<longleftrightarrow>
      p = q \<and> r = None \<and> delta_of_base target (q, n) \<noteq> []" for q n
    by (auto simp: delta_of_base_def empty_delta_entry_def)
  then show ?thesis
    unfolding image_UN UN_iff Bex_def split_paired_Ex by simp
qed

lemma computeDelta_updates:
  assumes "mf_ok target" "enumerates baseIt (mf_nodes base)" "enumerates targetIt (mf_nodes target)"
  shows "map_of (map (\<lambda>e. (de_path e, de_newNode e)) (sd_entries (computeDelta baseIt targetIt base target))) p =
    (if patched_nodes base target p = mf_nodes base p \<and>
        (\<forall>b t. mf_nodes base p = Some b \<longrightarrow> mf_nodes target p = Some t \<longrightarrow> same_node b t)
     then None else Some (patched_nodes base target p))" (is "map_of ?us p = ?r")
proof -
  have d: "distinct (map fst ?us)"
    using computeDelta_consistent(2) [OF assms] by (simp add: o_def)
  have mem: "(p, r) \<in> set ?us \<longleftrightarrow>
      (\<exists>t. mf_nodes target p = Some t \<and> r = Some t \<and>
         (\<forall>b. mf_nodes base p = Some b \<longrightarrow> \<not> same_node b t)) \<or>
      (\<exists>b. mf_nodes base p = Some b \<and> mf_nodes target p = None \<and> r = None)" for r
  proof -
    have "(p, r) \<in> set ?us \<longleftrightarrow>
        (\<exists>n. (p, n) \<in> set targetIt \<and> r = Some n \<and> delta_of_target base (p, n) \<noteq> []) \<or>
        (\<exists>n. (p, n) \<in> set baseIt \<and> r = None \<and> delta_of_base target (p, n) \<noteq> [])"
      by (simp add: computeDelta_def image_Un delta_target_image delta_base_image)
    then show ?thesis
      using enumerates_mem [OF assms(2)] enumerates_mem [OF assms(3)]
      by (auto simp: delta_of_target_def delta_of_base_def findNode_def hasNode_def same_node_def split: option.splits)
  qed
  show ?thesis
  proof (cases "map_of ?us p")
    case None
    then have no: "(p, r) \<notin> set ?us" for r
      by (force simp: map_of_eq_None_iff)
    show ?thesis
      unfolding None
      using mem [of None] mem [of "mf_nodes target p"] no [of None] no [of "mf_nodes target p"]
      by (auto simp: patched_nodes_def split: option.splits)
  next
    case (Some r)
    then have "(p, r) \<in> set ?us"
      by (rule map_of_SomeD)
    with mem [of r] Some show ?thesis
      by (auto simp: patched_nodes_def split: option.splits)
  qed
qed

text \<open>C18: the delta from one manifest to another, applied to the first, yields a manifest
  with the second's identifier and the first as parent, whose nodes are the second's, except
  that a node the engine takes for unchanged (equal checksum and size) stays as it was.\<close>

theorem delta_apply:
  assumes "mf_ok base" "mf_ok target" "enumerates baseIt (mf_nodes base)" "enumerates targetIt (mf_nodes target)"
  shows "\<exists>r. applyPatch now baseIt base (computeDelta baseIt targetIt base target) label = Some r \<and>
    mf_id r = mf_id target \<and> mf_parentId r = mf_id base \<and> mf_nodes r = patched_nodes base target"
proof -
  let ?d = "computeDelta baseIt targetIt base target"
  define t0 where "t0 = newManifest now (mf_id target) (mf_id base)
    (if label = [] then ''reconstructed_snap_'' @ nat_to_string (unat (mf_id target)) else label) 0"
  define t1 where "t1 = foldl (\<lambda>t (path, node). addNode node t) t0 baseIt"
  have t1: "t1 = foldl (\<lambda>mf node. addNode node mf) t0 (map snd baseIt)"
    by (simp add: t1_def foldl_map case_prod_unfold)
  have n1: "mf_nodes t1 = mf_nodes base"
    using enumerates_own_paths [OF assms(1,3)] assms(3)
    by (simp add: t1 addNodes_nodes t0_def newManifest_def enumerates_def map_of_rev_distinct)
  have "mf_nodes (foldl apply_entry t1 (sd_entries ?d)) p = patched_nodes base target p" for p
    unfolding apply_entries_nodes [OF computeDelta_consistent [OF assms(2-4)]] computeDelta_updates [OF assms(2-4)]
    by (auto simp: n1)
  moreover have "applyPatch now baseIt base ?d label = Some (foldl apply_entry t1 (sd_entries ?d))"
    by (simp add: applyPatch_def computeDelta_def t1_def t0_def Let_def)
  ultimately show ?thesis
    by (auto simp: apply_entries_other t1 addNodes_other t0_def newManifest_def)
qed

definition mf_example2 :: SnapshotManifest where
  "mf_example2 = addNode \<lparr>sn_entryId = 5, sn_path = ''c'', sn_size = 2, sn_checksum = 8, sn_modifiedTime = 6,
       sn_blockIds = [30]\<rparr>
     (addNode \<lparr>sn_entryId = 4, sn_path = ''b'', sn_size = 9, sn_checksum = 78, sn_modifiedTime = 6,
       sn_blockIds = [10, 30]\<rparr> (newManifest 0 2 1 ''second'' 1700000001))"

definition mf_example2_order :: "(string \<times> SnapshotNode) list" where
  "mf_example2_order = map (\<lambda>p. (p, the (mf_nodes mf_example2 p))) [''b'', ''c'']"

lemma mf_example2_ok: "mf_ok mf_example2"
  unfolding mf_example2_def by (intro addNode_ok) (simp add: mf_ok_def newManifest_def)

lemma mf_example2_enumerates: "enumerates mf_example2_order (mf_nodes mf_example2)"
  by (auto simp: enumerates_def mf_example2_order_def mf_example2_def addNode_def newManifest_def fun_eq_iff)

theorem delta_apply_witness:
  "\<exists>r. applyPatch 0 mf_example_order mf_example
      (computeDelta mf_example_order mf_example2_order mf_example mf_example2) [] = Some r \<and>
    mf_id r = mf_id mf_example2 \<and> mf_parentId r = mf_id mf_example \<and> mf_nodes r = patched_nodes mf_example mf_example2"
  by (rule delta_apply [OF mf_example_ok mf_example2_ok mf_example_enumerates mf_example2_enumerates])

section \<open>A delta through its binary form\<close>

text \<open>What the binary form carries of an entry: not the old node, and not the list of new
  blocks.\<close>

definition strip_entry :: "DeltaEntry \<Rightarrow> DeltaEntry" where
  "strip_entry e = e\<lparr>de_oldNode := None, de_newBlockIds := []\<rparr>"

definition entry_wf :: "DeltaEntry \<Rightarrow> bool" where
  "entry_wf e \<longleftrightarrow> delta_action_of_byte (delta_action_to_byte (de_action e)) = de_action e \<and>
     (case de_newNode e of None \<Rightarrow> True | Some node \<Rightarrow> sn_path node = de_path e)"

lemma serialize_strip [simp]: "serialize_DeltaEntry (strip_entry e) = serialize_DeltaEntry e"
  by (simp add: serialize_DeltaEntry_def strip_entry_def)

lemma strip_strip [simp]: "strip_entry (strip_entry e) = strip_entry e"
  by (simp add: strip_entry_def)

lemma read_delta_node_enc:
  assumes d: "drop off data = serialize_node_body x @ rest" and p: "sn_path x = path"
    and len: "length data = off + length (serialize_node_body x) + length rest" "length data < 2 ^ 63"
  shows "read_delta_node path data off = Inr (Some (x, off + length (serialize_node_body x)))"
proof -
  let ?o2 = "off + length (encode (sn_entryId x)) + length (encode (sn_size x)) +
      length (encode (ucast (sn_checksum x) :: u64)) + length (encode (sn_modifiedTime x)) +
      length (encode (size64 (length (sn_blockIds x))))"
  have nb: "length (sn_blockIds x) < 2 ^ 64"
    using length_le_concat [of encode "sn_blockIds x"] len by (auto simp: serialize_node_body_def)
  have "read_all read_varint (length (sn_blockIds x)) data ?o2 =
      Inr (Some (sn_blockIds x, ?o2 + length (concat (map encode (sn_blockIds x)))))"
    using d len
    by (intro read_all_enc [OF ids.record_codec_axioms, where rest = rest])
      (auto simp: serialize_node_body_def drop_add list_all_iff simp del: drop_drop)
  then show ?thesis
    using d len nb p
    by (simp add: read_delta_node_def serialize_node_body_def read_varint_def drop_add add.assoc del: drop_drop)
qed

lemma read_delta_node_bounds:
  "read_delta_node path data off = Inr (Some (x, off')) \<Longrightarrow> off \<le> off' \<and> off' \<le> length data"
  by (auto simp: read_delta_node_def bind_rd_eq_Some dest!: read_varint_bounds
      read_all_bounds [OF ids.bounded_reader_axioms])

lemma read_block_1:
  "drop off data = b # rest \<Longrightarrow> length data = Suc off + length rest \<Longrightarrow> length data < 2 ^ 63 \<Longrightarrow>
   read_block data off 1 = Inr (Some ([b], Suc off))"
  by (simp add: read_block_def)

lemma read_DeltaEntry_enc:
  assumes ok: "entry_wf e" "strip_entry e = e" and d: "drop off data = serialize_DeltaEntry e @ rest"
    and len: "length data = off + length (serialize_DeltaEntry e) + length rest" "length data < 2 ^ 63"
  shows "read_DeltaEntry data off = Inr (Some (e, off + length (serialize_DeltaEntry e)))"
proof -
  let ?p = "de_path e"
  let ?o1 = "off + length (encode (size64 (length ?p)))"
  define node where "node = (case de_newNode e of None \<Rightarrow> [] | Some n \<Rightarrow> serialize_node_body n)"
  define flag where "flag = (case de_newNode e of None \<Rightarrow> 0 | Some n \<Rightarrow> (1 :: byte))"
  have enc: "serialize_DeltaEntry e = serialize_string ?p @ [delta_action_to_byte (de_action e), flag] @ node"
    by (simp add: serialize_DeltaEntry_def node_def flag_def split: option.split)
  have s: "read_string data ?o1 (size64 (length ?p)) = Inr (Some (?p, ?o1 + length ?p))"
    using d len by (intro read_string_at) (auto simp: enc serialize_string_def drop_add simp del: drop_drop)
  have a: "read_block data (?o1 + length ?p) 1 = Inr (Some ([delta_action_to_byte (de_action e)], Suc (?o1 + length ?p)))"
    using d len by (intro read_block_1 [where rest = "flag # node @ rest"])
      (auto simp: enc serialize_string_def drop_add simp del: drop_drop)
  have f: "read_block data (Suc (?o1 + length ?p)) 1 = Inr (Some ([flag], Suc (Suc (?o1 + length ?p))))"
    using d len by (intro read_block_1 [where rest = "node @ rest"])
      (auto simp: enc serialize_string_def offset_drops simp del: drop_drop)
  have n: "read_delta_node ?p data (Suc (Suc (?o1 + length ?p))) = Inr (Some (x, Suc (Suc (?o1 + length ?p)) + length node))"
    if "de_newNode e = Some x" for x
    using d len ok(1) that unfolding node_def
    by (simp only: option.case, intro read_delta_node_enc [where rest = rest])
      (auto simp: enc serialize_string_def offset_drops entry_wf_def node_def simp del: drop_drop)
  have e: "empty_delta_entry\<lparr>de_path := ?p, de_action := de_action e, de_newNode := de_newNode e\<rparr> = e"
    using ok(2) by (cases e) (simp add: empty_delta_entry_def strip_entry_def)
  have v: "more_varint data off = Inr (Some (size64 (length ?p), ?o1))"
    using d len by (intro more_varint_encode) (auto simp: enc serialize_string_def)
  show ?thesis
  proof (cases "de_newNode e")
    case None
    then show ?thesis
      using ok(1) e v s a f
      by (simp add: read_DeltaEntry_def enc serialize_string_def entry_wf_def flag_def node_def empty_delta_entry_def)
  next
    case (Some x)
    then show ?thesis
      using ok(1) e v s a f n [OF Some]
      by (simp add: read_DeltaEntry_def enc serialize_string_def entry_wf_def flag_def)
  qed
qed

lemma read_DeltaEntry_bounds:
  "read_DeltaEntry data off = Inr (Some (x, off')) \<Longrightarrow> off \<le> length data \<Longrightarrow> off \<le> off' \<and> off' \<le> length data"
  by (auto simp: read_DeltaEntry_def bind_rd_eq_Some Let_def read_block_def split: if_splits
      dest!: more_varint_bounds read_string_bounds read_delta_node_bounds)

interpretation de: record_codec read_DeltaEntry serialize_DeltaEntry "\<lambda>e. entry_wf e \<and> strip_entry e = e"
  by unfold_locales (auto dest: read_DeltaEntry_bounds intro: read_DeltaEntry_enc)

section \<open>Round trip\<close>

definition strip_delta :: "SnapshotDelta \<Rightarrow> SnapshotDelta" where
  "strip_delta d = d\<lparr>sd_entries := map strip_entry (sd_entries d)\<rparr>"

lemma applyPatch_strip: "applyPatch now it base (strip_delta d) label = applyPatch now it base d label"
proof -
  have "apply_entry t (strip_entry e) = apply_entry t e" for t e
    by (simp add: apply_entry_def strip_entry_def split: DeltaAction.split)
  then show ?thesis
    by (simp add: applyPatch_def strip_delta_def foldl_map Let_def)
qed

lemma sd_roundtrip:
  assumes "list_all entry_wf (sd_entries d)" "length (sd_entries d) \<le> limit" "length (sd_serialize d) < 2 ^ 63"
  shows "sd_deserialize limit (sd_serialize d) = Inr (Some (strip_delta d))"
proof -
  let ?data = "sd_serialize d" and ?es = "map strip_entry (sd_entries d)"
  let ?o = "length (encode (sd_baseId d)) + length (encode (sd_targetId d)) +
      length (encode (size64 (length (sd_entries d))))"
  have ne: "serialize_DeltaEntry x \<noteq> []" for x
    by (simp add: serialize_DeltaEntry_def serialize_string_def)
  have len: "length (sd_entries d) < 2 ^ 64"
    using length_le_concat [of serialize_DeltaEntry "sd_entries d", OF ne] assms(3) by (auto simp: sd_serialize_def)
  have ok: "list_all (\<lambda>e. entry_wf e \<and> strip_entry e = e) ?es"
    using assms(1) by (auto simp: list_all_iff entry_wf_def strip_entry_def split: option.split)
  have "read_all read_DeltaEntry (length ?es) ?data ?o =
      Inr (Some (?es, ?o + length (concat (map serialize_DeltaEntry ?es))))"
    using ok assms(3)
    by (intro read_all_enc [OF de.record_codec_axioms, where rest = "[]"]) (auto simp: sd_serialize_def o_def)
  then show ?thesis
    using len assms(2)
    by (simp add: sd_deserialize_def sd_serialize_def more_varint_def need_more_def read_varint_def strip_delta_def
        drop_add add.assoc o_def del: drop_drop)
qed

lemma computeDelta_wf:
  assumes "mf_ok target" "enumerates baseIt (mf_nodes base)" "enumerates targetIt (mf_nodes target)"
  shows "list_all entry_wf (sd_entries (computeDelta baseIt targetIt base target))"
proof -
  have "entry_wf e" if "entry_consistent e" for e
    using that by (auto simp: entry_consistent_def entry_wf_def delta_action_to_byte_def delta_action_of_byte_def
        split: option.splits)
  then show ?thesis
    using computeDelta_consistent(1) [OF assms] by (auto simp: list_all_iff)
qed

text \<open>A computed delta that is written, shipped and read back is the delta without the
  old nodes and new block lists, and applying it to any manifest gives what applying the
  original gives.\<close>

theorem delta_roundtrip:
  assumes "mf_ok target" "enumerates baseIt (mf_nodes base)" "enumerates targetIt (mf_nodes target)"
    and "d = computeDelta baseIt targetIt base target"
    and "length (sd_entries d) \<le> limit" "length (sd_serialize d) < 2 ^ 63"
  shows "sd_deserialize limit (sd_serialize d) = Inr (Some (strip_delta d)) \<and>
    applyPatch now it mf (strip_delta d) label = applyPatch now it mf d label"
  using sd_roundtrip [of d limit] computeDelta_wf [OF assms(1-3)] assms(4-6) by (simp add: applyPatch_strip)

definition example_delta :: SnapshotDelta where
  "example_delta = computeDelta mf_example_order mf_example2_order mf_example mf_example2"

lemma length_example_delta: "length (sd_entries example_delta) \<le> 3" "length (sd_serialize example_delta) < 2 ^ 63"
proof -
  have le: "length (encode v) \<le> 10" for v
    by (rule length_encode_le)
  show "length (sd_entries example_delta) \<le> 3"
    by (simp add: example_delta_def computeDelta_def mf_example_order_def mf_example2_order_def delta_of_target_def
        delta_of_base_def findNode_def hasNode_def mf_example_def mf_example2_def addNode_def newManifest_def)
  show "length (sd_serialize example_delta) < 2 ^ 63"
    using le [of 1] le [of 2] le [of "size64 (Suc (Suc (Suc 0)))"] le [of "size64 (Suc (Suc 0))"] le [of "size64 (Suc 0)"] le [of 4] le [of 9]
      le [of 78] le [of 6] le [of 10] le [of 30] le [of 5] le [of 8]
    by (simp add: sd_serialize_def serialize_DeltaEntry_def serialize_string_def serialize_node_body_def example_delta_def
        computeDelta_def mf_example_order_def mf_example2_order_def delta_of_target_def empty_delta_entry_def
        delta_of_base_def findNode_def hasNode_def mf_example_def mf_example2_def addNode_def newManifest_def)
qed

theorem delta_roundtrip_witness:
  "sd_deserialize 3 (sd_serialize example_delta) = Inr (Some (strip_delta example_delta)) \<and>
    applyPatch 0 mf_example_order mf_example (strip_delta example_delta) [] =
    applyPatch 0 mf_example_order mf_example example_delta []"
  by (rule delta_roundtrip [OF mf_example2_ok mf_example_enumerates mf_example2_enumerates example_delta_def
        length_example_delta])

text \<open>C34: the byte count of deletions reported for a delta that was read back is zero,
  whatever was deleted, since the old nodes are not part of the binary form; the reusable
  blocks are lost too.\<close>

theorem delta_loses_accounting:
  "deletedBytes (strip_delta d) = 0 \<and> computeReusedBlocks (strip_delta d) = []"
proof -
  have "entry_deletedBytes (strip_entry e) = 0" for e
    by (simp add: entry_deletedBytes_def strip_entry_def split: DeltaAction.split option.split)
  then have z: "fold (\<lambda>e total. total + entry_deletedBytes e) (map strip_entry es) 0 = 0" for es
    by (induction es) simp_all
  have "concat (map (\<lambda>e. case (de_action e, de_oldNode e, de_newNode e) of
         (Modified, Some old, Some new) \<Rightarrow> filter (\<lambda>b. b \<in> set (sn_blockIds old)) (sn_blockIds new)
       | _ \<Rightarrow> []) (map strip_entry es)) = []" for es
    by (induction es) (auto simp: strip_entry_def split: DeltaAction.split option.split)
  with z show ?thesis
    by (simp add: deletedBytes_def computeReusedBlocks_def strip_delta_def)
qed

section \<open>Runs of the snapshot manager\<close>

datatype sm_op =
    SM_create u64 string "SnapshotNode list"
  | SM_register SnapshotManifest
  | SM_checkout u64
  | SM_delete "(u64 \<times> SnapshotManifest) list" u64
  | SM_clear

primrec sm_exec :: "sm_op \<Rightarrow> SnapshotManager \<Rightarrow> SnapshotManager" where
  "sm_exec (SM_create now label nodes) sm = snd (createSnapshot now label nodes sm)"
| "sm_exec (SM_register mf) sm = snd (registerSnapshot mf sm)"
| "sm_exec (SM_checkout sid) sm = snd (checkoutSnapshot sid sm)"
| "sm_exec (SM_delete it sid) sm = snd (deleteSnapshot it sid sm)"
| "sm_exec SM_clear sm = sm_clear sm"

text \<open>The identifiers have not run out, a registered manifest stores nodes under their paths,
  and the order given to a deletion is one of the table left.\<close>

primrec sm_legal :: "sm_op \<Rightarrow> SnapshotManager \<Rightarrow> bool" where
  "sm_legal (SM_create now label nodes) sm \<longleftrightarrow> sm_next sm \<noteq> - 1"
| "sm_legal (SM_register mf) sm \<longleftrightarrow> mf_ok mf \<and> mf_id mf \<noteq> - 1"
| "sm_legal (SM_checkout sid) sm \<longleftrightarrow> True"
| "sm_legal (SM_delete it sid) sm \<longleftrightarrow> enumerates it ((sm_manifests sm)(sid := None))"
| "sm_legal SM_clear sm \<longleftrightarrow> True"

inductive sm_reach :: "SnapshotManager \<Rightarrow> bool" where
  sm_init: "sm_reach newSnapshotManager"
| sm_step: "sm_reach sm \<Longrightarrow> sm_legal op sm \<Longrightarrow> sm_reach (sm_exec op sm)"

definition sm_inv :: "SnapshotManager \<Rightarrow> bool" where
  "sm_inv sm \<longleftrightarrow>
     (\<forall>sid mf. sm_manifests sm sid = Some mf \<longrightarrow> mf_id mf = sid \<and> sid < sm_next sm \<and> mf_ok mf) \<and>
     (sm_current sm = 0 \<or> sm_manifests sm (sm_current sm) \<noteq> None)"

lemma less_word_suc: "(a :: u64) \<noteq> - 1 \<Longrightarrow> b < a \<or> b = a \<Longrightarrow> b < a + 1"
  using unatSuc [of a] by (auto simp: word_less_nat_alt add.commute add_eq_0_iff)

lemma addNodes_ok: "mf_ok mf \<Longrightarrow> mf_ok (foldl (\<lambda>mf node. addNode node mf) mf nodes)"
  by (induction nodes arbitrary: mf) (auto simp: addNode_ok)

lemma newManifest_ok [simp]:
  "mf_ok (newManifest now sid parent label ts)" "mf_id (newManifest now sid parent label ts) = sid"
  by (simp_all add: mf_ok_def newManifest_def)

lemma sm_exec_inv: "sm_inv sm \<Longrightarrow> sm_legal op sm \<Longrightarrow> sm_inv (sm_exec op sm)"
proof (cases op)
  case (SM_create now label nodes)
  assume "sm_inv sm" "sm_legal op sm"
  with SM_create show ?thesis
    by (auto simp: sm_inv_def createSnapshot_def Let_def addNodes_other addNodes_ok less_word_suc)
next
  case (SM_register mf)
  assume inv: "sm_inv sm" and legal: "sm_legal op sm"
  define nxt where "nxt = (if mf_id mf \<ge> sm_next sm then mf_id mf + 1 else sm_next sm)"
  have "mf_id mf < nxt" and le: "sm_next sm \<le> nxt"
    using legal SM_register less_word_suc [of "mf_id mf"] by (auto simp: nxt_def intro: less_imp_le order.strict_trans1)
  moreover have "sid < nxt" if "sm_manifests sm sid = Some m" for sid m
    using inv that le by (auto simp: sm_inv_def intro: order.strict_trans2)
  ultimately show ?thesis
    using inv legal SM_register by (auto simp: sm_inv_def registerSnapshot_def Let_def simp flip: nxt_def)
next
  case (SM_delete it sid)
  assume inv: "sm_inv sm" and "sm_legal op sm"
  with SM_delete have e: "enumerates it ((sm_manifests sm)(sid := None))"
    by simp
  have "((sm_manifests sm)(sid := None)) (fst (hd it)) \<noteq> None" if "it \<noteq> []"
    using enumerates_mem [OF e, of "fst (hd it)" "snd (hd it)"] that by simp
  with inv SM_delete show ?thesis
    by (auto simp: sm_inv_def deleteSnapshot_def)
qed (auto simp: sm_inv_def checkoutSnapshot_def sm_clear_def newSnapshotManager_def)

lemma sm_reach_inv: "sm_reach sm \<Longrightarrow> sm_inv sm"
  by (induction rule: sm_reach.induct) (auto simp: sm_exec_inv, simp add: sm_inv_def newSnapshotManager_def)



text \<open>Creating a snapshot uses an identifier no stored snapshot has, keeps every other
  snapshot, makes the new one current with the former current one as its parent, and stores
  in it exactly the given nodes, a later node replacing an earlier one of the same path.\<close>

theorem snapshot_create:
  assumes "sm_reach sm" "createSnapshot now label nodes sm = (newId, sm')"
  shows "getSnapshot sm newId = None \<and> (\<forall>sid. sid \<noteq> newId \<longrightarrow> getSnapshot sm' sid = getSnapshot sm sid) \<and>
    (\<exists>mf. currentSnapshot sm' = Some mf \<and> mf_id mf = newId \<and> mf_parentId mf = sm_current sm \<and> mf_label mf = label \<and>
       mf_nodes mf = map_of (rev (map (\<lambda>n. (sn_path n, n)) nodes)))"
proof -
  have "getSnapshot sm newId = None"
    using sm_reach_inv [OF assms(1)] assms(2)
    by (cases "getSnapshot sm newId") (auto simp: sm_inv_def createSnapshot_def getSnapshot_def Let_def)
  with assms(2) show ?thesis
    by (auto simp: createSnapshot_def getSnapshot_def currentSnapshot_def Let_def addNodes_other addNodes_nodes newManifest_def)
qed

text \<open>Registering a manifest with the largest identifier wraps the counter to zero;
  the second snapshot created after it then replaces snapshot 1, whatever that held.\<close>

theorem snapshot_counter_wraps:
  "let sm0 = snd (createSnapshot now label old newSnapshotManager);
       (ok, sm1) = registerSnapshot (newManifest now (- 1) 1 label 0) sm0;
       (id0, sm2) = createSnapshot now label nodes sm1;
       (id1, sm3) = createSnapshot now label nodes sm2
   in map_option mf_nodes (getSnapshot sm0 1) = Some (map_of (rev (map (\<lambda>n. (sn_path n, n)) old))) \<and>
      ok \<and> id0 = 0 \<and> id1 = 1 \<and>
      map_option mf_nodes (getSnapshot sm3 1) = Some (map_of (rev (map (\<lambda>n. (sn_path n, n)) nodes)))"
  by (simp add: registerSnapshot_def createSnapshot_def getSnapshot_def Let_def addNodes_nodes newManifest_def
      newSnapshotManager_def)

definition sm_example :: SnapshotManager where
  "sm_example = sm_exec (SM_register mf_example2) (sm_exec (SM_register mf_example) newSnapshotManager)"

lemma sm_example_reach: "sm_reach sm_example"
  unfolding sm_example_def
  by (intro sm_step sm_init)
    (simp_all add: mf_example_ok mf_example2_ok, simp_all add: mf_example_def mf_example2_def addNode_def newManifest_def)

lemma sm_example_enumerates: "enumerates [(2, mf_example2), (1, mf_example)] (sm_manifests sm_example)"
proof -
  have "mf_id mf_example = 1" "mf_id mf_example2 = 2"
    by (simp_all add: mf_example_def mf_example2_def addNode_def newManifest_def)
  then show ?thesis
    by (auto simp: enumerates_def sm_example_def registerSnapshot_def newSnapshotManager_def Let_def)
qed


theorem snapshot_create_witness:
  "getSnapshot sm_example 3 = None \<and>
   getSnapshot (snd (createSnapshot 9 ''x'' [] sm_example)) 2 = getSnapshot sm_example 2"
proof -
  have "mf_id mf_example = 1" "mf_id mf_example2 = 2"
    by (simp_all add: mf_example_def mf_example2_def addNode_def newManifest_def)
  then have "createSnapshot 9 ''x'' [] sm_example = (3, snd (createSnapshot 9 ''x'' [] sm_example))"
    by (simp add: createSnapshot_def sm_example_def registerSnapshot_def newSnapshotManager_def Let_def)
  from snapshot_create [OF sm_example_reach this] show ?thesis
    by simp
qed

end
