(* ===== verification/Posting_List.thy ===== *)
theory Posting_List
  imports Snapshot_Manifest
begin

text \<open>
  \<^verbatim>\<open>src/search/PostingList.cpp\<close>: the postings of one term, one per document that contains
  it, and their delta encoding.  \<open>limit\<close> bounds what \<^verbatim>\<open>reserve\<close> can allocate: the
  deserialiser reserves counts that it has not compared with the input.

  Shown: what a list answers after any sequence of occurrences, and that the delta encoding
  is undone by the decoder for any order of documents and positions, since the differences
  are taken modulo the word size.
\<close>

record Posting =
  po_docId :: u64
  po_termFrequency :: u32
  po_positions :: "u32 list"

record PostingList =
  pl_postings :: "Posting list"
  pl_totalTf :: u64

definition newPostingList :: PostingList where
  "newPostingList = \<lparr>pl_postings = [], pl_totalTf = 0\<rparr>"

definition bump :: "u32 \<Rightarrow> Posting \<Rightarrow> Posting" where
  "bump position p = p\<lparr>po_termFrequency := po_termFrequency p + 1, po_positions := po_positions p @ [position]\<rparr>"

text \<open>\<^verbatim>\<open>std::find_if\<close> and the update of what it found; \<open>None\<close> when nothing matches.\<close>

fun update_first :: "('a \<Rightarrow> bool) \<Rightarrow> ('a \<Rightarrow> 'a) \<Rightarrow> 'a list \<Rightarrow> 'a list option" where
  "update_first P f [] = None"
| "update_first P f (x # xs) = (if P x then Some (f x # xs) else map_option ((#) x) (update_first P f xs))"

definition addOccurrence :: "u64 \<Rightarrow> u32 \<Rightarrow> PostingList \<Rightarrow> PostingList" where
  "addOccurrence docId position pl =
     (let pl = pl\<lparr>pl_totalTf := pl_totalTf pl + 1\<rparr>; ps = pl_postings pl in
      if ps \<noteq> [] \<and> po_docId (last ps) = docId then pl\<lparr>pl_postings := butlast ps @ [bump position (last ps)]\<rparr>
      else
        case update_first (\<lambda>p. po_docId p = docId) (bump position) ps of
          Some ps' \<Rightarrow> pl\<lparr>pl_postings := ps'\<rparr>
        | None \<Rightarrow>
            pl\<lparr>pl_postings := ps @ [\<lparr>po_docId = docId, po_termFrequency = 1, po_positions = [position]\<rparr>]\<rparr>)"

definition addPosting :: "Posting \<Rightarrow> PostingList \<Rightarrow> PostingList" where
  "addPosting p pl =
     pl\<lparr>pl_totalTf := pl_totalTf pl + ucast (po_termFrequency p), pl_postings := pl_postings pl @ [p]\<rparr>"

definition findDoc :: "PostingList \<Rightarrow> u64 \<Rightarrow> Posting option" where
  "findDoc pl docId = List.find (\<lambda>p. po_docId p = docId) (pl_postings pl)"

definition docFrequency :: "PostingList \<Rightarrow> nat" where
  "docFrequency pl = length (pl_postings pl)"

definition pl_clear :: "PostingList \<Rightarrow> PostingList" where
  "pl_clear pl = newPostingList"

section \<open>Delta encoding\<close>

fun serialize_positions :: "u32 \<Rightarrow> u32 list \<Rightarrow> byte list" where
  "serialize_positions prevPos [] = []"
| "serialize_positions prevPos (pos # ps) = encode (ucast (pos - prevPos)) @ serialize_positions pos ps"

fun serialize_postings :: "u64 \<Rightarrow> Posting list \<Rightarrow> byte list" where
  "serialize_postings prevDocId [] = []"
| "serialize_postings prevDocId (p # ps) =
     encode (po_docId p - prevDocId) @ encode (ucast (po_termFrequency p)) @
     serialize_positions 0 (po_positions p) @ serialize_postings (po_docId p) ps"

definition pl_serialize :: "PostingList \<Rightarrow> byte list" where
  "pl_serialize pl = encode (size64 (length (pl_postings pl))) @ serialize_postings 0 (pl_postings pl)"

fun read_positions :: "nat \<Rightarrow> u32 \<Rightarrow> byte list \<Rightarrow> nat \<Rightarrow> (u32 list \<times> nat) rd" where
  "read_positions 0 currentPos data off = Inr (Some ([], off))"
| "read_positions (Suc n) currentPos data off =
     bind_rd (more_varint data off) (\<lambda>(delta, off).
     bind_rd (read_positions n (currentPos + ucast delta) data off) (\<lambda>(ps, off).
     Inr (Some ((currentPos + ucast delta) # ps, off))))"

definition read_posting :: "nat \<Rightarrow> u64 \<Rightarrow> byte list \<Rightarrow> nat \<Rightarrow> (Posting \<times> nat) rd" where
  "read_posting limit currentDocId data off =
     bind_rd (more_varint data off) (\<lambda>(delta, off).
     bind_rd (more_varint data off) (\<lambda>(tf, off).
     let tf32 = ucast tf :: u32 in
     if unat tf32 > limit then Inl Alloc_failure
     else
       bind_rd (read_positions (unat tf32) 0 data off) (\<lambda>(ps, off).
       Inr (Some (\<lparr>po_docId = currentDocId + delta, po_termFrequency = tf32, po_positions = ps\<rparr>, off)))))"

fun read_postings :: "nat \<Rightarrow> nat \<Rightarrow> u64 \<Rightarrow> byte list \<Rightarrow> nat \<Rightarrow> PostingList \<Rightarrow> PostingList rd" where
  "read_postings limit 0 currentDocId data off list = Inr (Some list)"
| "read_postings limit (Suc n) currentDocId data off list =
     bind_rd (read_posting limit currentDocId data off) (\<lambda>(p, off).
     read_postings limit n (po_docId p) data off (addPosting p list))"

definition pl_deserialize :: "nat \<Rightarrow> byte list \<Rightarrow> PostingList rd" where
  "pl_deserialize limit data =
     (if data = [] then Inr (Some newPostingList)
      else
        bind_rd (read_varint data 0) (\<lambda>(numDocs, off).
        if unat numDocs > limit then Inl Alloc_failure
        else read_postings limit (unat numDocs) 0 data off newPostingList))"

section \<open>Occurrences\<close>

lemma update_first_None_iff: "update_first P f xs = None \<longleftrightarrow> (\<forall>x \<in> set xs. \<not> P x)"
  by (induction xs) auto

lemma map_update_first:
  "update_first P f xs = Some ys \<Longrightarrow> (\<And>x. g (f x) = g x) \<Longrightarrow> map g ys = map g xs"
  by (induction xs arbitrary: ys) (auto split: if_splits)

definition pl_docs :: "PostingList \<Rightarrow> u64 list" where
  "pl_docs pl = map po_docId (pl_postings pl)"

lemma bump_docId [simp]: "po_docId (bump position p) = po_docId p"
  by (simp add: bump_def)

text \<open>On a list without duplicates the shortcut for the last posting is the search.\<close>

lemma update_first_last:
  "distinct (map g xs) \<Longrightarrow> xs \<noteq> [] \<Longrightarrow> g (last xs) = k \<Longrightarrow>
   update_first (\<lambda>x. g x = k) f xs = Some (butlast xs @ [f (last xs)])"
proof (induction xs)
  case (Cons x xs)
  then have "g x \<noteq> k" if "xs \<noteq> []"
    using that by (metis distinct.simps(2) last_ConsR last_in_set list.map(2) list.set_map rev_image_eqI)
  with Cons show ?case
    by auto
qed simp

lemma addOccurrence_postings:
  assumes "distinct (pl_docs pl)"
  shows "pl_postings (addOccurrence docId position pl) =
    (case update_first (\<lambda>p. po_docId p = docId) (bump position) (pl_postings pl) of
       Some ps \<Rightarrow> ps
     | None \<Rightarrow> pl_postings pl @ [\<lparr>po_docId = docId, po_termFrequency = 1, po_positions = [position]\<rparr>])"
proof (cases "pl_postings pl \<noteq> [] \<and> po_docId (last (pl_postings pl)) = docId")
  case True
  then have "update_first (\<lambda>p. po_docId p = docId) (bump position) (pl_postings pl) =
      Some (butlast (pl_postings pl) @ [bump position (last (pl_postings pl))])"
    using assms by (intro update_first_last) (auto simp: pl_docs_def)
  with True show ?thesis
    by (simp add: addOccurrence_def Let_def)
next
  case False
  then show ?thesis
    by (auto simp: addOccurrence_def Let_def split: option.split)
qed

lemma addOccurrence_docs:
  assumes "distinct (pl_docs pl)"
  shows "pl_docs (addOccurrence docId position pl) = (if docId \<in> set (pl_docs pl) then pl_docs pl else pl_docs pl @ [docId])"
    and "distinct (pl_docs (addOccurrence docId position pl))"
proof -
  show "pl_docs (addOccurrence docId position pl) = (if docId \<in> set (pl_docs pl) then pl_docs pl else pl_docs pl @ [docId])"
  proof (cases "update_first (\<lambda>p. po_docId p = docId) (bump position) (pl_postings pl)")
    case None
    then have "docId \<notin> set (pl_docs pl)"
      by (auto simp: pl_docs_def update_first_None_iff)
    with None show ?thesis
      by (simp add: pl_docs_def addOccurrence_postings [OF assms])
  next
    case (Some ps)
    then have "docId \<in> set (pl_docs pl)"
      using update_first_None_iff [of "\<lambda>p. po_docId p = docId" "bump position" "pl_postings pl"]
      by (auto simp: pl_docs_def)
    with Some map_update_first [OF Some, of po_docId] show ?thesis
      by (simp add: pl_docs_def addOccurrence_postings [OF assms])
  qed
  then show "distinct (pl_docs (addOccurrence docId position pl))"
    using assms by simp
qed

lemma find_update_first:
  "update_first (\<lambda>p. po_docId p = d) (bump position) ps = Some qs \<Longrightarrow>
   List.find (\<lambda>p. po_docId p = e) qs =
     (if e = d then map_option (bump position) (List.find (\<lambda>p. po_docId p = d) ps)
      else List.find (\<lambda>p. po_docId p = e) ps)"
  by (induction ps arbitrary: qs) (auto split: if_splits)

lemma findDoc_addOccurrence:
  assumes "distinct (pl_docs pl)"
  shows "findDoc (addOccurrence docId position pl) d =
    (if d = docId
     then Some (case findDoc pl d of Some p \<Rightarrow> bump position p
       | None \<Rightarrow> \<lparr>po_docId = docId, po_termFrequency = 1, po_positions = [position]\<rparr>)
     else findDoc pl d)"
proof (cases "update_first (\<lambda>p. po_docId p = docId) (bump position) (pl_postings pl)")
  case None
  then have "List.find (\<lambda>p. po_docId p = docId) (pl_postings pl) = None"
    by (simp add: update_first_None_iff find_None_iff)
  with None show ?thesis
    by (auto simp: findDoc_def addOccurrence_postings [OF assms] find_append split: option.split)
next
  case (Some qs)
  then have "List.find (\<lambda>p. po_docId p = docId) (pl_postings pl) \<noteq> None"
    using update_first_None_iff [of "\<lambda>p. po_docId p = docId" "bump position" "pl_postings pl"]
    by (auto simp: find_None_iff)
  with Some find_update_first [OF Some, of d] show ?thesis
    by (auto simp: findDoc_def addOccurrence_postings [OF assms])
qed

text \<open>The posting that records the positions \<open>ps\<close> of a term in a document.\<close>

definition posting_of :: "u64 \<Rightarrow> u32 list \<Rightarrow> Posting option" where
  "posting_of d ps =
     (if ps = [] then None else Some \<lparr>po_docId = d, po_termFrequency = word_of_nat (length ps), po_positions = ps\<rparr>)"

lemma posting_of_snoc:
  "posting_of d (ps @ [pos]) =
     Some (case posting_of d ps of Some p \<Rightarrow> bump pos p
       | None \<Rightarrow> \<lparr>po_docId = d, po_termFrequency = 1, po_positions = [pos]\<rparr>)"
  by (simp add: posting_of_def bump_def)

definition occurrences_of :: "u64 \<Rightarrow> (u64 \<times> u32) list \<Rightarrow> u32 list" where
  "occurrences_of d occs = map snd (filter (\<lambda>(e, _). e = d) occs)"

lemma addOccurrences:
  assumes "distinct (pl_docs pl)" "\<And>d. findDoc pl d = posting_of d (f d)"
  shows "distinct (pl_docs (foldl (\<lambda>pl (d, pos). addOccurrence d pos pl) pl occs)) \<and>
    findDoc (foldl (\<lambda>pl (d, pos). addOccurrence d pos pl) pl occs) d = posting_of d (f d @ occurrences_of d occs) \<and>
    pl_totalTf (foldl (\<lambda>pl (d, pos). addOccurrence d pos pl) pl occs) = pl_totalTf pl + size64 (length occs)"
proof (induction occs arbitrary: d rule: rev_induct)
  case Nil
  then show ?case
    using assms by (simp add: occurrences_of_def size64_def)
next
  case (snoc x occs)
  obtain e pos where x: "x = (e, pos)" by (cases x)
  have total: "pl_totalTf (addOccurrence e pos pl) = pl_totalTf pl + 1" for pl
    by (auto simp: addOccurrence_def Let_def split: option.split)
  show ?case
    using snoc.IH x
    by (simp add: addOccurrence_docs(2) findDoc_addOccurrence occurrences_of_def total size64_def
        posting_of_snoc [symmetric])
qed

text \<open>After any sequence of occurrences added to an empty list, a document has a posting
  exactly when the term occurred in it; the posting holds the positions in the order they were
  added and their number, and no document has two postings.\<close>

theorem posting_list_occurrences:
  fixes occs :: "(u64 \<times> u32) list"
  defines "pl \<equiv> foldl (\<lambda>pl (d, pos). addOccurrence d pos pl) newPostingList occs"
  shows "findDoc pl d = posting_of d (occurrences_of d occs) \<and> distinct (map po_docId (pl_postings pl)) \<and>
    pl_totalTf pl = size64 (length occs)"
  using addOccurrences [of newPostingList "\<lambda>_. []" occs d]
  by (simp add: pl_def newPostingList_def pl_docs_def findDoc_def posting_of_def)

section \<open>Round trip\<close>

lemma ucast_ucast_u32 [simp]: "currentPos + ucast (ucast (pos - currentPos :: u32) :: u64) = (pos :: u32)"
  by simp

lemma read_positions_enc:
  "drop off data = serialize_positions cur ps @ rest \<Longrightarrow>
   length data = off + length (serialize_positions cur ps) + length rest \<Longrightarrow>
   read_positions (length ps) cur data off = Inr (Some (ps, off + length (serialize_positions cur ps)))"
proof (induction ps arbitrary: cur off)
  case (Cons p ps)
  have "more_varint data off = Inr (Some (ucast (p - cur), off + length (encode (ucast (p - cur) :: u64))))"
    using Cons.prems by (intro more_varint_encode [where rest = "serialize_positions p ps @ rest"]) auto
  moreover have "read_positions (length ps) p data (off + length (encode (ucast (p - cur) :: u64))) =
      Inr (Some (ps, off + length (encode (ucast (p - cur) :: u64)) + length (serialize_positions p ps)))"
    using Cons.prems by (intro Cons.IH) (auto simp: drop_add simp del: drop_drop)
  ultimately show ?case
    by (simp add: add.assoc)
qed simp

definition posting_wf :: "nat \<Rightarrow> Posting \<Rightarrow> bool" where
  "posting_wf limit p \<longleftrightarrow> unat (po_termFrequency p) = length (po_positions p) \<and> length (po_positions p) \<le> limit"

definition serialize_posting :: "u64 \<Rightarrow> Posting \<Rightarrow> byte list" where
  "serialize_posting prev p =
     encode (po_docId p - prev) @ encode (ucast (po_termFrequency p)) @ serialize_positions 0 (po_positions p)"

lemma read_posting_enc:
  assumes "posting_wf limit p" "drop off data = serialize_posting prev p @ rest"
    "length data = off + length (serialize_posting prev p) + length rest"
  shows "read_posting limit prev data off = Inr (Some (p, off + length (serialize_posting prev p)))"
proof -
  let ?o = "off + length (encode (po_docId p - prev)) + length (encode (ucast (po_termFrequency p) :: u64))"
  have "read_positions (length (po_positions p)) 0 data ?o =
      Inr (Some (po_positions p, ?o + length (serialize_positions 0 (po_positions p))))"
    using assms by (intro read_positions_enc) (auto simp: serialize_posting_def drop_add simp del: drop_drop)
  then show ?thesis
    using assms
    by (simp add: read_posting_def serialize_posting_def posting_wf_def more_varint_def need_more_def read_varint_def
        drop_add add.assoc Let_def del: drop_drop)
qed

lemma read_postings_enc:
  "list_all (posting_wf limit) ps \<Longrightarrow> drop off data = serialize_postings prev ps @ rest \<Longrightarrow>
   length data = off + length (serialize_postings prev ps) + length rest \<Longrightarrow>
   read_postings limit (length ps) prev data off pl = Inr (Some (foldl (\<lambda>pl p. addPosting p pl) pl ps))"
proof (induction ps arbitrary: prev off pl)
  case (Cons p ps)
  have "read_posting limit prev data off = Inr (Some (p, off + length (serialize_posting prev p)))"
    using Cons.prems by (intro read_posting_enc [where rest = "serialize_postings (po_docId p) ps @ rest"])
      (auto simp: serialize_posting_def)
  moreover have "read_postings limit (length ps) (po_docId p) data (off + length (serialize_posting prev p)) (addPosting p pl) =
      Inr (Some (foldl (\<lambda>pl p. addPosting p pl) (addPosting p pl) ps))"
    using Cons.prems by (intro Cons.IH) (auto simp: serialize_posting_def drop_add simp del: drop_drop)
  ultimately show ?case
    by simp
qed simp

lemma addPostings:
  "foldl (\<lambda>pl p. addPosting p pl) pl ps =
     pl\<lparr>pl_postings := pl_postings pl @ ps,
       pl_totalTf := pl_totalTf pl + (\<Sum>p\<leftarrow>ps. ucast (po_termFrequency p))\<rparr>"
  by (induction ps arbitrary: pl) (simp_all add: addPosting_def add.assoc)

lemma length_serialize_postings: "length ps \<le> length (serialize_postings prev ps)"
proof (induction ps arbitrary: prev)
  case (Cons p ps)
  have "Suc 0 \<le> length (encode (po_docId p - prev))"
    by (simp add: Suc_le_eq)
  with Cons [of "po_docId p"] show ?case
    unfolding serialize_postings.simps length_append list.size by linarith
qed simp

definition pl_wf :: "nat \<Rightarrow> PostingList \<Rightarrow> bool" where
  "pl_wf limit pl \<longleftrightarrow> list_all (posting_wf limit) (pl_postings pl) \<and> length (pl_postings pl) \<le> limit \<and>
     pl_totalTf pl = (\<Sum>p\<leftarrow>pl_postings pl. ucast (po_termFrequency p))"

lemma pl_roundtrip:
  assumes "pl_wf limit pl" "length (pl_serialize pl) < 2 ^ 63"
  shows "pl_deserialize limit (pl_serialize pl) = Inr (Some pl)"
proof -
  have "length (pl_postings pl) < 2 ^ 64"
    using length_serialize_postings [of "pl_postings pl" 0] assms(2) by (simp add: pl_serialize_def)
  moreover have "read_postings limit (length (pl_postings pl)) 0 (pl_serialize pl)
      (length (encode (size64 (length (pl_postings pl))))) newPostingList =
      Inr (Some (foldl (\<lambda>pl p. addPosting p pl) newPostingList (pl_postings pl)))"
    using assms by (intro read_postings_enc [where rest = "[]"]) (auto simp: pl_wf_def pl_serialize_def)
  ultimately show ?thesis
    using assms(1)
    by (simp add: pl_deserialize_def pl_serialize_def read_varint_def pl_wf_def addPostings newPostingList_def)
qed

end
