(* ===== verification/Tokenizer.thy ===== *)
theory Tokenizer
  imports Nebula_Prelude
begin

text \<open>
  \<^verbatim>\<open>src/search/Tokenizer.cpp\<close>: splitting text into terms.  The character classes are those of
  the \<^verbatim>\<open>"C"\<close> locale.

  Shown: the scanning loops yield the reference split of the text at delimiters, lower-cased
  and filtered, with consecutive positions and the byte range each term came from.
\<close>

definition isspace :: "char \<Rightarrow> bool" where
  "isspace c \<longleftrightarrow> (let n = of_char c :: nat in n = 32 \<or> (9 \<le> n \<and> n \<le> 13))"

definition ispunct :: "char \<Rightarrow> bool" where
  "ispunct c \<longleftrightarrow>
     (let n = of_char c :: nat in
      (33 \<le> n \<and> n \<le> 47) \<or> (58 \<le> n \<and> n \<le> 64) \<or> (91 \<le> n \<and> n \<le> 96) \<or> (123 \<le> n \<and> n \<le> 126))"

definition char_lower :: "char \<Rightarrow> char" where
  "char_lower c = (let n = of_char c :: nat in if 65 \<le> n \<and> n \<le> 90 then char_of (n + 32) else c)"

record TokenizerOptions =
  to_toLower :: bool
  to_removePunctuation :: bool
  to_filterStopwords :: bool
  to_minTermLength :: nat
  to_maxTermLength :: nat

definition defaultTokenizerOptions :: TokenizerOptions where
  "defaultTokenizerOptions =
     \<lparr>to_toLower = True, to_removePunctuation = True, to_filterStopwords = True, to_minTermLength = 2,
      to_maxTermLength = 64\<rparr>"

record Token =
  tok_term :: string
  tok_position :: u32
  tok_byteOffset :: u32
  tok_byteLength :: u32

record Tokenizer =
  tz_options :: TokenizerOptions
  tz_stopwords :: "string set"

definition kDefaultWords :: "string list" where
  "kDefaultWords =
     [''a'', ''about'', ''above'', ''after'', ''again'', ''against'', ''all'', ''am'', ''an'', ''and'',
      ''any'', ''are'', ''aren'' @ [CHR 0x27] @ ''t'', ''as'', ''at'', ''be'', ''because'', ''been'',
      ''before'', ''being'', ''below'', ''between'', ''both'', ''but'', ''by'', ''can'' @ [CHR 0x27] @ ''t'',
      ''cannot'', ''could'', ''couldn'' @ [CHR 0x27] @ ''t'', ''did'', ''didn'' @ [CHR 0x27] @ ''t'', ''do'',
      ''does'', ''doesn'' @ [CHR 0x27] @ ''t'', ''doing'', ''don'' @ [CHR 0x27] @ ''t'', ''down'', ''during'',
      ''each'', ''few'', ''for'', ''from'', ''further'', ''had'', ''hadn'' @ [CHR 0x27] @ ''t'', ''has'',
      ''hasn'' @ [CHR 0x27] @ ''t'', ''have'', ''haven'' @ [CHR 0x27] @ ''t'', ''having'', ''he'',
      ''he'' @ [CHR 0x27] @ ''d'', ''he'' @ [CHR 0x27] @ ''ll'', ''he'' @ [CHR 0x27] @ ''s'', ''her'',
      ''here'', ''here'' @ [CHR 0x27] @ ''s'', ''hers'', ''herself'', ''him'', ''himself'', ''his'', ''how'',
      ''how'' @ [CHR 0x27] @ ''s'', ''i'', ''i'' @ [CHR 0x27] @ ''d'', ''i'' @ [CHR 0x27] @ ''ll'',
      ''i'' @ [CHR 0x27] @ ''m'', ''i'' @ [CHR 0x27] @ ''ve'', ''if'', ''in'', ''into'', ''is'',
      ''isn'' @ [CHR 0x27] @ ''t'', ''it'', ''it'' @ [CHR 0x27] @ ''s'', ''its'', ''itself'',
      ''let'' @ [CHR 0x27] @ ''s'', ''me'', ''more'', ''most'', ''mustn'' @ [CHR 0x27] @ ''t'', ''my'',
      ''myself'', ''no'', ''nor'', ''not'', ''of'', ''off'', ''on'', ''once'', ''only'', ''or'', ''other'',
      ''ought'', ''our'', ''ours'', ''ourselves'', ''out'', ''over'', ''own'', ''same'',
      ''shan'' @ [CHR 0x27] @ ''t'', ''she'', ''she'' @ [CHR 0x27] @ ''d'', ''she'' @ [CHR 0x27] @ ''ll'',
      ''she'' @ [CHR 0x27] @ ''s'', ''should'', ''shouldn'' @ [CHR 0x27] @ ''t'', ''so'', ''some'', ''such'',
      ''than'', ''that'', ''that'' @ [CHR 0x27] @ ''s'', ''the'', ''their'', ''theirs'', ''them'',
      ''themselves'', ''then'', ''there'', ''there'' @ [CHR 0x27] @ ''s'', ''these'', ''they'',
      ''they'' @ [CHR 0x27] @ ''d'', ''they'' @ [CHR 0x27] @ ''ll'', ''they'' @ [CHR 0x27] @ ''re'',
      ''they'' @ [CHR 0x27] @ ''ve'', ''this'', ''those'', ''through'', ''to'', ''too'', ''under'', ''until'',
      ''up'', ''very'', ''was'', ''wasn'' @ [CHR 0x27] @ ''t'', ''we'', ''we'' @ [CHR 0x27] @ ''d'',
      ''we'' @ [CHR 0x27] @ ''ll'', ''we'' @ [CHR 0x27] @ ''re'', ''we'' @ [CHR 0x27] @ ''ve'', ''were'',
      ''weren'' @ [CHR 0x27] @ ''t'', ''what'', ''what'' @ [CHR 0x27] @ ''s'', ''when'',
      ''when'' @ [CHR 0x27] @ ''s'', ''where'', ''where'' @ [CHR 0x27] @ ''s'', ''which'', ''while'', ''who'',
      ''who'' @ [CHR 0x27] @ ''s'', ''whom'', ''why'', ''why'' @ [CHR 0x27] @ ''s'', ''with'',
      ''won'' @ [CHR 0x27] @ ''t'', ''would'', ''wouldn'' @ [CHR 0x27] @ ''t'', ''you'',
      ''you'' @ [CHR 0x27] @ ''d'', ''you'' @ [CHR 0x27] @ ''ll'', ''you'' @ [CHR 0x27] @ ''re'',
      ''you'' @ [CHR 0x27] @ ''ve'', ''your'', ''yours'', ''yourself'', ''yourselves'']"

definition newTokenizer :: "TokenizerOptions \<Rightarrow> Tokenizer" where
  "newTokenizer options = \<lparr>tz_options = options, tz_stopwords = set kDefaultWords\<rparr>"

definition isStopword :: "Tokenizer \<Rightarrow> string \<Rightarrow> bool" where
  "isStopword tz trm \<longleftrightarrow> trm \<in> tz_stopwords tz"

definition addStopword :: "string \<Rightarrow> Tokenizer \<Rightarrow> Tokenizer" where
  "addStopword trm tz =
     tz\<lparr>tz_stopwords := insert (if to_toLower (tz_options tz) then map char_lower trm else trm) (tz_stopwords tz)\<rparr>"

definition removeStopword :: "string \<Rightarrow> Tokenizer \<Rightarrow> Tokenizer" where
  "removeStopword trm tz = tz\<lparr>tz_stopwords := tz_stopwords tz - {trm}\<rparr>"

text \<open>The loop \<^verbatim>\<open>while (i < len && p(text[i])) i++;\<close>.\<close>

function scan :: "(char \<Rightarrow> bool) \<Rightarrow> string \<Rightarrow> nat \<Rightarrow> nat" where
  "scan p s i = (if i < length s \<and> p (s ! i) then scan p s (Suc i) else i)"
  by pat_completeness auto
termination
  by (relation "measure (\<lambda>(p, s, i). length s - i)") auto

declare scan.simps [simp del]

definition is_delim :: "TokenizerOptions \<Rightarrow> char \<Rightarrow> bool" where
  "is_delim opts c \<longleftrightarrow> isspace c \<or> (to_removePunctuation opts \<and> ispunct c)"

definition is_term_char :: "TokenizerOptions \<Rightarrow> char \<Rightarrow> bool" where
  "is_term_char opts c \<longleftrightarrow> \<not> isspace c \<and> (\<not> to_removePunctuation opts \<or> \<not> ispunct c)"

text \<open>The body of the outer loop after the delimiters: the tokens it appends (none or one).\<close>

definition emit :: "Tokenizer \<Rightarrow> string \<Rightarrow> nat \<Rightarrow> nat \<Rightarrow> u32 \<Rightarrow> Token list" where
  "emit tz s startOffset termLen position =
     (let opts = tz_options tz in
      if to_minTermLength opts \<le> termLen \<and> termLen \<le> to_maxTermLength opts then
        let trm = take termLen (drop startOffset s);
            trm = (if to_toLower opts then map char_lower trm else trm) in
        if \<not> to_filterStopwords opts \<or> \<not> isStopword tz trm
        then [\<lparr>tok_term = trm, tok_position = position, tok_byteOffset = word_of_nat startOffset,
               tok_byteLength = word_of_nat termLen\<rparr>]
        else []
      else [])"

lemma scan_ge: "i \<le> scan p s i"
proof (induction p s i rule: scan.induct)
  case (1 p s i)
  then show ?case
    by (subst scan.simps) auto
qed

lemma scan_gt: "i < length s \<Longrightarrow> p (s ! i) \<Longrightarrow> i < scan p s i"
  using scan_ge [of "Suc i" p s] by (subst scan.simps) simp

lemma scan_stops: "scan p s i < length s \<Longrightarrow> \<not> p (s ! scan p s i)"
proof (induction p s i rule: scan.induct)
  case (1 p s i)
  then show ?case
    by (metis scan.simps)
qed

function tokenize_from :: "Tokenizer \<Rightarrow> string \<Rightarrow> nat \<Rightarrow> u32 \<Rightarrow> Token list" where
  "tokenize_from tz s i position =
     (let start = scan (is_delim (tz_options tz)) s i in
      if start \<ge> length s then []
      else
        let i = scan (is_term_char (tz_options tz)) s start;
            toks = emit tz s start (i - start) position in
        toks @ tokenize_from tz s i (if toks = [] then position else position + 1))"
  by pat_completeness auto
termination
proof (relation "measure (\<lambda>(tz, s, i, position). length s - i)", goal_cases)
  case (2 tz s i position start i' toks)
  let ?d = "is_delim (tz_options tz)" and ?t = "is_term_char (tz_options tz)"
  have "\<not> ?d (s ! start)" "i \<le> start" "start < length s"
    using 2 scan_stops [of ?d s i] scan_ge [of i ?d s] by auto
  then have "start < i'"
    using 2 scan_gt [of start s ?t] by (simp add: is_delim_def is_term_char_def)
  with \<open>i \<le> start\<close> \<open>start < length s\<close> show ?case
    by simp
qed simp

declare tokenize_from.simps [simp del]

definition tokenize :: "Tokenizer \<Rightarrow> string \<Rightarrow> Token list" where
  "tokenize tz s = (if s = [] then [] else tokenize_from tz s 0 0)"

definition termFrequencies :: "Tokenizer \<Rightarrow> string \<Rightarrow> (string \<rightharpoonup> u32)" where
  "termFrequencies tz s =
     foldl (\<lambda>tf tok. tf(tok_term tok \<mapsto> (case tf (tok_term tok) of None \<Rightarrow> 0 | Some n \<Rightarrow> n) + 1)) Map.empty (tokenize tz s)"

section \<open>The reference split\<close>

text \<open>The maximal runs of non-delimiters of a text, with the offset each starts at.\<close>

function words_at :: "(char \<Rightarrow> bool) \<Rightarrow> nat \<Rightarrow> string \<Rightarrow> (nat \<times> string) list" where
  "words_at d off s =
     (let rest = dropWhile d s; off = off + length (takeWhile d s) in
      if rest = [] then []
      else (off, takeWhile (\<lambda>c. \<not> d c) rest) #
             words_at d (off + length (takeWhile (\<lambda>c. \<not> d c) rest)) (dropWhile (\<lambda>c. \<not> d c) rest))"
  by pat_completeness auto
termination
proof (relation "measure (\<lambda>(d, off, s). length s)", goal_cases)
  case (2 d off s rest off')
  then have "rest \<noteq> []" "\<not> d (hd rest)" "length rest \<le> length s"
    by (auto simp: hd_dropWhile length_dropWhile_le)
  then have "length (dropWhile (\<lambda>c. \<not> d c) rest) < length rest"
    by (cases rest) (auto simp: le_imp_less_Suc length_dropWhile_le)
  with \<open>length rest \<le> length s\<close> show ?case
    by simp
qed simp

declare words_at.simps [simp del]

definition accepted :: "Tokenizer \<Rightarrow> nat \<times> string \<Rightarrow> (nat \<times> nat \<times> string) option" where
  "accepted tz ow =
     (case ow of (off, w) \<Rightarrow>
        let opts = tz_options tz; trm = (if to_toLower opts then map char_lower w else w) in
        if to_minTermLength opts \<le> length w \<and> length w \<le> to_maxTermLength opts \<and>
           (\<not> to_filterStopwords opts \<or> trm \<notin> tz_stopwords tz)
        then Some (off, length w, trm) else None)"

definition terms_of :: "Tokenizer \<Rightarrow> string \<Rightarrow> (nat \<times> nat \<times> string) list" where
  "terms_of tz s = List.map_filter (accepted tz) (words_at (is_delim (tz_options tz)) 0 s)"

definition mk_token :: "nat \<Rightarrow> nat \<times> nat \<times> string \<Rightarrow> Token" where
  "mk_token k x = (case x of (off, len, trm) \<Rightarrow>
     \<lparr>tok_term = trm, tok_position = word_of_nat k, tok_byteOffset = word_of_nat off, tok_byteLength = word_of_nat len\<rparr>)"

lemma scan_takeWhile: "scan p s i = i + length (takeWhile p (drop i s))"
proof (induction p s i rule: scan.induct)
  case (1 p s i)
  show ?case
  proof (cases "i < length s \<and> p (s ! i)")
    case True
    then have "drop i s = s ! i # drop (Suc i) s"
      by (simp add: Cons_nth_drop_Suc)
    with True 1 show ?thesis
      by (subst scan.simps) simp
  next
    case False
    then have "takeWhile p (drop i s) = []"
      by (cases "i < length s") (auto simp: hd_drop_conv_nth takeWhile_eq_Nil_iff)
    with False show ?thesis
      by (subst scan.simps) auto
  qed
qed

lemma drop_takeWhile: "drop (length (takeWhile p xs)) xs = dropWhile p xs"
  by (simp add: dropWhile_eq_drop)

lemma take_takeWhile: "take (length (takeWhile p xs)) xs = takeWhile p xs"
  by (metis takeWhile_eq_take)

lemma is_term_char_not_delim: "is_term_char opts = (\<lambda>c. \<not> is_delim opts c)"
  by (auto simp: is_term_char_def is_delim_def fun_eq_iff)

lemma emit_accepted:
  assumes "w = take n (drop start s)" "length w = n"
  shows "emit tz s start n (word_of_nat k) =
    (case accepted tz (start, w) of None \<Rightarrow> [] | Some x \<Rightarrow> [mk_token k x])"
  using assms by (auto simp: emit_def accepted_def mk_token_def isStopword_def Let_def)

lemma tokenize_from_words:
  "tokenize_from tz s i (word_of_nat k) =
     (let xs = List.map_filter (accepted tz) (words_at (is_delim (tz_options tz)) i (drop i s))
      in map (\<lambda>(j, x). mk_token (k + j) x) (List.enumerate 0 xs))"
proof (induction "length s - i" arbitrary: i k rule: less_induct)
  case less
  let ?d = "is_delim (tz_options tz)"
  define start where "start = scan ?d s i"
  have rest: "drop start s = dropWhile ?d (drop i s)"
    by (simp add: start_def scan_takeWhile drop_add drop_takeWhile del: drop_drop)
  show ?case
  proof (cases "start < length s")
    case False
    then have "dropWhile ?d (drop i s) = []"
      using rest by simp
    with False show ?thesis
      by (subst tokenize_from.simps, subst words_at.simps) (simp add: start_def Let_def List.map_filter_simps)
  next
    case True
    define w where "w = takeWhile (\<lambda>c. \<not> ?d c) (drop start s)"
    define i' where "i' = scan (is_term_char (tz_options tz)) s start"
    have i': "i' = start + length w"
      by (simp add: i'_def w_def scan_takeWhile is_term_char_not_delim)
    have ge: "i \<le> start"
      by (simp add: start_def scan_ge)
    have "\<not> ?d (s ! start)"
      using True scan_stops [of ?d s i] by (simp add: start_def)
    then have "start < i'"
      using True scan_gt [of start s "is_term_char (tz_options tz)"] by (simp add: i'_def is_term_char_not_delim)
    with ge True have smaller: "length s - i' < length s - i"
      by simp
    have next_rest: "dropWhile (\<lambda>c. \<not> ?d c) (drop start s) = drop i' s"
      by (simp add: i' w_def drop_add drop_takeWhile del: drop_drop)
    have off: "i + length (takeWhile ?d (drop i s)) = start"
      by (simp add: start_def scan_takeWhile)
    have words: "words_at ?d i (drop i s) = (start, w) # words_at ?d i' (drop i' s)"
      using True by (subst words_at.simps) (simp add: rest [symmetric] off Let_def w_def [symmetric] i' [symmetric] next_rest)
    have em: "emit tz s start (i' - start) (word_of_nat k) =
        (case accepted tz (start, w) of None \<Rightarrow> [] | Some x \<Rightarrow> [mk_token k x])"
      by (rule emit_accepted) (simp_all add: i' w_def take_takeWhile)
    have step: "tokenize_from tz s i (word_of_nat k) =
        (case accepted tz (start, w) of
           None \<Rightarrow> tokenize_from tz s i' (word_of_nat k)
         | Some x \<Rightarrow> mk_token k x # tokenize_from tz s i' (word_of_nat (Suc k)))"
      using True by (subst tokenize_from.simps)
        (simp add: start_def [symmetric] i'_def [symmetric] em Let_def add.commute split: option.split)
    show ?thesis
      unfolding step words
      using less.hyps [OF smaller, of k] less.hyps [OF smaller, of "Suc k"]
      by (simp add: Let_def List.map_filter_simps enumerate_Suc_eq case_prod_unfold split: option.split)
  qed
qed

lemma tokenize_words:
  "tokenize tz s = map (\<lambda>(k, x). mk_token k x) (List.enumerate 0 (terms_of tz s))"
proof (cases "s = []")
  case True
  then show ?thesis
    by (simp add: tokenize_def terms_of_def words_at.simps List.map_filter_simps)
next
  case False
  then show ?thesis
    using tokenize_from_words [of tz s 0 0] by (simp add: tokenize_def terms_of_def Let_def)
qed

text \<open>The tokens of a text are the maximal runs of non-delimiters whose length is within
  the limits, lower-cased if that is asked for, without stop words; the \<open>k\<close>-th token has
  position \<open>k\<close> and the offset and length of its run, modulo the 32-bit fields.\<close>

theorem tokenize_spec:
  "tokenize tz s = map (\<lambda>(k, x). mk_token k x) (List.enumerate 0 (terms_of tz s))"
  by (rule tokenize_words)

section \<open>Consequences\<close>

lemma termFrequencies_count:
  "termFrequencies tz s t =
     (let n = length (filter (\<lambda>tok. tok_term tok = t) (tokenize tz s)) in if n = 0 then None else Some (word_of_nat n))"
proof -
  define step where "step = (\<lambda>tf (tok :: Token). tf(tok_term tok \<mapsto> (case tf (tok_term tok) of None \<Rightarrow> 0 | Some n \<Rightarrow> n) + (1 :: u32)))"
  have "foldl step tf toks t =
      (let n = length (filter (\<lambda>tok. tok_term tok = t) toks) in
       if n = 0 then tf t else Some ((case tf t of None \<Rightarrow> 0 | Some n \<Rightarrow> n) + word_of_nat n))" for tf toks
    by (induction toks arbitrary: tf) (auto simp: step_def Let_def add.commute add.left_commute)
  from this [of Map.empty "tokenize tz s"] show ?thesis
    by (simp add: termFrequencies_def step_def Let_def)
qed

lemma of_char_lower:
  "(of_char (char_lower c) :: nat) = (let n = of_char c in if 65 \<le> n \<and> n \<le> 90 then n + 32 else n)"
  by (simp add: char_lower_def Let_def of_char_of)

lemma is_delim_char_lower [simp]: "is_delim opts (char_lower c) = is_delim opts c"
  by (auto simp: is_delim_def isspace_def ispunct_def of_char_lower Let_def)

lemma words_at_chars: "(off, w) \<in> set (words_at d i s) \<Longrightarrow> c \<in> set w \<Longrightarrow> \<not> d c"
proof (induction d i s rule: words_at.induct)
  case (1 d i s)
  then show ?case
    by (subst (asm) (2) words_at.simps) (auto simp: Let_def split: if_splits dest: set_takeWhileD)
qed

lemma terms_of_chars:
  assumes "(off, len, trm) \<in> set (terms_of tz s)" "c \<in> set trm"
  shows "\<not> is_delim (tz_options tz) c"
proof -
  obtain w where w: "(off, w) \<in> set (words_at (is_delim (tz_options tz)) 0 s)"
      "trm = (if to_toLower (tz_options tz) then map char_lower w else w)"
    using assms(1) by (auto simp: terms_of_def List.map_filter_def accepted_def Let_def split: if_splits)
  then show ?thesis
    using words_at_chars [OF w(1)] assms(2) by (auto split: if_splits)
qed

text \<open>With punctuation removed, a stop word that contains a punctuation character has no
  effect: the tokens are the same as without it.\<close>

theorem tokenize_ignores_punctuated_stopwords:
  assumes "to_removePunctuation (tz_options tz)"
  shows "tokenize tz s = tokenize (tz\<lparr>tz_stopwords := {w \<in> tz_stopwords tz. \<not> list_ex ispunct w}\<rparr>) s"
proof -
  let ?tz = "tz\<lparr>tz_stopwords := {w \<in> tz_stopwords tz. \<not> list_ex ispunct w}\<rparr>"
  have "accepted tz (off, w) = accepted ?tz (off, w)"
    if "(off, w) \<in> set (words_at (is_delim (tz_options tz)) 0 s)" for off w
  proof -
    have "\<not> is_delim (tz_options tz) c" if "c \<in> set w" for c
      using words_at_chars [OF \<open>(off, w) \<in> _\<close> that] .
    then have "\<not> is_delim (tz_options tz) c" if "c \<in> set (if to_toLower (tz_options tz) then map char_lower w else w)" for c
      using that by (auto split: if_splits)
    then have "\<not> list_ex ispunct (if to_toLower (tz_options tz) then map char_lower w else w)"
      using assms by (force simp: list_ex_iff is_delim_def)
    then show ?thesis
      by (auto simp: accepted_def Let_def)
  qed
  then have "terms_of tz s = terms_of ?tz s"
    by (auto simp: terms_of_def List.map_filter_def intro!: map_cong filter_cong)
  then show ?thesis
    by (simp add: tokenize_words)
qed

definition dont :: string where
  "dont = ''Why don'' @ [CHR 0x27] @ ''t they''"

theorem tokenize_ignores_punctuated_stopwords_witness:
  "tokenize (newTokenizer defaultTokenizerOptions) dont =
   tokenize ((newTokenizer defaultTokenizerOptions)\<lparr>tz_stopwords := {w \<in> set kDefaultWords. \<not> list_ex ispunct w}\<rparr>) dont"
  using tokenize_ignores_punctuated_stopwords [of "newTokenizer defaultTokenizerOptions" dont]
  by (simp add: newTokenizer_def defaultTokenizerOptions_def)

end
