(* ===== verification/Inverted_Index.thy ===== *)
theory Inverted_Index
  imports Complex_Main Posting_List Tokenizer
begin

text \<open>
  \<^verbatim>\<open>src/search/InvertedIndex.cpp\<close> and \<^verbatim>\<open>BM25Scorer.cpp\<close>: the full-text index.  The tables
  are maps; where the source iterates over one, the order is an argument.  Scores are
  \<^verbatim>\<open>double\<close> in the source and real numbers here: rounding is not modelled.

  Shown: the index refines a table of documents, indexing and removing a document being an
  update of one entry; a search returns the documents with the best scores of BM25 over that table;
  and the binary form keeps the tables but not the tokenizer.
\<close>

section \<open>Scoring\<close>

record BM25Params =
  bm_k1 :: real
  bm_b :: real

definition defaultBM25 :: BM25Params where
  "defaultBM25 = \<lparr>bm_k1 = 12 / 10, bm_b = 75 / 100\<rparr>"

definition idf :: "nat \<Rightarrow> nat \<Rightarrow> real" where
  "idf totalDocs docFreq =
     (if totalDocs = 0 \<or> docFreq = 0 then 0
      else
        let N = real totalDocs; n = real docFreq; val = (N - n + 1 / 2) / (n + 1 / 2) in
        ln (1 + max 0 val))"

definition scoreTerm :: "BM25Params \<Rightarrow> real \<Rightarrow> u32 \<Rightarrow> nat \<Rightarrow> real \<Rightarrow> real" where
  "scoreTerm params idfValue termFreq docLength avgDocLength =
     (if termFreq = 0 \<or> idfValue \<le> 0 then 0
      else
        let dl = real docLength; avgDl = (if avgDocLength > 0 then avgDocLength else 1);
            numerator = real (unat termFreq) * (bm_k1 params + 1);
            denominator = real (unat termFreq) + bm_k1 params * (1 - bm_b params + bm_b params * (dl / avgDl)) in
        if denominator \<le> 0 then 0 else idfValue * (numerator / denominator))"

section \<open>The index\<close>

record InvertedIndex =
  ii_tokenizer :: Tokenizer
  ii_params :: BM25Params
  ii_dictionary :: "string \<rightharpoonup> PostingList"
  ii_docLengths :: "u64 \<rightharpoonup> nat"
  ii_totalTokens :: u64

definition newInvertedIndex :: "TokenizerOptions \<Rightarrow> BM25Params \<Rightarrow> InvertedIndex" where
  "newInvertedIndex tokOpts params =
     \<lparr>ii_tokenizer = newTokenizer tokOpts, ii_params = params, ii_dictionary = Map.empty,
      ii_docLengths = Map.empty, ii_totalTokens = 0\<rparr>"

definition drop_doc :: "u64 \<Rightarrow> PostingList \<Rightarrow> PostingList option" where
  "drop_doc docId pl =
     (let updated = foldl (\<lambda>updated p. if po_docId p \<noteq> docId then addPosting p updated else updated)
                      newPostingList (pl_postings pl) in
      if docFrequency updated = 0 then None else Some updated)"

definition removeDocument :: "u64 \<Rightarrow> InvertedIndex \<Rightarrow> bool \<times> InvertedIndex" where
  "removeDocument docId idx =
     (case ii_docLengths idx docId of
        None \<Rightarrow> (False, idx)
      | Some len \<Rightarrow>
          (True, idx\<lparr>ii_totalTokens := ii_totalTokens idx - size64 len,
                     ii_docLengths := (ii_docLengths idx)(docId := None),
                     ii_dictionary := (\<lambda>trm. Option.bind (ii_dictionary idx trm) (drop_doc docId))\<rparr>))"

definition add_token :: "u64 \<Rightarrow> (string \<rightharpoonup> PostingList) \<Rightarrow> Token \<Rightarrow> (string \<rightharpoonup> PostingList)" where
  "add_token docId dict tok =
     dict(tok_term tok \<mapsto>
       addOccurrence docId (tok_position tok)
         (case dict (tok_term tok) of None \<Rightarrow> newPostingList | Some pl \<Rightarrow> pl))"

definition indexDocument :: "u64 \<Rightarrow> string \<Rightarrow> InvertedIndex \<Rightarrow> InvertedIndex" where
  "indexDocument docId content idx =
     (let idx = (if ii_docLengths idx docId \<noteq> None then snd (removeDocument docId idx) else idx);
          tokens = tokenize (ii_tokenizer idx) content in
      idx\<lparr>ii_docLengths := (ii_docLengths idx)(docId \<mapsto> length tokens),
          ii_totalTokens := ii_totalTokens idx + size64 (length tokens),
          ii_dictionary := foldl (add_token docId) (ii_dictionary idx) tokens\<rparr>)"

definition hasDocument :: "InvertedIndex \<Rightarrow> u64 \<Rightarrow> bool" where
  "hasDocument idx docId \<longleftrightarrow> ii_docLengths idx docId \<noteq> None"

definition totalDocuments :: "InvertedIndex \<Rightarrow> nat" where
  "totalDocuments idx = card (dom (ii_docLengths idx))"

definition totalTerms :: "InvertedIndex \<Rightarrow> nat" where
  "totalTerms idx = card (dom (ii_dictionary idx))"

definition averageDocumentLength :: "InvertedIndex \<Rightarrow> real" where
  "averageDocumentLength idx =
     (if dom (ii_docLengths idx) = {} then 0
      else real (unat (ii_totalTokens idx)) / real (card (dom (ii_docLengths idx))))"

definition documentLength :: "InvertedIndex \<Rightarrow> u64 \<Rightarrow> nat" where
  "documentLength idx docId = (case ii_docLengths idx docId of Some n \<Rightarrow> n | None \<Rightarrow> 0)"

definition ii_clear :: "InvertedIndex \<Rightarrow> InvertedIndex" where
  "ii_clear idx = idx\<lparr>ii_dictionary := Map.empty, ii_docLengths := Map.empty, ii_totalTokens := 0\<rparr>"

section \<open>Search\<close>

record SearchResult =
  sr_docId :: u64
  sr_score :: real
  sr_matchedTerms :: "string list"

record QueryOptions =
  qo_limit :: nat
  qo_minScore :: real
  qo_requireAllTerms :: bool

type_synonym scores = "u64 \<rightharpoonup> real \<times> string list"

definition uniqueTerms :: "Token list \<Rightarrow> string list" where
  "uniqueTerms toks = foldl (\<lambda>u tok. if tok_term tok \<in> set u then u else u @ [tok_term tok]) [] toks"

definition score_posting :: "InvertedIndex \<Rightarrow> real \<Rightarrow> real \<Rightarrow> string \<Rightarrow> scores \<Rightarrow> Posting \<Rightarrow> scores" where
  "score_posting idx avgdl idfVal trm scores p =
     (let docLen = (case ii_docLengths idx (po_docId p) of Some n \<Rightarrow> n | None \<Rightarrow> 0);
          termScore = scoreTerm (ii_params idx) idfVal (po_termFrequency p) docLen avgdl;
          acc = (case scores (po_docId p) of Some acc \<Rightarrow> acc | None \<Rightarrow> (0, [])) in
      scores(po_docId p \<mapsto> (fst acc + termScore, snd acc @ [trm])))"

definition score_term :: "InvertedIndex \<Rightarrow> nat \<Rightarrow> real \<Rightarrow> scores \<Rightarrow> string \<Rightarrow> scores" where
  "score_term idx N avgdl scores trm =
     (case ii_dictionary idx trm of
        None \<Rightarrow> scores
      | Some pList \<Rightarrow> foldl (score_posting idx avgdl (idf N (docFrequency pList)) trm) scores (pl_postings pList))"

definition result_of :: "QueryOptions \<Rightarrow> nat \<Rightarrow> u64 \<times> real \<times> string list \<Rightarrow> SearchResult option" where
  "result_of options numTerms x =
     (case x of (docId, score, matched) \<Rightarrow>
        if qo_requireAllTerms options \<and> length matched < numTerms then None
        else if score < qo_minScore options then None
        else Some \<lparr>sr_docId = docId, sr_score = score, sr_matchedTerms = matched\<rparr>)"

definition search ::
  "(scores \<Rightarrow> (u64 \<times> real \<times> string list) list) \<Rightarrow> InvertedIndex \<Rightarrow> string \<Rightarrow> QueryOptions \<Rightarrow> SearchResult list" where
  "search order idx query options =
     (let queryTokens = tokenize (ii_tokenizer idx) query in
      if queryTokens = [] \<or> dom (ii_docLengths idx) = {} then []
      else
        let N = totalDocuments idx; avgdl = averageDocumentLength idx;
            terms = uniqueTerms queryTokens;
            scores = foldl (score_term idx N avgdl) Map.empty terms;
            results = List.map_filter (result_of options (length terms)) (order scores) in
        take (qo_limit options) (sort_key (\<lambda>r. - sr_score r) results))"

section \<open>The binary form\<close>

definition serialize_doc :: "u64 \<times> nat \<Rightarrow> byte list" where
  "serialize_doc x = encode (fst x) @ encode (size64 (snd x))"

definition serialize_term :: "string \<times> PostingList \<Rightarrow> byte list" where
  "serialize_term x =
     serialize_string (fst x) @
     (let pBytes = pl_serialize (snd x) in encode (size64 (length pBytes)) @ pBytes)"

definition ii_serialize :: "(u64 \<times> nat) list \<Rightarrow> (string \<times> PostingList) list \<Rightarrow> byte list" where
  "ii_serialize docIt dictIt =
     encode (size64 (length docIt)) @ concat (map serialize_doc docIt) @
     encode (size64 (length dictIt)) @ concat (map serialize_term dictIt)"

definition read_doc :: "byte list \<Rightarrow> nat \<Rightarrow> ((u64 \<times> nat) \<times> nat) rd" where
  "read_doc data off =
     bind_rd (more_varint data off) (\<lambda>(docId, off).
     bind_rd (more_varint data off) (\<lambda>(len, off).
     Inr (Some ((docId, unat len), off))))"

definition read_term :: "nat \<Rightarrow> byte list \<Rightarrow> nat \<Rightarrow> ((string \<times> PostingList) \<times> nat) rd" where
  "read_term limit data off =
     bind_rd (more_varint data off) (\<lambda>(termLen, off).
     bind_rd (read_string data off termLen) (\<lambda>(trm, off).
     bind_rd (more_varint data off) (\<lambda>(pBytesLen, off).
     if (off + unat pBytesLen) mod 2 ^ 64 > length data then Inr None
     else if off + unat pBytesLen > length data then Inl Undefined_behaviour
     else
       bind_rd (pl_deserialize limit (take (unat pBytesLen) (drop off data))) (\<lambda>pList.
       Inr (Some ((trm, pList), off + unat pBytesLen))))))"

definition ii_deserialize :: "nat \<Rightarrow> byte list \<Rightarrow> InvertedIndex rd" where
  "ii_deserialize limit data =
     (let index = newInvertedIndex defaultTokenizerOptions defaultBM25 in
      if data = [] then Inr (Some index)
      else
        bind_rd (read_varint data 0) (\<lambda>(numDocs, off).
        bind_rd (read_all read_doc (unat numDocs) data off) (\<lambda>(docs, off).
        bind_rd (more_varint data off) (\<lambda>(numTerms, off).
        bind_rd (read_all (read_term limit) (unat numTerms) data off) (\<lambda>(dict, _).
        Inr (Some (index\<lparr>
          ii_docLengths := foldl (\<lambda>m (docId, len). m(docId \<mapsto> len)) Map.empty docs,
          ii_totalTokens := foldl (\<lambda>t (docId, len). t + size64 len) 0 docs,
          ii_dictionary := foldl (\<lambda>m (trm, pList). m(trm \<mapsto> pList)) Map.empty dict\<rparr>)))))))"

section \<open>Refinement of a table of documents\<close>

definition positions_of :: "Tokenizer \<Rightarrow> string \<Rightarrow> string \<Rightarrow> u32 list" where
  "positions_of tz content trm = map tok_position (filter (\<lambda>tok. tok_term tok = trm) (tokenize tz content))"

text \<open>The positions of a term in a document, none if the document is absent.\<close>

definition doc_positions :: "Tokenizer \<Rightarrow> (u64 \<rightharpoonup> string) \<Rightarrow> string \<Rightarrow> u64 \<Rightarrow> u32 list" where
  "doc_positions tz docs trm d = (case docs d of None \<Rightarrow> [] | Some content \<Rightarrow> positions_of tz content trm)"

definition list_or_new :: "PostingList option \<Rightarrow> PostingList" where
  "list_or_new x = (case x of None \<Rightarrow> newPostingList | Some pl \<Rightarrow> pl)"

definition ii_rep :: "InvertedIndex \<Rightarrow> (u64 \<rightharpoonup> string) \<Rightarrow> bool" where
  "ii_rep idx docs \<longleftrightarrow>
     finite (dom docs) \<and>
     ii_docLengths idx = (\<lambda>d. map_option (\<lambda>c. length (tokenize (ii_tokenizer idx) c)) (docs d)) \<and>
     ii_totalTokens idx = (\<Sum>d \<in> dom docs. size64 (length (tokenize (ii_tokenizer idx) (the (docs d))))) \<and>
     (\<forall>trm. distinct (pl_docs (list_or_new (ii_dictionary idx trm))) \<and>
        (\<forall>d. findDoc (list_or_new (ii_dictionary idx trm)) d =
             posting_of d (doc_positions (ii_tokenizer idx) docs trm d)) \<and>
        (\<forall>pl. ii_dictionary idx trm = Some pl \<longrightarrow> pl_postings pl \<noteq> []))"

lemma list_or_new_simps [simp]: "list_or_new (Some pl) = pl" "list_or_new None = newPostingList"
  by (simp_all add: list_or_new_def)

lemma newPostingList_docs [simp]: "pl_docs newPostingList = []" "findDoc newPostingList d = None"
  by (simp_all add: newPostingList_def pl_docs_def findDoc_def)

subsection \<open>Adding the tokens of a document\<close>

lemma add_token_apply:
  "add_token docId dict tok trm =
     (if trm = tok_term tok then Some (addOccurrence docId (tok_position tok) (list_or_new (dict trm))) else dict trm)"
  by (simp add: add_token_def list_or_new_def)

lemma add_tokens_dictionary:
  "foldl (add_token docId) dict toks trm =
     (let occs = map (\<lambda>tok. (docId, tok_position tok)) (filter (\<lambda>tok. tok_term tok = trm) toks) in
      if occs = [] then dict trm
      else Some (foldl (\<lambda>pl (d, pos). addOccurrence d pos pl) (list_or_new (dict trm)) occs))"
proof (induction toks arbitrary: dict)
  case (Cons tok toks)
  show ?case
    unfolding foldl_Cons Cons.IH by (auto simp: add_token_apply Let_def)
qed (simp add: Let_def)

lemma occurrences_of_map:
  "occurrences_of d (map (\<lambda>tok. (docId, tok_position tok)) toks) = (if d = docId then map tok_position toks else [])"
  by (auto simp: occurrences_of_def filter_map o_def)

lemma posting_of_eq_None [simp]: "posting_of d ps = None \<longleftrightarrow> ps = []"
  by (simp add: posting_of_def)

lemma findDoc_nonempty: "findDoc pl d \<noteq> None \<Longrightarrow> pl_postings pl \<noteq> []"
  by (auto simp: findDoc_def)

lemma index_new_rep:
  fixes content :: string
  assumes "ii_rep idx docs" "docs docId = None"
  defines "toks \<equiv> tokenize (ii_tokenizer idx) content"
  defines "idx' \<equiv> idx\<lparr>ii_docLengths := (ii_docLengths idx)(docId \<mapsto> length toks),
     ii_totalTokens := ii_totalTokens idx + size64 (length toks),
     ii_dictionary := foldl (add_token docId) (ii_dictionary idx) toks\<rparr>"
  shows "ii_rep idx' (docs(docId \<mapsto> content))"
proof -
  let ?tz = "ii_tokenizer idx"
  note rep = assms(1)[unfolded ii_rep_def]
  have dict: "distinct (pl_docs (list_or_new (ii_dictionary idx' trm))) \<and>
      (\<forall>d. findDoc (list_or_new (ii_dictionary idx' trm)) d = posting_of d (doc_positions ?tz (docs(docId \<mapsto> content)) trm d)) \<and>
      (\<forall>pl. ii_dictionary idx' trm = Some pl \<longrightarrow> pl_postings pl \<noteq> [])" for trm
  proof -
    let ?pl = "list_or_new (ii_dictionary idx trm)"
    define occs where "occs = map (\<lambda>tok. (docId, tok_position tok)) (filter (\<lambda>tok. tok_term tok = trm) toks)"
    have adds: "distinct (pl_docs (foldl (\<lambda>pl (d, pos). addOccurrence d pos pl) ?pl occs)) \<and>
        findDoc (foldl (\<lambda>pl (d, pos). addOccurrence d pos pl) ?pl occs) d =
          posting_of d (doc_positions ?tz docs trm d @ occurrences_of d occs)" for d
      using addOccurrences [of ?pl "doc_positions ?tz docs trm" occs d] rep by simp
    have pos: "doc_positions ?tz docs trm d @ occurrences_of d occs = doc_positions ?tz (docs(docId \<mapsto> content)) trm d" for d
      using assms(2) by (simp add: occs_def occurrences_of_map doc_positions_def positions_of_def toks_def)
    have d': "list_or_new (ii_dictionary idx' trm) = foldl (\<lambda>pl (d, pos). addOccurrence d pos pl) ?pl occs"
      by (simp add: idx'_def add_tokens_dictionary Let_def occs_def)
    have "pl_postings pl \<noteq> []" if pl: "ii_dictionary idx' trm = Some pl" for pl
    proof (cases "occs = []")
      case True
      then show ?thesis
        using pl rep by (auto simp: idx'_def add_tokens_dictionary Let_def occs_def)
    next
      case False
      then have "occurrences_of docId occs \<noteq> []"
        by (simp add: occs_def occurrences_of_map)
      then have "findDoc pl docId \<noteq> None"
        using adds [of docId] d' pl by simp
      then show ?thesis
        by (rule findDoc_nonempty)
    qed
    with adds pos d' show ?thesis
      by simp
  qed
  have sum: "(\<Sum>d \<in> dom (docs(docId \<mapsto> content)). size64 (length (tokenize ?tz (the ((docs(docId \<mapsto> content)) d))))) =
      (\<Sum>d \<in> dom docs. size64 (length (tokenize ?tz (the (docs d))))) + size64 (length toks)"
  proof -
    have "docId \<notin> dom docs" and fin: "finite (dom docs)"
      using assms(2) rep by auto
    then have "(\<Sum>d \<in> dom docs. size64 (length (tokenize ?tz (the ((docs(docId \<mapsto> content)) d))))) =
        (\<Sum>d \<in> dom docs. size64 (length (tokenize ?tz (the (docs d)))))"
      by (intro sum.cong) auto
    with \<open>docId \<notin> dom docs\<close> fin show ?thesis
      by (simp add: toks_def add.commute)
  qed
  have tz: "ii_tokenizer idx' = ?tz"
    by (simp add: idx'_def)
  show ?thesis
    unfolding ii_rep_def tz
    using dict sum rep by (auto simp: idx'_def fun_eq_iff toks_def)
qed

subsection \<open>Removing a document\<close>

lemma drop_doc_list:
  "drop_doc docId pl =
     (let ps = filter (\<lambda>p. po_docId p \<noteq> docId) (pl_postings pl) in
      if ps = [] then None
      else Some \<lparr>pl_postings = ps, pl_totalTf = (\<Sum>p\<leftarrow>ps. ucast (po_termFrequency p))\<rparr>)"
proof -
  have "foldl (\<lambda>updated p. if po_docId p \<noteq> docId then addPosting p updated else updated) pl ps =
      foldl (\<lambda>pl p. addPosting p pl) pl (filter (\<lambda>p. po_docId p \<noteq> docId) ps)" for pl ps
    by (induction ps arbitrary: pl) auto
  then show ?thesis
    by (simp add: drop_doc_def addPostings newPostingList_def docFrequency_def Let_def)
qed

lemma find_filter_docs:
  "List.find (\<lambda>p. po_docId p = d) (filter (\<lambda>p. po_docId p \<noteq> docId) ps) =
     (if d = docId then None else List.find (\<lambda>p. po_docId p = d) ps)"
  by (induction ps) auto

lemma drop_doc_docs:
  "distinct (pl_docs pl) \<Longrightarrow> distinct (pl_docs (list_or_new (drop_doc docId pl)))"
  "findDoc (list_or_new (drop_doc docId pl)) d = (if d = docId then None else findDoc pl d)"
  "drop_doc docId pl = Some pl' \<Longrightarrow> pl_postings pl' \<noteq> []"
  using find_filter_docs [of d docId "pl_postings pl"]
  by (auto simp: drop_doc_list Let_def pl_docs_def findDoc_def distinct_map_filter newPostingList_def split: if_splits)

lemma remove_rep:
  assumes "ii_rep idx docs"
  shows "ii_rep (snd (removeDocument docId idx)) (docs(docId := None))"
proof (cases "docs docId")
  case None
  then have "removeDocument docId idx = (False, idx)" "docs(docId := None) = docs"
    using assms by (auto simp: ii_rep_def removeDocument_def)
  with assms show ?thesis
    by simp
next
  case (Some content)
  let ?tz = "ii_tokenizer idx" and ?idx = "snd (removeDocument docId idx)"
  note rep = assms[unfolded ii_rep_def]
  have len: "ii_docLengths idx docId = Some (length (tokenize ?tz content))"
    using rep Some by simp
  have tz: "ii_tokenizer ?idx = ?tz"
    using len by (simp add: removeDocument_def)
  have dict: "distinct (pl_docs (list_or_new (ii_dictionary ?idx trm))) \<and>
      (\<forall>d. findDoc (list_or_new (ii_dictionary ?idx trm)) d = posting_of d (doc_positions ?tz (docs(docId := None)) trm d)) \<and>
      (\<forall>pl. ii_dictionary ?idx trm = Some pl \<longrightarrow> pl_postings pl \<noteq> [])" for trm
  proof (cases "ii_dictionary idx trm")
    case None
    then have "posting_of d (doc_positions ?tz docs trm d) = None" for d
      using rep by (metis list_or_new_simps(2) newPostingList_docs(2))
    then have "posting_of d (doc_positions ?tz (docs(docId := None)) trm d) = None" for d
      by (simp add: doc_positions_def)
    with None len show ?thesis
      by (simp add: removeDocument_def posting_of_def)
  next
    case (Some pl)
    then have "distinct (pl_docs pl)" "\<And>d. findDoc pl d = posting_of d (doc_positions ?tz docs trm d)"
      using rep by (metis list_or_new_simps(1))+
    with Some len drop_doc_docs [where pl = pl and docId = docId] show ?thesis
      by (auto simp: removeDocument_def doc_positions_def posting_of_def)
  qed
  have fin: "finite (dom docs)"
    and lens0: "ii_docLengths idx = (\<lambda>d. map_option (\<lambda>c. length (tokenize ?tz c)) (docs d))"
    and tot: "ii_totalTokens idx = (\<Sum>d \<in> dom docs. size64 (length (tokenize ?tz (the (docs d)))))"
    using rep by blast+
  have "docId \<in> dom docs"
    using Some by auto
  define rest where "rest = (\<Sum>d \<in> dom docs - {docId}. size64 (length (tokenize ?tz (the (docs d)))))"
  have "ii_totalTokens idx = size64 (length (tokenize ?tz content)) + rest"
    unfolding tot rest_def sum.remove [OF fin \<open>docId \<in> dom docs\<close>] using Some by simp
  then have "ii_totalTokens ?idx = rest"
    using len by (simp add: removeDocument_def)
  also have "rest = (\<Sum>d \<in> dom (docs(docId := None)). size64 (length (tokenize ?tz (the ((docs(docId := None)) d)))))"
    unfolding rest_def by (intro sum.cong) auto
  finally have total: "ii_totalTokens ?idx =
      (\<Sum>d \<in> dom (docs(docId := None)). size64 (length (tokenize ?tz (the ((docs(docId := None)) d)))))" .
  have lens: "ii_docLengths ?idx = (\<lambda>d. map_option (\<lambda>c. length (tokenize ?tz c)) ((docs(docId := None)) d))"
    using lens0 len by (auto simp: removeDocument_def)
  have "finite (dom (docs(docId := None)))"
    using fin by simp
  with dict total lens show ?thesis
    unfolding ii_rep_def tz by blast
qed

lemma new_rep: "ii_rep (newInvertedIndex opts params) Map.empty"
  by (simp add: ii_rep_def newInvertedIndex_def doc_positions_def posting_of_def)

lemma index_rep:
  assumes "ii_rep idx docs"
  shows "ii_rep (indexDocument docId content idx) (docs(docId \<mapsto> content))"
proof (cases "docs docId")
  case None
  then have "ii_docLengths idx docId = None"
    using assms by (simp add: ii_rep_def)
  then show ?thesis
    using index_new_rep [OF assms None, of content] by (simp add: indexDocument_def Let_def)
next
  case (Some c)
  then have ne: "ii_docLengths idx docId \<noteq> None"
    using assms by (simp add: ii_rep_def)
  let ?idx = "snd (removeDocument docId idx)"
  have "ii_rep ?idx (docs(docId := None))"
    by (rule remove_rep [OF assms])
  from index_new_rep [OF this, of docId content] show ?thesis
    using ne by (simp add: indexDocument_def Let_def)
qed

text \<open>C20: indexing a document, new or already indexed, changes the index exactly as the table
  of documents changes: lengths, token total, and for every term and document a posting with
  the positions of the term, or none.\<close>

theorem index_document_refines:
  assumes "ii_rep idx docs"
  shows "ii_rep (indexDocument docId content idx) (docs(docId \<mapsto> content)) \<and>
    ii_rep (snd (removeDocument docId idx)) (docs(docId := None)) \<and>
    fst (removeDocument docId idx) = (docs docId \<noteq> None) \<and> hasDocument idx docId = (docs docId \<noteq> None)"
  using index_rep [OF assms] remove_rep [OF assms] assms
  by (auto simp: ii_rep_def removeDocument_def hasDocument_def split: option.split)

theorem index_document_refines_witness:
  "let idx = newInvertedIndex defaultTokenizerOptions defaultBM25 in
   ii_rep (indexDocument 7 ''some text'' idx) [7 \<mapsto> ''some text''] \<and> \<not> hasDocument idx 7"
  using index_document_refines [OF new_rep, of 7 "''some text''" defaultTokenizerOptions defaultBM25] by (simp add: Let_def)

section \<open>Search\<close>

subsection \<open>The reference: BM25 over the table of documents\<close>

text \<open>The number of documents with a term, and the tokens of all documents.\<close>

definition doc_count :: "Tokenizer \<Rightarrow> (u64 \<rightharpoonup> string) \<Rightarrow> string \<Rightarrow> nat" where
  "doc_count tz docs trm = card {d \<in> dom docs. doc_positions tz docs trm d \<noteq> []}"

definition token_count :: "Tokenizer \<Rightarrow> (u64 \<rightharpoonup> string) \<Rightarrow> nat" where
  "token_count tz docs = (\<Sum>d \<in> dom docs. length (tokenize tz (the (docs d))))"

text \<open>The formula of Okapi BM25, for a document that contains the term.\<close>

definition bm25_term :: "BM25Params \<Rightarrow> Tokenizer \<Rightarrow> (u64 \<rightharpoonup> string) \<Rightarrow> u64 \<Rightarrow> string \<Rightarrow> real" where
  "bm25_term params tz docs d trm =
     (let N = real (card (dom docs)); n = real (doc_count tz docs trm); tf = real (length (doc_positions tz docs trm d));
          dl = real (length (tokenize tz (the (docs d)))); avgdl = real (token_count tz docs) / N in
      ln (1 + (N - n + 1 / 2) / (n + 1 / 2)) * (tf * (bm_k1 params + 1)) /
        (tf + bm_k1 params * (1 - bm_b params + bm_b params * (dl / avgdl))))"

definition matches :: "Tokenizer \<Rightarrow> (u64 \<rightharpoonup> string) \<Rightarrow> string \<Rightarrow> u64 \<Rightarrow> string list" where
  "matches tz docs query d =
     filter (\<lambda>trm. doc_positions tz docs trm d \<noteq> []) (uniqueTerms (tokenize tz query))"

definition bm25 :: "BM25Params \<Rightarrow> Tokenizer \<Rightarrow> (u64 \<rightharpoonup> string) \<Rightarrow> string \<Rightarrow> u64 \<Rightarrow> real" where
  "bm25 params tz docs query d = sum_list (map (bm25_term params tz docs d) (matches tz docs query d))"

text \<open>The documents that a query finds: those with one of its terms, or all of them if that is required, whose score
  reaches the threshold.\<close>

definition hits :: "BM25Params \<Rightarrow> Tokenizer \<Rightarrow> (u64 \<rightharpoonup> string) \<Rightarrow> string \<Rightarrow> QueryOptions \<Rightarrow> u64 set" where
  "hits params tz docs query options =
     {d. matches tz docs query d \<noteq> [] \<and>
         (qo_requireAllTerms options \<longrightarrow> matches tz docs query d = uniqueTerms (tokenize tz query)) \<and>
         qo_minScore options \<le> bm25 params tz docs query d}"

subsection \<open>The score of one term\<close>

definition bm25_params_ok :: "BM25Params \<Rightarrow> bool" where
  "bm25_params_ok params \<longleftrightarrow> 0 \<le> bm_k1 params \<and> 0 \<le> bm_b params \<and> bm_b params \<le> 1"

lemma doc_positions_dom: "doc_positions tz docs trm d \<noteq> [] \<Longrightarrow> d \<in> dom docs"
  by (auto simp: doc_positions_def split: option.splits)

lemma length_positions_le:
  "doc_positions tz docs trm d \<noteq> [] \<Longrightarrow> length (doc_positions tz docs trm d) \<le> length (tokenize tz (the (docs d)))"
  by (auto simp: doc_positions_def positions_of_def split: option.splits)

lemma doc_length_le: "finite (dom docs) \<Longrightarrow> d \<in> dom docs \<Longrightarrow> length (tokenize tz (the (docs d))) \<le> token_count tz docs"
  unfolding token_count_def by (rule member_le_sum) auto

lemma rep_docFrequency:
  assumes "ii_rep idx docs" "ii_dictionary idx trm = Some pl"
  shows "docFrequency pl = doc_count (ii_tokenizer idx) docs trm"
proof -
  have pl: "distinct (map po_docId (pl_postings pl))" "findDoc pl d = posting_of d (doc_positions (ii_tokenizer idx) docs trm d)" for d
    using assms unfolding ii_rep_def pl_docs_def by (metis list_or_new_simps(1) pl_docs_def)+
  have "d \<in> po_docId ` set (pl_postings pl) \<longleftrightarrow> doc_positions (ii_tokenizer idx) docs trm d \<noteq> []" for d
    using pl(2) [of d] find_None_iff [of "\<lambda>p. po_docId p = d" "pl_postings pl"] posting_of_eq_None [of d]
    by (auto simp: findDoc_def)
  then have "set (map po_docId (pl_postings pl)) = {d \<in> dom docs. doc_positions (ii_tokenizer idx) docs trm d \<noteq> []}"
    using doc_positions_dom by fastforce
  with distinct_card [OF pl(1)] show ?thesis
    by (simp add: docFrequency_def doc_count_def)
qed

lemma rep_average:
  assumes "ii_rep idx docs" "token_count (ii_tokenizer idx) docs < 2 ^ 64" "dom docs \<noteq> {}"
  shows "averageDocumentLength idx = real (token_count (ii_tokenizer idx) docs) / real (card (dom docs))"
    "totalDocuments idx = card (dom docs)"
proof -
  have dom: "dom (ii_docLengths idx) = dom docs"
    using assms(1) by (auto simp: ii_rep_def dom_def)
  have "ii_totalTokens idx = of_nat (token_count (ii_tokenizer idx) docs)"
    using assms(1) by (simp add: ii_rep_def token_count_def size64_def)
  then have "unat (ii_totalTokens idx) = token_count (ii_tokenizer idx) docs"
    using assms(2) by (simp add: unat_of_nat take_bit_nat_eq_self)
  with dom assms(3) show "averageDocumentLength idx = real (token_count (ii_tokenizer idx) docs) / real (card (dom docs))"
    by (simp add: averageDocumentLength_def del: of_nat_unat)
  show "totalDocuments idx = card (dom docs)"
    by (simp add: totalDocuments_def dom)
qed

text \<open>The guards of \<^verbatim>\<open>idf\<close> and \<^verbatim>\<open>scoreTerm\<close> never strike: what they compute is the formula.\<close>

lemma idf_formula:
  assumes "0 < n" "n \<le> N"
  shows "idf N n = ln (1 + (real N - real n + 1 / 2) / (real n + 1 / 2))" "0 < idf N n"
proof -
  have val: "0 < (real N - real n + 1 / 2) / (real n + 1 / 2)"
    using assms by (intro divide_pos_pos) auto
  then show f: "idf N n = ln (1 + (real N - real n + 1 / 2) / (real n + 1 / 2))"
    using assms by (simp add: idf_def Let_def max_def)
  show "0 < idf N n"
    using val unfolding f by (simp add: ln_gt_zero_iff del: zero_less_divide_iff)
qed

lemma scoreTerm_formula:
  assumes "0 < v" "tf \<noteq> 0" "bm25_params_ok params" "0 < avg"
  shows "scoreTerm params v tf dl avg =
    v * (real (unat tf) * (bm_k1 params + 1)) / (real (unat tf) + bm_k1 params * (1 - bm_b params + bm_b params * (real dl / avg)))"
proof -
  have "0 \<le> bm_b params * (real dl / avg)" "0 \<le> 1 - bm_b params" "0 \<le> bm_k1 params"
    using assms(3,4) by (auto simp: bm25_params_ok_def intro!: mult_nonneg_nonneg divide_nonneg_pos)
  then have "0 \<le> bm_k1 params * (1 - bm_b params + bm_b params * (real dl / avg))"
    by (metis add_nonneg_nonneg mult_nonneg_nonneg)
  moreover have "0 < real (unat tf)"
    using assms(2) by (simp add: unat_gt_0 del: of_nat_unat)
  ultimately have "\<not> real (unat tf) + bm_k1 params * (1 - bm_b params + bm_b params * (real dl / avg)) \<le> 0"
    by linarith
  then show ?thesis
    using assms unfolding scoreTerm_def Let_def by (simp del: of_nat_unat)
qed

lemma scoreTerm_bm25:
  assumes "bm25_params_ok params" "finite (dom docs)" "token_count tz docs < 2 ^ 32" "doc_positions tz docs trm d \<noteq> []"
  shows "scoreTerm params (idf (card (dom docs)) (doc_count tz docs trm))
      (word_of_nat (length (doc_positions tz docs trm d))) (length (tokenize tz (the (docs d))))
      (real (token_count tz docs) / real (card (dom docs))) = bm25_term params tz docs d trm"
proof -
  let ?tf = "length (doc_positions tz docs trm d)" and ?N = "card (dom docs)" and ?n = "doc_count tz docs trm"
  let ?dl = "length (tokenize tz (the (docs d)))" and ?avg = "real (token_count tz docs) / real (card (dom docs))"
  have d: "d \<in> dom docs" using assms(4) by (rule doc_positions_dom)
  then have "0 < ?N" using assms(2) by (auto simp: card_gt_0_iff)
  have tf: "0 < ?tf" "?tf \<le> ?dl" "?dl \<le> token_count tz docs"
    using assms(4) length_positions_le [OF assms(4)] doc_length_le [OF assms(2) d] by auto
  then have "?tf < 2 ^ 32" using assms(3) by linarith
  then have un: "unat (word_of_nat ?tf :: u32) = ?tf" "(word_of_nat ?tf :: u32) \<noteq> 0"
    using tf(1) by (simp_all add: unat_of_nat take_bit_nat_eq_self word_unat_eq_iff)
  have "0 < ?n" "?n \<le> ?N"
    using assms(2,4) d unfolding doc_count_def by (auto simp: card_gt_0_iff intro: card_mono)
  note idf = idf_formula [OF this]
  have "0 < token_count tz docs" using tf by linarith
  then have "0 < ?avg" using \<open>0 < ?N\<close> by (intro divide_pos_pos) (simp_all only: of_nat_0_less_iff)
  from scoreTerm_formula [OF idf(2) un(2) assms(1) this, of ?dl] show ?thesis
    unfolding un(1) idf(1) bm25_term_def Let_def .
qed

subsection \<open>The table of scores\<close>

lemma score_postings_at:
  "distinct (map po_docId ps) \<Longrightarrow>
   foldl (score_posting idx avg v trm) sc ps d =
     (case List.find (\<lambda>p. po_docId p = d) ps of None \<Rightarrow> sc d | Some p \<Rightarrow> score_posting idx avg v trm sc p d)"
proof (induction ps arbitrary: sc)
  case (Cons p ps)
  have other: "score_posting idx avg v trm sc p e = sc e" if "e \<noteq> po_docId p" for e
    using that by (simp add: score_posting_def Let_def)
  show ?case
  proof (cases "po_docId p = d")
    case True
    then have "List.find (\<lambda>p. po_docId p = d) ps = None"
      using Cons.prems unfolding find_None_iff by (auto simp: image_iff)
    with Cons True show ?thesis by simp
  next
    case False
    have same: "score_posting idx avg v trm (score_posting idx avg v trm sc p) q d = score_posting idx avg v trm sc q d"
      if "po_docId q = d" for q
      using that other [of d] False by (simp add: score_posting_def Let_def)
    have IH: "foldl (score_posting idx avg v trm) (score_posting idx avg v trm sc p) ps d =
        (case List.find (\<lambda>p. po_docId p = d) ps of None \<Rightarrow> score_posting idx avg v trm sc p d
         | Some q \<Rightarrow> score_posting idx avg v trm (score_posting idx avg v trm sc p) q d)"
      by (rule Cons.IH) (use Cons.prems in simp)
    show ?thesis
    proof (cases "List.find (\<lambda>p. po_docId p = d) ps")
      case None
      with IH False other show ?thesis by simp
    next
      case (Some q)
      then have "po_docId q = d" by (auto simp: find_Some_iff)
      with IH False Some same show ?thesis by simp
    qed
  qed
qed simp

lemma score_term_at:
  assumes "ii_rep idx docs" "bm25_params_ok (ii_params idx)" "token_count (ii_tokenizer idx) docs < 2 ^ 32" "dom docs \<noteq> {}"
  shows "score_term idx (totalDocuments idx) (averageDocumentLength idx) sc trm d =
    (if doc_positions (ii_tokenizer idx) docs trm d = [] then sc d
     else let acc = (case sc d of Some acc \<Rightarrow> acc | None \<Rightarrow> (0, [])) in
       Some (fst acc + bm25_term (ii_params idx) (ii_tokenizer idx) docs d trm, snd acc @ [trm]))"
proof (cases "ii_dictionary idx trm")
  case None
  then have "posting_of d (doc_positions (ii_tokenizer idx) docs trm d) = None"
    using assms(1) unfolding ii_rep_def by (metis list_or_new_simps(2) newPostingList_docs(2))
  with None show ?thesis by (simp add: score_term_def)
next
  case (Some pl)
  let ?ps = "doc_positions (ii_tokenizer idx) docs trm d"
  have pl: "distinct (map po_docId (pl_postings pl))" "findDoc pl d = posting_of d ?ps"
    using assms(1) Some unfolding ii_rep_def pl_docs_def by (metis list_or_new_simps(1) pl_docs_def)+
  have len: "ii_docLengths idx d = Some (length (tokenize (ii_tokenizer idx) (the (docs d))))" if "?ps \<noteq> []"
    using doc_positions_dom [OF that] assms(1) by (auto simp: ii_rep_def)
  have fin: "finite (dom docs)" using assms(1) by (simp add: ii_rep_def)
  have avg: "averageDocumentLength idx = real (token_count (ii_tokenizer idx) docs) / real (card (dom docs))"
      "totalDocuments idx = card (dom docs)"
    using rep_average [OF assms(1) _ assms(4)] assms(3) by simp_all
  show ?thesis
  proof (cases "?ps = []")
    case True
    then have "List.find (\<lambda>p. po_docId p = d) (pl_postings pl) = None"
      using pl(2) by (simp add: findDoc_def posting_of_def)
    with Some True show ?thesis
      by (simp add: score_term_def score_postings_at [OF pl(1)])
  next
    case False
    then have "List.find (\<lambda>p. po_docId p = d) (pl_postings pl) =
        Some \<lparr>po_docId = d, po_termFrequency = word_of_nat (length ?ps), po_positions = ?ps\<rparr>"
      using pl(2) by (simp add: findDoc_def posting_of_def)
    with Some False len [OF False] show ?thesis
      by (simp add: score_term_def score_postings_at [OF pl(1)] score_posting_def Let_def rep_docFrequency [OF assms(1) Some]
          avg scoreTerm_bm25 [OF assms(2) fin assms(3) False])
  qed
qed

lemma score_terms_at:
  assumes "ii_rep idx docs" "bm25_params_ok (ii_params idx)" "token_count (ii_tokenizer idx) docs < 2 ^ 32" "dom docs \<noteq> {}"
  shows "foldl (score_term idx (totalDocuments idx) (averageDocumentLength idx)) sc trms d =
    (let ms = filter (\<lambda>trm. doc_positions (ii_tokenizer idx) docs trm d \<noteq> []) trms;
         acc = (case sc d of Some acc \<Rightarrow> acc | None \<Rightarrow> (0, [])) in
     if ms = [] then sc d
     else Some (fst acc + sum_list (map (bm25_term (ii_params idx) (ii_tokenizer idx) docs d) ms), snd acc @ ms))"
proof (induction trms arbitrary: sc)
  case (Cons trm trms)
  show ?case
    unfolding foldl_Cons Cons.IH by (auto simp: score_term_at [OF assms] Let_def)
qed (simp add: Let_def)

text \<open>The score of a document is that of the formula, and the documents without a term of the query have none.\<close>

lemma search_scores:
  assumes "ii_rep idx docs" "bm25_params_ok (ii_params idx)" "token_count (ii_tokenizer idx) docs < 2 ^ 32" "dom docs \<noteq> {}"
  shows "foldl (score_term idx (totalDocuments idx) (averageDocumentLength idx)) Map.empty
      (uniqueTerms (tokenize (ii_tokenizer idx) query)) d =
    (if matches (ii_tokenizer idx) docs query d = [] then None
     else Some (bm25 (ii_params idx) (ii_tokenizer idx) docs query d, matches (ii_tokenizer idx) docs query d))"
  by (simp add: score_terms_at [OF assms] Let_def matches_def bm25_def)

definition enumerates_all :: "(scores \<Rightarrow> (u64 \<times> real \<times> string list) list) \<Rightarrow> bool" where
  "enumerates_all order \<longleftrightarrow> (\<forall>sc. finite (dom sc) \<longrightarrow> enumerates (order sc) sc)"

lemma distinct_map_filter_docs:
  "(\<And>x y. f x = Some y \<Longrightarrow> g y = fst x) \<Longrightarrow> distinct (map fst xs) \<Longrightarrow>
   distinct (map g (List.map_filter f xs)) \<and> g ` set (List.map_filter f xs) \<subseteq> fst ` set xs"
proof (induction xs)
  case (Cons x xs)
  then show ?case
    by (auto simp: List.map_filter_simps split: option.split)
qed (simp add: List.map_filter_simps)

lemma length_filter_eq_iff: "length (filter P xs) < length xs \<longleftrightarrow> filter P xs \<noteq> xs"
  by (metis filter_id_conv length_filter_le length_filter_less less_irrefl order_le_less)

lemma uniqueTerms_Nil [simp]: "uniqueTerms [] = []"
  by (simp add: uniqueTerms_def)

lemma result_of_docId: "result_of options n x = Some r \<Longrightarrow> sr_docId r = fst x"
  by (auto simp: result_of_def split: prod.splits if_splits)

text \<open>The unsorted results.\<close>

lemma search_results:
  fixes query :: string and options :: QueryOptions
  assumes rep: "ii_rep idx docs" and par: "bm25_params_ok (ii_params idx)" "token_count (ii_tokenizer idx) docs < 2 ^ 32"
    and ne: "dom docs \<noteq> {}" and ord: "enumerates_all order"
  defines "trms \<equiv> uniqueTerms (tokenize (ii_tokenizer idx) query)"
  defines "sc \<equiv> foldl (score_term idx (totalDocuments idx) (averageDocumentLength idx)) Map.empty trms"
  defines "R \<equiv> List.map_filter (result_of options (length trms)) (order sc)"
  shows "distinct (map sr_docId R)"
    and "set R = (\<lambda>d. \<lparr>sr_docId = d, sr_score = bm25 (ii_params idx) (ii_tokenizer idx) docs query d,
      sr_matchedTerms = matches (ii_tokenizer idx) docs query d\<rparr>) ` hits (ii_params idx) (ii_tokenizer idx) docs query options"
proof -
  let ?tz = "ii_tokenizer idx"
  have at: "sc d = (if matches ?tz docs query d = [] then None
     else Some (bm25 (ii_params idx) ?tz docs query d, matches ?tz docs query d))" for d
    unfolding sc_def trms_def by (rule search_scores [OF rep par ne])
  have "finite (dom docs)" using rep by (simp add: ii_rep_def)
  moreover have "dom sc \<subseteq> dom docs"
    using doc_positions_dom by (fastforce simp: at dom_def matches_def filter_empty_conv split: if_splits)
  ultimately have en: "enumerates (order sc) sc"
    using ord by (auto simp: enumerates_all_def intro: finite_subset)
  show "distinct (map sr_docId R)"
    using distinct_map_filter_docs [of "result_of options (length trms)" sr_docId "order sc", OF result_of_docId] en
    by (simp add: R_def enumerates_def)
  have mem: "r \<in> set R \<longleftrightarrow> (\<exists>d acc. sc d = Some acc \<and> result_of options (length trms) (d, acc) = Some r)" for r
    using enumerates_mem [OF en] by (force simp: R_def List.map_filter_def)
  have all: "length (matches ?tz docs query d) < length trms \<longleftrightarrow> matches ?tz docs query d \<noteq> trms" for d
    by (simp add: matches_def trms_def length_filter_eq_iff)
  show "set R = (\<lambda>d. \<lparr>sr_docId = d, sr_score = bm25 (ii_params idx) ?tz docs query d,
      sr_matchedTerms = matches ?tz docs query d\<rparr>) ` hits (ii_params idx) ?tz docs query options"
  proof (rule set_eqI)
    fix r
    have "r \<in> set R \<longleftrightarrow> (\<exists>d. matches ?tz docs query d \<noteq> [] \<and>
        result_of options (length trms) (d, bm25 (ii_params idx) ?tz docs query d, matches ?tz docs query d) = Some r)"
      unfolding mem by (auto simp: at split: if_splits)
    then show "r \<in> set R \<longleftrightarrow> r \<in> (\<lambda>d. \<lparr>sr_docId = d, sr_score = bm25 (ii_params idx) ?tz docs query d,
        sr_matchedTerms = matches ?tz docs query d\<rparr>) ` hits (ii_params idx) ?tz docs query options"
      by (auto simp: result_of_def all hits_def not_less simp flip: trms_def split: if_split_asm)
  qed
qed

text \<open>C21: A search returns each of its hits at most once, as many as the limit allows, ranked by descending score, and
  no document that is left out scores higher than one that is returned.  The hits are the documents that contain
  one of the query's terms, or all if that is required, and whose score reaches the threshold; the
  score is the sum of Okapi BM25 over the terms of the query that the document contains, with the
  frequencies, lengths and averages of the table of documents, and the terms are listed with the hit.  This is for
  parameters \<open>k1 \<ge> 0\<close> and \<open>0 \<le> b \<le> 1\<close>, fewer than \<open>2 ^ 32\<close> tokens in all documents together, and scores
  computed in the reals, where the code rounds to \<^verbatim>\<open>double\<close>.\<close>

theorem search_exact:
  fixes query :: string and options :: QueryOptions
  assumes "ii_rep idx docs" "bm25_params_ok (ii_params idx)" "token_count (ii_tokenizer idx) docs < 2 ^ 32" "enumerates_all order"
  defines "score \<equiv> bm25 (ii_params idx) (ii_tokenizer idx) docs query"
    and "H \<equiv> hits (ii_params idx) (ii_tokenizer idx) docs query options"
    and "rs \<equiv> search order idx query options"
  shows "distinct (map sr_docId rs) \<and> sr_docId ` set rs \<subseteq> H \<and> length rs = min (qo_limit options) (card H) \<and>
    sorted (map (\<lambda>r. - sr_score r) rs) \<and>
    (\<forall>r \<in> set rs. sr_score r = score (sr_docId r) \<and>
       sr_matchedTerms r = matches (ii_tokenizer idx) docs query (sr_docId r)) \<and>
    (\<forall>r \<in> set rs. \<forall>d \<in> H - sr_docId ` set rs. score d \<le> sr_score r)"
proof (cases "tokenize (ii_tokenizer idx) query = [] \<or> dom (ii_docLengths idx) = {}")
  case True
  have "docs = Map.empty" if "dom (ii_docLengths idx) = {}"
    using that assms(1) by (auto simp: ii_rep_def dom_def fun_eq_iff)
  with True have "H = {}"
    by (auto simp: H_def hits_def matches_def doc_positions_def)
  moreover have "rs = []"
    using True by (auto simp: rs_def search_def Let_def)
  ultimately show ?thesis
    by simp
next
  case False
  let ?trms = "uniqueTerms (tokenize (ii_tokenizer idx) query)"
  let ?res = "\<lambda>d. \<lparr>sr_docId = d, sr_score = score d, sr_matchedTerms = matches (ii_tokenizer idx) docs query d\<rparr>"
  have ne: "dom docs \<noteq> {}"
    using False assms(1) by (auto simp: ii_rep_def dom_def)
  define R where "R = List.map_filter (result_of options (length ?trms))
    (order (foldl (score_term idx (totalDocuments idx) (averageDocumentLength idx)) Map.empty ?trms))"
  note R = search_results [OF assms(1-3) ne assms(4), where query = query and options = options, folded R_def score_def H_def]
  define S where "S = sort_key (\<lambda>r. - sr_score r) R"
  have rs: "rs = take (qo_limit options) S"
    using False by (auto simp: rs_def search_def R_def S_def Let_def)
  have S: "set S = ?res ` H" "distinct (map sr_docId S)" "sorted (map (\<lambda>r. - sr_score r) S)"
    using R by (auto simp: S_def distinct_map)
  have H: "sr_docId ` set S = H"
    unfolding S(1) by (force simp: image_iff)
  then have len: "length S = card H"
    using distinct_card [OF S(2)] by simp
  have sub: "set rs \<subseteq> ?res ` H"
    using set_take_subset [of "qo_limit options" S] by (simp add: rs S(1))
  show ?thesis
  proof (intro conjI ballI)
    show "distinct (map sr_docId rs)" "sorted (map (\<lambda>r. - sr_score r) rs)"
      using S by (simp_all add: rs distinct_take sorted_wrt_take flip: take_map)
    show "sr_docId ` set rs \<subseteq> H"
      using sub by auto
    show "length rs = min (qo_limit options) (card H)"
      by (simp add: rs len min.commute)
    show "sr_score r = score (sr_docId r)" "sr_matchedTerms r = matches (ii_tokenizer idx) docs query (sr_docId r)"
      if "r \<in> set rs" for r
      using sub that by auto
    show "score d \<le> sr_score r" if "r \<in> set rs" "d \<in> H - sr_docId ` set rs" for r d
    proof -
      have "?res d \<in> set S" "?res d \<notin> set rs"
        using that(2) S(1) by (auto simp: image_iff)
      then have "?res d \<in> set (drop (qo_limit options) S)"
        using rs by (metis Un_iff append_take_drop_id set_append)
      moreover have "sorted_wrt (\<lambda>x y. sr_score y \<le> sr_score x) (take (qo_limit options) S @ drop (qo_limit options) S)"
        using S(3) by (simp add: sorted_wrt_map)
      ultimately show ?thesis
        using that(1) unfolding sorted_wrt_append rs by fastforce
    qed
  qed
qed

text \<open>An order that enumerates: by increasing document identifier.\<close>

definition by_docId :: "scores \<Rightarrow> (u64 \<times> real \<times> string list) list" where
  "by_docId sc = map (\<lambda>d. (d, the (sc d))) (sorted_list_of_set (dom sc))"

lemma by_docId: "enumerates_all by_docId"
proof -
  have "map_of (map (\<lambda>d. (d, the (sc d))) (sorted_list_of_set (dom sc))) = sc" if fin: "finite (dom sc)" for sc :: scores
  proof
    fix d
    show "map_of (map (\<lambda>d. (d, the (sc d))) (sorted_list_of_set (dom sc))) d = sc d"
      using fin by (cases "sc d") (auto simp: map_of_map_restrict restrict_map_def dom_def)
  qed
  then show ?thesis
    by (simp add: enumerates_all_def enumerates_def by_docId_def o_def)
qed

theorem search_exact_witness:
  "let idx = indexDocument 7 ''Full text'' (newInvertedIndex defaultTokenizerOptions defaultBM25);
       rs = search by_docId idx ''TEXT'' \<lparr>qo_limit = 10, qo_minScore = 0, qo_requireAllTerms = False\<rparr>
   in distinct (map sr_docId rs) \<and>
      (\<forall>r \<in> set rs. sr_score r = bm25 defaultBM25 (ii_tokenizer idx) [7 \<mapsto> ''Full text''] ''TEXT'' (sr_docId r))"
proof -
  let ?idx = "indexDocument 7 ''Full text'' (newInvertedIndex defaultTokenizerOptions defaultBM25)"
  have "ii_rep ?idx [7 \<mapsto> ''Full text'']"
    by (rule index_rep [OF new_rep])
  moreover have "ii_params ?idx = defaultBM25" "ii_tokenizer ?idx = newTokenizer defaultTokenizerOptions"
    by (simp_all add: indexDocument_def newInvertedIndex_def Let_def)
  moreover have "bm25_params_ok defaultBM25"
    by (simp add: bm25_params_ok_def defaultBM25_def)
  moreover have "length (tokenize (newTokenizer defaultTokenizerOptions) ''Full text'') = 2"
    by code_simp
  then have "token_count (newTokenizer defaultTokenizerOptions) [7 \<mapsto> ''Full text''] < 2 ^ 32"
    by (simp add: token_count_def)
  ultimately show ?thesis
    using search_exact [of ?idx "[7 \<mapsto> ''Full text'']" by_docId "''TEXT''" "\<lparr>qo_limit = 10, qo_minScore = 0, qo_requireAllTerms = False\<rparr>"]
      by_docId by (simp add: Let_def)
qed

section \<open>The binary form\<close>

lemma read_doc_enc:
  assumes "snd x < 2 ^ 64" "drop off data = serialize_doc x @ rest" "length data = off + length (serialize_doc x) + length rest"
  shows "read_doc data off = Inr (Some (x, off + length (serialize_doc x)))"
  using assms
  by (cases x) (simp add: read_doc_def serialize_doc_def more_varint_def need_more_def read_varint_def drop_add add.assoc
      del: drop_drop)

lemma read_doc_bounds: "read_doc data off = Inr (Some (x, off')) \<Longrightarrow> off \<le> off' \<and> off' \<le> length data"
  by (auto simp: read_doc_def bind_rd_eq_Some dest!: more_varint_bounds)

interpretation docs: record_codec read_doc serialize_doc "\<lambda>x. snd x < 2 ^ 64"
  by unfold_locales (auto dest: read_doc_bounds intro: read_doc_enc)

lemma read_term_enc:
  assumes wf: "pl_wf limit (snd x)" and d: "drop off data = serialize_term x @ rest"
    and len: "length data = off + length (serialize_term x) + length rest" "length data < 2 ^ 63"
  shows "read_term limit data off = Inr (Some (x, off + length (serialize_term x)))"
proof -
  obtain trm pl where x: "x = (trm, pl)" by (cases x)
  let ?p = "pl_serialize pl"
  let ?o1 = "off + length (encode (size64 (length trm)))"
  let ?o2 = "?o1 + length trm + length (encode (size64 (length ?p)))"
  have "pl_deserialize limit ?p = Inr (Some pl)"
    using wf len by (intro pl_roundtrip) (auto simp: x serialize_term_def Let_def)
  moreover have "take (length ?p) (drop ?o2 data) = ?p"
    using d by (simp add: x serialize_term_def serialize_string_def Let_def drop_add del: drop_drop)
  moreover have "read_string data ?o1 (size64 (length trm)) = Inr (Some (trm, ?o1 + length trm))"
    using d len by (intro read_string_at)
      (auto simp: x serialize_term_def serialize_string_def Let_def drop_add simp del: drop_drop)
  moreover have "length ?p < 2 ^ 64" "?o2 + length ?p \<le> length data"
    using len by (auto simp: x serialize_term_def serialize_string_def Let_def)
  moreover have "more_varint data off = Inr (Some (size64 (length trm), ?o1))"
    using d len by (intro more_varint_encode) (auto simp: x serialize_term_def serialize_string_def Let_def)
  moreover have "more_varint data (?o1 + length trm) = Inr (Some (size64 (length ?p), ?o2))"
    using d len by (intro more_varint_encode [where rest = "?p @ rest"])
      (auto simp: x serialize_term_def serialize_string_def Let_def drop_add simp del: drop_drop)
  ultimately show ?thesis
    using len(2) by (simp add: read_term_def x serialize_term_def serialize_string_def Let_def)
qed

lemma read_term_bounds:
  "read_term limit data off = Inr (Some (x, off')) \<Longrightarrow> off \<le> off' \<and> off' \<le> length data"
  by (auto simp: read_term_def bind_rd_eq_Some split: if_splits dest!: more_varint_bounds read_string_bounds)

interpretation terms: record_codec "read_term limit" serialize_term "\<lambda>x. pl_wf limit (snd x)" for limit
  by unfold_locales (auto dest: read_term_bounds intro: read_term_enc)

lemma foldl_upd_distinct:
  "distinct (map fst xs) \<Longrightarrow> foldl (\<lambda>m (k, v). m(k \<mapsto> v)) Map.empty xs = map_of xs"
proof -
  have "foldl (\<lambda>m (k, v). m(k \<mapsto> v)) m xs = m ++ map_of (rev xs)" for m :: "'a \<rightharpoonup> 'b"
    by (induction xs arbitrary: m) (auto simp: map_add_def fun_eq_iff split: option.splits)
  then show "distinct (map fst xs) \<Longrightarrow> foldl (\<lambda>m (k, v). m(k \<mapsto> v)) Map.empty xs = map_of xs"
    by (simp add: map_of_rev_distinct)
qed

lemma foldl_total: "foldl (\<lambda>t (d, len). t + size64 len) t xs = t + (\<Sum>x\<leftarrow>xs. size64 (snd x))"
  by (induction xs arbitrary: t) (auto simp: add.assoc)

lemma rep_total:
  assumes "ii_rep idx docs" "enumerates docIt (ii_docLengths idx)"
  shows "ii_totalTokens idx = (\<Sum>x\<leftarrow>docIt. size64 (snd x))"
proof -
  have "dom docs = fst ` set docIt"
    using assms by (auto simp: enumerates_def ii_rep_def dom_map_of_conv_image_fst [symmetric] dom_def)
  moreover have "size64 (length (tokenize (ii_tokenizer idx) (the (docs (fst x))))) = size64 (snd x)" if "x \<in> set docIt" for x
    using enumerates_mem [OF assms(2), of "fst x" "snd x"] that assms(1) by (auto simp: ii_rep_def)
  moreover have "distinct docIt" "inj_on fst (set docIt)"
    using assms(2) by (auto simp: enumerates_def distinct_map)
  ultimately show ?thesis
    using assms(1) by (simp add: ii_rep_def sum.reindex sum_list_distinct_conv_sum_set)
qed

text \<open>An index written and read back has the same documents, lengths, totals, terms and
  postings, in whatever order the tables are iterated; its tokenizer and its scoring
  parameters are the default ones, whatever the original had.\<close>

theorem index_roundtrip:
  assumes "ii_rep idx docs" "enumerates docIt (ii_docLengths idx)" "enumerates dictIt (ii_dictionary idx)"
    "list_all (\<lambda>x. snd x < 2 ^ 64) docIt" "list_all (\<lambda>x. pl_wf limit (snd x)) dictIt"
    "length (ii_serialize docIt dictIt) < 2 ^ 63"
  shows "ii_deserialize limit (ii_serialize docIt dictIt) =
    Inr (Some (idx\<lparr>ii_tokenizer := newTokenizer defaultTokenizerOptions, ii_params := defaultBM25\<rparr>))"
proof -
  let ?data = "ii_serialize docIt dictIt"
  let ?o1 = "length (encode (size64 (length docIt)))"
  let ?o2 = "?o1 + length (concat (map serialize_doc docIt))"
  let ?o3 = "?o2 + length (encode (size64 (length dictIt)))"
  have ne: "serialize_doc x \<noteq> []" "serialize_term y \<noteq> []" for x y
    by (simp_all add: serialize_doc_def serialize_term_def serialize_string_def)
  have len: "length docIt < 2 ^ 64" "length dictIt < 2 ^ 64"
    using length_le_concat [of serialize_doc docIt, OF ne(1)] length_le_concat [of serialize_term dictIt, OF ne(2)] assms(6)
    by (auto simp: ii_serialize_def)
  have "read_all read_doc (length docIt) ?data ?o1 = Inr (Some (docIt, ?o2))"
    using assms(4,6) by (intro read_all_enc [OF docs.record_codec_axioms]) (auto simp: ii_serialize_def)
  moreover have "more_varint ?data ?o2 = Inr (Some (size64 (length dictIt), ?o3))"
    by (intro more_varint_encode [where rest = "concat (map serialize_term dictIt)"]) (simp_all add: ii_serialize_def drop_add del: drop_drop)
  moreover have "read_all (read_term limit) (length dictIt) ?data ?o3 =
      Inr (Some (dictIt, ?o3 + length (concat (map serialize_term dictIt))))"
    using assms(5,6) by (intro read_all_enc [OF terms.record_codec_axioms, where rest = "[]"])
      (auto simp: ii_serialize_def drop_add simp del: drop_drop)
  moreover have "read_varint ?data 0 = Inr (Some (size64 (length docIt), ?o1))" "?data \<noteq> []"
    by (simp_all add: ii_serialize_def read_varint_def)
  ultimately show ?thesis
    using len assms(2,3) rep_total [OF assms(1,2)]
    by (simp add: ii_deserialize_def Let_def foldl_upd_distinct foldl_total enumerates_def newInvertedIndex_def)
qed

definition example_index :: InvertedIndex where
  "example_index =
     indexDocument 7 ''ab Cd''
       (newInvertedIndex (defaultTokenizerOptions\<lparr>to_toLower := False, to_filterStopwords := False\<rparr>) defaultBM25)"

lemma tokenize_example:
  "tokenize (newTokenizer (defaultTokenizerOptions\<lparr>to_toLower := False, to_filterStopwords := False\<rparr>)) ''ab Cd'' =
     [\<lparr>tok_term = ''ab'', tok_position = 0, tok_byteOffset = 0, tok_byteLength = 2\<rparr>,
      \<lparr>tok_term = ''Cd'', tok_position = 1, tok_byteOffset = 3, tok_byteLength = 2\<rparr>]"
  by (simp add: tokenize_def tokenize_from.simps scan.simps is_delim_def is_term_char_def isspace_def ispunct_def
      emit_def newTokenizer_def defaultTokenizerOptions_def Let_def)

definition ab_postings :: PostingList where
  "ab_postings = \<lparr>pl_postings = [\<lparr>po_docId = 7, po_termFrequency = 1, po_positions = [0]\<rparr>], pl_totalTf = 1\<rparr>"

definition cd_postings :: PostingList where
  "cd_postings = \<lparr>pl_postings = [\<lparr>po_docId = 7, po_termFrequency = 1, po_positions = [1]\<rparr>], pl_totalTf = 1\<rparr>"

lemma example_tables:
  "ii_docLengths example_index = [7 \<mapsto> 2]"
  "ii_dictionary example_index = [''ab'' \<mapsto> ab_postings, ''Cd'' \<mapsto> cd_postings]"
  by (simp_all add: example_index_def indexDocument_def newInvertedIndex_def tokenize_example Let_def
      add_token_def addOccurrence_def newPostingList_def ab_postings_def cd_postings_def numeral_2_eq_2)

lemma example_length: "length (ii_serialize [(7, 2)] [(''Cd'', cd_postings), (''ab'', ab_postings)]) < 2 ^ 63"
proof -
  have le: "length (encode v) \<le> 10" for v
    by (rule length_encode_le)
  have "length (pl_serialize ab_postings) \<le> 40" "length (pl_serialize cd_postings) \<le> 40"
    using le [of 7] le [of 1] le [of 0] le [of "size64 (Suc 0)"]
    by (simp_all add: pl_serialize_def ab_postings_def cd_postings_def)
  then show ?thesis
    using le [of 7] le [of "size64 (Suc 0)"] le [of "size64 (Suc (Suc 0))"] le [of "size64 2"]
      le [of "size64 (length (pl_serialize ab_postings))"] le [of "size64 (length (pl_serialize cd_postings))"]
    by (simp add: ii_serialize_def serialize_doc_def serialize_term_def serialize_string_def Let_def)
qed

theorem index_roundtrip_witness:
  "ii_deserialize 5 (ii_serialize [(7, 2)] [(''Cd'', cd_postings), (''ab'', ab_postings)]) =
    Inr (Some (example_index\<lparr>ii_tokenizer := newTokenizer defaultTokenizerOptions, ii_params := defaultBM25\<rparr>))"
proof (rule index_roundtrip)
  show "ii_rep example_index [7 \<mapsto> ''ab Cd'']"
    unfolding example_index_def by (rule index_rep [OF new_rep])
  show "length (ii_serialize [(7, 2)] [(''Cd'', cd_postings), (''ab'', ab_postings)]) < 2 ^ 63"
    by (rule example_length)
qed (simp_all add: example_tables enumerates_def fun_upd_twist pl_wf_def posting_wf_def ab_postings_def cd_postings_def)

end
