(* ===== verification/Directory_Tree.thy ===== *)
theory Directory_Tree
  imports Record_Codec Core_Types "HOL-Library.Sublist"
begin

text \<open>
  \<^verbatim>\<open>src/filesystem/DirectoryTree.cpp\<close>: the tree of named nodes and its binary form.  The
  source walks down with a pointer and changes the node it arrives at; here the same walk
  is a recursion over the path that rebuilds the nodes on the way.

  Shown: the identifier found at every path after an insertion and a removal, that
  normalising a path does not change what it denotes, the round trip of the binary form up to
  times and permissions, and that the node counter goes wrong when a subtree is removed.
\<close>

text \<open>The time of a node is \<open>None\<close> where the source leaves it indeterminate: in a node declared as \<^verbatim>\<open>DirectoryNode newNode;\<close>
  or \<^verbatim>\<open>DirectoryNode child;\<close> and never assigned.  \<^verbatim>\<open>clear\<close> makes the root with \<^verbatim>\<open>DirectoryNode{}\<close>, whose time is zero.\<close>

datatype DirectoryNode =
  DirectoryNode (dn_name: string) (dn_id: EntryID) (dn_parentId: EntryID) (dn_children: "DirectoryNode list")
    (dn_files: "EntryID list") (dn_modifiedAt: "Timestamp option") (dn_permissions: Permissions)

record DirectoryTree =
  dt_root :: DirectoryNode
  dt_nodeCount :: nat

definition emptyNode :: DirectoryNode where
  "emptyNode = DirectoryNode [] 0 0 [] [] None default_permissions"

definition newDirectoryTree :: DirectoryTree where
  "newDirectoryTree = \<lparr>dt_root = emptyNode, dt_nodeCount = 0\<rparr>"

definition dt_clear :: "DirectoryTree \<Rightarrow> DirectoryTree" where
  "dt_clear t =
     \<lparr>dt_root = DirectoryNode ''/'' 0 0 [] [] (Some zero_timestamp) default_permissions, dt_nodeCount = 0\<rparr>"

section \<open>Paths\<close>

text \<open>\<^verbatim>\<open>std::getline(stream, part, '/')\<close> until the stream ends.\<close>

fun segments :: "string \<Rightarrow> string list" where
  "segments [] = []"
| "segments (c # cs) =
     (if c = CHR ''/'' then [] # segments cs
      else case segments cs of [] \<Rightarrow> [[c]] | part # parts \<Rightarrow> (c # part) # parts)"

definition splitPath :: "string \<Rightarrow> string list" where
  "splitPath path = filter (\<lambda>part. part \<noteq> [] \<and> part \<noteq> ''.'' \<and> part \<noteq> ''..'') (segments path)"

definition normalizePath :: "string \<Rightarrow> string" where
  "normalizePath path =
     (let parts = splitPath path in
      if parts = [] then ''/'' else foldl (\<lambda>result part. result @ (''/'' @ part)) [] parts)"

definition pathDepth :: "string \<Rightarrow> nat" where
  "pathDepth path = length (splitPath path)"

section \<open>Lookup\<close>

definition findChild :: "DirectoryNode \<Rightarrow> string \<Rightarrow> DirectoryNode option" where
  "findChild parent name = List.find (\<lambda>c. dn_name c = name) (dn_children parent)"

fun node_at :: "string list \<Rightarrow> DirectoryNode \<Rightarrow> DirectoryNode option" where
  "node_at [] current = Some current"
| "node_at (part # parts) current =
     (case findChild current part of None \<Rightarrow> None | Some c \<Rightarrow> node_at parts c)"

definition dt_find :: "DirectoryTree \<Rightarrow> string \<Rightarrow> DirectoryNode option" where
  "dt_find t path =
     (if path = ''/'' \<or> path = [] then Some (dt_root t) else node_at (splitPath path) (dt_root t))"

definition dt_exists :: "DirectoryTree \<Rightarrow> string \<Rightarrow> bool" where
  "dt_exists t path \<longleftrightarrow> dt_find t path \<noteq> None"

definition listDirectory :: "DirectoryTree \<Rightarrow> string \<Rightarrow> EntryID list" where
  "listDirectory t path = (case dt_find t path of None \<Rightarrow> [] | Some node \<Rightarrow> map dn_id (dn_children node))"

fun collectEntries :: "DirectoryNode \<Rightarrow> EntryID list" where
  "collectEntries (DirectoryNode nm eid pid cs fs mt pm) = eid # concat (map collectEntries cs)"

definition getAllEntries :: "DirectoryTree \<Rightarrow> EntryID list" where
  "getAllEntries t = collectEntries (dt_root t)"

section \<open>Insertion and removal\<close>

text \<open>The first child of the given name, replaced; the second component counts new nodes.\<close>

fun update_child ::
  "string \<Rightarrow> (DirectoryNode \<Rightarrow> DirectoryNode \<times> nat) \<Rightarrow> DirectoryNode list \<Rightarrow> (DirectoryNode list \<times> nat) option" where
  "update_child name f [] = None"
| "update_child name f (c # cs) =
     (if dn_name c = name then Some (fst (f c) # cs, snd (f c))
      else map_option (\<lambda>(cs, k). (c # cs, k)) (update_child name f cs))"

definition with_children :: "DirectoryNode list \<Rightarrow> DirectoryNode \<Rightarrow> DirectoryNode" where
  "with_children cs node =
     DirectoryNode (dn_name node) (dn_id node) (dn_parentId node) cs (dn_files node) (dn_modifiedAt node) (dn_permissions node)"

definition with_files :: "EntryID list \<Rightarrow> DirectoryNode \<Rightarrow> DirectoryNode" where
  "with_files fs node =
     DirectoryNode (dn_name node) (dn_id node) (dn_parentId node) (dn_children node) fs (dn_modifiedAt node) (dn_permissions node)"

fun dt_insert_at :: "ArchiveEntry \<Rightarrow> string list \<Rightarrow> DirectoryNode \<Rightarrow> DirectoryNode \<times> nat" where
  "dt_insert_at e [] current = (current, 0)"
| "dt_insert_at e [part] current =
     (let newNode = DirectoryNode part (ae_id e) (dn_id current) [] [] (ae_modifiedAt e) (ae_permissions e);
          current = (if ae_type e \<noteq> Directory then with_files (dn_files current @ [ae_id e]) current else current) in
      (with_children (dn_children current @ [newNode]) current, 1))"
| "dt_insert_at e (part # q # parts) current =
     (case update_child part (dt_insert_at e (q # parts)) (dn_children current) of
        Some (cs, k) \<Rightarrow> (with_children cs current, k)
      | None \<Rightarrow>
          let newNode = DirectoryNode part (ae_id e + 1) (dn_id current) [] [] None default_permissions;
              (c, k) = dt_insert_at e (q # parts) newNode in
          (with_children (dn_children current @ [c]) current, Suc k))"

definition dt_insert :: "ArchiveEntry \<Rightarrow> DirectoryTree \<Rightarrow> ErrorCode \<times> DirectoryTree" where
  "dt_insert e t =
     (if ae_path e = [] \<or> ae_path e = ''/'' then
        let r = dt_root t;
            fs = (if ae_type e = File \<or> ae_type e = Block then dn_files r @ [ae_id e] else dn_files r) in
        (Success, \<lparr>dt_root = DirectoryNode ''/'' (ae_id e) 0 (dn_children r) fs (ae_modifiedAt e) (ae_permissions e),
                   dt_nodeCount = 1\<rparr>)
      else
        let parts = splitPath (ae_path e) in
        if parts = [] then (InvalidPath, t)
        else
          let (root, k) = dt_insert_at e parts (dt_root t) in
          (Success, \<lparr>dt_root = root, dt_nodeCount = dt_nodeCount t + k\<rparr>))"

definition insertNode :: "DirectoryNode \<Rightarrow> DirectoryTree \<Rightarrow> ErrorCode \<times> DirectoryTree" where
  "insertNode node t =
     (if dn_parentId node = 0 \<or> dn_name node = ''/'' then (Success, \<lparr>dt_root = node, dt_nodeCount = 1\<rparr>)
      else (NotImplemented, t))"

text \<open>\<^verbatim>\<open>children.erase(it)\<close> at the first child of the given name.\<close>

fun erase_child :: "string \<Rightarrow> DirectoryNode list \<Rightarrow> DirectoryNode list" where
  "erase_child name [] = []"
| "erase_child name (c # cs) = (if dn_name c = name then cs else c # erase_child name cs)"

fun replace_child :: "string \<Rightarrow> (DirectoryNode \<Rightarrow> DirectoryNode option) \<Rightarrow> DirectoryNode list \<Rightarrow> DirectoryNode list option" where
  "replace_child name f [] = None"
| "replace_child name f (c # cs) =
     (if dn_name c = name then map_option (\<lambda>c. c # cs) (f c) else map_option ((#) c) (replace_child name f cs))"

fun remove_at :: "string list \<Rightarrow> DirectoryNode \<Rightarrow> DirectoryNode option" where
  "remove_at [] current = None"
| "remove_at [part] current =
     (case findChild current part of
        None \<Rightarrow> None
      | Some c \<Rightarrow>
          Some (with_files (remove1 (dn_id c) (dn_files current))
                  (with_children (erase_child part (dn_children current)) current)))"
| "remove_at (part # q # parts) current =
     map_option (\<lambda>cs. with_children cs current) (replace_child part (remove_at (q # parts)) (dn_children current))"

text \<open>The counter is a \<^verbatim>\<open>size_t\<close>: decrementing it at zero wraps.\<close>

definition dt_remove :: "string \<Rightarrow> DirectoryTree \<Rightarrow> bool \<times> DirectoryTree" where
  "dt_remove path t =
     (if path = ''/'' \<or> path = [] then (True, dt_clear t)
      else
        let parts = splitPath path in
        if parts = [] then (False, t)
        else
          case remove_at parts (dt_root t) of
            None \<Rightarrow> (False, t)
          | Some root \<Rightarrow>
              (True, \<lparr>dt_root = root,
                      dt_nodeCount = (if dt_nodeCount t = 0 then 2 ^ 64 - 1 else dt_nodeCount t - 1)\<rparr>))"

section \<open>The binary form\<close>

fun dt_serializeNode :: "DirectoryNode \<Rightarrow> byte list" where
  "dt_serializeNode (DirectoryNode nm eid pid cs fs mt pm) =
     encode (size64 (length nm)) @ bytes_of_string nm @ encode eid @ encode pid @
     encode (size64 (length fs)) @ concat (map encode fs) @
     encode (size64 (length cs)) @ concat (map dt_serializeNode cs)"

definition dt_serialize :: "DirectoryTree \<Rightarrow> byte list" where
  "dt_serialize t = encode (size64 (dt_nodeCount t)) @ dt_serializeNode (dt_root t)"

text \<open>\<^verbatim>\<open>node.name.assign(&data[offset], nameLen)\<close>: indexing one past the end is undefined.\<close>

definition read_name :: "byte list \<Rightarrow> nat \<Rightarrow> u64 \<Rightarrow> (string \<times> nat) rd" where
  "read_name data off len =
     (if (off + unat len) mod 2 ^ 64 > length data then Inr None
      else if off \<ge> length data then Inl Undefined_behaviour
      else read_string data off len)"

text \<open>
  \<open>dt_deserializeNode stack\<close> may nest \<open>stack\<close> calls.  The result is the node with what was
  read into it, and the offset behind it, or \<open>None\<close> for the error code \<^verbatim>\<open>CorruptDirectory\<close>.
\<close>

fun dt_deserializeNode :: "nat \<Rightarrow> DirectoryNode \<Rightarrow> byte list \<Rightarrow> nat \<Rightarrow> (DirectoryNode \<times> nat option) cpp"
  and dt_deserializeNodes :: "nat \<Rightarrow> nat \<Rightarrow> byte list \<Rightarrow> nat \<Rightarrow> (DirectoryNode list \<times> nat option) cpp" where
  "dt_deserializeNode 0 node data off = Inl Stack_overflow"
| "dt_deserializeNode (Suc stack) (DirectoryNode nm eid pid cs fs mt pm) data off =
     else_ret (read_varint data off) (DirectoryNode nm eid pid cs fs mt pm, None) (\<lambda>(nameLen, off).
     else_ret (read_name data off nameLen) (DirectoryNode nm eid pid cs fs mt pm, None) (\<lambda>(nm, off).
     else_ret (read_varint data off) (DirectoryNode nm eid pid cs fs mt pm, None) (\<lambda>(eid, off).
     else_ret (read_varint data off) (DirectoryNode nm eid pid cs fs mt pm, None) (\<lambda>(pid, off).
     else_ret (read_varint data off) (DirectoryNode nm eid pid cs fs mt pm, None) (\<lambda>(fileCount, off).
     bind_cpp (read_upto read_varint (unat fileCount) data off) (\<lambda>(xs, r).
     let fs = fs @ xs in
     case r of
       None \<Rightarrow> Inr (DirectoryNode nm eid pid cs fs mt pm, None)
     | Some off \<Rightarrow>
         else_ret (read_varint data off) (DirectoryNode nm eid pid cs fs mt pm, None) (\<lambda>(childCount, off).
         bind_cpp (dt_deserializeNodes stack (unat childCount) data off) (\<lambda>(ys, r).
         Inr (DirectoryNode nm eid pid (cs @ ys) fs mt pm, r)))))))))"
| "dt_deserializeNodes stack 0 data off = Inr ([], Some off)"
| "dt_deserializeNodes stack (Suc n) data off =
     bind_cpp (dt_deserializeNode stack emptyNode data off) (\<lambda>(c, r).
     case r of
       None \<Rightarrow> Inr ([], None)
     | Some off \<Rightarrow> bind_cpp (dt_deserializeNodes stack n data off) (\<lambda>(cs, r). Inr (c # cs, r)))"

definition dt_deserialize :: "nat \<Rightarrow> DirectoryTree \<Rightarrow> byte list \<Rightarrow> (ErrorCode \<times> DirectoryTree) cpp" where
  "dt_deserialize stack t data =
     (let t = dt_clear t in
      else_ret (read_varint data 0) (CorruptDirectory, t) (\<lambda>(count, off).
      let t = t\<lparr>dt_nodeCount := unat count\<rparr> in
      bind_cpp (dt_deserializeNode stack (dt_root t) data off) (\<lambda>(root, r).
      Inr (if r = None then CorruptDirectory else Success, t\<lparr>dt_root := root\<rparr>))))"

section \<open>Paths\<close>

lemma segments_no_slash: "part \<in> set (segments path) \<Longrightarrow> CHR ''/'' \<notin> set part"
  by (induction path arbitrary: part) (auto split: if_splits list.splits)

lemma segments_join:
  "CHR ''/'' \<notin> set part \<Longrightarrow> part \<noteq> [] \<Longrightarrow> segments (part @ CHR ''/'' # path) = part # segments path"
  "CHR ''/'' \<notin> set part \<Longrightarrow> part \<noteq> [] \<Longrightarrow> segments part = [part]"
proof (induction part)
  case (Cons c part)
  {
    case 1
    with Cons show ?case
      by (cases part) auto
  next
    case 2
    with Cons show ?case
      by (cases part) auto
  }
qed simp_all

fun join :: "string list \<Rightarrow> string" where
  "join [] = []"
| "join (part # parts) = CHR ''/'' # part @ join parts"

lemma segments_join_parts:
  "(\<And>part. part \<in> set parts \<Longrightarrow> part \<noteq> [] \<and> CHR ''/'' \<notin> set part) \<Longrightarrow> parts \<noteq> [] \<Longrightarrow>
   segments (join parts) = [] # parts"
proof (induction parts)
  case (Cons part parts)
  show ?case
  proof (cases parts)
    case Nil
    then show ?thesis
      using Cons.prems by (simp add: segments_join(2))
  next
    case (Cons q ps)
    then have "segments (join parts) = [] # parts"
      using Cons.IH Cons.prems by simp
    with Cons show ?thesis
      using Cons.prems by (simp add: segments_join(1))
  qed
qed simp

lemma normalizePath_join:
  "normalizePath path = (if splitPath path = [] then ''/'' else join (splitPath path))"
proof -
  have "foldl (\<lambda>result part. result @ (''/'' @ part)) acc parts = acc @ join parts" for acc parts
    by (induction parts arbitrary: acc) auto
  then show ?thesis
    by (simp add: normalizePath_def Let_def)
qed

lemma splitPath_normalizePath [simp]: "splitPath (normalizePath path) = splitPath path"
proof (cases "splitPath path = []")
  case True
  then show ?thesis
    by (simp add: normalizePath_join splitPath_def)
next
  case False
  have "segments (join (splitPath path)) = [] # splitPath path"
    using False segments_no_slash by (intro segments_join_parts) (auto simp: splitPath_def)
  with False show ?thesis
    by (simp add: normalizePath_join) (simp add: splitPath_def)
qed

text \<open>Normalising a path is idempotent and does not change the node it denotes.\<close>

theorem normalize_path_denotes:
  "normalizePath (normalizePath path) = normalizePath path \<and> dt_find t (normalizePath path) = dt_find t path"
proof -
  have root: "dt_find t p = node_at (splitPath p) (dt_root t)" for p
    by (auto simp: dt_find_def splitPath_def)
  have "normalizePath (normalizePath path) = normalizePath path"
    unfolding normalizePath_join [of "normalizePath path"] splitPath_normalizePath by (rule normalizePath_join [symmetric])
  then show ?thesis
    by (simp add: root)
qed

section \<open>What a path denotes after an update\<close>

definition id_at :: "string list \<Rightarrow> DirectoryNode \<Rightarrow> EntryID option" where
  "id_at parts node = map_option dn_id (node_at parts node)"

lemma id_at_simps [simp]:
  "id_at [] node = Some (dn_id node)"
  "id_at (part # parts) node = (case findChild node part of None \<Rightarrow> None | Some c \<Rightarrow> id_at parts c)"
  by (auto simp: id_at_def split: option.split)

lemma with_simps [simp]:
  "dn_name (with_children cs node) = dn_name node" "dn_id (with_children cs node) = dn_id node"
  "dn_children (with_children cs node) = cs" "dn_children (with_files fs node) = dn_children node"
  "dn_name (with_files fs node) = dn_name node" "dn_id (with_files fs node) = dn_id node"
  by (simp_all add: with_children_def with_files_def)

lemma dt_insert_at_name [simp]:
  "dn_name (fst (dt_insert_at e parts node)) = dn_name node" "dn_id (fst (dt_insert_at e parts node)) = dn_id node"
  by (induction e parts node rule: dt_insert_at.induct) (auto simp: Let_def split: option.splits prod.splits)

lemma find_update_child:
  "update_child name f cs = Some (cs', k) \<Longrightarrow> (\<And>c. dn_name (fst (f c)) = dn_name c) \<Longrightarrow>
   List.find (\<lambda>c. dn_name c = n) cs' =
     (if n = name then map_option (fst \<circ> f) (List.find (\<lambda>c. dn_name c = n) cs) else List.find (\<lambda>c. dn_name c = n) cs)"
  by (induction cs arbitrary: cs') (auto split: if_splits)

lemma update_child_None: "update_child name f cs = None \<longleftrightarrow> List.find (\<lambda>c. dn_name c = name) cs = None"
  by (induction cs) auto

lemma find_append_node:
  "List.find P (xs @ ys) = (case List.find P xs of None \<Rightarrow> List.find P ys | Some x \<Rightarrow> Some x)"
  by (induction xs) auto

lemma id_at_leaf: "dn_children node = [] \<Longrightarrow> id_at parts node = (if parts = [] then Some (dn_id node) else None)"
  by (cases parts) (auto simp: findChild_def)

lemma id_at_insert:
  "parts \<noteq> [] \<Longrightarrow> id_at q (fst (dt_insert_at e parts node)) =
     (case id_at q node of
        Some i \<Rightarrow> Some i
      | None \<Rightarrow> if q = parts then Some (ae_id e) else if strict_prefix q parts then Some (ae_id e + 1) else None)"
proof (induction e parts node arbitrary: q rule: dt_insert_at.induct)
  case (2 e part current)
  show ?case
    by (cases q) (auto simp: Let_def findChild_def find_append_node id_at_leaf split: option.split)
next
  case (3 e part p parts current)
  show ?case
  proof (cases q)
    case (Cons x q')
    show ?thesis
    proof (cases "update_child part (dt_insert_at e (p # parts)) (dn_children current)")
      case None
      then have no: "findChild current part = None"
        by (simp add: update_child_None findChild_def)
      let ?new = "DirectoryNode part (ae_id e + 1) (dn_id current) [] [] None default_permissions"
      obtain c k where c: "dt_insert_at e (p # parts) ?new = (c, k)"
        by fastforce
      then have nm: "dn_name c = part"
        using dt_insert_at_name(1) [of e "p # parts" ?new] by simp
      have IH: "id_at q' c =
          (if q' = [] then Some (ae_id e + 1) else if q' = p # parts then Some (ae_id e)
           else if strict_prefix q' (p # parts) then Some (ae_id e + 1) else None)"
        using "3.IH"(2) [OF None refl, of q'] by (simp add: c id_at_leaf)
      have "id_at q (fst (dt_insert_at e (part # p # parts) current)) =
          (case findChild current x of Some d \<Rightarrow> id_at q' d | None \<Rightarrow> if x = part then id_at q' c else None)"
        using None c nm Cons by (auto simp: Let_def findChild_def find_append_node split: option.split)
      with IH no Cons show ?thesis
        by (auto split: option.split)
    next
      case (Some r)
      then obtain cs k where r: "r = (cs, k)" by (cases r)
      then obtain c where c: "findChild current part = Some c"
        using Some by (metis findChild_def not_None_eq update_child_None option.distinct(1))
      have f: "List.find (\<lambda>c. dn_name c = n) cs =
          (if n = part then map_option (fst \<circ> dt_insert_at e (p # parts)) (findChild current n) else findChild current n)" for n
        using find_update_child [of part "dt_insert_at e (p # parts)" "dn_children current" cs k n] Some r by (simp add: findChild_def)
      show ?thesis
        using Some r c f [of x] "3.IH"(1) [of q' c] Cons
        by (auto simp: findChild_def split: option.split)
    qed
  qed (simp del: dt_insert_at.simps)
qed simp


definition dt_entry :: "EntryID \<Rightarrow> string \<Rightarrow> ArchiveEntry" where
  "dt_entry eid path = default_entry\<lparr>ae_id := eid, ae_path := path\<rparr>"


section \<open>Removal\<close>

text \<open>Trees in which no two children of a node have the same name.\<close>

fun unique_names :: "DirectoryNode \<Rightarrow> bool" where
  "unique_names (DirectoryNode nm eid pid cs fs mt pm) \<longleftrightarrow> distinct (map dn_name cs) \<and> list_all unique_names cs"

lemma unique_names_iff: "unique_names node \<longleftrightarrow> distinct (map dn_name (dn_children node)) \<and> list_all unique_names (dn_children node)"
  by (cases node) simp

lemma findChild_mem: "findChild node name = Some c \<Longrightarrow> c \<in> set (dn_children node) \<and> dn_name c = name"
  by (auto simp: findChild_def find_Some_iff)

lemma find_erase_child:
  "distinct (map dn_name cs) \<Longrightarrow>
   List.find (\<lambda>c. dn_name c = n) (erase_child name cs) = (if n = name then None else List.find (\<lambda>c. dn_name c = n) cs)"
proof (induction cs)
  case (Cons c cs)
  have "dn_name d \<noteq> dn_name c" if "d \<in> set cs" for d
    using Cons.prems that by (metis distinct.simps(2) image_eqI list.map(2) list.set_map)
  then have "List.find (\<lambda>d. dn_name d = dn_name c) cs = None"
    by (simp add: find_None_iff)
  with Cons show ?case
    by auto
qed simp

lemma find_replace_child:
  assumes "replace_child name f cs = Some cs'" "\<And>c d. f c = Some d \<Longrightarrow> dn_name d = dn_name c"
  shows "List.find (\<lambda>c. dn_name c = n) cs' =
     (if n = name then Option.bind (List.find (\<lambda>c. dn_name c = n) cs) f else List.find (\<lambda>c. dn_name c = n) cs)"
  using assms(1)
proof (induction cs arbitrary: cs')
  case (Cons c cs)
  show ?case
  proof (cases "dn_name c = name")
    case True
    with Cons.prems obtain d where d: "f c = Some d" "cs' = d # cs"
      by auto
    with assms(2) [OF d(1)] True show ?thesis
      by simp
  next
    case False
    with Cons.prems obtain ds where "replace_child name f cs = Some ds" "cs' = c # ds"
      by auto
    with Cons.IH [of ds] False show ?thesis
      by auto
  qed
qed simp

lemma replace_child_None:
  "replace_child name f cs = None \<longleftrightarrow> Option.bind (List.find (\<lambda>c. dn_name c = name) cs) f = None"
  by (induction cs) auto

lemma remove_at_name: "remove_at parts node = Some node' \<Longrightarrow> dn_name node' = dn_name node \<and> dn_id node' = dn_id node"
  by (induction parts node arbitrary: node' rule: remove_at.induct) (auto split: option.splits)

lemma node_at_remove:
  "unique_names node \<Longrightarrow> parts \<noteq> [] \<Longrightarrow>
   (case remove_at parts node of
      None \<Rightarrow> node_at parts node = None
    | Some node' \<Rightarrow> node_at parts node \<noteq> None \<and>
        (\<forall>q. id_at q node' = (if prefix parts q then None else id_at q node)))"
proof (induction parts node rule: remove_at.induct)
  case (2 part current)
  show ?case
  proof (cases "findChild current part")
    case (Some c)
    have "id_at q (with_files fs (with_children (erase_child part (dn_children current)) current)) =
        (if prefix [part] q then None else id_at q current)" for q fs
      using 2(1) find_erase_child [of "dn_children current"] unique_names_iff [of current]
      by (cases q) (auto simp: findChild_def)
    with Some show ?thesis
      by simp
  qed simp
next
  case (3 part p parts current)
  let ?f = "remove_at (p # parts)"
  have un: "unique_names c" if "findChild current part = Some c" for c
    using findChild_mem [OF that] 3(2) unique_names_iff [of current] by (auto simp: list_all_iff)
  show ?case
  proof (cases "findChild current part")
    case None
    then show ?thesis
      using replace_child_None [of part ?f "dn_children current"] by (simp add: findChild_def)
  next
    case (Some c)
    note IH = 3(1) [OF un [OF Some]]
    show ?thesis
    proof (cases "?f c")
      case None
      then have "replace_child part ?f (dn_children current) = None"
        using replace_child_None [of part ?f "dn_children current"] Some by (simp add: findChild_def)
      moreover have "node_at (p # parts) c = None"
        using IH None by simp
      ultimately show ?thesis
        using Some by simp
    next
      case (Some d)
      then obtain cs where cs: "replace_child part ?f (dn_children current) = Some cs"
        using replace_child_None [of part ?f "dn_children current"] \<open>findChild current part = Some c\<close>
        by (auto simp: findChild_def)
      have "List.find (\<lambda>c. dn_name c = n) cs = (if n = part then Some d else findChild current n)" for n
        using find_replace_child [OF cs, of n] remove_at_name Some \<open>findChild current part = Some c\<close>
        by (auto simp: findChild_def)
      then have "id_at q (with_children cs current) = (if prefix (part # p # parts) q then None else id_at q current)" for q
        using IH Some \<open>findChild current part = Some c\<close> by (cases q) (auto simp: findChild_def)
      with IH Some \<open>findChild current part = Some c\<close> cs show ?thesis
        by simp
    qed
  qed
qed simp

lemma update_child_unique:
  "update_child name f cs = Some (cs', k) \<Longrightarrow> (\<And>c. dn_name (fst (f c)) = dn_name c) \<Longrightarrow>
   map dn_name cs' = map dn_name cs \<and>
   (\<forall>d \<in> set cs'. d \<in> set cs \<or> (\<exists>c. List.find (\<lambda>c. dn_name c = name) cs = Some c \<and> d = fst (f c)))"
proof (induction cs arbitrary: cs')
  case (Cons c cs)
  show ?case
  proof (cases "dn_name c = name")
    case False
    with Cons.prems(1) obtain ds where ds: "update_child name f cs = Some (ds, k)" "cs' = c # ds"
      by auto
    from Cons.IH [OF ds(1) Cons.prems(2)] ds(2) False show ?thesis
      by simp
  qed (use Cons.prems in auto)
qed simp

lemma dt_insert_at_unique:
  "unique_names node \<Longrightarrow> node_at parts node = None \<Longrightarrow> unique_names (fst (dt_insert_at e parts node))"
proof (induction e parts node rule: dt_insert_at.induct)
  case (2 e part current)
  have "part \<notin> dn_name ` set (dn_children current)"
    using 2(2) by (auto simp: findChild_def find_None_iff split: option.splits)
  then show ?case
    using 2(1) unique_names_iff [of current]
    by (auto simp: Let_def unique_names_iff [of "with_children cs n" for cs n])
next
  case (3 e part p parts current)
  have cur: "distinct (map dn_name (dn_children current))" "\<And>c. c \<in> set (dn_children current) \<Longrightarrow> unique_names c"
    using 3(3) unique_names_iff [of current] by (auto simp: list_all_iff)
  show ?case
  proof (cases "update_child part (dt_insert_at e (p # parts)) (dn_children current)")
    case None
    then have no: "findChild current part = None"
      by (simp add: update_child_None findChild_def)
    let ?new = "DirectoryNode part (ae_id e + 1) (dn_id current) [] [] None default_permissions"
    obtain c k where c: "dt_insert_at e (p # parts) ?new = (c, k)"
      by fastforce
    have "unique_names c"
      using 3(2) [OF None refl] by (simp add: c findChild_def)
    moreover have "dn_name c = part"
      using dt_insert_at_name(1) [of e "p # parts" ?new] by (simp add: c)
    moreover have "part \<notin> dn_name ` set (dn_children current)"
      using no by (auto simp: findChild_def find_None_iff)
    ultimately show ?thesis
      using None c cur by (auto simp: Let_def unique_names_iff [of "with_children cs n" for cs n] list_all_iff)
  next
    case (Some r)
    obtain cs k where r: "r = (cs, k)" by (cases r)
    have u: "map dn_name cs = map dn_name (dn_children current) \<and>
        (\<forall>d \<in> set cs. d \<in> set (dn_children current) \<or> (\<exists>c. findChild current part = Some c \<and> d = fst (dt_insert_at e (p # parts) c)))"
      using update_child_unique [OF Some [unfolded r]] by (simp add: findChild_def)
    have "unique_names (fst (dt_insert_at e (p # parts) c))" if "findChild current part = Some c" for c
      using 3(1) [of c] 3(4) that cur(2) findChild_mem [OF that] by simp
    with u cur have "distinct (map dn_name cs)" "list_all unique_names cs"
      by (auto simp: list_all_iff)
    then show ?thesis
      using Some r by (simp add: unique_names_iff [of "with_children cs current"])
  qed
qed simp

lemma dt_find_node_at: "dt_find t p = node_at (splitPath p) (dt_root t)"
  by (auto simp: dt_find_def splitPath_def)

lemma dt_insert_unique:
  assumes "unique_names (dt_root t)" "splitPath (ae_path e) \<noteq> []" "\<not> dt_exists t (ae_path e)"
  shows "unique_names (dt_root (snd (dt_insert e t)))"
proof -
  have "ae_path e \<noteq> []" "ae_path e \<noteq> ''/''"
    using assms(2) by (auto simp: splitPath_def)
  then show ?thesis
    using assms dt_insert_at_unique [OF assms(1), of "splitPath (ae_path e)" e]
    by (auto simp: dt_insert_def Let_def dt_exists_def dt_find_node_at split: prod.split)
qed

text \<open>Removing a path from a tree whose siblings have distinct names succeeds exactly when
  the path exists; then it and everything below it is gone and every other path denotes the
  node it did.\<close>

theorem directory_remove:
  assumes "unique_names (dt_root t)" "splitPath path \<noteq> []" "dt_remove path t = (ok, t')"
  shows "ok = dt_exists t path \<and>
    map_option dn_id (dt_find t' q) =
      (if ok \<and> prefix (splitPath path) (splitPath q) then None else map_option dn_id (dt_find t q))"
proof -
  have "path \<noteq> []" "path \<noteq> ''/''"
    using assms(2) by (auto simp: splitPath_def)
  then have "dt_remove path t =
      (case remove_at (splitPath path) (dt_root t) of None \<Rightarrow> (False, t)
       | Some root \<Rightarrow> (True, \<lparr>dt_root = root, dt_nodeCount = (if dt_nodeCount t = 0 then 2 ^ 64 - 1 else dt_nodeCount t - 1)\<rparr>))"
    using assms(2) by (simp add: dt_remove_def Let_def)
  then show ?thesis
    using node_at_remove [OF assms(1,2)] assms(3)
    by (auto simp: dt_exists_def dt_find_node_at simp flip: id_at_def split: option.splits)
qed

definition example_dir :: DirectoryTree where
  "example_dir = snd (dt_insert (dt_entry 5 ''/a/b'') newDirectoryTree)"

lemma example_dir_unique: "unique_names (dt_root example_dir)"
  unfolding example_dir_def
  by (rule dt_insert_unique)
    (simp_all add: newDirectoryTree_def emptyNode_def dt_entry_def splitPath_def dt_exists_def dt_find_def findChild_def)

theorem directory_remove_witness:
  "dt_find (snd (dt_remove ''a'' example_dir)) ''/a/b'' = None \<and> dt_exists example_dir ''a''"
proof -
  have ok: "fst (dt_remove ''a'' example_dir)"
    by (simp add: example_dir_def dt_remove_def dt_insert_def newDirectoryTree_def emptyNode_def dt_entry_def splitPath_def
        findChild_def with_children_def with_files_def Let_def)
  have r: "dt_remove ''a'' example_dir = (fst (dt_remove ''a'' example_dir), snd (dt_remove ''a'' example_dir))"
    by simp
  have s: "splitPath ''a'' = [''a'']" "splitPath ''/a/b'' = [''a'', ''b'']"
    by (simp_all add: splitPath_def)
  show ?thesis
    using directory_remove [OF example_dir_unique _ r, of "''/a/b''"] ok by (simp add: s)
qed

section \<open>The node counter\<close>

fun count_nodes :: "DirectoryNode \<Rightarrow> nat" where
  "count_nodes (DirectoryNode nm eid pid cs fs mt pm) = Suc (sum_list (map count_nodes cs))"

text \<open>The counter counts the nodes below the root.\<close>

definition counts_ok :: "DirectoryTree \<Rightarrow> bool" where
  "counts_ok t \<longleftrightarrow> Suc (dt_nodeCount t) = count_nodes (dt_root t)"

lemma count_nodes_children: "count_nodes node = Suc (sum_list (map count_nodes (dn_children node)))"
  by (cases node) simp

lemma count_update_child:
  "update_child name f cs = Some (cs', k) \<Longrightarrow> (\<And>c. count_nodes (fst (f c)) = count_nodes c + snd (f c)) \<Longrightarrow>
   sum_list (map count_nodes cs') = sum_list (map count_nodes cs) + k"
  by (induction cs arbitrary: cs') (auto split: if_splits)

lemma count_insert_at: "count_nodes (fst (dt_insert_at e parts node)) = count_nodes node + snd (dt_insert_at e parts node)"
proof (induction e parts node rule: dt_insert_at.induct)
  case (2 e part current)
  then show ?case
    by (simp add: Let_def count_nodes_children [of "with_children cs n" for cs n] count_nodes_children [of current])
next
  case (3 e part p parts current)
  show ?case
  proof (cases "update_child part (dt_insert_at e (p # parts)) (dn_children current)")
    case None
    let ?new = "DirectoryNode part (ae_id e + 1) (dn_id current) [] [] None default_permissions"
    obtain c k where c: "dt_insert_at e (p # parts) ?new = (c, k)"
      by fastforce
    then show ?thesis
      using None 3(2) [OF None refl]
      by (simp add: count_nodes_children [of "with_children cs n" for cs n] count_nodes_children [of current])
  next
    case (Some r)
    obtain cs k where r: "r = (cs, k)" by (cases r)
    with count_update_child [OF Some [unfolded r]] 3(1) Some show ?thesis
      by (simp add: count_nodes_children [of "with_children cs n" for cs n] count_nodes_children [of current])
  qed
qed simp

lemma dt_insert_counts:
  assumes "splitPath (ae_path e) \<noteq> []" "counts_ok t"
  shows "counts_ok (snd (dt_insert e t))"
proof -
  have "ae_path e \<noteq> []" "ae_path e \<noteq> ''/''"
    using assms(1) by (auto simp: splitPath_def)
  then show ?thesis
    using assms count_insert_at [of e "splitPath (ae_path e)" "dt_root t"]
    by (auto simp: counts_ok_def dt_insert_def Let_def split: prod.split)
qed

text \<open>Removing a directory with something in it leaves the node counter too high: the
  counter was right before, and afterwards it is one for a tree with nothing below its root.\<close>

theorem directory_remove_miscounts:
  "let t = snd (dt_remove ''a'' example_dir) in
   counts_ok example_dir \<and> dt_nodeCount t = 1 \<and> dn_children (dt_root t) = [] \<and> \<not> counts_ok t"
proof -
  have "counts_ok example_dir"
    unfolding example_dir_def
    by (rule dt_insert_counts)
      (simp_all add: newDirectoryTree_def emptyNode_def dt_entry_def splitPath_def counts_ok_def)
  moreover have r: "dt_nodeCount (snd (dt_remove ''a'' example_dir)) = 1"
      "dn_children (dt_root (snd (dt_remove ''a'' example_dir))) = []"
    by (simp_all add: example_dir_def dt_remove_def dt_insert_def newDirectoryTree_def emptyNode_def dt_entry_def splitPath_def
        findChild_def with_children_def with_files_def Let_def)
  ultimately show ?thesis
    using count_nodes_children [of "dt_root (snd (dt_remove ''a'' example_dir))"] by (simp add: Let_def counts_ok_def)
qed

section \<open>Round trip\<close>

text \<open>What the binary form carries: not the modification times and the permissions.  \<open>mt\<close> is the time of the node the
  data is read into; the nodes below are new ones with an indeterminate time.\<close>

fun bare :: "Timestamp option \<Rightarrow> DirectoryNode \<Rightarrow> DirectoryNode" where
  "bare mt (DirectoryNode nm eid pid cs fs _ pm) =
     DirectoryNode nm eid pid (map (bare None) cs) fs mt default_permissions"

fun height :: "DirectoryNode \<Rightarrow> nat" where
  "height (DirectoryNode nm eid pid cs fs mt pm) = Suc (fold max (map height cs) 0)"

lemma height_child: "c \<in> set cs \<Longrightarrow> height c < height (DirectoryNode nm eid pid cs fs mt pm)"
proof -
  have "c \<in> set cs \<Longrightarrow> height c \<le> fold max (map height cs) m" "m \<le> fold max (map height cs) m" for m
    by (induction cs arbitrary: m) (auto intro: order_trans [OF max.cobounded1] order_trans [OF max.cobounded2])
  then show "c \<in> set cs \<Longrightarrow> height c < height (DirectoryNode nm eid pid cs fs mt pm)"
    by (simp add: le_imp_less_Suc)
qed

lemma dt_deserializeNodes_enc:
  assumes "\<And>c off rest. c \<in> set cs \<Longrightarrow> drop off data = dt_serializeNode c @ rest \<Longrightarrow>
      length data = off + length (dt_serializeNode c) + length rest \<Longrightarrow>
      dt_deserializeNode stack emptyNode data off = Inr (bare None c, Some (off + length (dt_serializeNode c)))"
    and "drop off data = concat (map dt_serializeNode cs) @ rest"
    and "length data = off + length (concat (map dt_serializeNode cs)) + length rest"
  shows "dt_deserializeNodes stack (length cs) data off =
    Inr (map (bare None) cs, Some (off + length (concat (map dt_serializeNode cs))))"
  using assms
proof (induction cs arbitrary: off)
  case (Cons c cs)
  have "dt_deserializeNode stack emptyNode data off = Inr (bare None c, Some (off + length (dt_serializeNode c)))"
    using Cons.prems(2,3) by (intro Cons.prems(1) [where rest = "concat (map dt_serializeNode cs) @ rest"]) auto
  moreover have "dt_deserializeNodes stack (length cs) data (off + length (dt_serializeNode c)) =
      Inr (map (bare None) cs, Some (off + length (dt_serializeNode c) + length (concat (map dt_serializeNode cs))))"
    using Cons.prems by (intro Cons.IH) (auto simp: drop_add simp del: drop_drop)
  ultimately show ?case
    by (simp add: add.assoc)
qed simp

lemma dt_deserializeNode_enc:
  assumes "drop off data = dt_serializeNode node @ rest" "length data = off + length (dt_serializeNode node) + length rest"
    "length data < 2 ^ 63" "height node \<le> stack" "dn_children start = []" "dn_files start = []"
    "dn_permissions start = default_permissions"
  shows "dt_deserializeNode stack start data off = Inr (bare (dn_modifiedAt start) node, Some (off + length (dt_serializeNode node)))"
  using assms
proof (induction node arbitrary: off rest stack start)
  case (DirectoryNode nm eid pid cs fs mt pm)
  then obtain s where s: "stack = Suc s" by (cases stack) auto
  let ?o1 = "off + length (encode (size64 (length nm)))"
  let ?o2 = "?o1 + length nm + length (encode eid) + length (encode pid) + length (encode (size64 (length fs)))"
  let ?o3 = "?o2 + length (concat (map encode fs)) + length (encode (size64 (length cs)))"
  note d = DirectoryNode.prems(1)[unfolded dt_serializeNode.simps] and len = DirectoryNode.prems(2)[unfolded dt_serializeNode.simps]
    and small = DirectoryNode.prems(3)
  have ne: "dt_serializeNode c \<noteq> []" for c
    by (cases c) simp
  have n: "length nm < 2 ^ 63" "length fs < 2 ^ 64" "length cs < 2 ^ 64"
    using length_le_concat [of encode fs] length_le_concat [of dt_serializeNode cs, OF ne] len small by auto
  have "0 < length (encode eid)"
    by simp
  then have "?o1 < length data"
    using len unfolding length_append by linarith
  then have "read_name data ?o1 (size64 (length nm)) = Inr (Some (nm, ?o1 + length nm))"
    using d len small n read_string_at [of ?o1 data nm]
    by (simp add: read_name_def drop_add del: drop_drop)
  moreover have "read_upto read_varint (length fs) data ?o2 = Inr (fs, Some (?o2 + length (concat (map encode fs))))"
    using d len small
    by (intro ids.read_upto_enc [where rest = "encode (size64 (length cs)) @ concat (map dt_serializeNode cs) @ rest"])
      (auto simp: list_all_iff drop_add simp del: drop_drop)
  moreover have "dt_deserializeNodes s (length cs) data ?o3 =
      Inr (map (bare None) cs, Some (?o3 + length (concat (map dt_serializeNode cs))))"
  proof (rule dt_deserializeNodes_enc)
    show "dt_deserializeNode s emptyNode data off = Inr (bare None c, Some (off + length (dt_serializeNode c)))"
      if "c \<in> set cs" "drop off data = dt_serializeNode c @ rest" "length data = off + length (dt_serializeNode c) + length rest"
      for c off rest
      using that DirectoryNode.IH [OF that small] height_child [OF that(1), of nm eid pid fs mt pm] DirectoryNode.prems(4) s
      by (simp add: emptyNode_def)
    show "drop ?o3 data = concat (map dt_serializeNode cs) @ rest"
      using d by (simp add: drop_add del: drop_drop)
    show "length data = ?o3 + length (concat (map dt_serializeNode cs)) + length rest"
      using len by simp
  qed
  ultimately show ?case
    using d len n DirectoryNode.prems(5-)
    by (cases start) (simp add: s read_varint_def drop_add add.assoc Let_def del: drop_drop)
qed

lemma dt_deserialize_serialized:
  assumes "height (dt_root t) \<le> stack" "dt_nodeCount t < 2 ^ 64" "length (dt_serialize t) < 2 ^ 63"
  shows "dt_deserialize stack t' (dt_serialize t) = Inr (Success, t\<lparr>dt_root := bare (Some zero_timestamp) (dt_root t)\<rparr>)"
proof -
  let ?start = "DirectoryNode ''/'' 0 0 [] [] (Some zero_timestamp) default_permissions"
  have "dt_deserializeNode stack ?start (dt_serialize t) (length (encode (size64 (dt_nodeCount t)))) =
      Inr (bare (Some zero_timestamp) (dt_root t), Some (length (encode (size64 (dt_nodeCount t))) + length (dt_serializeNode (dt_root t))))"
    using assms dt_deserializeNode_enc [of _ "dt_serialize t" "dt_root t" "[]" stack ?start] by (simp add: dt_serialize_def)
  then show ?thesis
    using assms(2) by (simp add: dt_deserialize_def dt_clear_def dt_serialize_def read_varint_def Let_def)
qed

text \<open>C23: a directory tree written and read back has the same names, identifiers, parents, files and children in the same
  order, and the same node count, provided the recursion fits the stack.  The permissions are the default ones, the
  modification time of the root is zero, and those of all other nodes are indeterminate (\<open>None\<close>): the nodes are
  read into objects whose \<^verbatim>\<open>modifiedAt\<close> is never set.\<close>

theorem directory_roundtrip:
  assumes "height (dt_root t) \<le> stack" "dt_nodeCount t < 2 ^ 64" "length (dt_serialize t) < 2 ^ 63"
  shows "dt_deserialize stack t' (dt_serialize t) = Inr (Success, t\<lparr>dt_root := bare (Some zero_timestamp) (dt_root t)\<rparr>)"
  by (rule dt_deserialize_serialized [OF assms])

theorem directory_roundtrip_witness:
  "dt_deserialize 5 newDirectoryTree (dt_serialize example_dir) =
     Inr (Success, example_dir\<lparr>dt_root := bare (Some zero_timestamp) (dt_root example_dir)\<rparr>)"
proof (rule directory_roundtrip)
  have le: "length (encode v) \<le> 10" for v
    by (rule length_encode_le)
  note simps = example_dir_def dt_insert_def newDirectoryTree_def emptyNode_def dt_entry_def splitPath_def
    findChild_def with_children_def with_files_def default_entry_def
  show "length (dt_serialize example_dir) < 2 ^ 63"
    using le [of 0] le [of 5] le [of 6] le [of "size64 0"] le [of "size64 (Suc 0)"] le [of "size64 (Suc (Suc 0))"]
    by (simp add: simps dt_serialize_def Let_def)
qed (simp_all add: example_dir_def dt_insert_def newDirectoryTree_def emptyNode_def dt_entry_def splitPath_def
    findChild_def with_children_def with_files_def Let_def)

end
