(* ===== verification/File_Resolver.thy ===== *)
theory File_Resolver
  imports Directory_Tree Index_Manager Tokenizer
begin

text \<open>
  \<^verbatim>\<open>src/filesystem/FileResolver.cpp\<close>: lookup of archive entries through the directory tree and
  the index, and the glob matcher.  The two pointers of the class are options.  The main loop
  of the matcher backtracks and is a partial function: that it returns is proved.

  Shown: the matcher always returns, and agrees with the textbook meaning of \<^verbatim>\<open>?\<close> and \<^verbatim>\<open>*\<close>
  on names without a star; what resolving yields for an entry that was indexed; and how a path
  splits into parent and name.
\<close>

record FileResolver =
  fr_tree :: "DirectoryTree option"
  fr_index :: "IndexManager option"

definition entry_of_index :: "IndexEntry \<Rightarrow> ArchiveEntry" where
  "entry_of_index ie =
     default_entry\<lparr>ae_id := ie_entryId ie, ae_offset := ie_offset ie, ae_storedSize := ie_size ie,
       ae_checksum := ie_checksum ie\<rparr>"

definition resolve_path :: "FileResolver \<Rightarrow> string \<Rightarrow> ArchiveEntry rd" where
  "resolve_path fr path =
     (case (fr_tree fr, fr_index fr) of
        (Some _, Some idx) \<Rightarrow>
          bind_rd (im_findByPath idx path) (\<lambda>idxEntry.
          bind_rd (im_findById idx (ie_entryId idxEntry)) (\<lambda>fullEntry.
          Inr (Some ((entry_of_index fullEntry)\<lparr>ae_path := path\<rparr>))))
      | _ \<Rightarrow> Inr None)"

definition resolve_id :: "FileResolver \<Rightarrow> EntryID \<Rightarrow> ArchiveEntry rd" where
  "resolve_id fr eid =
     (case fr_index fr of
        None \<Rightarrow> Inr None
      | Some idx \<Rightarrow> bind_rd (im_findById idx eid) (\<lambda>ie. Inr (Some (entry_of_index ie))))"

fun resolve_all :: "FileResolver \<Rightarrow> EntryID list \<Rightarrow> ArchiveEntry list cpp" where
  "resolve_all fr [] = Inr []"
| "resolve_all fr (eid # ids) =
     bind_cpp (resolve_id fr eid) (\<lambda>resolved.
     bind_cpp (resolve_all fr ids) (\<lambda>result.
     Inr (case resolved of None \<Rightarrow> result | Some e \<Rightarrow> e # result)))"

definition fr_listDirectory :: "FileResolver \<Rightarrow> string \<Rightarrow> ArchiveEntry list cpp" where
  "fr_listDirectory fr path =
     (case (fr_tree fr, fr_index fr) of
        (Some t, Some _) \<Rightarrow> resolve_all fr (listDirectory t path)
      | _ \<Rightarrow> Inr [])"

definition listAll :: "FileResolver \<Rightarrow> ArchiveEntry list" where
  "listAll fr =
     (case (fr_tree fr, fr_index fr) of
        (Some _, Some idx) \<Rightarrow> map entry_of_index (im_entries idx)
      | _ \<Rightarrow> [])"

definition fr_exists :: "FileResolver \<Rightarrow> string \<Rightarrow> bool" where
  "fr_exists fr path = (case fr_tree fr of None \<Rightarrow> False | Some t \<Rightarrow> dt_exists t path)"

definition isDirectory :: "FileResolver \<Rightarrow> string \<Rightarrow> bool" where
  "isDirectory fr path = (case fr_tree fr of None \<Rightarrow> False | Some t \<Rightarrow> dt_find t path \<noteq> None)"

text \<open>\<^verbatim>\<open>path.find_last_of('/')\<close>; \<open>None\<close> is \<^verbatim>\<open>npos\<close>.\<close>

fun find_last :: "char \<Rightarrow> string \<Rightarrow> nat option" where
  "find_last c [] = None"
| "find_last c (x # xs) =
     (case find_last c xs of Some n \<Rightarrow> Some (Suc n) | None \<Rightarrow> if x = c then Some 0 else None)"

definition parentPath :: "string \<Rightarrow> string" where
  "parentPath path =
     (if path = ''/'' \<or> path = [] then ''/''
      else case find_last (CHR ''/'') path of
        Some 0 \<Rightarrow> ''/''
      | None \<Rightarrow> ''/''
      | Some pos \<Rightarrow> take pos path)"

definition fileName :: "string \<Rightarrow> string" where
  "fileName path =
     (if path = ''/'' \<or> path = [] then []
      else case find_last (CHR ''/'') path of
        None \<Rightarrow> path
      | Some pos \<Rightarrow> drop (Suc pos) path)"

section \<open>Glob matching\<close>

text \<open>The loop \<^verbatim>\<open>while (si < str.size())\<close>.  The outer option is the one of the partial function;
  the inner one is \<open>None\<close> when the loop returns false and otherwise the value of \<^verbatim>\<open>pi\<close> at its
  end.\<close>

partial_function (option) glob_loop ::
  "string \<Rightarrow> string \<Rightarrow> nat \<Rightarrow> nat \<Rightarrow> nat option \<Rightarrow> nat \<Rightarrow> nat option option" where
  "glob_loop pattern str p s starPos matchPos =
     (if s < length str then
        if p < length pattern \<and> (pattern ! p = CHR ''?'' \<or> pattern ! p = str ! s)
        then glob_loop pattern str (p + 1) (s + 1) starPos matchPos
        else if p < length pattern \<and> pattern ! p = CHR ''*''
        then glob_loop pattern str (p + 1) s (Some p) s
        else
          (case starPos of
             Some sp \<Rightarrow> glob_loop pattern str (sp + 1) (matchPos + 1) starPos (matchPos + 1)
           | None \<Rightarrow> Some None)
      else Some (Some p))"

definition matchGlob :: "string \<Rightarrow> string \<Rightarrow> bool option" where
  "matchGlob pattern str =
     map_option (\<lambda>r. case r of
         None \<Rightarrow> False
       | Some p \<Rightarrow> scan (\<lambda>c. c = CHR ''*'') pattern p = length pattern)
     (glob_loop pattern str 0 0 None 0)"

text \<open>\<open>it\<close> is the iteration order of the index's path table.\<close>

fun glob_all :: "FileResolver \<Rightarrow> string \<Rightarrow> (string \<times> EntryID) list \<Rightarrow> ArchiveEntry list cpp option" where
  "glob_all fr pattern [] = Some (Inr [])"
| "glob_all fr pattern ((path, eid) # it) =
     Option.bind (matchGlob pattern path) (\<lambda>m.
     Option.bind (glob_all fr pattern it) (\<lambda>rest. Some (
       if m then
         bind_cpp (resolve_id fr eid) (\<lambda>resolved.
         bind_cpp rest (\<lambda>result.
         Inr (case resolved of None \<Rightarrow> result | Some e \<Rightarrow> e # result)))
       else rest)))"

definition glob :: "FileResolver \<Rightarrow> (string \<times> EntryID) list \<Rightarrow> string \<Rightarrow> ArchiveEntry list cpp option" where
  "glob fr it pattern = (case fr_index fr of None \<Rightarrow> Some (Inr []) | Some _ \<Rightarrow> glob_all fr pattern it)"

section \<open>The meaning of a glob\<close>

fun globs :: "string \<Rightarrow> string \<Rightarrow> bool" where
  "globs [] str = (str = [])"
| "globs (p # ps) [] = (p = CHR ''*'' \<and> globs ps [])"
| "globs (p # ps) (c # cs) =
     (if p = CHR ''*'' then globs ps (c # cs) \<or> globs (p # ps) cs
      else (p = CHR ''?'' \<or> p = c) \<and> globs ps cs)"

lemma globs_star: "globs (CHR ''*'' # ps) str \<longleftrightarrow> (\<exists>k \<le> length str. globs ps (drop k str))"
proof (induction str)
  case (Cons c cs)
  have "(\<exists>k \<le> length (c # cs). globs ps (drop k (c # cs))) \<longleftrightarrow>
      globs ps (c # cs) \<or> (\<exists>k \<le> length cs. globs ps (drop k cs))"
    using Ex_less_Suc2 [of "Suc (length cs)" "\<lambda>k. globs ps (drop k (c # cs))"] by (simp add: less_Suc_eq_le)
  with Cons show ?case
    by simp
qed simp

section \<open>The matcher decides the glob\<close>

definition lits :: "string \<Rightarrow> string \<Rightarrow> bool" where
  "lits ps cs \<longleftrightarrow> list_all2 (\<lambda>p c. p \<noteq> CHR ''*'' \<and> (p = CHR ''?'' \<or> p = c)) ps cs"

lemma globs_lits: "lits l t \<Longrightarrow> globs (l @ q) (t @ u) \<longleftrightarrow> globs q u"
  unfolding lits_def by (induction l t rule: list_all2_induct) auto

lemma globs_after_lits:
  "CHR ''*'' \<notin> set l \<Longrightarrow> globs (l @ q) str \<Longrightarrow> length l \<le> length str \<and> globs q (drop (length l) str)"
proof (induction l arbitrary: str)
  case (Cons p l)
  then show ?case
    by (cases str) auto
qed simp

lemma lits_no_star: "lits l t \<Longrightarrow> CHR ''*'' \<notin> set l"
  unfolding lits_def by (induction l t rule: list_all2_induct) auto

lemma lits_length: "lits l t \<Longrightarrow> length l = length t"
  by (auto simp: lits_def dest: list_all2_lengthD)

lemma globs_star_mono: "globs (CHR ''*'' # q) (drop j str) \<Longrightarrow> i \<le> j \<Longrightarrow> globs (CHR ''*'' # q) (drop i str)"
proof -
  assume "globs (CHR ''*'' # q) (drop j str)" and ij: "i \<le> j"
  then obtain k where k: "k \<le> length str - j" "globs q (drop (j + k) str)"
    by (auto simp: globs_star add.commute)
  show ?thesis
  proof (cases "j \<le> length str")
    case True
    then show ?thesis
      using ij k by (auto simp: globs_star intro!: exI [of _ "j - i + k"])
  next
    case False
    then show ?thesis
      using k by (auto simp: globs_star intro!: exI [of _ "length str - i"])
  qed
qed

lemma globs_Nil_right: "globs ps [] \<longleftrightarrow> (\<forall>c \<in> set ps. c = CHR ''*'')"
  by (induction ps) auto

definition verdict :: "string \<Rightarrow> nat option \<Rightarrow> bool" where
  "verdict pattern r =
     (case r of None \<Rightarrow> False | Some p \<Rightarrow> scan (\<lambda>c. c = CHR ''*'') pattern p = length pattern)"

lemma verdict_Some: "p \<le> length pattern \<Longrightarrow> verdict pattern (Some p) \<longleftrightarrow> globs (drop p pattern) []"
proof -
  assume p: "p \<le> length pattern"
  let ?xs = "drop p pattern"
  have "length (takeWhile P xs) = length xs \<longleftrightarrow> (\<forall>x \<in> set xs. P x)" for P and xs :: string
    by (induction xs) auto
  moreover have "p + n = length pattern \<longleftrightarrow> n = length ?xs" for n
    using p by auto
  ultimately show ?thesis
    unfolding verdict_def option.case scan_takeWhile globs_Nil_right by (simp only:)
qed

text \<open>Where the last star, if any, left the pattern; what the state of the loop stands for; and
  the relation between its positions.\<close>

definition glob_base :: "nat option \<Rightarrow> nat" where
  "glob_base starPos = (case starPos of None \<Rightarrow> 0 | Some sp \<Rightarrow> Suc sp)"

lemma glob_base_simps [simp]: "glob_base None = 0" "glob_base (Some sp) = Suc sp"
  by (simp_all add: glob_base_def)

definition glob_goal :: "string \<Rightarrow> string \<Rightarrow> nat option \<Rightarrow> nat \<Rightarrow> bool" where
  "glob_goal pattern str starPos m =
     (case starPos of
        None \<Rightarrow> globs pattern (drop m str)
      | Some sp \<Rightarrow> globs (CHR ''*'' # drop (Suc sp) pattern) (drop m str))"

definition glob_inv :: "string \<Rightarrow> string \<Rightarrow> nat \<Rightarrow> nat \<Rightarrow> nat option \<Rightarrow> nat \<Rightarrow> bool" where
  "glob_inv pattern str p s starPos m \<longleftrightarrow>
     glob_base starPos \<le> p \<and> p \<le> length pattern \<and> m \<le> s \<and> s \<le> length str \<and>
     p - glob_base starPos = s - m \<and>
     lits (take (p - glob_base starPos) (drop (glob_base starPos) pattern)) (take (s - m) (drop m str))"

lemma glob_inv_split:
  assumes "glob_inv pattern str p s starPos m"
  obtains l t where "lits l t" "drop (glob_base starPos) pattern = l @ drop p pattern" "drop m str = t @ drop s str"
    "length l = s - m"
proof -
  let ?b = "glob_base starPos"
  have cut: "drop b xs = take (q - b) (drop b xs) @ drop q xs" if "b \<le> q" for b q and xs :: string
    using append_take_drop_id [of "q - b" "drop b xs"] that by simp
  have "drop ?b pattern = take (p - ?b) (drop ?b pattern) @ drop p pattern"
    using assms by (intro cut) (simp add: glob_inv_def)
  moreover have "drop m str = take (s - m) (drop m str) @ drop s str"
    using assms by (intro cut) (simp add: glob_inv_def)
  moreover have "length (take (p - ?b) (drop ?b pattern)) = s - m"
    using assms by (auto simp: glob_inv_def)
  ultimately show thesis
    using assms that unfolding glob_inv_def by blast
qed

text \<open>The attempt under way fails or succeeds with the rest of the pattern.\<close>

lemma glob_attempt:
  assumes "glob_inv pattern str p s starPos m"
  shows "globs (drop (glob_base starPos) pattern) (drop m str) \<longleftrightarrow> globs (drop p pattern) (drop s str)"
  using assms by (elim glob_inv_split) (simp add: globs_lits)

lemma glob_goal_None: "glob_inv pattern str p s None m \<Longrightarrow> glob_goal pattern str None m \<longleftrightarrow> globs (drop p pattern) (drop s str)"
  using glob_attempt [of pattern str p s None m] by (simp add: glob_goal_def glob_base_def)

lemma glob_goal_Some:
  assumes "glob_inv pattern str p s (Some sp) m"
  shows "glob_goal pattern str (Some sp) m \<longleftrightarrow>
    globs (drop p pattern) (drop s str) \<or> (m < length str \<and> glob_goal pattern str (Some sp) (Suc m))"
proof -
  have "globs (drop (Suc sp) pattern) (drop m str) \<longleftrightarrow> globs (drop p pattern) (drop s str)"
    using glob_attempt [OF assms] by (simp add: glob_base_def)
  moreover have "m \<le> length str"
    using assms by (auto simp: glob_inv_def)
  ultimately show ?thesis
    by (cases "m < length str")
      (auto simp: glob_goal_def simp flip: Cons_nth_drop_Suc [of m str])
qed

text \<open>A second star: the earliest match of what lies between the two stars suffices.\<close>

lemma glob_goal_second_star:
  assumes inv: "glob_inv pattern str p s (Some sp) m" and star: "p < length pattern" "pattern ! p = CHR ''*''"
  shows "glob_goal pattern str (Some sp) m \<longleftrightarrow> globs (drop p pattern) (drop s str)"
proof
  assume "glob_goal pattern str (Some sp) m"
  then obtain k where k: "globs (drop (Suc sp) pattern) (drop (m + k) str)"
    by (auto simp: glob_goal_def globs_star add.commute)
  from inv obtain l t where l: "lits l t" "drop (Suc sp) pattern = l @ drop p pattern" "length l = s - m"
    by (rule glob_inv_split) (auto simp: glob_base_def)
  from globs_after_lits [OF lits_no_star [OF l(1)], of "drop p pattern" "drop (m + k) str"] k l
  have "globs (drop p pattern) (drop (m + k + (s - m)) str)"
    by (simp add: add.commute)
  moreover have "drop p pattern = CHR ''*'' # drop (Suc p) pattern"
    using star by (metis Cons_nth_drop_Suc)
  moreover have "s \<le> m + k + (s - m)"
    by simp
  ultimately show "globs (drop p pattern) (drop s str)"
    using globs_star_mono by metis
qed (use glob_goal_Some [OF inv] in simp)

text \<open>At the end of the name only the attempt under way can still succeed.\<close>

lemma glob_goal_end:
  assumes inv: "glob_inv pattern str p (length str) starPos m"
  shows "glob_goal pattern str starPos m \<longleftrightarrow> globs (drop p pattern) []"
proof (cases starPos)
  case None
  with glob_goal_None inv show ?thesis by fastforce
next
  case (Some sp)
  have "globs (drop p pattern) []" if g: "glob_goal pattern str (Some sp) m"
  proof -
    obtain k where k: "k \<le> length str - m" "globs (drop (Suc sp) pattern) (drop (m + k) str)"
      using g by (auto simp: glob_goal_def globs_star add.commute)
    from inv Some obtain l t where l: "lits l t" "drop (Suc sp) pattern = l @ drop p pattern" "length l = length str - m"
      by (auto elim!: glob_inv_split simp: glob_base_def)
    from globs_after_lits [OF lits_no_star [OF l(1)], of "drop p pattern" "drop (m + k) str"] k l
    show ?thesis
      by simp
  qed
  with glob_goal_Some [of pattern str p "length str" sp m] inv Some show ?thesis
    by auto
qed

text \<open>The measure of the loop: first the distance of the last star from the end of the
  pattern, then that of the attempt, then that of the position from the end of the name.\<close>

definition glob_measure :: "string \<Rightarrow> string \<Rightarrow> nat \<Rightarrow> nat option \<Rightarrow> nat \<Rightarrow> nat \<times> nat \<times> nat" where
  "glob_measure pattern str s starPos m = (length pattern - glob_base starPos, length str - m, length str - s)"

lemma glob_loop_returns:
  "glob_base starPos \<le> p \<Longrightarrow> p \<le> length pattern \<Longrightarrow> m \<le> s \<Longrightarrow> \<exists>r. glob_loop pattern str p s starPos m = Some r"
proof (induction "glob_measure pattern str s starPos m" arbitrary: p s starPos m
    rule: wf_induct_rule [OF wf_lex_prod [OF wf_less wf_lex_prod [OF wf_less wf_less]]])
  case 1
  note IH = 1(1) and pre = 1(2-4)
  show ?case
  proof (cases "s < length str")
    case True
    consider (match) "p < length pattern" "pattern ! p = CHR ''?'' \<or> pattern ! p = str ! s"
      | (star) "p < length pattern" "pattern ! p = CHR ''*''" "\<not> (pattern ! p = CHR ''?'' \<or> pattern ! p = str ! s)"
      | (mismatch) "\<not> (p < length pattern \<and> (pattern ! p = CHR ''?'' \<or> pattern ! p = str ! s))"
          "\<not> (p < length pattern \<and> pattern ! p = CHR ''*'')"
      by blast
    then show ?thesis
    proof cases
      case match
      then show ?thesis
        using True pre IH [of "s + 1" starPos m "p + 1"] by (subst glob_loop.simps) (simp add: glob_measure_def)
    next
      case star
      then have "length pattern - Suc p < length pattern - glob_base starPos"
        using pre by simp
      with star show ?thesis
        using True pre IH [of s "Some p" s "p + 1"] by (subst glob_loop.simps) (auto simp: glob_measure_def)
    next
      case mismatch
      have "length str - Suc m < length str - m"
        using True pre by simp
      with mismatch show ?thesis
        using True pre IH [of "m + 1" starPos "m + 1" "glob_base starPos"]
        by (subst glob_loop.simps) (auto simp: glob_measure_def split: option.split)
    qed
  next
    case False
    then show ?thesis
      by (subst glob_loop.simps) simp
  qed
qed

lemma glob_inv_step:
  assumes "glob_inv pattern str p s starPos m" "s < length str" "p < length pattern" "pattern ! p \<noteq> CHR ''*''"
    "pattern ! p = CHR ''?'' \<or> pattern ! p = str ! s"
  shows "glob_inv pattern str (Suc p) (Suc s) starPos m"
proof -
  let ?b = "glob_base starPos"
  have snoc: "take (Suc q - b) (drop b xs) = take (q - b) (drop b xs) @ [xs ! q]" if "b \<le> q" "q < length xs"
    for b q and xs :: string
    using that by (simp add: Suc_diff_le take_Suc_conv_app_nth)
  have "?b \<le> p" "m \<le> s"
    using assms(1) by (simp_all add: glob_inv_def)
  note snoc [OF this(1) assms(3)] snoc [OF this(2) assms(2)]
  then show ?thesis
    using assms by (auto simp: glob_inv_def lits_def list_all2_append Suc_diff_le)
qed

lemma glob_loop_decides:
  assumes no: "CHR ''*'' \<notin> set str"
  shows "glob_inv pattern str p s starPos m \<Longrightarrow>
    \<exists>r. glob_loop pattern str p s starPos m = Some r \<and> verdict pattern r = glob_goal pattern str starPos m"
proof (induction "glob_measure pattern str s starPos m" arbitrary: p s starPos m
    rule: wf_induct_rule [OF wf_lex_prod [OF wf_less wf_lex_prod [OF wf_less wf_less]]])
  case 1
  note IH = 1(1) and inv = 1(2)
  have pos: "glob_base starPos \<le> p" "p \<le> length pattern" "m \<le> s" "s \<le> length str"
    using inv by (auto simp: glob_inv_def)
  show ?case
  proof (cases "s < length str")
    case True
    then have c: "str ! s \<noteq> CHR ''*''"
      using no by (metis nth_mem)
    consider (match) "p < length pattern" "pattern ! p = CHR ''?'' \<or> pattern ! p = str ! s" "pattern ! p \<noteq> CHR ''*''"
      | (star) "p < length pattern" "pattern ! p = CHR ''*''"
      | (mismatch) "\<not> (p < length pattern \<and> (pattern ! p = CHR ''?'' \<or> pattern ! p = str ! s))"
          "\<not> (p < length pattern \<and> pattern ! p = CHR ''*'')"
      by blast
    then show ?thesis
    proof cases
      case match
      with True pos IH [of "Suc s" starPos m "Suc p"] glob_inv_step [OF inv True match(1,3,2)] show ?thesis
        by (subst glob_loop.simps) (simp add: glob_measure_def)
    next
      case star
      have dec: "length pattern - Suc p < length pattern - glob_base starPos"
        using star pos by simp
      have "glob_inv pattern str (Suc p) s (Some p) s"
        using star pos by (simp add: glob_inv_def glob_base_def lits_def)
      moreover have "glob_goal pattern str (Some p) s = glob_goal pattern str starPos m"
      proof -
        have "glob_goal pattern str (Some p) s = globs (drop p pattern) (drop s str)"
          using star by (simp add: glob_goal_def) (metis Cons_nth_drop_Suc)
        then show ?thesis
          using glob_goal_None glob_goal_second_star inv star by (cases starPos) auto
      qed
      ultimately show ?thesis
        using True pos star c dec IH [of s "Some p" s "Suc p"]
        by (subst glob_loop.simps) (auto simp: glob_measure_def)
    next
      case mismatch
      have fail: "\<not> globs (drop p pattern) (drop s str)"
        using mismatch True
        by (cases "p < length pattern") (auto simp flip: Cons_nth_drop_Suc)
      show ?thesis
      proof (cases starPos)
        case None
        then show ?thesis
          using mismatch True fail glob_goal_None inv by (subst glob_loop.simps) (auto simp: verdict_def)
      next
        case (Some sp)
        have "glob_inv pattern str (Suc sp) (Suc m) (Some sp) (Suc m)"
          using pos Some True by (simp add: glob_inv_def glob_base_def lits_def)
        moreover have "glob_goal pattern str (Some sp) (Suc m) = glob_goal pattern str (Some sp) m"
          using glob_goal_Some inv Some fail pos True by simp
        moreover have "length str - Suc m < length str - m"
          using True pos by simp
        ultimately show ?thesis
          using mismatch True pos Some IH [of "Suc m" "Some sp" "Suc m" "Suc sp"]
          by (subst glob_loop.simps) (auto simp: glob_measure_def)
      qed
    qed
  next
    case False
    then have "s = length str"
      using pos by simp
    with glob_goal_end inv verdict_Some [OF pos(2)] show ?thesis
      by (subst glob_loop.simps) simp
  qed
qed

text \<open>C39: The glob matcher returns for every pattern and name, and for a name without a star
  its answer is whether the name matches, with \<^verbatim>\<open>?\<close> standing for one character and \<^verbatim>\<open>*\<close> for any
  number of them.\<close>

theorem glob_decides:
  "(\<exists>b. matchGlob pattern str = Some b) \<and>
   (CHR ''*'' \<notin> set str \<longrightarrow> matchGlob pattern str = Some (globs pattern str))"
proof -
  have "glob_inv pattern str 0 0 None 0"
    by (simp add: glob_inv_def glob_base_def lits_def)
  then show ?thesis
    using glob_loop_returns [of None 0 pattern 0 0 str] glob_loop_decides [of str pattern 0 0 None 0]
    by (auto simp: matchGlob_def verdict_def glob_base_def glob_goal_def)
qed

theorem glob_decides_witness:
  "CHR ''*'' \<notin> set ''abbc'' \<and> matchGlob ''a*c'' ''abbc'' = Some True \<and> matchGlob ''a*?d'' ''abbc'' = Some False"
  using glob_decides [of "''a*c''" "''abbc''"] glob_decides [of "''a*?d''" "''abbc''"] by simp

text \<open>A name that contains a star can be refused although it matches: the pattern's star
  is first compared with it literally.\<close>

theorem glob_star_in_name:
  "globs ''*'' ''*x'' \<and> matchGlob ''*'' ''*x'' = Some False"
  by (simp add: matchGlob_def glob_loop.simps)

section \<open>Resolving\<close>

lemma im_findByPath_insert:
  assumes "ae_path e \<noteq> []"
  shows "im_findByPath (im_insert m e) path =
    (if path = ae_path e then Inr (Some (index_entry_of e))
     else case im_pathMap m path of None \<Rightarrow> Inr None | Some eid \<Rightarrow> im_findById (im_insert m e) eid)"
  using assms by (auto simp: im_findByPath_def im_insert_def im_findById_def Let_def nth_append split: option.split)

text \<open>An entry that was added to the index is found by its path and by its identifier, with
  its offset, stored size and checksum; the other fields of what is returned have their
  default values, whatever the entry had.\<close>

theorem resolver_finds_inserted:
  assumes "ae_path e \<noteq> []" "fr = \<lparr>fr_tree = Some t, fr_index = Some (im_insert m e)\<rparr>"
  shows "resolve_id fr (ae_id e) =
      Inr (Some (default_entry\<lparr>ae_id := ae_id e, ae_offset := ae_offset e, ae_storedSize := ae_storedSize e,
        ae_checksum := ae_checksum e\<rparr>)) \<and>
    resolve_path fr (ae_path e) =
      Inr (Some (default_entry\<lparr>ae_id := ae_id e, ae_path := ae_path e, ae_offset := ae_offset e,
        ae_storedSize := ae_storedSize e, ae_checksum := ae_checksum e\<rparr>))"
proof -
  have "im_findById (im_insert m e) (ae_id e) = Inr (Some (index_entry_of e))"
    by (simp add: im_findById_def im_insert_def Let_def)
  then show ?thesis
    using assms im_findByPath_insert [OF assms(1), of m "ae_path e"]
    by (simp add: resolve_id_def resolve_path_def entry_of_index_def index_entry_of_def)
qed

theorem resolver_finds_inserted_witness:
  "let e = default_entry\<lparr>ae_id := 4, ae_path := ''/x'', ae_offset := 64, ae_originalSize := 100\<rparr> in
   resolve_id \<lparr>fr_tree = Some newDirectoryTree, fr_index = Some (im_insert newIndexManager e)\<rparr> 4 =
     Inr (Some (default_entry\<lparr>ae_id := 4, ae_offset := 64\<rparr>))"
proof -
  let ?e = "default_entry\<lparr>ae_id := 4, ae_path := ''/x'', ae_offset := 64, ae_originalSize := 100\<rparr>"
  show ?thesis
    using resolver_finds_inserted [OF _ refl, of ?e newDirectoryTree newIndexManager]
    by (simp add: default_entry_def Let_def)
qed

text \<open>Every path that exists is reported to be a directory.\<close>

lemma isDirectory_exists: "isDirectory fr path = fr_exists fr path"
  by (simp add: isDirectory_def fr_exists_def dt_exists_def split: option.split)

lemma find_last_Some:
  "find_last c xs = Some n \<Longrightarrow> n < length xs \<and> xs ! n = c \<and> c \<notin> set (drop (Suc n) xs)"
  "find_last c xs = None \<longleftrightarrow> c \<notin> set xs"
  by (induction xs arbitrary: n) (auto split: option.splits if_splits)

text \<open>A path with a slash after its first character is its parent path, a slash and its
  file name, and the file name has no slash in it.\<close>

theorem parent_and_name:
  assumes "find_last (CHR ''/'') path = Some n" "0 < n"
  shows "path = parentPath path @ ''/'' @ fileName path \<and> CHR ''/'' \<notin> set (fileName path)"
proof -
  have n: "n < length path" "path ! n = CHR ''/''" "CHR ''/'' \<notin> set (drop (Suc n) path)"
    using find_last_Some(1) [OF assms(1)] by auto
  have "path \<noteq> []" "path \<noteq> ''/''"
    using assms by auto
  then have "parentPath path = take n path" "fileName path = drop (Suc n) path"
    using assms by (auto simp: parentPath_def fileName_def split: nat.split)
  then show ?thesis
    using n id_take_nth_drop [OF n(1)] by simp
qed

end
