(* ===== verification/Metadata_Store.thy ===== *)
theory Metadata_Store
  imports Record_Codec Store_Interface Core_Types
begin

text \<open>
  \<^verbatim>\<open>metadata/MetadataStore\<close>, \<^verbatim>\<open>metadata/EntryMetadata\<close> and \<^verbatim>\<open>parser/MetadataParser\<close>: the
  key-value metadata of an archive and of an entry, their binary form and the stand-alone
  parser of the metadata section.

  Both containers keep a \<^verbatim>\<open>std::unordered_map\<close>, which is a map here; a function that iterates
  over it takes the iteration order as an argument (\<open>enumerates\<close>).  \<^verbatim>\<open>&data[offset]\<close> on a
  span is undefined at the end of the span, even when no byte is read through the pointer.
\<close>

section \<open>MetadataStore\<close>

record MetadataStore =
  ms_entries :: "string \<rightharpoonup> byte list"

definition newMetadataStore :: MetadataStore where
  "newMetadataStore = \<lparr>ms_entries = Map.empty\<rparr>"

definition ms_set :: "MetadataStore \<Rightarrow> string \<Rightarrow> byte list \<Rightarrow> MetadataStore" where
  "ms_set m key v = m\<lparr>ms_entries := (ms_entries m)(key \<mapsto> v)\<rparr>"

definition ms_set_string :: "MetadataStore \<Rightarrow> string \<Rightarrow> string \<Rightarrow> MetadataStore" where
  "ms_set_string m key v = m\<lparr>ms_entries := (ms_entries m)(key \<mapsto> bytes_of_string v)\<rparr>"

definition ms_getString :: "MetadataStore \<Rightarrow> string \<Rightarrow> string option" where
  "ms_getString m key = (case ms_entries m key of None \<Rightarrow> None | Some v \<Rightarrow> Some (string_of_bytes v))"

definition ms_getBinary :: "MetadataStore \<Rightarrow> string \<Rightarrow> byte list option" where
  "ms_getBinary m key = (case ms_entries m key of None \<Rightarrow> None | Some v \<Rightarrow> Some v)"

definition ms_contains :: "MetadataStore \<Rightarrow> string \<Rightarrow> bool" where
  "ms_contains m key \<longleftrightarrow> ms_entries m key \<noteq> None"

definition ms_remove :: "MetadataStore \<Rightarrow> string \<Rightarrow> bool \<times> MetadataStore" where
  "ms_remove m key = (ms_entries m key \<noteq> None, m\<lparr>ms_entries := (ms_entries m)(key := None)\<rparr>)"

text \<open>The functions below iterate over \<^verbatim>\<open>entries_\<close> in the order \<open>it\<close>.\<close>

definition ms_keys :: "(string \<times> byte list) list \<Rightarrow> string list" where
  "ms_keys it = map fst it"

definition ms_clear :: "MetadataStore \<Rightarrow> MetadataStore" where
  "ms_clear m = m\<lparr>ms_entries := Map.empty\<rparr>"

text \<open>One iteration of the loop of \<^verbatim>\<open>serialize\<close>.\<close>

fun serialize_pair :: "string \<times> byte list \<Rightarrow> byte list" where
  "serialize_pair (key, v) =
     encode (size64 (length key)) @ encode (size64 (length v)) @ bytes_of_string key @ v"

definition ms_serialize :: "(string \<times> byte list) list \<Rightarrow> byte list" where
  "ms_serialize it = concat (map serialize_pair it)"

definition ms_validate :: "(string \<times> byte list) list \<Rightarrow> bool" where
  "ms_validate it \<longleftrightarrow> list_all (\<lambda>(key, v). key \<noteq> [] \<and> \<not> length v > kMaxMetadataSize) it"

definition ms_merge :: "MetadataStore \<Rightarrow> (string \<times> byte list) list \<Rightarrow> MetadataStore" where
  "ms_merge m other =
     foldl (\<lambda>m (key, v). if ms_entries m key = None then m\<lparr>ms_entries := (ms_entries m)(key \<mapsto> v)\<rparr> else m)
       m other"

text \<open>The two length fields of a pair.\<close>

definition read_lengths :: "byte list \<Rightarrow> nat \<Rightarrow> (u64 \<times> u64 \<times> nat) rd" where
  "read_lengths data off =
     bind_rd (read_varint data off) (\<lambda>(keyLen, off).
     bind_rd (read_varint data off) (\<lambda>(valLen, off). Inr (Some (keyLen, valLen, off))))"

text \<open>The key and the value behind them: the bounds, the limit of 1 MiB for each, and the copy.\<close>

definition read_pair :: "byte list \<Rightarrow> nat \<Rightarrow> u64 \<Rightarrow> u64 \<Rightarrow> ((string \<times> byte list) \<times> nat) rd" where
  "read_pair data off keyLen valLen =
     (if off > length data then Inr None
      else
        let remaining = length data - off in
        if unat keyLen > remaining \<or> unat valLen > remaining - unat keyLen then Inr None
        else if unat keyLen > 1024 * 1024 \<or> unat valLen > 1024 * 1024 then Inr None
        else if off \<ge> length data then Inl Undefined_behaviour
        else Inr (Some ((string_of_bytes (take (unat keyLen) (drop off data)),
                         take (unat valLen) (drop (off + unat keyLen) data)),
                        off + unat keyLen + unat valLen)))"

lemma read_lengths_bounds:
  "read_lengths data off = Inr (Some (k, v, off')) \<Longrightarrow> off < off' \<and> off' \<le> length data"
  by (auto simp: read_lengths_def bind_rd_eq_Some dest!: read_varint_bounds)

lemma read_pair_bounds:
  "read_pair data off k v = Inr (Some (kv, off')) \<Longrightarrow> off \<le> off' \<and> off' \<le> length data"
  by (auto simp: read_pair_def Let_def split: if_splits)

text \<open>The loop of \<^verbatim>\<open>deserialize\<close>: a broken length ends it, a pair out of bounds is an error.\<close>

function ms_read :: "byte list \<Rightarrow> nat \<Rightarrow> MetadataStore \<Rightarrow> (ErrorCode \<times> MetadataStore) cpp" where
  "ms_read data off m =
     (if off < length data then
        else_ret (read_lengths data off) (Success, m) (\<lambda>(keyLen, valLen, off).
        else_ret (read_pair data off keyLen valLen) (CorruptMetadata, m) (\<lambda>(kv, off).
        ms_read data off (m\<lparr>ms_entries := (ms_entries m)(fst kv \<mapsto> snd kv)\<rparr>)))
      else Inr (Success, m))"
  by pat_completeness auto
termination
  by (relation "measure (\<lambda>(data, off, m). length data - off)")
    (auto dest!: read_lengths_bounds read_pair_bounds)

declare ms_read.simps [simp del]

definition ms_deserialize :: "MetadataStore \<Rightarrow> byte list \<Rightarrow> (ErrorCode \<times> MetadataStore) cpp" where
  "ms_deserialize m data = ms_read data 0 (ms_clear m)"

section \<open>EntryMetadata\<close>

record EntryMetadata =
  em_attributes :: "string \<rightharpoonup> byte list"
  em_tags :: "string list"
  em_contentType :: string
  em_sourcePath :: string
  em_notes :: string

definition newEntryMetadata :: EntryMetadata where
  "newEntryMetadata =
     \<lparr>em_attributes = Map.empty, em_tags = [], em_contentType = [], em_sourcePath = [], em_notes = []\<rparr>"

definition em_setAttribute :: "EntryMetadata \<Rightarrow> string \<Rightarrow> byte list \<Rightarrow> EntryMetadata" where
  "em_setAttribute em name v = em\<lparr>em_attributes := (em_attributes em)(name \<mapsto> v)\<rparr>"

definition em_setAttribute_string :: "EntryMetadata \<Rightarrow> string \<Rightarrow> string \<Rightarrow> EntryMetadata" where
  "em_setAttribute_string em name v = em\<lparr>em_attributes := (em_attributes em)(name \<mapsto> bytes_of_string v)\<rparr>"

definition em_getAttribute :: "EntryMetadata \<Rightarrow> string \<Rightarrow> string option" where
  "em_getAttribute em name =
     (case em_attributes em name of None \<Rightarrow> None | Some v \<Rightarrow> Some (string_of_bytes v))"

definition em_attributeNames :: "(string \<times> byte list) list \<Rightarrow> string list" where
  "em_attributeNames it = map fst it"

definition em_hasAttribute :: "EntryMetadata \<Rightarrow> string \<Rightarrow> bool" where
  "em_hasAttribute em name \<longleftrightarrow> em_attributes em name \<noteq> None"

definition em_removeAttribute :: "EntryMetadata \<Rightarrow> string \<Rightarrow> bool \<times> EntryMetadata" where
  "em_removeAttribute em name =
     (em_attributes em name \<noteq> None, em\<lparr>em_attributes := (em_attributes em)(name := None)\<rparr>)"

definition em_setTags :: "EntryMetadata \<Rightarrow> string list \<Rightarrow> EntryMetadata" where
  "em_setTags em tags = em\<lparr>em_tags := tags\<rparr>"

definition em_hasTag :: "EntryMetadata \<Rightarrow> string \<Rightarrow> bool" where
  "em_hasTag em tag \<longleftrightarrow> tag \<in> set (em_tags em)"

definition em_addTag :: "EntryMetadata \<Rightarrow> string \<Rightarrow> EntryMetadata" where
  "em_addTag em tag = (if \<not> em_hasTag em tag then em\<lparr>em_tags := em_tags em @ [tag]\<rparr> else em)"

text \<open>\<^verbatim>\<open>std::find\<close> and \<^verbatim>\<open>erase\<close> remove the first occurrence.\<close>

definition em_removeTag :: "EntryMetadata \<Rightarrow> string \<Rightarrow> bool \<times> EntryMetadata" where
  "em_removeTag em tag =
     (if tag \<notin> set (em_tags em) then (False, em) else (True, em\<lparr>em_tags := remove1 tag (em_tags em)\<rparr>))"

definition em_setContentType :: "EntryMetadata \<Rightarrow> string \<Rightarrow> EntryMetadata" where
  "em_setContentType em mimeType = em\<lparr>em_contentType := mimeType\<rparr>"

definition em_setSourcePath :: "EntryMetadata \<Rightarrow> string \<Rightarrow> EntryMetadata" where
  "em_setSourcePath em path = em\<lparr>em_sourcePath := path\<rparr>"

definition em_setNotes :: "EntryMetadata \<Rightarrow> string \<Rightarrow> EntryMetadata" where
  "em_setNotes em notes = em\<lparr>em_notes := notes\<rparr>"

definition em_clear :: "EntryMetadata \<Rightarrow> EntryMetadata" where
  "em_clear em =
     em\<lparr>em_attributes := Map.empty, em_tags := [], em_contentType := [], em_sourcePath := [], em_notes := []\<rparr>"

definition serialize_str :: "string \<Rightarrow> byte list" where
  "serialize_str s = encode (size64 (length s)) @ bytes_of_string s"

definition em_serialize :: "(string \<times> byte list) list \<Rightarrow> EntryMetadata \<Rightarrow> byte list" where
  "em_serialize it em =
     encode (size64 (length it)) @ concat (map serialize_pair it) @
     encode (size64 (length (em_tags em))) @ concat (map serialize_str (em_tags em)) @
     serialize_str (em_contentType em) @ serialize_str (em_sourcePath em) @ serialize_str (em_notes em)"

text \<open>A pair of the attribute section, where a broken length is an error too.\<close>

definition read_attribute :: "byte list \<Rightarrow> nat \<Rightarrow> ((string \<times> byte list) \<times> nat) rd" where
  "read_attribute data off =
     bind_rd (read_lengths data off) (\<lambda>(nameLen, valLen, off). read_pair data off nameLen valLen)"

text \<open>The bounds of a string and the copy.\<close>

definition copy_str :: "byte list \<Rightarrow> nat \<Rightarrow> u64 \<Rightarrow> (string \<times> nat) rd" where
  "copy_str data off len =
     (if off > length data then Inr None
      else if unat len > length data - off then Inr None
      else if unat len > 1024 * 1024 then Inr None
      else if off \<ge> length data then Inl Undefined_behaviour
      else Inr (Some (string_of_bytes (take (unat len) (drop off data)), off + unat len)))"

text \<open>The loop over the tags: a tag that cannot be read ends it, but leaves the offset behind a
  length that was read.\<close>

fun read_tags :: "nat \<Rightarrow> byte list \<Rightarrow> nat \<Rightarrow> (string list \<times> nat) cpp" where
  "read_tags 0 data off = Inr ([], off)"
| "read_tags (Suc n) data off =
     else_ret (read_varint data off) ([], off) (\<lambda>(tagLen, off).
     else_ret (copy_str data off tagLen) ([], off) (\<lambda>(tag, off).
     bind_cpp (read_tags n data off) (\<lambda>(tags, off). Inr (tag # tags, off))))"

text \<open>One of the three strings at the end, which keeps its old value when it cannot be read.\<close>

definition read_field :: "byte list \<Rightarrow> nat \<Rightarrow> string \<Rightarrow> (string \<times> nat) cpp" where
  "read_field data off old =
     else_ret (read_varint data off) (old, off) (\<lambda>(len, off).
     else_ret (copy_str data off len) (old, off) (\<lambda>(s, off). Inr (s, off)))"

definition em_read_tags :: "byte list \<Rightarrow> nat \<Rightarrow> (string list \<times> nat) cpp" where
  "em_read_tags data off =
     else_ret (read_varint data off) ([], off) (\<lambda>(tagCount, off). read_tags (unat tagCount) data off)"

definition em_deserialize :: "EntryMetadata \<Rightarrow> byte list \<Rightarrow> (ErrorCode \<times> EntryMetadata) cpp" where
  "em_deserialize em data =
     (let em = em_clear em in
      if 0 \<ge> length data then Inr (Success, em)
      else
        else_ret (read_varint data 0) (CorruptMetadata, em) (\<lambda>(attrCount, off).
        bind_cpp (read_upto read_attribute (unat attrCount) data off) (\<lambda>(kvs, r).
        let em = em\<lparr>em_attributes := foldl (\<lambda>m (name, v). m(name \<mapsto> v)) (em_attributes em) kvs\<rparr> in
        case r of
          None \<Rightarrow> Inr (CorruptMetadata, em)
        | Some off \<Rightarrow>
            if off \<ge> length data then Inr (Success, em)
            else bind_cpp (em_read_tags data off) (\<lambda>(tags, off).
            let em = em\<lparr>em_tags := em_tags em @ tags\<rparr> in
            if off \<ge> length data then Inr (Success, em)
            else bind_cpp (read_field data off (em_contentType em)) (\<lambda>(s, off).
            let em = em\<lparr>em_contentType := s\<rparr> in
            if off \<ge> length data then Inr (Success, em)
            else bind_cpp (read_field data off (em_sourcePath em)) (\<lambda>(s, off).
            let em = em\<lparr>em_sourcePath := s\<rparr> in
            if off \<ge> length data then Inr (Success, em)
            else bind_cpp (read_field data off (em_notes em)) (\<lambda>(s, off).
            Inr (Success, em\<lparr>em_notes := s\<rparr>))))))))"

section \<open>MetadataParser\<close>

text \<open>\<^verbatim>\<open>lastError_\<close> is only ever assigned its initial value, so the parser has no state.\<close>

definition metadata_error :: "nat \<Rightarrow> string \<Rightarrow> ParseError" where
  "metadata_error off message = toParseError CorruptMetadata PS_Metadata (size64 off) message"

text \<open>The end of \<^verbatim>\<open>parseEntry\<close>: the bounds of the key and the value and the copies.  The end pointer
  \<^verbatim>\<open>&span[pos + valLen]\<close> needs a byte behind the value.\<close>

definition mp_copy :: "byte list \<Rightarrow> nat \<Rightarrow> nat \<Rightarrow> nat \<Rightarrow> nat \<Rightarrow> ((string \<times> byte list) \<times> nat) Result cpp" where
  "mp_copy data startOffset pos keyLen valLen =
     (let span = drop startOffset data; absPos = startOffset + pos in
      if absPos > length data then Inr (Inl (metadata_error pos []))
      else
        let remaining = length data - absPos in
        if keyLen > remaining then Inr (Inl (metadata_error pos []))
        else if pos \<ge> length span then Inl Undefined_behaviour
        else
          let key = string_of_bytes (take keyLen (drop pos span)); pos = pos + keyLen;
              remaining = remaining - keyLen in
          if valLen > remaining then Inr (Inl (metadata_error pos []))
          else if valLen > 1024 * 1024 then Inr (Inl (metadata_error pos ''metadata value too large''))
          else if pos \<ge> length span \<or> pos + valLen \<ge> length span then Inl Undefined_behaviour
          else Inr (Inr ((key, take valLen (drop pos span)), startOffset + (pos + valLen))))"

definition parseEntry :: "byte list \<Rightarrow> nat \<Rightarrow> ((string \<times> byte list) \<times> nat) Result cpp" where
  "parseEntry data off =
     (if off > length data then Inl Undefined_behaviour
      else
        let span = drop off data in
        bind_cpp (decode span) (\<lambda>keyLen.
        if \<not> dr_valid keyLen \<or> dr_consumed keyLen = 0 then Inr (Inl (metadata_error off []))
        else if unat (dr_value keyLen) > kMaxFileNameLength
        then Inr (Inl (metadata_error off ''metadata key too long''))
        else
          let pos = dr_consumed keyLen in
          bind_cpp (decode (drop pos span)) (\<lambda>valLen.
          if \<not> dr_valid valLen then Inr (Inl (metadata_error off []))
          else if unat (dr_value valLen) > kMaxMetadataSize
          then Inr (Inl (metadata_error off ''metadata value too large''))
          else mp_copy data off (pos + dr_consumed valLen) (unat (dr_value keyLen)) (unat (dr_value valLen)))))"

lemma mp_copy_bounds:
  "mp_copy data start pos k v = Inr (Inr (kv, off')) \<Longrightarrow> start + pos \<le> off' \<and> off' < length data"
  by (auto simp: mp_copy_def Let_def split: if_splits)

lemma parseEntry_bounds:
  "parseEntry data off = Inr (Inr (kv, off')) \<Longrightarrow> off < off' \<and> off' < length data"
  by (auto simp: parseEntry_def Let_def bind_cpp_eq_Inr split: if_splits dest!: mp_copy_bounds)

function mp_loop :: "byte list \<Rightarrow> nat \<Rightarrow> nat \<Rightarrow> MetadataStore \<Rightarrow> MetadataStore Result cpp" where
  "mp_loop data metadataSize off store =
     (if off < metadataSize then
        bind_cpp (parseEntry data off) (\<lambda>r. case r of
          Inl e \<Rightarrow> if off = 0 then Inr (Inl e) else Inr (Inr store)
        | Inr (kv, off') \<Rightarrow> mp_loop data metadataSize off' (ms_set store (fst kv) (snd kv)))
      else Inr (Inr store))"
  by pat_completeness auto
termination
  by (relation "measure (\<lambda>(data, size, off, store). size - off)") (auto dest!: parseEntry_bounds)

declare mp_loop.simps [simp del]

definition mp_parse :: "byte list \<Rightarrow> nat \<Rightarrow> MetadataStore Result cpp" where
  "mp_parse data metadataSize =
     (if length data < metadataSize
      then Inr (Inl (metadata_error (length data) ''metadata section truncated''))
      else mp_loop data metadataSize 0 newMetadataStore)"

definition mp_validate :: "byte list \<Rightarrow> nat \<Rightarrow> ErrorCode cpp" where
  "mp_validate data metadataSize =
     (if length data < metadataSize then Inr CorruptMetadata
      else bind_cpp (mp_parse data metadataSize) (\<lambda>r.
        Inr (case r of Inl _ \<Rightarrow> CorruptMetadata | Inr _ \<Rightarrow> Success)))"

definition mp_serialize :: "(string \<times> byte list) list \<Rightarrow> byte list" where
  "mp_serialize it = concat (map serialize_pair it)"

text \<open>\<^verbatim>\<open>tryParseValue\<close> returns the offset its pointer points to, \<open>None\<close> for the null pointer, the
  length and the new offset.  \<^verbatim>\<open>parseValueSafe\<close> reads through the pointer unchecked.\<close>

definition tryParseValue :: "byte list \<Rightarrow> nat \<Rightarrow> nat \<Rightarrow> (nat option \<times> nat \<times> nat) cpp" where
  "tryParseValue data off len =
     else_ret (read_varint data off) (None, len, off) (\<lambda>(n, off).
     if off \<ge> length data then Inl Undefined_behaviour else Inr (Some off, unat n, off))"

definition parseValueSafe :: "byte list \<Rightarrow> nat \<Rightarrow> (string \<times> nat) cpp" where
  "parseValueSafe data off =
     bind_cpp (tryParseValue data off 0) (\<lambda>(ptr, len, off).
     case ptr of
       None \<Rightarrow> if len > 0 then Inl Undefined_behaviour else Inr ([], off)
     | Some p \<Rightarrow>
         if len \<ge> 2 ^ 63 then Inl Length_error
         else if p + len > length data then Inl Undefined_behaviour
         else Inr (string_of_bytes (take len (drop p data)), off))"

definition quickValidate :: "byte list \<Rightarrow> bool" where
  "quickValidate data =
     (if data = [] then True else if length data < 2 then False else True)"

section \<open>The stores as keyed stores\<close>

interpretation mds: erasable_store "\<lambda>_. True" "\<lambda>m k. Inr (ms_getBinary m k)" ms_set "\<lambda>_ v. v" "\<lambda>m k. snd (ms_remove m k)"
  by unfold_locales (auto simp: ms_getBinary_def ms_set_def ms_remove_def)

interpretation atts: erasable_store "\<lambda>_. True" "\<lambda>m k. Inr (em_getAttribute m k)" em_setAttribute
    "\<lambda>_ v. string_of_bytes v" "\<lambda>m k. snd (em_removeAttribute m k)"
  by unfold_locales (auto simp: em_getAttribute_def em_setAttribute_def em_removeAttribute_def)

text \<open>\<^verbatim>\<open>merge\<close> keeps the entries of the receiver.\<close>

lemma ms_merge_entries:
  "ms_entries (ms_merge m it) = map_of it ++ ms_entries m"
proof (induction it arbitrary: m)
  case (Cons kv it)
  obtain k v where kv: "kv = (k, v)" by (cases kv)
  show ?case
    using Cons kv by (auto simp: ms_merge_def map_add_def fun_eq_iff split: option.split)
qed (simp add: ms_merge_def)

lemma merge_lookup:
  "enumerates it (ms_entries other) \<Longrightarrow>
   ms_getBinary (ms_merge m it) k = (case ms_getBinary m k of Some v \<Rightarrow> Some v | None \<Rightarrow> ms_getBinary other k)"
  by (simp add: enumerates_def ms_merge_entries ms_getBinary_def map_add_def split: option.split)

section \<open>Reading pairs back\<close>

definition pair_ok :: "string \<times> byte list \<Rightarrow> bool" where
  "pair_ok kv \<longleftrightarrow> (fst kv \<noteq> [] \<or> snd kv \<noteq> []) \<and> length (fst kv) \<le> 1024 * 1024 \<and> length (snd kv) \<le> 1024 * 1024"

lemma read_lengths_at:
  assumes "drop off data = encode k @ encode v @ rest" "off \<le> length data"
  shows "read_lengths data off = Inr (Some (k, v, off + length (encode k) + length (encode v)))"
proof -
  have "length (drop off data) = length data - off" by simp
  then have "off + length (encode k) \<le> length data"
    using assms by simp
  then show ?thesis
    using assms read_varint_at [of off data k] read_varint_at [of "off + length (encode k)" data v rest]
    by (simp add: read_lengths_def drop_add del: drop_drop)
qed

lemma read_pair_at:
  assumes "pair_ok (k, v)" "drop off data = bytes_of_string k @ v @ rest"
    "length data = off + length k + length v + length rest"
  shows "read_pair data off (size64 (length k)) (size64 (length v)) =
    Inr (Some ((k, v), off + length k + length v))"
  using assms by (auto simp: pair_ok_def read_pair_def Let_def drop_add simp del: drop_drop)

lemma read_attribute_at:
  assumes "pair_ok (k, v)" "drop off data = serialize_pair (k, v) @ rest"
    "length data = off + length (serialize_pair (k, v)) + length rest"
  shows "read_attribute data off = Inr (Some ((k, v), off + length (serialize_pair (k, v))))"
proof -
  let ?o = "off + length (encode (size64 (length k))) + length (encode (size64 (length v)))"
  have "read_lengths data off = Inr (Some (size64 (length k), size64 (length v), ?o))"
    using assms by (intro read_lengths_at [where rest = "bytes_of_string k @ v @ rest"]) auto
  moreover have "read_pair data ?o (size64 (length k)) (size64 (length v)) = Inr (Some ((k, v), ?o + length k + length v))"
    using assms by (intro read_pair_at [where rest = rest]) (auto simp: drop_add simp del: drop_drop)
  ultimately show ?thesis
    by (simp add: read_attribute_def add.assoc)
qed

interpretation attribute: record_codec read_attribute serialize_pair pair_ok
proof
  show "off \<le> off' \<and> off' \<le> length data"
    if "read_attribute data off = Inr (Some (x, off'))" for data off x off'
    using that by (auto simp: read_attribute_def bind_rd_eq_Some dest!: read_lengths_bounds read_pair_bounds)
qed (use read_attribute_at in auto)

lemma ms_read_step:
  "off < length data \<Longrightarrow> read_attribute data off = Inr (Some (kv, off')) \<Longrightarrow>
   ms_read data off m = ms_read data off' (ms_set m (fst kv) (snd kv))"
  by (subst ms_read.simps) (auto simp: read_attribute_def bind_rd_eq_Some ms_set_def)

lemma ms_read_serialize:
  "list_all pair_ok it \<Longrightarrow> drop off data = ms_serialize it \<Longrightarrow> length data = off + length (ms_serialize it) \<Longrightarrow>
   ms_read data off m = Inr (Success, foldl (\<lambda>m (k, v). ms_set m k v) m it)"
proof (induction it arbitrary: off m)
  case Nil
  then show ?case by (simp add: ms_serialize_def ms_read.simps)
next
  case (Cons kv it)
  obtain k v where kv: "kv = (k, v)" by (cases kv)
  have r: "read_attribute data off = Inr (Some ((k, v), off + length (serialize_pair (k, v))))"
    using Cons.prems kv by (intro read_attribute_at [where rest = "ms_serialize it"]) (auto simp: ms_serialize_def)
  have lt: "off < length data"
    using Cons.prems(3) kv by (simp add: ms_serialize_def)
  have "ms_read data (off + length (serialize_pair (k, v))) (ms_set m k v) =
      Inr (Success, foldl (\<lambda>m (k, v). ms_set m k v) (ms_set m k v) it)"
    using Cons.prems kv
    by (intro Cons.IH) (auto simp: ms_serialize_def drop_add simp del: drop_drop)
  with ms_read_step [OF lt r] kv show ?case by simp
qed

lemma ms_getBinary_eq: "ms_getBinary m k = ms_entries m k"
  by (simp add: ms_getBinary_def split: option.split)

lemma foldl_ms_set:
  "distinct (map fst it) \<Longrightarrow> foldl (\<lambda>m (k, v). ms_set m k v) m it = m\<lparr>ms_entries := ms_entries m ++ map_of it\<rparr>"
proof -
  assume "distinct (map fst it)"
  then have "ms_getBinary (foldl (\<lambda>m (k, v). ms_set m k v) m it) k = (ms_entries m ++ map_of it) k" for k
    using mds.lookup_puts [of m it k]
    by (auto simp: map_of_rev_distinct ms_getBinary_def map_add_def simp del: map_of_eq_Some_iff split: option.split option.split_asm)
  then have "ms_entries (foldl (\<lambda>m (k, v). ms_set m k v) m it) = ms_entries m ++ map_of it"
    by (intro ext) (simp add: ms_getBinary_eq)
  then show ?thesis by simp
qed

lemma validated_pairs_ok:
  "ms_validate it \<Longrightarrow> list_all (\<lambda>kv. length (fst kv) \<le> 1024 * 1024) it \<Longrightarrow> list_all pair_ok it"
  by (induction it) (auto simp: ms_validate_def pair_ok_def kMaxMetadataSize_def)

text \<open>C25: a store that \<^verbatim>\<open>validate\<close> accepts, with keys of at most 1 MiB, is read back by
  \<^verbatim>\<open>deserialize\<close> from what \<^verbatim>\<open>serialize\<close> writes, whatever the iteration order of the map and the
  previous content of the receiver.\<close>

theorem metadata_roundtrip:
  assumes "enumerates it (ms_entries m)" "ms_validate it" "list_all (\<lambda>kv. length (fst kv) \<le> 1024 * 1024) it"
  shows "ms_deserialize m0 (ms_serialize it) = Inr (Success, m)"
proof -
  have "ms_read (ms_serialize it) 0 (ms_clear m0) = Inr (Success, foldl (\<lambda>m (k, v). ms_set m k v) (ms_clear m0) it)"
    using validated_pairs_ok [OF assms(2,3)] by (intro ms_read_serialize) auto
  with assms(1) show ?thesis
    by (simp add: ms_deserialize_def enumerates_def foldl_ms_set ms_clear_def)
qed

definition example_store :: MetadataStore where
  "example_store = ms_set_string (ms_set newMetadataStore ''tool'' [7, 0]) ''creator'' ''nfs''"

theorem metadata_roundtrip_witness:
  "ms_deserialize newMetadataStore (ms_serialize [(''tool'', [7, 0]), (''creator'', bytes_of_string ''nfs'')]) =
     Inr (Success, example_store) \<and>
   ms_deserialize newMetadataStore (ms_serialize [(''creator'', bytes_of_string ''nfs''), (''tool'', [7, 0])]) =
     Inr (Success, example_store)"
  by (intro conjI; rule metadata_roundtrip)
    (auto simp: enumerates_def example_store_def ms_set_def ms_set_string_def newMetadataStore_def
      ms_validate_def kMaxMetadataSize_def)

text \<open>Merging a store into another adds the entries whose keys the receiver does not have
  and keeps all of its own, whatever the iteration order.\<close>

theorem metadata_merge:
  assumes "enumerates it (ms_entries other)"
  shows "ms_getBinary (ms_merge m it) k =
     (case ms_getBinary m k of Some v \<Rightarrow> Some v | None \<Rightarrow> ms_getBinary other k)"
  by (rule merge_lookup [OF assms])

theorem metadata_merge_witness:
  "ms_getBinary (ms_merge example_store [(''tool'', [1]), (''host'', [2])]) ''tool'' = Some [7, 0]"
  using metadata_merge [of "[(''tool'', [1]), (''host'', [2])]"
      "ms_set (ms_set newMetadataStore ''tool'' [1]) ''host'' [2]" example_store "''tool''"]
  by (simp add: enumerates_def example_store_def ms_set_def ms_set_string_def newMetadataStore_def
      ms_getBinary_def fun_upd_twist)

section \<open>Entry metadata\<close>

lemma copy_str_at:
  assumes "drop off data = bytes_of_string s @ rest" "length data = off + length s + length rest" "length s \<le> 1024 * 1024"
  shows "copy_str data off (size64 (length s)) =
    (if s = [] \<and> rest = [] then Inl Undefined_behaviour else Inr (Some (s, off + length s)))"
  using assms by (auto simp: copy_str_def)

lemma read_field_at:
  assumes "drop off data = serialize_str s @ rest" "length data = off + length (serialize_str s) + length rest"
    "length s \<le> 1024 * 1024"
  shows "read_field data off old =
    (if s = [] \<and> rest = [] then Inl Undefined_behaviour else Inr (s, off + length (serialize_str s)))"
proof -
  let ?l = "encode (size64 (length s))"
  have "read_varint data off = Inr (Some (size64 (length s), off + length ?l))"
    using assms by (intro read_varint_at) (auto simp: serialize_str_def)
  moreover have "copy_str data (off + length ?l) (size64 (length s)) =
      (if s = [] \<and> rest = [] then Inl Undefined_behaviour else Inr (Some (s, off + length ?l + length s)))"
    using assms by (intro copy_str_at) (auto simp: serialize_str_def drop_add simp del: drop_drop)
  ultimately show ?thesis
    by (simp add: read_field_def serialize_str_def)
qed

lemma read_tags_at:
  "list_all (\<lambda>s. length s \<le> 1024 * 1024) tags \<Longrightarrow> rest \<noteq> [] \<Longrightarrow>
   drop off data = concat (map serialize_str tags) @ rest \<Longrightarrow>
   length data = off + length (concat (map serialize_str tags)) + length rest \<Longrightarrow>
   read_tags (length tags) data off = Inr (tags, off + length (concat (map serialize_str tags)))"
proof (induction tags arbitrary: off)
  case (Cons s tags)
  let ?l = "encode (size64 (length s))" and ?r = "concat (map serialize_str tags) @ rest"
  have "read_varint data off = Inr (Some (size64 (length s), off + length ?l))"
    using Cons.prems by (intro read_varint_at) (auto simp: serialize_str_def [of s])
  moreover have "copy_str data (off + length ?l) (size64 (length s)) = Inr (Some (s, off + length ?l + length s))"
    using Cons.prems by (subst copy_str_at [where rest = ?r]) (auto simp: serialize_str_def [of s] drop_add simp del: drop_drop)
  moreover have "read_tags (length tags) data (off + length ?l + length s) =
      Inr (tags, off + length ?l + length s + length (concat (map serialize_str tags)))"
    using Cons.prems by (intro Cons.IH) (auto simp: serialize_str_def [of s] drop_add simp del: drop_drop)
  ultimately show ?case
    by (simp add: serialize_str_def [of s] add.assoc)
qed simp

definition em_wf :: "(string \<times> byte list) list \<Rightarrow> EntryMetadata \<Rightarrow> bool" where
  "em_wf it em \<longleftrightarrow> enumerates it (em_attributes em) \<and> list_all pair_ok it \<and>
     list_all (\<lambda>s. length s \<le> 1024 * 1024)
       (em_contentType em # em_sourcePath em # em_notes em # em_tags em)"

lemma serialize_str_nonempty [simp]: "serialize_str s \<noteq> []"
  by (simp add: serialize_str_def)

lemma foldl_map_upd: "distinct (map fst it) \<Longrightarrow> foldl (\<lambda>m (k, v). m(k \<mapsto> v)) Map.empty it = map_of it"
proof -
  have "foldl (\<lambda>m (k, v). m(k \<mapsto> v)) m it = m ++ map_of (rev it)" for m
    by (induction it arbitrary: m) auto
  then show "distinct (map fst it) \<Longrightarrow> ?thesis"
    by (simp add: map_of_rev_distinct)
qed

lemma length_tags_less:
  "length (concat (map serialize_str tags)) < n \<Longrightarrow> length tags < n"
  using length_le_concat [of serialize_str tags] by simp

lemma serialize_pair_nonempty [simp]: "serialize_pair kv \<noteq> []"
  by (cases kv) simp

lemma em_read_serialized:
  assumes wf: "em_wf it em" and small: "length (em_serialize it em) < 2 ^ 63"
  shows "em_deserialize em0 (em_serialize it em) =
    (if em_notes em = [] then Inl Undefined_behaviour else Inr (Success, em))"
proof -
  let ?data = "em_serialize it em"
  let ?fields = "serialize_str (em_contentType em) @ serialize_str (em_sourcePath em) @ serialize_str (em_notes em)"
  let ?tags = "concat (map serialize_str (em_tags em))" and ?tn = "encode (size64 (length (em_tags em)))"
  let ?o1 = "length (encode (size64 (length it)))"
  let ?o2 = "?o1 + length (concat (map serialize_pair it))"
  let ?o3 = "?o2 + length ?tn + length ?tags"
  let ?o4 = "?o3 + length (serialize_str (em_contentType em))"
  let ?o5 = "?o4 + length (serialize_str (em_sourcePath em))"
  have data: "?data = encode (size64 (length it)) @ concat (map serialize_pair it) @ ?tn @ ?tags @ ?fields"
    by (simp add: em_serialize_def)
  have len: "length ?data = ?o2 + length ?tn + length ?tags + length ?fields"
    by (simp add: data)
  have n: "length it < 2 ^ 64" "length (em_tags em) < 2 ^ 64"
    using small len length_le_concat [of serialize_pair it] length_le_concat [of serialize_str "em_tags em"]
    by auto
  have "read_varint ?data 0 = Inr (Some (size64 (length it), ?o1))"
    by (simp add: data read_varint_def)
  moreover have "read_upto read_attribute (length it) ?data ?o1 = Inr (it, Some ?o2)"
    using wf small len
    by (intro attribute.read_upto_enc [where rest = "?tn @ ?tags @ ?fields"]) (auto simp: em_wf_def data)
  moreover have "em_read_tags ?data ?o2 = Inr (em_tags em, ?o3)"
  proof -
    have "read_varint ?data ?o2 = Inr (Some (size64 (length (em_tags em)), ?o2 + length ?tn))"
      using len by (intro read_varint_at [where rest = "?tags @ ?fields"]) (auto simp: data drop_add simp del: drop_drop)
    moreover have "read_tags (length (em_tags em)) ?data (?o2 + length ?tn) = Inr (em_tags em, ?o2 + length ?tn + length ?tags)"
      using wf len by (intro read_tags_at [where rest = ?fields]) (auto simp: em_wf_def data drop_add simp del: drop_drop)
    ultimately show ?thesis
      using n by (simp add: em_read_tags_def)
  qed
  moreover have "read_field ?data ?o3 [] = Inr (em_contentType em, ?o4)"
    using wf len by (subst read_field_at [where rest = "serialize_str (em_sourcePath em) @ serialize_str (em_notes em)"])
      (auto simp: em_wf_def data drop_add simp del: drop_drop)
  moreover have "read_field ?data ?o4 [] = Inr (em_sourcePath em, ?o5)"
    using wf len by (subst read_field_at [where rest = "serialize_str (em_notes em)"])
      (auto simp: em_wf_def data drop_add simp del: drop_drop)
  moreover have "read_field ?data ?o5 [] =
      (if em_notes em = [] then Inl Undefined_behaviour else Inr (em_notes em, length ?data))"
    using wf len by (subst read_field_at [where rest = "[]"]) (auto simp: em_wf_def data drop_add simp del: drop_drop)
  moreover have "0 < length ?data" "?o2 < length ?data" "?o3 < length ?data" "?o4 < length ?data" "?o5 < length ?data"
    using len by (auto simp del: length_greater_0_conv simp flip: length_greater_0_conv)
  ultimately show ?thesis
    using n wf
    by (simp add: em_deserialize_def em_clear_def em_wf_def enumerates_def foldl_map_upd)
qed

text \<open>Entry metadata with a non-empty note is read back from its serialised form, whatever the
  iteration order of the attributes and the previous content of the receiver.\<close>

theorem entry_metadata_roundtrip:
  assumes "em_wf it em" "em_notes em \<noteq> []" "length (em_serialize it em) < 2 ^ 63"
  shows "em_deserialize em0 (em_serialize it em) = Inr (Success, em)"
  using em_read_serialized [OF assms(1,3), of em0] assms(2) by simp

definition example_meta :: EntryMetadata where
  "example_meta = em_addTag (em_addTag (em_setAttribute newEntryMetadata ''acl'' [1]) ''raw'') ''raw''"

theorem entry_metadata_roundtrip_witness:
  "em_deserialize newEntryMetadata (em_serialize [(''acl'', [1])] (example_meta\<lparr>em_notes := ''n''\<rparr>)) =
     Inr (Success, example_meta\<lparr>em_notes := ''n''\<rparr>)"
proof (rule entry_metadata_roundtrip)
  have sz: "length (encode v) < 11" for v
    using length_encode_le [of v] by simp
  show "length (em_serialize [(''acl'', [1])] (example_meta\<lparr>em_notes := ''n''\<rparr>)) < 2 ^ 63"
    using sz [of "size64 (Suc 0)"] sz [of "size64 (Suc (Suc (Suc 0)))"] sz [of "size64 0"]
    by (simp add: em_serialize_def example_meta_def em_addTag_def em_hasTag_def em_setAttribute_def
        newEntryMetadata_def serialize_str_def)
qed (auto simp: em_wf_def enumerates_def pair_ok_def example_meta_def em_addTag_def em_hasTag_def
    em_setAttribute_def newEntryMetadata_def)

text \<open>Entry metadata with no notes, as a new object has, cannot be read back: the last string
  is copied from \<^verbatim>\<open>&data[data.size()]\<close>, which is undefined.\<close>

theorem entry_metadata_no_notes:
  assumes "em_wf it em" "em_notes em = []" "length (em_serialize it em) < 2 ^ 63"
  shows "em_deserialize em0 (em_serialize it em) = Inl Undefined_behaviour"
  using em_read_serialized [OF assms(1,3), of em0] assms(2) by simp

theorem entry_metadata_no_notes_witness:
  "em_deserialize newEntryMetadata (em_serialize [] newEntryMetadata) = Inl Undefined_behaviour"
proof (rule entry_metadata_no_notes)
  show "length (em_serialize [] newEntryMetadata) < 2 ^ 63"
    using length_encode_le [of "size64 0"] by (simp add: em_serialize_def newEntryMetadata_def serialize_str_def)
qed (auto simp: em_wf_def newEntryMetadata_def)

section \<open>The metadata section\<close>

definition key_fits :: "string \<times> byte list \<Rightarrow> bool" where
  "key_fits kv \<longleftrightarrow> length (fst kv) \<le> kMaxFileNameLength \<and> length (snd kv) \<le> kMaxMetadataSize"

lemma parseEntry_at:
  assumes "key_fits (k, v)" "drop off data = serialize_pair (k, v) @ rest"
    "length data = off + length (serialize_pair (k, v)) + length rest"
  shows "parseEntry data off =
    (if rest = [] then Inl Undefined_behaviour
     else Inr (Inr ((k, v), off + length (serialize_pair (k, v)))))"
  using assms
  by (auto simp: parseEntry_def mp_copy_def Let_def key_fits_def kMaxFileNameLength_def kMaxMetadataSize_def
      drop_add simp del: drop_drop)

lemma mp_loop_at:
  "list_all key_fits it \<Longrightarrow> drop off data = mp_serialize it @ rest \<Longrightarrow>
   length data = off + length (mp_serialize it) + length rest \<Longrightarrow>
   mp_loop data (off + length (mp_serialize it)) off m =
     (if rest = [] \<and> it \<noteq> [] then Inl Undefined_behaviour
      else Inr (Inr (foldl (\<lambda>m (k, v). ms_set m k v) m it)))"
proof (induction it arbitrary: off m)
  case Nil
  then show ?case by (simp add: mp_serialize_def mp_loop.simps)
next
  case (Cons kv it)
  obtain k v where kv: "kv = (k, v)" by (cases kv)
  let ?n = "off + length (mp_serialize (kv # it))"
  have lt: "off < ?n"
    using kv by (simp add: mp_serialize_def)
  have p: "parseEntry data off =
      (if mp_serialize it @ rest = [] then Inl Undefined_behaviour
       else Inr (Inr ((k, v), off + length (serialize_pair (k, v)))))"
    using Cons.prems kv by (intro parseEntry_at) (auto simp: mp_serialize_def)
  have "mp_loop data (off + length (serialize_pair (k, v)) + length (mp_serialize it))
      (off + length (serialize_pair (k, v))) (ms_set m k v) =
      (if rest = [] \<and> it \<noteq> [] then Inl Undefined_behaviour
       else Inr (Inr (foldl (\<lambda>m (k, v). ms_set m k v) (ms_set m k v) it)))"
    using Cons.prems kv
    by (intro Cons.IH) (auto simp: mp_serialize_def drop_add simp del: drop_drop)
  moreover have "mp_serialize it = [] \<longleftrightarrow> it = []"
    by (cases it) (auto simp: mp_serialize_def)
  ultimately show ?case
    using p lt kv by (subst mp_loop.simps) (simp add: mp_serialize_def add.assoc)
qed

lemma mp_parse_serialized:
  assumes "enumerates it (ms_entries m)" "list_all key_fits it" "it \<noteq> []"
  shows "mp_parse (mp_serialize it @ rest) (length (mp_serialize it)) =
           (if rest = [] then Inl Undefined_behaviour else Inr (Inr m))"
  using mp_loop_at [of it 0 "mp_serialize it @ rest" rest newMetadataStore] assms
  by (simp add: mp_parse_def enumerates_def foldl_ms_set newMetadataStore_def)

text \<open>On a metadata section that is followed by another section, the section parser returns
  the store that was serialised, and \<^verbatim>\<open>validate\<close> accepts it.  When a section that is not empty
  is the end of the input, both are undefined: the value of the last entry is copied up to
  \<^verbatim>\<open>&span[span.size()]\<close>.\<close>

theorem metadata_parser_serialized:
  assumes "enumerates it (ms_entries m)" "list_all key_fits it" "it \<noteq> []"
  shows "mp_parse (mp_serialize it @ rest) (length (mp_serialize it)) =
           (if rest = [] then Inl Undefined_behaviour else Inr (Inr m)) \<and>
         mp_validate (mp_serialize it @ rest) (length (mp_serialize it)) =
           (if rest = [] then Inl Undefined_behaviour else Inr Success)"
  using mp_parse_serialized [OF assms, of rest] by (simp add: mp_validate_def)

theorem metadata_parser_serialized_witness:
  "mp_parse (mp_serialize [(''tool'', [7, 0])] @ [9]) (length (mp_serialize [(''tool'', [7, 0])])) =
     Inr (Inr (ms_set newMetadataStore ''tool'' [7, 0])) \<and>
   mp_parse (mp_serialize [(''tool'', [7, 0])]) (length (mp_serialize [(''tool'', [7, 0])])) = Inl Undefined_behaviour"
  using metadata_parser_serialized [of "[(''tool'', [7, 0])]" "ms_set newMetadataStore ''tool'' [7, 0]" "[9]"]
    metadata_parser_serialized [of "[(''tool'', [7, 0])]" "ms_set newMetadataStore ''tool'' [7, 0]" "[]"]
  by (simp add: enumerates_def ms_set_def newMetadataStore_def key_fits_def kMaxFileNameLength_def kMaxMetadataSize_def)

end
