(* ===== verification/Chunk_Store.thy ===== *)
theory Chunk_Store
  imports Complex_Main Record_Codec Checksum_Engine
begin

text \<open>
  \<^verbatim>\<open>storage/ChunkManager\<close>: content-defined and fixed-size chunking, the table of chunks with
  its index by the first eight bytes of the hash, and the serialised chunk table.

  The digests are the parameter \<open>digest\<close> of \<^verbatim>\<open>ChecksumEngine\<close>.  The two objects of the anonymous
  namespace, the storage of cache entries and the table of pointers into it, are the record
  \<open>ChunkGlobals\<close>: a pointer names the buffer of the vector it points into, and a push beyond the
  capacity moves the elements to a new buffer.  By how much the capacity grows is left to the
  standard library: \<open>grow\<close>.  Ratios of type \<^verbatim>\<open>double\<close> are real numbers.
\<close>

unbundle bit_operations_syntax

section \<open>State\<close>

record ChunkConfig =
  cc_dedupStrategy :: DedupStrategy
  cc_minChunkSize :: nat
  cc_maxChunkSize :: nat
  cc_avgChunkSize :: nat
  cc_hashAlgorithm :: HashAlgorithm
  cc_enableDedup :: bool

definition default_ChunkConfig :: ChunkConfig where
  "default_ChunkConfig =
     \<lparr>cc_dedupStrategy = DedupContent, cc_minChunkSize = kMinChunkSize, cc_maxChunkSize = kMaxChunkSize,
      cc_avgChunkSize = 65536, cc_hashAlgorithm = SHA256, cc_enableDedup = True\<rparr>"

record ChunkManager =
  cm_config :: ChunkConfig
  cm_chunks :: "ChunkDescriptor list"
  cm_hashIndex :: "u64 \<rightharpoonup> nat"
  cm_totalDataSize :: u64
  cm_totalStoredSize :: u64

definition newChunkManager :: "ChunkConfig \<Rightarrow> ChunkManager" where
  "newChunkManager config =
     \<lparr>cm_config = config, cm_chunks = [], cm_hashIndex = Map.empty, cm_totalDataSize = 0, cm_totalStoredSize = 0\<rparr>"

datatype chunk_ptr = Storage_ptr nat nat | Stack_ptr

record ChunkGlobals =
  cg_buffer :: nat
  cg_capacity :: nat
  cg_storage :: "u64 list"
  cg_cache :: "u64 \<rightharpoonup> chunk_ptr"

definition newChunkGlobals :: ChunkGlobals where
  "newChunkGlobals = \<lparr>cg_buffer = 0, cg_capacity = 0, cg_storage = [], cg_cache = Map.empty\<rparr>"

section \<open>Boundaries\<close>

definition buzhash_table :: "u32 list" where
  "buzhash_table =
     [0x458BE752, 0xC10748CC, 0xBB6BBBED, 0x6CDC21C3, 0x9C79ED0A, 0x5C64CB2F, 0xB1C0F24F, 0xE42B8BF5,
      0xBE97F3CB, 0x90C52B3E, 0x2389A777, 0xCCFB7B41, 0x21B60C9B, 0x7F00E742, 0x70A11B46, 0x3045F586,
      0xEF4F51C7, 0x64BB9E50, 0x8F13ECBA, 0xE1A469C2, 0x8D124B7D, 0x94E4318A, 0x6685E47A, 0x6F9A4BB6,
      0x2E1E5CD7, 0x0159EE3C, 0x87FC8E3C, 0xE36FCB8C, 0xA90FA72A, 0x22B3D8F6, 0x62B0CA27, 0x9E57F4D0,
      0x8163986B, 0x4C1578C5, 0xEFA9DC7F, 0xB974582C, 0x3182F82E, 0xAA0F09E3, 0xBCE08E63, 0x1E2F5E5D,
      0x7AB1B6A7, 0xF7416DBD, 0xD53C15F2, 0xB917CC82, 0x481754B5, 0x287AEFB7, 0x506EBFA8, 0x4F43EC03,
      0x0418F5F4, 0xF1C1B5F8, 0x16A8E1D4, 0xA53BA74E, 0x4C8EB6D9, 0x7703E8F0, 0x5E75BD1F, 0xFACA8804,
      0x765B5739, 0x0BB1B0AC, 0x5ED6EF36, 0x760A05E4, 0x5F6122CE, 0x87A4244E, 0x50CD137C, 0xC1E08DB9,
      0x25F77AB2, 0x169558BC, 0x9E9D48AD, 0x97F3F72E, 0xCFFAE03C, 0x1A6134D8, 0x2FC1E4DD, 0x3B9C1D41,
      0x0270C4AC, 0x1701F6DD, 0x777A49E6, 0xC81C7C22, 0x5909BEE8, 0x5689C44B, 0x0E6393CC, 0x5144F36C,
      0xAE88D62E, 0x11E0C7D5, 0xA4BF9E3E, 0xCC9B82DB, 0xAA58DFC2, 0x95F27B82, 0x0C37ACD4, 0xAC2F7A07,
      0xDCCBECB5, 0xC68BD3AD, 0x69764450, 0x9E30798A, 0xE6F4C52E, 0x6CBB5CF1, 0x8D18ADE5, 0xD1B46B36,
      0xAD3A21B9, 0xE37AE2F7, 0x5759B49D, 0x8CF9B4FB, 0x32BF5214, 0x57454ED2, 0xB094145A, 0xC20B44C5,
      0xE02ACFAE, 0x5BAD8A0A, 0x7632E312, 0x894264ED, 0x6180F56C, 0x5A551689, 0xD1B80E02, 0x4F61B581,
      0x0A7D93BB, 0x29AECBD3, 0x3089BEA2, 0xB944408D, 0x5A1DE2E5, 0xE5CBEBDC, 0xFEE6ED4E, 0x65CC849C,
      0x72EC34B3, 0x504501C7, 0x5983A27F, 0x1CCCAF2A, 0x5F35CB47, 0x82E317C5, 0x96E37F23, 0xDFD64E22,
      0x35B8C8B4, 0xEB90C242, 0xA74821DB, 0x3082DD7D, 0x82AA1EB1, 0xDF1804E6, 0xF17766EA, 0x04A2B4B7,
      0x1339A829, 0xB9E180BE, 0x5DFC02F7, 0xF62344D9, 0xE4E9C4C2, 0x2217407D, 0x948A70F3, 0x46361439,
      0x21A3F2E9, 0x537D415A, 0x6058E22F, 0x0A74BAF2, 0x7CD7258A, 0x38B09FD3, 0xBCCBBCF5, 0x8835F7AA,
      0x2BD7BFA0, 0x5A5155BA, 0x7DA575D8, 0xCBF6F8D0, 0x40B77A7D, 0x78FE5DEA, 0x7D378FB8, 0xA50F498F,
      0x8C8370E0, 0x87485F95, 0x1D6C92A7, 0xD77AAC51, 0xACB164B3, 0xD4312513, 0x4FF2ECEB, 0x6049A0DE,
      0x0426BCE8, 0x541E05E7, 0x2B9D55C5, 0x4726137E, 0x4A8062DF, 0xFBAC45DA, 0xBFB0EBE9, 0xDEF6EFB8,
      0xA17EB9BE, 0xD65A8559, 0x37EA5D98, 0xF2D9D74B, 0xBBD5634B, 0xE11EBACC, 0x27A49A55, 0xE748E3E7,
      0x73EC42B4, 0xD23AD3BA, 0x2C6A8967, 0xAD01EEB0, 0x0917A370, 0x9BA6EAA3, 0x28A92E2B, 0xF6355CB6,
      0x4EA32B96, 0xB90C0F47, 0xDEE405D5, 0xD449AFCE, 0x3C8E7C63, 0x5DF1924C, 0x0F99CF36, 0x2A6173A9,
      0x76929070, 0x106574E1, 0x9DF3AE4B, 0x4CECB6C9, 0x539CDE0D, 0x373B45A4, 0x75D792A5, 0x2E4466FF,
      0x886BA96A, 0xB1238E82, 0xC027537D, 0x633AB3A0, 0x57F925E0, 0x382514F4]"

text \<open>The table is declared with 256 elements; those without an initialiser are zero.\<close>

definition buzhash_entry :: "byte \<Rightarrow> u32" where
  "buzhash_entry b = (if unat b < length buzhash_table then buzhash_table ! unat b else 0)"

definition buzhash :: "byte list \<Rightarrow> u32" where
  "buzhash data =
     foldl (\<lambda>hash b. (push_bit 1 hash OR drop_bit 31 hash) XOR buzhash_entry b) 0 data"

definition cdc_window :: "byte list \<Rightarrow> nat \<Rightarrow> byte list" where
  "cdc_window data i =
     (let windowSize = 48;
          windowStart = (if i \<ge> windowSize then i - windowSize else 0);
          windowLen = min windowSize (length data - windowStart)
      in take windowLen (drop windowStart data))"

text \<open>One iteration: the boundaries found and the last of them.\<close>

definition cdc_step :: "ChunkConfig \<Rightarrow> byte list \<Rightarrow> nat list \<times> nat \<Rightarrow> nat \<Rightarrow> nat list \<times> nat" where
  "cdc_step config data = (\<lambda>(boundaries, lastBoundary) i.
     if i - lastBoundary \<ge> cc_maxChunkSize config then (boundaries @ [i], i)
     else if i - lastBoundary < cc_minChunkSize config then (boundaries, lastBoundary)
     else if buzhash (cdc_window data i) AND (word_of_nat (cc_avgChunkSize config) - 1) = 0
     then (boundaries @ [i], i)
     else (boundaries, lastBoundary))"

definition findChunkBoundaries :: "ChunkConfig \<Rightarrow> byte list \<Rightarrow> nat list" where
  "findChunkBoundaries config data =
     (if length data \<le> cc_maxChunkSize config then []
      else fst (foldl (cdc_step config data) ([], 0) [cc_minChunkSize config..<length data]))"

text \<open>The loop of \<^verbatim>\<open>findFixedBoundaries\<close>; \<open>None\<close> when it never ends.\<close>

partial_function (option) fixed_loop :: "nat \<Rightarrow> nat \<Rightarrow> nat \<Rightarrow> nat list \<Rightarrow> nat list option" where
  "fixed_loop maxSize dataSize i boundaries =
     (if i < dataSize then fixed_loop maxSize dataSize ((i + maxSize) mod 2 ^ 64) (boundaries @ [i])
      else Some boundaries)"

definition findFixedBoundaries :: "ChunkConfig \<Rightarrow> nat \<Rightarrow> nat list option" where
  "findFixedBoundaries config dataSize =
     fixed_loop (cc_maxChunkSize config) dataSize (cc_maxChunkSize config) []"

section \<open>The chunk table\<close>

text \<open>\<^verbatim>\<open>*reinterpret_cast<const uint64_t*>(hash.data())\<close>\<close>

definition hash_key :: "ChecksumValue \<Rightarrow> u64" where
  "hash_key hash = from_le (take 8 hash)"

definition cm_computeHash :: "digest_fn \<Rightarrow> ChunkManager \<Rightarrow> byte list \<Rightarrow> ChecksumValue" where
  "cm_computeHash digest m data = ce_compute digest (cc_hashAlgorithm (cm_config m)) data"

definition findOrCreateChunk :: "digest_fn \<Rightarrow> ChunkManager \<Rightarrow> byte list \<Rightarrow> (ChunkDescriptor \<times> ChunkManager) cpp" where
  "findOrCreateChunk digest m data =
     (let hash = cm_computeHash digest m data in
      case cm_hashIndex m (hash_key hash) of
        Some i \<Rightarrow> bind_cpp (vec_at (cm_chunks m) i) (\<lambda>c. Inr (c, m))
      | None \<Rightarrow>
          let desc = default_chunk\<lparr>cd_hash := hash, cd_originalSize := size64 (length data),
                       cd_compressedSize := 0, cd_compression := CNone, cd_encrypted := False\<rparr>;
              m = m\<lparr>cm_chunks := cm_chunks m @ [desc]\<rparr>;
              m = m\<lparr>cm_hashIndex := (cm_hashIndex m)(hash_key hash \<mapsto> length (cm_chunks m) - 1),
                    cm_totalDataSize := cm_totalDataSize m + size64 (length data),
                    cm_totalStoredSize := cm_totalStoredSize m + size64 (length data)\<rparr>
          in Inr (desc, m))"

text \<open>The loop of \<^verbatim>\<open>chunkData\<close> over the boundaries, and the rest behind the last of them.
  \<^verbatim>\<open>subspan\<close> beyond the end is undefined, and \<^verbatim>\<open>boundary - start\<close> must not wrap.\<close>

fun chunk_loop :: "digest_fn \<Rightarrow> byte list \<Rightarrow> nat list \<Rightarrow> nat \<Rightarrow> ChunkManager \<Rightarrow>
    (ChunkDescriptor list \<times> ChunkManager) cpp" where
  "chunk_loop digest data [] start m =
     (if start < length data
      then bind_cpp (findOrCreateChunk digest m (drop start data)) (\<lambda>(d, m). Inr ([d], m))
      else Inr ([], m))"
| "chunk_loop digest data (boundary # boundaries) start m =
     (if start \<le> boundary \<and> boundary \<le> length data
      then bind_cpp (findOrCreateChunk digest m (take (boundary - start) (drop start data))) (\<lambda>(d, m).
           bind_cpp (chunk_loop digest data boundaries boundary m) (\<lambda>(ds, m). Inr (d # ds, m)))
      else Inl Undefined_behaviour)"

definition chunkData :: "digest_fn \<Rightarrow> ChunkManager \<Rightarrow> byte list \<Rightarrow> (ChunkDescriptor list \<times> ChunkManager) cpp option" where
  "chunkData digest m data =
     (case (if cc_dedupStrategy (cm_config m) = DedupContent
            then Some (findChunkBoundaries (cm_config m) data)
            else findFixedBoundaries (cm_config m) (length data)) of
        None \<Rightarrow> None
      | Some boundaries \<Rightarrow> Some (chunk_loop digest data boundaries 0 m))"

definition hasChunk :: "ChunkManager \<Rightarrow> ChecksumValue \<Rightarrow> bool" where
  "hasChunk m hash \<longleftrightarrow> cm_hashIndex m (hash_key hash) \<noteq> None"

definition getChunk :: "ChunkManager \<Rightarrow> ChecksumValue \<Rightarrow> ChunkDescriptor rd" where
  "getChunk m hash =
     (case cm_hashIndex m (hash_key hash) of
        None \<Rightarrow> Inr None
      | Some i \<Rightarrow> bind_cpp (vec_at (cm_chunks m) i) (\<lambda>c. Inr (Some c)))"

text \<open>\<^verbatim>\<open>chunkStorage_.push_back(\<dots>)\<close>: a full buffer is replaced.\<close>

definition storage_push :: "(nat \<Rightarrow> nat) \<Rightarrow> ChunkGlobals \<Rightarrow> u64 \<Rightarrow> ChunkGlobals" where
  "storage_push grow g x =
     (let g = (if length (cg_storage g) = cg_capacity g
               then g\<lparr>cg_buffer := cg_buffer g + 1, cg_capacity := grow (cg_capacity g)\<rparr> else g)
      in g\<lparr>cg_storage := cg_storage g @ [x]\<rparr>)"

definition registerChunk :: "(nat \<Rightarrow> nat) \<Rightarrow> ChunkManager \<times> ChunkGlobals \<Rightarrow> ChunkDescriptor \<Rightarrow> ChunkManager \<times> ChunkGlobals" where
  "registerChunk grow = (\<lambda>(m, g) chunk.
     let k = hash_key (cd_hash chunk) in
     if cm_hashIndex m k \<noteq> None then (m, g)
     else
       let m = m\<lparr>cm_chunks := cm_chunks m @ [chunk]\<rparr>;
           m = m\<lparr>cm_hashIndex := (cm_hashIndex m)(k \<mapsto> length (cm_chunks m) - 1)\<rparr>;
           g = storage_push grow g (size64 (length (cm_chunks m) - 1));
           g = g\<lparr>cg_cache := (cg_cache g)(k \<mapsto> Storage_ptr (cg_buffer g) (length (cg_storage g) - 1))\<rparr>
       in (m\<lparr>cm_totalDataSize := cm_totalDataSize m + cd_originalSize chunk,
             cm_totalStoredSize := cm_totalStoredSize m + cd_compressedSize chunk\<rparr>, g))"

definition dedupRatio :: "ChunkManager \<Rightarrow> real" where
  "dedupRatio m =
     (if cm_totalDataSize m = 0 then 1
      else real (unat (cm_totalStoredSize m)) / real (unat (cm_totalDataSize m)))"

definition cm_clear :: "ChunkManager \<Rightarrow> ChunkManager" where
  "cm_clear m = m\<lparr>cm_chunks := [], cm_hashIndex := Map.empty, cm_totalDataSize := 0, cm_totalStoredSize := 0\<rparr>"

text \<open>\<^verbatim>\<open>addChunk\<close> stores the address of a local variable.  \<^verbatim>\<open>compact\<close> leaves the cache and the
  totals as they are.\<close>

definition addChunk :: "ChunkGlobals \<Rightarrow> u64 \<Rightarrow> ChunkGlobals" where
  "addChunk g cid = g\<lparr>cg_cache := (cg_cache g)(cid \<mapsto> Stack_ptr)\<rparr>"

definition cm_compact :: "ChunkManager \<times> ChunkGlobals \<Rightarrow> ChunkManager \<times> ChunkGlobals" where
  "cm_compact = (\<lambda>(m, g). (m\<lparr>cm_chunks := [], cm_hashIndex := Map.empty\<rparr>, g\<lparr>cg_storage := []\<rparr>))"

definition getChunkCached :: "ChunkGlobals \<Rightarrow> u64 \<Rightarrow> chunk_ptr option" where
  "getChunkCached g cid = (case cg_cache g cid of None \<Rightarrow> None | Some p \<Rightarrow> Some p)"

text \<open>\<^verbatim>\<open>isUnused\<close> through a pointer of the cache.\<close>

definition isUnused :: "ChunkGlobals \<Rightarrow> chunk_ptr \<Rightarrow> bool cpp" where
  "isUnused g p =
     (case p of
        Stack_ptr \<Rightarrow> Inl Undefined_behaviour
      | Storage_ptr buffer i \<Rightarrow>
          if buffer = cg_buffer g \<and> i < length (cg_storage g) then Inr (cg_storage g ! i = 0)
          else Inl Undefined_behaviour)"

definition processChunk :: "(nat \<Rightarrow> nat) \<Rightarrow> ChunkManager \<times> ChunkGlobals \<Rightarrow> ChunkDescriptor \<Rightarrow> ChunkManager \<times> ChunkGlobals" where
  "processChunk grow s chunk = (if cd_originalSize chunk < 64 then registerChunk grow s chunk else s)"

text \<open>The range-based loop of \<^verbatim>\<open>processAll\<close>: a push into the vector it iterates over invalidates
  the end iterator.\<close>

fun process_loop :: "(nat \<Rightarrow> nat) \<Rightarrow> ChunkDescriptor list \<Rightarrow> ChunkManager \<times> ChunkGlobals \<Rightarrow> (ChunkManager \<times> ChunkGlobals) cpp" where
  "process_loop grow [] s = Inr s"
| "process_loop grow (c # cs) s =
     (let s' = processChunk grow s c in
      if length (cm_chunks (fst s')) \<noteq> length (cm_chunks (fst s)) then Inl Undefined_behaviour
      else process_loop grow cs s')"

definition processAll :: "(nat \<Rightarrow> nat) \<Rightarrow> ChunkManager \<times> ChunkGlobals \<Rightarrow> (ChunkManager \<times> ChunkGlobals) cpp" where
  "processAll grow s = process_loop grow (cm_chunks (fst s)) s"

section \<open>Serialisation\<close>

definition serialize_chunk :: "ChunkDescriptor \<Rightarrow> byte list" where
  "serialize_chunk c =
     cd_hash c @ encode (cd_offset c) @ encode (cd_compressedSize c) @ encode (cd_originalSize c) @
     [compression_to_byte (cd_compression c), if cd_encrypted c then 1 else 0]"

definition cm_serialize :: "ChunkManager \<Rightarrow> byte list" where
  "cm_serialize m =
     encode (size64 (length (cm_chunks m))) @ concat (map serialize_chunk (cm_chunks m))"

text \<open>The last two reads are unchecked.\<close>

definition read_chunk :: "byte list \<Rightarrow> nat \<Rightarrow> (ChunkDescriptor \<times> nat) rd" where
  "read_chunk data off =
     bind_rd (read_block data off 32) (\<lambda>(hash, off).
     bind_rd (read_varint data off) (\<lambda>(offs, off).
     bind_rd (read_varint data off) (\<lambda>(cs, off).
     bind_rd (read_varint data off) (\<lambda>(os, off).
     bind_cpp (read_byte data off) (\<lambda>(comp, off).
     bind_cpp (read_byte data off) (\<lambda>(encr, off).
     Inr (Some (\<lparr>cd_hash = hash, cd_offset = offs, cd_compressedSize = cs, cd_originalSize = os,
                 cd_compression = compression_of_byte comp, cd_encrypted = (encr \<noteq> 0)\<rparr>, off))))))))"

definition cm_deserialize :: "(nat \<Rightarrow> nat) \<Rightarrow> ChunkManager \<times> ChunkGlobals \<Rightarrow> byte list \<Rightarrow>
    (ErrorCode \<times> ChunkManager \<times> ChunkGlobals) cpp" where
  "cm_deserialize grow = (\<lambda>(m, g) data.
     let m = cm_clear m in
     else_ret (read_varint data 0) (CorruptChunkTable, m, g) (\<lambda>(count, off).
     if unat count > 1024 * 1024 then Inr (CorruptChunkTable, m, g)
     else if off \<le> length data \<and> unat count > (length data - off) div 37 then Inr (CorruptChunkTable, m, g)
     else
       bind_cpp (read_upto read_chunk (unat count) data off) (\<lambda>(cs, end).
       let (m, g) = foldl (registerChunk grow) (m, g) cs in
       Inr (case end of None \<Rightarrow> (CorruptChunkTable, m, g) | Some _ \<Rightarrow> (Success, m, g)))))"

section \<open>Cutting the data\<close>

text \<open>The pieces between boundaries, and how far apart the boundaries are.\<close>

fun cut_at :: "nat \<Rightarrow> nat list \<Rightarrow> 'a list \<Rightarrow> 'a list list" where
  "cut_at start [] data = (if start < length data then [drop start data] else [])"
| "cut_at start (b # bs) data = take (b - start) (drop start data) # cut_at b bs data"

fun gaps :: "nat \<Rightarrow> nat \<Rightarrow> nat \<Rightarrow> nat list \<Rightarrow> bool" where
  "gaps lo hi start [] = True"
| "gaps lo hi start (b # bs) = (start + lo \<le> b \<and> b \<le> start + hi \<and> gaps lo hi b bs)"

lemma gaps_append:
  "gaps lo hi start (bs @ [b]) \<longleftrightarrow> gaps lo hi start bs \<and> last (start # bs) + lo \<le> b \<and> b \<le> last (start # bs) + hi"
  by (induction bs arbitrary: start) auto

text \<open>The contract of a boundary finder: for the configurations it is made for, the boundaries are
  within the data and at least \<open>lo\<close> and at most \<open>hi\<close> apart, the end of the data included.\<close>

locale chunker =
  fixes fits :: "'c \<Rightarrow> bool" and bounds :: "'c \<Rightarrow> byte list \<Rightarrow> nat list" and lo hi :: "'c \<Rightarrow> nat"
  assumes bounds_gaps: "fits c \<Longrightarrow> length data < 2 ^ 63 \<Longrightarrow> gaps (lo c) (hi c) 0 (bounds c data)"
    and bounds_within: "fits c \<Longrightarrow> length data < 2 ^ 63 \<Longrightarrow> b \<in> set (bounds c data) \<Longrightarrow> b \<le> length data"
    and bounds_tail: "fits c \<Longrightarrow> length data < 2 ^ 63 \<Longrightarrow> length data \<le> last (0 # bounds c data) + hi c"
begin

lemma concat_cut:
  "gaps l h start bs \<Longrightarrow> \<forall>b \<in> set bs. b \<le> length data \<Longrightarrow> concat (cut_at start bs data) = drop start data"
proof (induction bs arbitrary: start)
  case (Cons b bs)
  then have "concat (cut_at b bs data) = drop (b - start) (drop start data)"
    by simp
  then show ?case
    using append_take_drop_id [of "b - start" "drop start data"] by simp
qed simp

lemma cut_le:
  "gaps l h start bs \<Longrightarrow> length data \<le> last (start # bs) + h \<Longrightarrow> p \<in> set (cut_at start bs data) \<Longrightarrow> length p \<le> h"
proof (induction bs arbitrary: start)
  case (Cons b bs)
  from Cons.prems(3) consider "p = take (b - start) (drop start data)" | "p \<in> set (cut_at b bs data)"
    by auto
  then show ?case
  proof cases
    case 2
    with Cons show ?thesis by (intro Cons.IH [of b]) auto
  qed (use Cons.prems in auto)
qed (auto split: if_splits)

lemma cut_nonempty_butlast:
  "gaps l h start bs \<Longrightarrow> \<forall>b \<in> set bs. b \<le> length data \<Longrightarrow> p \<in> set (butlast (cut_at start bs data)) \<Longrightarrow> l \<le> length p"
proof (induction bs arbitrary: start)
  case (Cons b bs)
  from Cons.prems(3) consider "p = take (b - start) (drop start data)" | "p \<in> set (butlast (cut_at b bs data))"
    by (auto split: if_splits)
  then show ?case
  proof cases
    case 2
    with Cons show ?thesis by (intro Cons.IH [of b]) auto
  qed (use Cons.prems in auto)
qed (auto split: if_splits)

text \<open>The pieces are the data, cut: none is longer than \<open>hi\<close>, and only the last can be shorter
  than \<open>lo\<close>.\<close>

lemma chunked:
  assumes "fits c" "length data < 2 ^ 63" "ps = cut_at 0 (bounds c data) data"
  shows "concat ps = data \<and> (\<forall>p \<in> set ps. length p \<le> hi c) \<and> (\<forall>p \<in> set (butlast ps). lo c \<le> length p)"
proof (intro conjI ballI)
  note g = bounds_gaps [OF assms(1,2)]
  have w: "\<forall>b \<in> set (bounds c data). b \<le> length data"
    using bounds_within [OF assms(1,2)] by blast
  show "concat ps = data"
    using concat_cut [OF g w] assms(3) by simp
  show "length p \<le> hi c" if "p \<in> set ps" for p
    using cut_le [OF g bounds_tail [OF assms(1,2)]] that assms(3) by simp
  show "lo c \<le> length p" if "p \<in> set (butlast ps)" for p
    using cut_nonempty_butlast [OF g w] that assms(3) by simp
qed

end

section \<open>Content-defined boundaries\<close>

definition content_ok :: "ChunkConfig \<Rightarrow> bool" where
  "content_ok c \<longleftrightarrow> 0 < cc_minChunkSize c \<and> cc_minChunkSize c \<le> cc_maxChunkSize c"

lemma cdc_invariant:
  assumes "content_ok c" "cc_minChunkSize c \<le> n"
  shows "case foldl (cdc_step c data) ([], 0) [cc_minChunkSize c..<n] of (bs, l) \<Rightarrow>
    l = last (0 # bs) \<and> gaps (cc_minChunkSize c) (cc_maxChunkSize c) 0 bs \<and> (\<forall>b \<in> set bs. b < n) \<and>
    l \<le> n \<and> n - l \<le> cc_maxChunkSize c"
  using assms(2)
proof (induction n rule: dec_induct)
  case base
  then show ?case
    using assms by (simp add: content_ok_def)
next
  case (step n)
  obtain bs l where s: "foldl (cdc_step c data) ([], 0) [cc_minChunkSize c..<n] = (bs, l)"
    by (cases "foldl (cdc_step c data) ([], 0) [cc_minChunkSize c..<n]")
  have "foldl (cdc_step c data) ([], 0) [cc_minChunkSize c..<Suc n] = cdc_step c data (bs, l) n"
    using step.hyps s by simp
  moreover have "gaps (cc_minChunkSize c) (cc_maxChunkSize c) 0 (bs @ [n])"
    if "cc_minChunkSize c \<le> n - l" "n - l \<le> cc_maxChunkSize c"
    using step.IH s that assms(1) by (auto simp: gaps_append content_ok_def)
  ultimately show ?case
    using step.IH s assms(1) by (auto simp: cdc_step_def content_ok_def less_Suc_eq)
qed

interpretation cdc: chunker content_ok findChunkBoundaries cc_minChunkSize cc_maxChunkSize
proof
  fix c and data :: "byte list" and b
  assume ok: "content_ok c"
  show "gaps (cc_minChunkSize c) (cc_maxChunkSize c) 0 (findChunkBoundaries c data)"
    using cdc_invariant [OF ok, of "length data" data] ok
    by (auto simp: findChunkBoundaries_def content_ok_def split: prod.splits)
  show "b \<le> length data" if "b \<in> set (findChunkBoundaries c data)"
    using cdc_invariant [OF ok, of "length data" data] ok that
    by (auto simp: findChunkBoundaries_def content_ok_def split: prod.splits if_splits)
  show "length data \<le> last (0 # findChunkBoundaries c data) + cc_maxChunkSize c"
    using cdc_invariant [OF ok, of "length data" data] ok
    by (auto simp: findChunkBoundaries_def content_ok_def split: prod.splits if_splits)
qed

section \<open>Fixed boundaries\<close>

lemma fixed_loop_returns:
  assumes "0 < h" "n < 2 ^ 63" "h \<le> i"
  shows "\<exists>bs. fixed_loop h n i acc = Some (acc @ bs) \<and> gaps h h (i - h) bs \<and> (\<forall>b \<in> set bs. b < n) \<and>
    n \<le> last ((i - h) # bs) + h"
  using assms(3)
proof (induction "n - i" arbitrary: i acc rule: less_induct)
  case less
  show ?case
  proof (cases "i < n")
    case True
    then have ih: "(i + h) mod 2 ^ 64 = i + h"
      using assms less.prems by simp
    have "n - (i + h) < n - i" "h \<le> i + h"
      using True assms(1) by auto
    from less.hyps [OF this, of "acc @ [i]"] obtain bs where
      bs: "fixed_loop h n (i + h) (acc @ [i]) = Some (acc @ i # bs)" "gaps h h i bs" "\<forall>b \<in> set bs. b < n"
        "n \<le> last (i # bs) + h"
      by auto
    have "fixed_loop h n i acc = Some (acc @ i # bs)"
      using True bs(1) ih by (subst fixed_loop.simps) simp
    with bs less.prems True show ?thesis
      by (intro exI [of _ "i # bs"]) auto
  next
    case False
    then have "fixed_loop h n i acc = Some acc"
      by (subst fixed_loop.simps) simp
    with False less.prems show ?thesis
      by (intro exI [of _ "[]"]) auto
  qed
qed

lemma fixed_loop_diverges: "i < n \<Longrightarrow> n < 2 ^ 63 \<Longrightarrow> fixed_loop 0 n i acc = None"
proof -
  have "fixed_loop h n i acc = Some r \<Longrightarrow> h = 0 \<and> i < n \<and> n < 2 ^ 63 \<longrightarrow> False" for h n i acc r
    by (erule fixed_loop.raw_induct [rotated]) (fastforce split: if_splits)
  then show "i < n \<Longrightarrow> n < 2 ^ 63 \<Longrightarrow> ?thesis"
    by (cases "fixed_loop 0 n i acc") blast+
qed

definition fixed_ok :: "ChunkConfig \<Rightarrow> bool" where
  "fixed_ok c \<longleftrightarrow> 0 < cc_maxChunkSize c"

lemma fixed_returns:
  assumes "fixed_ok c" "n < 2 ^ 63"
  shows "\<exists>bs. findFixedBoundaries c n = Some bs \<and> gaps (cc_maxChunkSize c) (cc_maxChunkSize c) 0 bs \<and>
    (\<forall>b \<in> set bs. b < n) \<and> n \<le> last (0 # bs) + cc_maxChunkSize c"
  using fixed_loop_returns [of "cc_maxChunkSize c" n "cc_maxChunkSize c" "[]"] assms
  by (auto simp: findFixedBoundaries_def fixed_ok_def)

interpretation fixed: chunker fixed_ok "\<lambda>c data. the (findFixedBoundaries c (length data))" cc_maxChunkSize cc_maxChunkSize
  by unfold_locales (use fixed_returns in fastforce)+

text \<open>C29: fixed-size chunking returns on every input exactly when the chunk size is positive or
  there is nothing to cut; with the chunk size 0 the loop never advances.\<close>

theorem fixed_boundaries_return:
  assumes "n < 2 ^ 63"
  shows "(\<exists>bs. findFixedBoundaries c n = Some bs) \<longleftrightarrow> 0 < cc_maxChunkSize c \<or> n = 0"
proof (cases "cc_maxChunkSize c = 0")
  case True
  then show ?thesis
    using fixed_loop_diverges [of 0 n "[]"] assms
    by (cases n) (auto simp: findFixedBoundaries_def fixed_loop.simps [of 0 0])
qed (use fixed_returns [of c n] assms in \<open>auto simp: fixed_ok_def\<close>)

theorem fixed_boundaries_return_witness:
  "(\<exists>bs. findFixedBoundaries default_ChunkConfig 5000000 = Some bs) \<and>
   findFixedBoundaries (default_ChunkConfig\<lparr>cc_maxChunkSize := 0\<rparr>) 1 = None"
  using fixed_boundaries_return [of 5000000 default_ChunkConfig]
    fixed_boundaries_return [of 1 "default_ChunkConfig\<lparr>cc_maxChunkSize := 0\<rparr>"]
  by (simp add: default_ChunkConfig_def kMaxChunkSize_def)

text \<open>C28: content-defined chunking with a positive minimum not above the maximum cuts the data into
  pieces that concatenate to it, none longer than the maximum, and only the last shorter
  than the minimum.\<close>

theorem content_chunks:
  assumes "content_ok c" "length data < 2 ^ 63" "ps = cut_at 0 (findChunkBoundaries c data) data"
  shows "concat ps = data \<and> (\<forall>p \<in> set ps. length p \<le> cc_maxChunkSize c) \<and>
    (\<forall>p \<in> set (butlast ps). cc_minChunkSize c \<le> length p)"
  by (rule cdc.chunked [OF assms])

definition tiny_config :: ChunkConfig where
  "tiny_config = default_ChunkConfig\<lparr>cc_minChunkSize := 2, cc_maxChunkSize := 3, cc_avgChunkSize := 4\<rparr>"

theorem content_chunks_witness:
  "concat (cut_at 0 (findChunkBoundaries tiny_config [1, 2, 3, 4, 5, 6, 7]) [1, 2, 3, 4, 5, 6, 7]) = [1, 2, 3, 4, 5, 6, 7 :: byte]"
  using content_chunks [of tiny_config "[1, 2, 3, 4, 5, 6, 7]", OF _ _ refl]
  by (simp add: content_ok_def tiny_config_def default_ChunkConfig_def)

text \<open>The table of the rolling hash lacks its last 42 entries: a window of bytes from 214 on
  hashes to 0, and every position that is far enough from the last boundary becomes one.\<close>

lemma length_buzhash_table: "length buzhash_table = 214"
  by (simp add: buzhash_table_def)

lemma buzhash_high: "\<forall>b \<in> set data. 214 \<le> b \<Longrightarrow> buzhash data = 0"
proof (induction data rule: rev_induct)
  case (snoc b data)
  then have "buzhash_entry b = 0"
    by (simp add: buzhash_entry_def length_buzhash_table word_le_nat_alt)
  with snoc show ?case
    by (simp add: buzhash_def)
qed (simp add: buzhash_def)

lemma cdc_high_bytes:
  assumes ok: "content_ok c" "cc_minChunkSize c < cc_maxChunkSize c" and high: "\<forall>b \<in> set data. 214 \<le> b"
    and n: "cc_minChunkSize c \<le> n"
  shows "\<exists>bs. foldl (cdc_step c data) ([], 0) [cc_minChunkSize c..<n] = (bs, last (0 # bs)) \<and>
    gaps (cc_minChunkSize c) (cc_minChunkSize c) 0 bs \<and> last (0 # bs) \<le> n \<and> n - last (0 # bs) \<le> cc_minChunkSize c"
  using n
proof (induction n rule: dec_induct)
  case (step n)
  then obtain bs where bs: "foldl (cdc_step c data) ([], 0) [cc_minChunkSize c..<n] = (bs, last (0 # bs))"
    "gaps (cc_minChunkSize c) (cc_minChunkSize c) 0 bs" "last (0 # bs) \<le> n" "n - last (0 # bs) \<le> cc_minChunkSize c"
    by blast
  have "buzhash (cdc_window data n) = 0"
    using high by (intro buzhash_high) (auto simp: cdc_window_def Let_def dest: in_set_takeD in_set_dropD)
  then have st: "cdc_step c data (bs, last (0 # bs)) n =
      (if n - last (0 # bs) < cc_minChunkSize c then (bs, last (0 # bs)) else (bs @ [n], n))"
    using ok bs(4) by (simp add: cdc_step_def)
  show ?case
  proof (cases "n - last (0 # bs) < cc_minChunkSize c")
    case True
    with bs st step.hyps show ?thesis
      by (intro exI [of _ bs]) (auto simp del: last.simps)
  next
    case False
    with bs st step.hyps ok show ?thesis
      by (intro exI [of _ "bs @ [n]"]) (auto simp: gaps_append content_ok_def last_ConsR simp del: last.simps)
  qed
qed simp

text \<open>Data of bytes from 214 on, such as a block of 0xFF, is cut at every multiple of the
  minimum chunk size: the table of the rolling hash has only 214 of its 256 entries.\<close>

theorem content_chunks_degenerate:
  assumes "content_ok c" "cc_minChunkSize c < cc_maxChunkSize c" "cc_maxChunkSize c < length data"
    "\<forall>b \<in> set data. 214 \<le> b"
  shows "gaps (cc_minChunkSize c) (cc_minChunkSize c) 0 (findChunkBoundaries c data) \<and>
    length data \<le> last (0 # findChunkBoundaries c data) + cc_minChunkSize c"
  using cdc_high_bytes [OF assms(1,2,4), of "length data"] assms(2,3)
  by (auto simp: findChunkBoundaries_def)

theorem content_chunks_degenerate_witness:
  "gaps 2 2 0 (findChunkBoundaries tiny_config (replicate 8 255)) \<and>
   8 \<le> last (0 # findChunkBoundaries tiny_config (replicate 8 255)) + 2"
proof -
  let ?d = "replicate 8 255 :: byte list"
  have "content_ok tiny_config" "cc_minChunkSize tiny_config < cc_maxChunkSize tiny_config"
    "cc_maxChunkSize tiny_config < length ?d" "\<forall>b \<in> set ?d. 214 \<le> b"
    by (simp_all add: content_ok_def tiny_config_def)
  from content_chunks_degenerate [OF this] show ?thesis
    by (simp add: tiny_config_def)
qed

section \<open>The index of the table\<close>

text \<open>The index holds the position of every chunk under its key, and nothing else.\<close>

definition cm_exact :: "ChunkManager \<Rightarrow> bool" where
  "cm_exact m \<longleftrightarrow>
     (\<forall>i \<in> {0..<length (cm_chunks m)}. cm_hashIndex m (hash_key (cd_hash (cm_chunks m ! i))) = Some i) \<and>
     (\<forall>k \<in> dom (cm_hashIndex m). \<exists>i \<in> {0..<length (cm_chunks m)}. hash_key (cd_hash (cm_chunks m ! i)) = k)"

lemma cm_exact_iff:
  "cm_exact m \<longleftrightarrow> (\<forall>k i. cm_hashIndex m k = Some i \<longleftrightarrow>
     i < length (cm_chunks m) \<and> hash_key (cd_hash (cm_chunks m ! i)) = k)"
  unfolding cm_exact_def by (auto 0 3 simp: dom_def)

lemma cm_exact_new [simp]: "cm_exact (newChunkManager c)"
  by (simp add: cm_exact_def newChunkManager_def)

lemma cm_exact_clear: "cm_exact (cm_clear m)"
  by (simp add: cm_exact_def cm_clear_def)

lemma cm_exact_push:
  assumes "cm_exact m" "cm_hashIndex m (hash_key (cd_hash c)) = None"
    "cm_chunks m' = cm_chunks m @ [c]" "cm_hashIndex m' = (cm_hashIndex m)(hash_key (cd_hash c) \<mapsto> length (cm_chunks m))"
  shows "cm_exact m'"
proof -
  have "hash_key (cd_hash (cm_chunks m ! i)) \<noteq> hash_key (cd_hash c)" if "i < length (cm_chunks m)" for i
    using assms(1,2) that unfolding cm_exact_iff by (metis option.distinct(1))
  with assms show ?thesis
    unfolding cm_exact_iff by (auto simp: nth_append less_Suc_eq split: if_splits)
qed

text \<open>What the index is for: the first chunk of the table with the key.\<close>

abbreviation chunk_of :: "ChunkManager \<Rightarrow> u64 \<Rightarrow> ChunkDescriptor option" where
  "chunk_of m k \<equiv> find (\<lambda>c. hash_key (cd_hash c) = k) (cm_chunks m)"

lemma find_SomeD: "find P xs = Some x \<Longrightarrow> x \<in> set xs \<and> P x"
  by (auto simp: find_Some_iff)

lemma exact_chunk_of:
  assumes "cm_exact m"
  shows "chunk_of m k = (case cm_hashIndex m k of None \<Rightarrow> None | Some i \<Rightarrow> Some (cm_chunks m ! i))"
proof (cases "cm_hashIndex m k")
  case None
  then have "hash_key (cd_hash c) \<noteq> k" if "c \<in> set (cm_chunks m)" for c
    using assms that unfolding cm_exact_iff by (metis in_set_conv_nth option.distinct(1))
  with None show ?thesis
    by (auto simp: find_None_iff)
next
  case (Some i)
  then have "i < length (cm_chunks m)" "hash_key (cd_hash (cm_chunks m ! i)) = k"
    using assms unfolding cm_exact_iff by auto
  moreover have "hash_key (cd_hash (cm_chunks m ! j)) \<noteq> k" if "j < i" for j
  proof
    assume "hash_key (cd_hash (cm_chunks m ! j)) = k"
    then have "cm_hashIndex m k = Some j"
      using assms that \<open>i < length (cm_chunks m)\<close> unfolding cm_exact_iff by auto
    with Some that show False by simp
  qed
  ultimately show ?thesis
    using Some by (auto simp: find_Some_iff)
qed

lemma exact_index_less: "cm_exact m \<Longrightarrow> cm_hashIndex m k = Some i \<Longrightarrow> i < length (cm_chunks m)"
  by (simp add: cm_exact_iff)

lemma getChunk_chunk_of: "cm_exact m \<Longrightarrow> getChunk m h = Inr (chunk_of m (hash_key h))"
  by (auto simp: getChunk_def exact_chunk_of dest: exact_index_less split: option.split)

lemma hasChunk_chunk_of: "cm_exact m \<Longrightarrow> hasChunk m h \<longleftrightarrow> chunk_of m (hash_key h) \<noteq> None"
  by (simp add: hasChunk_def exact_chunk_of split: option.split)

definition fresh_chunk :: "ChecksumValue \<Rightarrow> byte list \<Rightarrow> ChunkDescriptor" where
  "fresh_chunk h data = default_chunk\<lparr>cd_hash := h, cd_originalSize := size64 (length data)\<rparr>"

lemma findOrCreate_known:
  "cm_exact m \<Longrightarrow> chunk_of m (hash_key (cm_computeHash digest m data)) = Some d \<Longrightarrow>
   findOrCreateChunk digest m data = Inr (d, m)"
  by (auto simp: findOrCreateChunk_def exact_chunk_of Let_def dest: exact_index_less split: option.splits)

lemma findOrCreate_ok:
  assumes "cm_exact m"
  shows "\<exists>d m' xs. findOrCreateChunk digest m data = Inr (d, m') \<and> cm_exact m' \<and> cm_config m' = cm_config m \<and>
    cm_chunks m' = cm_chunks m @ xs \<and> chunk_of m' (hash_key (cm_computeHash digest m data)) = Some d \<and>
    cm_totalDataSize m' - cm_totalStoredSize m' = cm_totalDataSize m - cm_totalStoredSize m"
proof (cases "chunk_of m (hash_key (cm_computeHash digest m data))")
  case None
  let ?h = "cm_computeHash digest m data"
  let ?m = "m\<lparr>cm_chunks := cm_chunks m @ [fresh_chunk ?h data],
      cm_hashIndex := (cm_hashIndex m)(hash_key ?h \<mapsto> length (cm_chunks m)),
      cm_totalDataSize := cm_totalDataSize m + size64 (length data),
      cm_totalStoredSize := cm_totalStoredSize m + size64 (length data)\<rparr>"
  have n: "cm_hashIndex m (hash_key ?h) = None"
    using None exact_chunk_of [OF assms, of "hash_key ?h"] by (simp split: option.splits)
  then have "findOrCreateChunk digest m data = Inr (fresh_chunk ?h data, ?m)"
    by (simp add: findOrCreateChunk_def fresh_chunk_def default_chunk_def Let_def)
  moreover have "cm_exact ?m"
    using assms n by - (rule cm_exact_push [of m "fresh_chunk ?h data"], simp_all add: fresh_chunk_def)
  ultimately show ?thesis
    using None by (auto simp: find_append fresh_chunk_def)
next
  case (Some d)
  then show ?thesis
    using findOrCreate_known [OF assms Some] assms by auto
qed

lemma chunk_loop_ok:
  "cm_exact m \<Longrightarrow> gaps l h start bs \<Longrightarrow> \<forall>b \<in> set bs. b \<le> length data \<Longrightarrow>
   \<exists>ds m' xs. chunk_loop digest data bs start m = Inr (ds, m') \<and> cm_exact m' \<and> cm_config m' = cm_config m \<and>
     cm_chunks m' = cm_chunks m @ xs \<and>
     list_all2 (\<lambda>p d. chunk_of m' (hash_key (cm_computeHash digest m p)) = Some d) (cut_at start bs data) ds \<and>
     cm_totalDataSize m' - cm_totalStoredSize m' = cm_totalDataSize m - cm_totalStoredSize m"
proof (induction bs arbitrary: start m)
  case Nil
  then show ?case
    using findOrCreate_ok [OF Nil.prems(1), of digest "drop start data"] by auto
next
  case (Cons b bs)
  let ?p = "take (b - start) (drop start data)"
  obtain d m1 xs where 1: "findOrCreateChunk digest m ?p = Inr (d, m1)" "cm_exact m1" "cm_config m1 = cm_config m"
    "cm_chunks m1 = cm_chunks m @ xs" "chunk_of m1 (hash_key (cm_computeHash digest m ?p)) = Some d"
    "cm_totalDataSize m1 - cm_totalStoredSize m1 = cm_totalDataSize m - cm_totalStoredSize m"
    using findOrCreate_ok [OF Cons.prems(1)] by blast
  obtain ds m2 ys where 2: "chunk_loop digest data bs b m1 = Inr (ds, m2)" "cm_exact m2" "cm_config m2 = cm_config m1"
    "cm_chunks m2 = cm_chunks m1 @ ys"
    "list_all2 (\<lambda>p d. chunk_of m2 (hash_key (cm_computeHash digest m1 p)) = Some d) (cut_at b bs data) ds"
    "cm_totalDataSize m2 - cm_totalStoredSize m2 = cm_totalDataSize m1 - cm_totalStoredSize m1"
    using Cons.IH [OF 1(2)] Cons.prems by fastforce
  have h: "cm_computeHash digest m1 p = cm_computeHash digest m p" for p
    by (simp add: cm_computeHash_def 1(3))
  have "chunk_of m2 (hash_key (cm_computeHash digest m ?p)) = Some d"
    using 1(5) 2(4) by (simp add: find_append)
  with 1 2 Cons.prems show ?case
    by (simp add: h)
qed

lemma chunk_loop_again:
  "cm_exact m \<Longrightarrow> gaps l h start bs \<Longrightarrow> \<forall>b \<in> set bs. b \<le> length data \<Longrightarrow>
   list_all2 (\<lambda>p d. chunk_of m (hash_key (cm_computeHash digest m p)) = Some d) (cut_at start bs data) ds \<Longrightarrow>
   chunk_loop digest data bs start m = Inr (ds, m)"
proof (induction bs arbitrary: start ds)
  case Nil
  then show ?case
    by (auto simp: findOrCreate_known list_all2_Cons1 split: if_splits)
next
  case (Cons b bs)
  then show ?case
    by (auto simp: findOrCreate_known list_all2_Cons1)
qed

definition chunking_ok :: "ChunkConfig \<Rightarrow> bool" where
  "chunking_ok c \<longleftrightarrow> (if cc_dedupStrategy c = DedupContent then content_ok c else fixed_ok c)"

text \<open>The boundaries of the strategy configured.\<close>

definition chunk_bounds :: "ChunkConfig \<Rightarrow> byte list \<Rightarrow> nat list" where
  "chunk_bounds c data =
     (if cc_dedupStrategy c = DedupContent then findChunkBoundaries c data
      else the (findFixedBoundaries c (length data)))"

interpretation strategy: chunker chunking_ok chunk_bounds
    "\<lambda>c. if cc_dedupStrategy c = DedupContent then cc_minChunkSize c else cc_maxChunkSize c" cc_maxChunkSize
proof
  fix c and data :: "byte list" and b
  assume ok: "chunking_ok c" and n: "length data < 2 ^ 63"
  note bounds = chunking_ok_def chunk_bounds_def
  show "gaps (if cc_dedupStrategy c = DedupContent then cc_minChunkSize c else cc_maxChunkSize c)
      (cc_maxChunkSize c) 0 (chunk_bounds c data)"
    using ok cdc.bounds_gaps [OF _ n, of c] fixed.bounds_gaps [OF _ n, of c] by (auto simp: bounds)
  show "b \<le> length data" if "b \<in> set (chunk_bounds c data)"
    using ok that cdc.bounds_within [OF _ n, of c b] fixed.bounds_within [OF _ n, of c b]
    by (simp add: bounds split: if_splits)
  show "length data \<le> last (0 # chunk_bounds c data) + cc_maxChunkSize c"
    using ok cdc.bounds_tail [OF _ n, of c] fixed.bounds_tail [OF _ n, of c] by (auto simp: bounds)
qed

lemma chunkData_bounds:
  assumes "chunking_ok (cm_config m)" "length data < 2 ^ 63"
  shows "chunkData digest m data = Some (chunk_loop digest data (chunk_bounds (cm_config m) data) 0 m)"
  using fixed_returns [of "cm_config m" "length data"] assms
  by (auto simp: chunkData_def chunk_bounds_def chunking_ok_def)

lemma chunkData_ok:
  assumes "cm_exact m" "chunking_ok (cm_config m)" "length data < 2 ^ 63"
  obtains ds m' xs where "chunkData digest m data = Some (Inr (ds, m'))" "cm_exact m'" "cm_config m' = cm_config m"
    "cm_chunks m' = cm_chunks m @ xs" "chunkData digest m' data = Some (Inr (ds, m'))"
    "list_all2 (\<lambda>p d. chunk_of m' (hash_key (cm_computeHash digest m p)) = Some d)
       (cut_at 0 (chunk_bounds (cm_config m) data) data) ds"
    "cm_totalDataSize m' - cm_totalStoredSize m' = cm_totalDataSize m - cm_totalStoredSize m"
proof -
  let ?bs = "chunk_bounds (cm_config m) data"
  note g = strategy.bounds_gaps [OF assms(2,3)]
  have w: "\<forall>b \<in> set ?bs. b \<le> length data"
    using strategy.bounds_within [OF assms(2,3)] by blast
  obtain ds m' xs where 1: "chunk_loop digest data ?bs 0 m = Inr (ds, m')" "cm_exact m'" "cm_config m' = cm_config m"
    "cm_chunks m' = cm_chunks m @ xs"
    "list_all2 (\<lambda>p d. chunk_of m' (hash_key (cm_computeHash digest m p)) = Some d) (cut_at 0 ?bs data) ds"
    "cm_totalDataSize m' - cm_totalStoredSize m' = cm_totalDataSize m - cm_totalStoredSize m"
    using chunk_loop_ok [OF assms(1) g w] by blast
  have "list_all2 (\<lambda>p d. chunk_of m' (hash_key (cm_computeHash digest m' p)) = Some d) (cut_at 0 ?bs data) ds"
    using 1(3,5) by (simp add: cm_computeHash_def)
  then have "chunk_loop digest data ?bs 0 m' = Inr (ds, m')"
    using chunk_loop_again [OF 1(2) g w] by blast
  then show thesis
    using 1 assms(2,3) by (intro that [of ds m' xs]) (simp_all add: chunkData_bounds)
qed

text \<open>C27: chunking data with a usable configuration returns one descriptor for each piece, in the
  order of the pieces, whose concatenation is the data.  Afterwards the table holds each
  descriptor under the hash of its piece, everything the table held before is still there, and
  chunking the same data again returns the same descriptors and leaves the table as it is.\<close>

theorem chunk_data:
  assumes "cm_exact m" "chunking_ok (cm_config m)" "length data < 2 ^ 63"
  shows "\<exists>ps ds m' xs. chunkData digest m data = Some (Inr (ds, m')) \<and> cm_exact m' \<and> concat ps = data \<and>
    list_all2 (\<lambda>p d. getChunk m' (cm_computeHash digest m p) = Inr (Some d)) ps ds \<and>
    cm_chunks m' = cm_chunks m @ xs \<and> chunkData digest m' data = Some (Inr (ds, m'))"
proof -
  let ?ps = "cut_at 0 (chunk_bounds (cm_config m) data) data"
  obtain ds m' xs where 1: "chunkData digest m data = Some (Inr (ds, m'))" "cm_exact m'"
    "cm_chunks m' = cm_chunks m @ xs" "chunkData digest m' data = Some (Inr (ds, m'))"
    "list_all2 (\<lambda>p d. chunk_of m' (hash_key (cm_computeHash digest m p)) = Some d) ?ps ds"
    by (rule chunkData_ok [OF assms])
  moreover have "concat ?ps = data"
    using strategy.chunked [OF assms(2,3) refl] by blast
  moreover have "list_all2 (\<lambda>p d. getChunk m' (cm_computeHash digest m p) = Inr (Some d)) ?ps ds"
    using 1(5) by (simp add: getChunk_chunk_of [OF 1(2)])
  ultimately show ?thesis by blast
qed

definition example_digest :: digest_fn where
  "example_digest algo bs = replicate 31 0 @ [word_of_nat (length bs)]"

theorem chunk_data_witness:
  "\<exists>ps ds m' xs. chunkData example_digest (newChunkManager tiny_config) [1, 2, 3, 4] = Some (Inr (ds, m')) \<and>
    cm_exact m' \<and> concat ps = [1, 2, 3, 4 :: byte] \<and>
    list_all2 (\<lambda>p d. getChunk m' (cm_computeHash example_digest (newChunkManager tiny_config) p) = Inr (Some d)) ps ds \<and>
    cm_chunks m' = cm_chunks (newChunkManager tiny_config) @ xs \<and>
    chunkData example_digest m' [1, 2, 3, 4] = Some (Inr (ds, m'))"
proof -
  have "chunking_ok (cm_config (newChunkManager tiny_config))"
    by (simp add: chunking_ok_def content_ok_def tiny_config_def newChunkManager_def default_ChunkConfig_def)
  from chunk_data [OF cm_exact_new this, of "[1, 2, 3, 4]" example_digest] show ?thesis
    by simp
qed

text \<open>Chunking never changes the deduplication ratio of a fresh manager: a duplicate piece adds
  nothing to either total, so the ratio is 1 however much is deduplicated.\<close>

theorem chunk_data_ratio:
  assumes "cm_exact m" "chunking_ok (cm_config m)" "length data < 2 ^ 63" "cm_totalDataSize m = cm_totalStoredSize m"
    "chunkData digest m data = Some (Inr (ds, m'))"
  shows "dedupRatio m' = 1 \<and> cm_totalDataSize m' = cm_totalStoredSize m'"
proof -
  obtain ds1 m1 where "chunkData digest m data = Some (Inr (ds1, m1))"
    "cm_totalDataSize m1 - cm_totalStoredSize m1 = cm_totalDataSize m - cm_totalStoredSize m"
    by (rule chunkData_ok [OF assms(1-3)])
  then have "cm_totalDataSize m' - cm_totalStoredSize m' = 0"
    using assms(4,5) by simp
  then have "cm_totalDataSize m' = cm_totalStoredSize m'"
    by simp
  then show ?thesis
    by (simp add: dedupRatio_def unat_eq_zero del: of_nat_unat)
qed

theorem chunk_data_ratio_witness:
  "\<exists>ds m'. chunkData example_digest (newChunkManager tiny_config) [1, 2, 3, 4] = Some (Inr (ds, m')) \<and> dedupRatio m' = 1"
proof -
  let ?m = "newChunkManager tiny_config"
  have ok: "chunking_ok (cm_config ?m)" "length [1, 2, 3, 4 :: byte] < 2 ^ 63" "cm_totalDataSize ?m = cm_totalStoredSize ?m"
    by (simp_all add: chunking_ok_def content_ok_def tiny_config_def newChunkManager_def default_ChunkConfig_def)
  obtain ds m' where r: "chunkData example_digest ?m [1, 2, 3, 4] = Some (Inr (ds, m'))"
    using chunkData_ok [OF cm_exact_new ok(1,2)] by blast
  with chunk_data_ratio [OF cm_exact_new ok r] show ?thesis by blast
qed

text \<open>With the hash algorithm CRC32 every piece is taken for a duplicate of the first chunk of
  the table: the checksum engine computes the zero value for all data.\<close>

theorem chunk_data_crc32:
  assumes "cm_exact m" "chunking_ok (cm_config m)" "length data < 2 ^ 63" "cc_hashAlgorithm (cm_config m) = CRC32"
    "chunkData digest m data = Some (Inr (ds, m'))"
  shows "\<exists>c. \<forall>d \<in> set ds. d = c"
proof -
  have z: "cm_computeHash digest m p = zero_checksum" for p
    using ce_crc32_no_ctx [of "[p]"] assms(4) by (simp add: cm_computeHash_def ce_compute_def ce_finalize_def)
  let ?ps = "cut_at 0 (chunk_bounds (cm_config m) data) data"
  obtain ds1 m1 where 1: "chunkData digest m data = Some (Inr (ds1, m1))"
    "list_all2 (\<lambda>p d. chunk_of m1 (hash_key (cm_computeHash digest m p)) = Some d) ?ps ds1"
    by (rule chunkData_ok [OF assms(1-3)])
  then have "list_all2 (\<lambda>p d. chunk_of m' (hash_key zero_checksum) = Some d) ?ps ds"
    using assms(5) by (simp add: z)
  then have "\<forall>d \<in> set ds. chunk_of m' (hash_key zero_checksum) = Some d"
    by (induction rule: list_all2_induct) auto
  then show ?thesis
    by (intro exI [of _ "the (chunk_of m' (hash_key zero_checksum))"]) auto
qed

theorem chunk_data_crc32_witness:
  "\<exists>ds m' c. chunkData example_digest (newChunkManager (tiny_config\<lparr>cc_hashAlgorithm := CRC32\<rparr>)) [1, 2, 3, 4] =
     Some (Inr (ds, m')) \<and> filter (\<lambda>d. d \<noteq> c) ds = []"
proof -
  let ?m = "newChunkManager (tiny_config\<lparr>cc_hashAlgorithm := CRC32\<rparr>)"
  have ok: "chunking_ok (cm_config ?m)" "length [1, 2, 3, 4 :: byte] < 2 ^ 63" "cc_hashAlgorithm (cm_config ?m) = CRC32"
    by (simp_all add: chunking_ok_def content_ok_def tiny_config_def newChunkManager_def default_ChunkConfig_def)
  obtain ds m' where r: "chunkData example_digest ?m [1, 2, 3, 4] = Some (Inr (ds, m'))"
    using chunkData_ok [OF cm_exact_new ok(1,2)] by blast
  obtain c where "\<forall>d \<in> set ds. d = c"
    using chunk_data_crc32 [OF cm_exact_new ok r] by blast
  with r show ?thesis
    by (intro exI [of _ ds] exI [of _ m'] exI [of _ c]) simp
qed

section \<open>The serialised table\<close>

definition chunk_wf :: "ChunkDescriptor \<Rightarrow> bool" where
  "chunk_wf c \<longleftrightarrow> length (cd_hash c) = 32 \<and> compression_named (cd_compression c)"

lemma read_byte_at: "drop off data = b # rest \<Longrightarrow> read_byte data off = Inr (b, Suc off)"
proof -
  assume d: "drop off data = b # rest"
  then have "off < length data"
    by (metis drop_eq_Nil leI list.distinct(1))
  with d show ?thesis
    by (simp add: read_byte_def nth_via_drop)
qed

lemma read_byte_bounds: "read_byte data off = Inr (b, off') \<Longrightarrow> off' = Suc off \<and> off' \<le> length data"
  by (auto simp: read_byte_def bind_cpp_eq_Inr vec_at_Inr_iff)

interpretation chunk: record_codec read_chunk serialize_chunk chunk_wf
proof
  show "off \<le> off' \<and> off' \<le> length data" if "read_chunk data off = Inr (Some (x, off'))" for data off x off'
    using that
    by (auto simp: read_chunk_def bind_rd_eq_Some bind_cpp_eq_Inr
        dest!: read_varint_bounds read_block_bounds read_byte_bounds)
  show "read_chunk data off = Inr (Some (x, off + length (serialize_chunk x)))"
    if "chunk_wf x" "drop off data = serialize_chunk x @ rest"
      "length data = off + length (serialize_chunk x) + length rest" for x off data rest
  proof -
    let ?o = "off + 32 + length (encode (cd_offset x)) + length (encode (cd_compressedSize x)) + length (encode (cd_originalSize x))"
    have tail: "drop ?o data = compression_to_byte (cd_compression x) # (if cd_encrypted x then 1 else 0) # rest"
      using that by (simp add: serialize_chunk_def chunk_wf_def drop_add del: drop_drop)
    then have "read_byte data ?o = Inr (compression_to_byte (cd_compression x), Suc ?o)"
      by (rule read_byte_at)
    moreover have "read_byte data (Suc ?o) = Inr (if cd_encrypted x then 1 else 0, Suc (Suc ?o))"
      using tail by (intro read_byte_at [where rest = rest]) (simp only: drop_Suc_tl list.sel)
    ultimately show ?thesis
      using that by (simp add: read_chunk_def serialize_chunk_def read_varint_def read_block_def chunk_wf_def
          compression_named_def drop_add add.assoc del: drop_drop)
  qed
qed

text \<open>What registering a run of chunks with different keys does to the manager.\<close>

lemma register_run:
  "distinct (map (hash_key \<circ> cd_hash) cs) \<Longrightarrow>
   (\<forall>c \<in> set cs. cm_hashIndex m (hash_key (cd_hash c)) = None) \<Longrightarrow> cm_exact m \<Longrightarrow>
   case foldl (registerChunk grow) (m, g) cs of (m', g') \<Rightarrow>
     cm_exact m' \<and> cm_chunks m' = cm_chunks m @ cs \<and> cm_config m' = cm_config m \<and>
     cm_totalDataSize m' = cm_totalDataSize m + sum_list (map cd_originalSize cs) \<and>
     cm_totalStoredSize m' = cm_totalStoredSize m + sum_list (map cd_compressedSize cs)"
proof (induction cs arbitrary: m g)
  case (Cons c cs)
  obtain m1 g1 where r: "registerChunk grow (m, g) c = (m1, g1)"
    by (cases "registerChunk grow (m, g) c")
  then have m1: "cm_chunks m1 = cm_chunks m @ [c]" "cm_config m1 = cm_config m"
    "cm_hashIndex m1 = (cm_hashIndex m)(hash_key (cd_hash c) \<mapsto> length (cm_chunks m))"
    "cm_totalDataSize m1 = cm_totalDataSize m + cd_originalSize c"
    "cm_totalStoredSize m1 = cm_totalStoredSize m + cd_compressedSize c"
    using Cons.prems(2) by (auto simp: registerChunk_def Let_def)
  have "cm_exact m1"
    using Cons.prems m1 by - (rule cm_exact_push [of m c], simp_all)
  moreover have "\<forall>c \<in> set cs. cm_hashIndex m1 (hash_key (cd_hash c)) = None"
    using Cons.prems(1,2) by (auto simp: m1) (metis imageI)
  ultimately show ?case
    using Cons.IH [of m1 g1] Cons.prems r m1 by (auto simp: add.assoc)
qed simp

lemma exact_distinct_keys: "cm_exact m \<Longrightarrow> distinct (map (hash_key \<circ> cd_hash) (cm_chunks m))"
  unfolding distinct_conv_nth cm_exact_iff by (metis comp_apply length_map nth_map option.inject)

lemma length_serialize_chunk: "chunk_wf c \<Longrightarrow> 37 \<le> length (serialize_chunk c)"
  using length_encode_pos [of "cd_offset c"] length_encode_pos [of "cd_compressedSize c"]
    length_encode_pos [of "cd_originalSize c"]
  unfolding serialize_chunk_def chunk_wf_def length_append list.size by linarith

lemma length_concat_chunks:
  "list_all chunk_wf cs \<Longrightarrow> 37 * length cs \<le> length (concat (map serialize_chunk cs))"
proof (induction cs)
  case (Cons c cs)
  then show ?case
    using length_serialize_chunk [of c] by auto
qed simp

text \<open>C30: a chunk table is read back from its serialised form with the same chunks in the same
  order and an exact index, whatever the manager held before; the totals are those of the
  chunks.  The table may have at most 1,048,576 chunks.\<close>

theorem chunk_table_roundtrip:
  assumes "cm_exact m" "list_all chunk_wf (cm_chunks m)" "length (cm_chunks m) \<le> 1024 * 1024"
    "length (cm_serialize m) < 2 ^ 63"
  shows "\<exists>m' g'. cm_deserialize grow (m0, g) (cm_serialize m) = Inr (Success, m', g') \<and>
    cm_exact m' \<and> cm_chunks m' = cm_chunks m \<and> (\<forall>h. getChunk m' h = getChunk m h) \<and>
    cm_totalDataSize m' = sum_list (map cd_originalSize (cm_chunks m)) \<and>
    cm_totalStoredSize m' = sum_list (map cd_compressedSize (cm_chunks m))"
proof -
  let ?cs = "cm_chunks m" and ?data = "cm_serialize m"
  let ?n = "encode (size64 (length ?cs))"
  have len: "length ?data = length ?n + length (concat (map serialize_chunk ?cs))"
    by (simp add: cm_serialize_def)
  have small: "length ?cs < 2 ^ 64" "length ?cs \<le> (length ?data - length ?n) div 37"
    using assms(3) length_concat_chunks [OF assms(2)] len by (simp, linarith)
  have "read_upto read_chunk (length ?cs) ?data (length ?n) =
      Inr (?cs, Some (length ?n + length (concat (map serialize_chunk ?cs))))"
    using assms by (intro chunk.read_upto_enc [where rest = "[]"]) (auto simp: cm_serialize_def)
  moreover have "read_varint ?data 0 = Inr (Some (size64 (length ?cs), length ?n))"
    by (simp add: cm_serialize_def read_varint_def)
  moreover obtain m' g' where f: "foldl (registerChunk grow) (cm_clear m0, g) ?cs = (m', g')"
    by (cases "foldl (registerChunk grow) (cm_clear m0, g) ?cs")
  ultimately have "cm_deserialize grow (m0, g) ?data = Inr (Success, m', g')"
    using small assms(3) by (simp add: cm_deserialize_def)
  moreover have "cm_exact m' \<and> cm_chunks m' = ?cs \<and>
    cm_totalDataSize m' = sum_list (map cd_originalSize ?cs) \<and>
    cm_totalStoredSize m' = sum_list (map cd_compressedSize ?cs)"
    using register_run [OF exact_distinct_keys [OF assms(1)], of "cm_clear m0" grow g] f cm_exact_clear [of m0]
    by (simp add: cm_clear_def)
  ultimately show ?thesis
    using assms(1) by (auto simp: getChunk_chunk_of)
qed

definition example_chunks :: ChunkManager where
  "example_chunks = fst (registerChunk (\<lambda>n. 2 * n + 1) (newChunkManager default_ChunkConfig, newChunkGlobals)
     (default_chunk\<lparr>cd_hash := replicate 32 7, cd_originalSize := 5\<rparr>))"

lemma example_chunks_eq:
  "cm_chunks example_chunks = [default_chunk\<lparr>cd_hash := replicate 32 7, cd_originalSize := 5\<rparr>]"
  by (simp add: example_chunks_def registerChunk_def newChunkManager_def Let_def)

lemma registerChunk_exact: "cm_exact m \<Longrightarrow> cm_exact (fst (registerChunk grow (m, g) c))"
proof (cases "cm_hashIndex m (hash_key (cd_hash c))")
  case None
  assume "cm_exact m"
  with None show ?thesis
    by - (rule cm_exact_push [of m c], auto simp: registerChunk_def Let_def)
qed (auto simp: registerChunk_def Let_def)

theorem chunk_table_roundtrip_witness:
  "\<exists>m' g'. cm_deserialize (\<lambda>n. 2 * n + 1) (newChunkManager default_ChunkConfig, newChunkGlobals)
       (cm_serialize example_chunks) = Inr (Success, m', g') \<and> cm_chunks m' = cm_chunks example_chunks"
proof -
  have "cm_exact example_chunks"
    unfolding example_chunks_def by (rule registerChunk_exact) simp
  moreover have "list_all chunk_wf (cm_chunks example_chunks)" "length (cm_chunks example_chunks) \<le> 1024 * 1024"
    by (simp_all add: example_chunks_eq chunk_wf_def compression_named_def default_chunk_def
        compression_of_byte_def compression_to_byte_def)
  moreover have "length (cm_serialize example_chunks) < 2 ^ 63"
    using length_encode_le [of "size64 (Suc 0)"] length_encode_le [of 0] length_encode_le [of 5]
    by (simp add: cm_serialize_def example_chunks_eq serialize_chunk_def default_chunk_def)
  ultimately show ?thesis
    using chunk_table_roundtrip by blast
qed

text \<open>The two flag bytes of a chunk are read unchecked: a table that passes both size checks
  can make \<^verbatim>\<open>deserialize\<close> read behind the end of the input.\<close>

theorem chunk_table_overread:
  "cm_deserialize grow (m, g) (1 # replicate 32 0 @ [0x80, 0, 0x80, 0, 0]) = Inl Undefined_behaviour"
proof -
  let ?data = "1 # replicate 32 0 @ [0x80, 0, 0x80, 0, 0] :: byte list"
  have v: "read_varint ?data 0 = Inr (Some (1, 1))" "read_varint ?data 33 = Inr (Some (0, 35))"
    "read_varint ?data 35 = Inr (Some (0, 37))" "read_varint ?data 37 = Inr (Some (0, 38))"
    by code_simp+
  have "read_chunk ?data 1 = Inl Undefined_behaviour"
    using v(2-) by (simp add: read_chunk_def read_block_def read_byte_def)
  with v(1) show ?thesis
    by (simp add: cm_deserialize_def Let_def)
qed

section \<open>The cache of entries\<close>

text \<open>\<^verbatim>\<open>processAll\<close> registers chunks that are in the table already, so it does nothing.\<close>

lemma process_loop_registered:
  "cm_exact m \<Longrightarrow> set cs \<subseteq> set (cm_chunks m) \<Longrightarrow> process_loop grow cs (m, g) = Inr (m, g)"
proof (induction cs)
  case (Cons c cs)
  then have "cm_hashIndex m (hash_key (cd_hash c)) \<noteq> None"
    unfolding cm_exact_iff by (metis in_set_conv_nth list.set_intros(1) option.distinct(1) subsetD)
  with Cons show ?case
    by (simp add: processChunk_def registerChunk_def Let_def)
qed simp

text \<open>On a table whose index is exact, \<^verbatim>\<open>processAll\<close> never pushes into the vector it iterates
  over and changes nothing; without the invariant it is undefined.\<close>

theorem process_all_safe:
  "cm_exact m \<Longrightarrow> processAll grow (m, g) = Inr (m, g)"
  by (simp add: processAll_def process_loop_registered)

theorem process_all_safe_witness:
  "processAll (\<lambda>n. 2 * n + 1) (example_chunks, newChunkGlobals) = Inr (example_chunks, newChunkGlobals)"
  by (rule process_all_safe) (unfold example_chunks_def, rule registerChunk_exact, simp)

text \<open>A cached pointer dangles as soon as the storage vector outgrows its buffer: after a first
  registration and a second one that has to grow the buffer, reading through the pointer
  cached for the first chunk is undefined.  A pointer cached by \<^verbatim>\<open>addChunk\<close> always dangles.\<close>

theorem cached_chunk_dangles:
  assumes "hash_key (cd_hash c) \<noteq> hash_key (cd_hash d)" "grow 0 = 1"
    "registerChunk grow (newChunkManager config, newChunkGlobals) c = (m1, g1)"
    "registerChunk grow (m1, g1) d = (m2, g2)"
  shows "(\<exists>p. getChunkCached g1 (hash_key (cd_hash c)) = Some p \<and> isUnused g1 p = Inr True \<and>
      getChunkCached g2 (hash_key (cd_hash c)) = Some p \<and> isUnused g2 p = Inl Undefined_behaviour) \<and>
    (\<exists>p. getChunkCached (addChunk g2 k) k = Some p \<and> isUnused (addChunk g2 k) p = Inl Undefined_behaviour)"
  using assms
  by (auto simp: registerChunk_def newChunkManager_def newChunkGlobals_def storage_push_def Let_def
      getChunkCached_def isUnused_def addChunk_def size64_def)

theorem cached_chunk_dangles_witness:
  "\<exists>m1 g1 m2 g2 p.
     registerChunk Suc (newChunkManager default_ChunkConfig, newChunkGlobals) default_chunk = (m1, g1) \<and>
     registerChunk Suc (m1, g1) (default_chunk\<lparr>cd_hash := replicate 32 1\<rparr>) = (m2, g2) \<and>
     getChunkCached g2 (hash_key (cd_hash default_chunk)) = Some p \<and> isUnused g2 p = Inl Undefined_behaviour"
proof -
  let ?d = "default_chunk\<lparr>cd_hash := replicate 32 1\<rparr>"
  obtain m1 g1 where 1: "registerChunk Suc (newChunkManager default_ChunkConfig, newChunkGlobals) default_chunk = (m1, g1)"
    by (cases "registerChunk Suc (newChunkManager default_ChunkConfig, newChunkGlobals) default_chunk")
  obtain m2 g2 where 2: "registerChunk Suc (m1, g1) ?d = (m2, g2)"
    by (cases "registerChunk Suc (m1, g1) ?d")
  have k: "hash_key (cd_hash default_chunk) \<noteq> hash_key (cd_hash ?d)"
    by code_simp
  have "Suc 0 = 1" by simp
  from cached_chunk_dangles [OF k this 1 2] 1 2 show ?thesis by blast
qed

end
