(* ===== verification/Compression.thy ===== *)
theory Compression
  imports Checksum_Engine
begin

text \<open>
  \<^verbatim>\<open>compression/CompressionEngine\<close> and \<^verbatim>\<open>compression/CompressionBlock\<close>: the engine that hands data to
  LZ4, zlib or Zstandard, block-wise compression, and blocks with their cache of decompressed
  data.

  The three libraries are the parameter \<open>libs\<close>: for every function called, what it returns and
  what it leaves in the destination buffer.  \<open>codec_laws\<close> states what their documentation
  promises of a round trip; it is a hypothesis of the theorems that need it.  Allocations of more
  than \<open>limit\<close> bytes throw.
\<close>

section \<open>The libraries\<close>

record codec_libs =
  LZ4_compressBound :: "int \<Rightarrow> int"
  LZ4_compress_default :: "byte list \<Rightarrow> byte list \<Rightarrow> int \<Rightarrow> int \<Rightarrow> int \<times> byte list"
  LZ4_decompress_safe :: "byte list \<Rightarrow> byte list \<Rightarrow> int \<Rightarrow> int \<Rightarrow> int \<times> byte list"
  zlib_compressBound :: "nat \<Rightarrow> nat"
  zlib_compress2 :: "byte list \<Rightarrow> nat \<Rightarrow> byte list \<Rightarrow> int \<Rightarrow> bool \<times> nat \<times> byte list"
  zlib_uncompress :: "byte list \<Rightarrow> nat \<Rightarrow> byte list \<Rightarrow> bool \<times> nat \<times> byte list"
  ZSTD_compressBound :: "nat \<Rightarrow> nat"
  ZSTD_compressCCtx :: "byte list \<Rightarrow> nat \<Rightarrow> byte list \<Rightarrow> int \<Rightarrow> nat \<times> byte list"
  ZSTD_decompress :: "byte list \<Rightarrow> nat \<Rightarrow> byte list \<Rightarrow> nat \<times> byte list"
  ZSTD_isError :: "nat \<Rightarrow> bool"
  ZSTD_getFrameContentSize :: "byte list \<Rightarrow> nat"

text \<open>\<^verbatim>\<open>static_cast<int>\<close> of a size.\<close>

definition to_int32 :: "nat \<Rightarrow> int" where
  "to_int32 n = sint (word_of_nat n :: u32)"

definition ZSTD_CONTENTSIZE_UNKNOWN :: nat where "ZSTD_CONTENTSIZE_UNKNOWN = 2 ^ 64 - 1"
definition ZSTD_CONTENTSIZE_ERROR :: nat where "ZSTD_CONTENTSIZE_ERROR = 2 ^ 64 - 2"

text \<open>A \<^verbatim>\<open>std::vector<uint8_t>\<close> resized from empty, or from its present content.\<close>

definition zeros :: "nat \<Rightarrow> nat \<Rightarrow> byte list cpp" where
  "zeros limit n = (if n > limit then Inl Alloc_failure else Inr (replicate n 0))"

definition resize :: "nat \<Rightarrow> byte list \<Rightarrow> byte list" where
  "resize n xs = (if n \<le> length xs then take n xs else xs @ replicate (n - length xs) 0)"

section \<open>The engine\<close>

record CompressionConfig =
  cp_algorithm :: CompressionAlgorithm
  cp_compressionLevel :: int
  cp_blockSize :: nat
  cp_enableChecksum :: bool
  cp_workMemory :: nat

datatype errc = No_error | Errc_invalid_argument | Errc_io_error

record CompressionResult =
  cr_data :: "byte list"
  cr_originalSize :: nat
  cr_compressedSize :: nat
  cr_success :: bool
  cr_ec :: errc

definition newCompressionResult :: CompressionResult where
  "newCompressionResult =
     \<lparr>cr_data = [], cr_originalSize = 0, cr_compressedSize = 0, cr_success = False, cr_ec = No_error\<rparr>"

text \<open>\<open>en_ctx\<close> says whether the engine owns a Zstandard context.\<close>

record CompressionEngine =
  en_config :: CompressionConfig
  en_ctx :: bool

definition en_initContext :: "CompressionEngine \<Rightarrow> CompressionEngine" where
  "en_initContext e = e\<lparr>en_ctx := (cp_algorithm (en_config e) = Zstd)\<rparr>"

definition en_destroyContext :: "CompressionEngine \<Rightarrow> CompressionEngine" where
  "en_destroyContext e = e\<lparr>en_ctx := False\<rparr>"

definition newCompressionEngine :: "CompressionConfig \<Rightarrow> CompressionEngine" where
  "newCompressionEngine config = en_initContext \<lparr>en_config = config, en_ctx = False\<rparr>"

definition en_setConfig :: "CompressionEngine \<Rightarrow> CompressionConfig \<Rightarrow> CompressionEngine" where
  "en_setConfig e config = en_initContext ((en_destroyContext e)\<lparr>en_config := config\<rparr>)"

definition compressLZ4 :: "codec_libs \<Rightarrow> nat \<Rightarrow> byte list \<Rightarrow> CompressionResult cpp" where
  "compressLZ4 libs limit data =
     (let result = newCompressionResult\<lparr>cr_originalSize := length data\<rparr>;
          maxDestSize = LZ4_compressBound libs (to_int32 (length data)) in
      if maxDestSize \<le> 0 then Inr (result\<lparr>cr_ec := Errc_invalid_argument\<rparr>)
      else bind_cpp (zeros limit (nat maxDestSize)) (\<lambda>buf.
        let (compressedSize, buf) = LZ4_compress_default libs data buf (to_int32 (length data)) maxDestSize in
        if compressedSize \<le> 0 then Inr (result\<lparr>cr_data := buf, cr_ec := Errc_io_error\<rparr>)
        else Inr (result\<lparr>cr_data := resize (nat compressedSize) buf, cr_compressedSize := nat compressedSize,
                   cr_success := True\<rparr>)))"

definition decompressLZ4 :: "codec_libs \<Rightarrow> nat \<Rightarrow> byte list \<Rightarrow> nat \<Rightarrow> CompressionResult cpp" where
  "decompressLZ4 libs limit data originalSize =
     (let result = newCompressionResult\<lparr>cr_originalSize := originalSize, cr_compressedSize := length data\<rparr> in
      bind_cpp (zeros limit originalSize) (\<lambda>buf.
        let (decompressedSize, buf) =
              LZ4_decompress_safe libs data buf (to_int32 (length data)) (to_int32 originalSize) in
        if decompressedSize < 0 then Inr (result\<lparr>cr_data := buf, cr_ec := Errc_io_error\<rparr>)
        else Inr (result\<lparr>cr_data := buf, cr_success := True\<rparr>)))"

definition compressZlib :: "codec_libs \<Rightarrow> nat \<Rightarrow> CompressionEngine \<Rightarrow> byte list \<Rightarrow> CompressionResult cpp" where
  "compressZlib libs limit e data =
     (let result = newCompressionResult\<lparr>cr_originalSize := length data\<rparr>;
          destLen = zlib_compressBound libs (length data) in
      bind_cpp (zeros limit destLen) (\<lambda>buf.
        let (ok, destLen, buf) = zlib_compress2 libs buf destLen data (cp_compressionLevel (en_config e)) in
        if \<not> ok then Inr (result\<lparr>cr_data := buf, cr_ec := Errc_io_error\<rparr>)
        else Inr (result\<lparr>cr_data := resize destLen buf, cr_compressedSize := destLen, cr_success := True\<rparr>)))"

definition decompressZlib :: "codec_libs \<Rightarrow> nat \<Rightarrow> byte list \<Rightarrow> nat \<Rightarrow> CompressionResult cpp" where
  "decompressZlib libs limit data originalSize =
     (let result = newCompressionResult\<lparr>cr_originalSize := originalSize, cr_compressedSize := length data\<rparr> in
      bind_cpp (zeros limit originalSize) (\<lambda>buf.
        let (ok, destLen, buf) = zlib_uncompress libs buf originalSize data in
        if \<not> ok then Inr (result\<lparr>cr_data := buf, cr_ec := Errc_io_error\<rparr>)
        else Inr (result\<lparr>cr_data := buf, cr_success := True\<rparr>)))"

text \<open>Compressing with a null context is undefined.\<close>

definition compressZstd :: "codec_libs \<Rightarrow> nat \<Rightarrow> CompressionEngine \<Rightarrow> byte list \<Rightarrow> CompressionResult cpp" where
  "compressZstd libs limit e data =
     (let result = newCompressionResult\<lparr>cr_originalSize := length data\<rparr>;
          maxDestSize = ZSTD_compressBound libs (length data) in
      bind_cpp (zeros limit maxDestSize) (\<lambda>buf.
        if \<not> en_ctx e then Inl Undefined_behaviour
        else
          let (compressedSize, buf) = ZSTD_compressCCtx libs buf maxDestSize data (cp_compressionLevel (en_config e)) in
          if ZSTD_isError libs compressedSize then Inr (result\<lparr>cr_data := buf, cr_ec := Errc_io_error\<rparr>)
          else Inr (result\<lparr>cr_data := resize compressedSize buf, cr_compressedSize := compressedSize,
                     cr_success := True\<rparr>)))"

definition decompressZstd :: "codec_libs \<Rightarrow> nat \<Rightarrow> byte list \<Rightarrow> nat \<Rightarrow> CompressionResult cpp" where
  "decompressZstd libs limit data originalSize =
     (let result = newCompressionResult\<lparr>cr_originalSize := originalSize, cr_compressedSize := length data\<rparr>;
          contentSize = ZSTD_getFrameContentSize libs data;
          guess = (originalSize = 0 \<and> data \<noteq> []) in
      if guess \<and> (contentSize = ZSTD_CONTENTSIZE_ERROR \<or> contentSize = ZSTD_CONTENTSIZE_UNKNOWN)
      then Inr (result\<lparr>cr_ec := Errc_invalid_argument\<rparr>)
      else
        let originalSize = (if guess then contentSize else originalSize);
            result = result\<lparr>cr_originalSize := originalSize\<rparr> in
        bind_cpp (zeros limit originalSize) (\<lambda>buf.
          let (decompressedSize, buf) = ZSTD_decompress libs buf originalSize data in
          if ZSTD_isError libs decompressedSize then Inr (result\<lparr>cr_data := buf, cr_ec := Errc_io_error\<rparr>)
          else Inr (result\<lparr>cr_data := buf, cr_success := True\<rparr>)))"

definition en_compress :: "codec_libs \<Rightarrow> nat \<Rightarrow> CompressionEngine \<Rightarrow> byte list \<Rightarrow> CompressionResult cpp" where
  "en_compress libs limit e data =
     (case cp_algorithm (en_config e) of
        CNone \<Rightarrow> Inr (newCompressionResult\<lparr>cr_data := data, cr_originalSize := length data,
                       cr_compressedSize := length data, cr_success := True\<rparr>)
      | LZ4 \<Rightarrow> compressLZ4 libs limit data
      | Zlib \<Rightarrow> compressZlib libs limit e data
      | Zstd \<Rightarrow> compressZstd libs limit e data
      | Compression_raw _ \<Rightarrow> Inr (newCompressionResult\<lparr>cr_ec := Errc_invalid_argument\<rparr>))"

definition en_decompress :: "codec_libs \<Rightarrow> nat \<Rightarrow> CompressionEngine \<Rightarrow> byte list \<Rightarrow> nat \<Rightarrow> CompressionResult cpp" where
  "en_decompress libs limit e compressed originalSize =
     (case cp_algorithm (en_config e) of
        CNone \<Rightarrow> Inr (newCompressionResult\<lparr>cr_data := compressed, cr_originalSize := length compressed,
                       cr_compressedSize := length compressed, cr_success := True\<rparr>)
      | LZ4 \<Rightarrow> decompressLZ4 libs limit compressed originalSize
      | Zlib \<Rightarrow> decompressZlib libs limit compressed originalSize
      | Zstd \<Rightarrow> decompressZstd libs limit compressed originalSize
      | Compression_raw _ \<Rightarrow> Inr (newCompressionResult\<lparr>cr_ec := Errc_invalid_argument\<rparr>))"

definition misidentifyAlgorithm :: "CompressionAlgorithm \<Rightarrow> CompressionAlgorithm" where
  "misidentifyAlgorithm actual =
     (case actual of LZ4 \<Rightarrow> Zlib | Zlib \<Rightarrow> Zstd | Zstd \<Rightarrow> LZ4 | _ \<Rightarrow> actual)"

definition decompressWithDetection ::
  "codec_libs \<Rightarrow> nat \<Rightarrow> CompressionEngine \<Rightarrow> byte list \<Rightarrow> nat \<Rightarrow> CompressionAlgorithm \<Rightarrow> CompressionResult cpp" where
  "decompressWithDetection libs limit e compressed originalSize detectedAlgo =
     (let retry = (\<lambda>result. if \<not> cr_success result then en_decompress libs limit e compressed originalSize
                             else Inr result) in
      case misidentifyAlgorithm detectedAlgo of
        LZ4 \<Rightarrow> bind_cpp (decompressLZ4 libs limit compressed originalSize) retry
      | Zlib \<Rightarrow> bind_cpp (decompressZlib libs limit compressed originalSize) retry
      | Zstd \<Rightarrow> bind_cpp (decompressZstd libs limit compressed originalSize) retry
      | _ \<Rightarrow> Inr (newCompressionResult\<lparr>cr_ec := Errc_invalid_argument\<rparr>))"

text \<open>The loop of \<^verbatim>\<open>compressBlocks\<close>, which may throw or never end.\<close>

partial_function (option) compress_loop ::
  "codec_libs \<Rightarrow> nat \<Rightarrow> CompressionEngine \<Rightarrow> byte list \<Rightarrow> nat \<Rightarrow> nat \<Rightarrow> CompressionResult list \<Rightarrow> CompressionResult list cpp option" where
  "compress_loop libs limit e data blockSize off blocks =
     (if off < length data then
        let chunkSize = min blockSize (length data - off) in
        case en_compress libs limit e (take chunkSize (drop off data)) of
          Inl a \<Rightarrow> Some (Inl a)
        | Inr r \<Rightarrow> compress_loop libs limit e data blockSize (off + chunkSize) (blocks @ [r])
      else Some (Inr blocks))"

definition compressBlocks ::
  "codec_libs \<Rightarrow> nat \<Rightarrow> CompressionEngine \<Rightarrow> byte list \<Rightarrow> nat \<Rightarrow> CompressionResult list cpp option" where
  "compressBlocks libs limit e data blockSize = compress_loop libs limit e data blockSize 0 []"

fun decompress_loop ::
  "codec_libs \<Rightarrow> nat \<Rightarrow> CompressionEngine \<Rightarrow> CompressionResult list \<Rightarrow> byte list \<Rightarrow> CompressionResult \<Rightarrow> CompressionResult cpp" where
  "decompress_loop libs limit e [] output result = Inr (result\<lparr>cr_data := output, cr_success := True\<rparr>)"
| "decompress_loop libs limit e (block # blocks) output result =
     (if \<not> cr_success block then Inr (result\<lparr>cr_ec := cr_ec block, cr_success := False\<rparr>)
      else bind_cpp (en_decompress libs limit e (cr_data block) (cr_originalSize block)) (\<lambda>d.
        if \<not> cr_success d then Inr (result\<lparr>cr_ec := cr_ec d, cr_success := False\<rparr>)
        else decompress_loop libs limit e blocks (output @ cr_data d) result))"

definition decompressBlocks ::
  "codec_libs \<Rightarrow> nat \<Rightarrow> CompressionEngine \<Rightarrow> CompressionResult list \<Rightarrow> nat \<Rightarrow> CompressionResult cpp" where
  "decompressBlocks libs limit e blocks totalOriginalSize =
     (if totalOriginalSize > limit then Inl Alloc_failure
      else decompress_loop libs limit e blocks []
        (newCompressionResult\<lparr>cr_originalSize := totalOriginalSize, cr_success := True\<rparr>))"

definition estimateCompressedSize :: "codec_libs \<Rightarrow> CompressionEngine \<Rightarrow> nat \<Rightarrow> nat" where
  "estimateCompressedSize libs e originalSize =
     (case cp_algorithm (en_config e) of
        CNone \<Rightarrow> originalSize
      | LZ4 \<Rightarrow> unat (word_of_int (LZ4_compressBound libs (to_int32 originalSize)) :: u64)
      | Zlib \<Rightarrow> zlib_compressBound libs originalSize
      | Zstd \<Rightarrow> ZSTD_compressBound libs originalSize
      | Compression_raw _ \<Rightarrow> originalSize)"

definition algorithmName :: "CompressionEngine \<Rightarrow> string" where
  "algorithmName e =
     (case cp_algorithm (en_config e) of CNone \<Rightarrow> ''none'' | LZ4 \<Rightarrow> ''LZ4'' | Zlib \<Rightarrow> ''Zlib'' | Zstd \<Rightarrow> ''Zstd''
      | Compression_raw _ \<Rightarrow> ''unknown'')"

section \<open>Blocks\<close>

record CompressionBlock =
  cb_offset :: u64
  cb_compressedSize :: u64
  cb_originalSize :: u64
  cb_algo :: CompressionAlgorithm
  cb_checksum :: u32
  cb_encrypted :: bool
  cb_compressedData :: "byte list"
  cb_decompressedData :: "byte list"
  cb_isDecompressed :: bool

definition newCompressionBlock :: CompressionBlock where
  "newCompressionBlock =
     \<lparr>cb_offset = 0, cb_compressedSize = 0, cb_originalSize = 0, cb_algo = CNone, cb_checksum = 0,
      cb_encrypted = False, cb_compressedData = [], cb_decompressedData = [], cb_isDecompressed = False\<rparr>"

definition getDecompressedData :: "codec_libs \<Rightarrow> nat \<Rightarrow> CompressionBlock \<Rightarrow> (byte list \<times> CompressionBlock) cpp" where
  "getDecompressedData libs limit b =
     (if \<not> cb_isDecompressed b then
        if cb_algo b = CNone then
          let b = b\<lparr>cb_decompressedData := cb_compressedData b, cb_isDecompressed := True\<rparr>
          in Inr (cb_decompressedData b, b)
        else
          let engine = newCompressionEngine
                \<lparr>cp_algorithm = cb_algo b, cp_compressionLevel = 0, cp_blockSize = 0, cp_enableChecksum = False,
                 cp_workMemory = 0\<rparr> in
          bind_cpp (en_decompress libs limit engine (cb_compressedData b) (unat (cb_originalSize b))) (\<lambda>result.
          let b = (if cr_success result then b\<lparr>cb_decompressedData := cr_data result\<rparr> else b);
              b = b\<lparr>cb_isDecompressed := True\<rparr>
          in Inr (cb_decompressedData b, b))
      else Inr (cb_decompressedData b, b))"

definition cb_verifyIntegrity :: "codec_libs \<Rightarrow> nat \<Rightarrow> (byte list \<Rightarrow> u32) \<Rightarrow> CompressionBlock \<Rightarrow> (bool \<times> CompressionBlock) cpp" where
  "cb_verifyIntegrity libs limit crc b =
     bind_cpp (getDecompressedData libs limit b) (\<lambda>(data, b).
     if data = [] \<and> cb_originalSize b > 0 then Inr (False, b)
     else if cb_checksum b = 0 then Inr (True, b)
     else Inr (crc data = cb_checksum b, b))"

type_synonym BlockCollection = "CompressionBlock list"

definition addBlock :: "BlockCollection \<Rightarrow> CompressionBlock \<Rightarrow> BlockCollection" where
  "addBlock blocks b = blocks @ [b]"

definition getBlock :: "BlockCollection \<Rightarrow> nat \<Rightarrow> CompressionBlock option" where
  "getBlock blocks index = (if index \<ge> length blocks then None else Some (blocks ! index))"

definition totalCompressedSize :: "BlockCollection \<Rightarrow> u64" where
  "totalCompressedSize blocks = foldl (\<lambda>total b. total + cb_compressedSize b) 0 blocks"

definition totalOriginalSize :: "BlockCollection \<Rightarrow> u64" where
  "totalOriginalSize blocks = foldl (\<lambda>total b. total + cb_originalSize b) 0 blocks"

fun findBlock_from :: "BlockCollection \<Rightarrow> u64 \<Rightarrow> u64 \<Rightarrow> CompressionBlock option" where
  "findBlock_from [] originalOffset off = None"
| "findBlock_from (b # blocks) originalOffset off =
     (if originalOffset \<ge> off \<and> originalOffset < off + cb_originalSize b then Some b
      else findBlock_from blocks originalOffset (off + cb_originalSize b))"

definition findBlock :: "BlockCollection \<Rightarrow> u64 \<Rightarrow> CompressionBlock option" where
  "findBlock blocks originalOffset = findBlock_from blocks originalOffset 0"

section \<open>What the libraries promise\<close>

definition lz4_law :: "codec_libs \<Rightarrow> bool" where
  "lz4_law libs \<longleftrightarrow> (\<forall>src. length src \<le> 0x7E000000 \<longrightarrow>
     0 < LZ4_compressBound libs (int (length src)) \<and> LZ4_compressBound libs (int (length src)) < 2 ^ 31 \<and>
     (\<forall>dst. length dst = nat (LZ4_compressBound libs (int (length src))) \<longrightarrow>
        (case LZ4_compress_default libs src dst (int (length src)) (LZ4_compressBound libs (int (length src))) of
           (r, d) \<Rightarrow> 0 < r \<and> r < 2 ^ 31 \<and> nat r \<le> length d \<and> length d = length dst \<and>
             (\<forall>buf. length buf = length src \<longrightarrow>
                LZ4_decompress_safe libs (take (nat r) d) buf r (int (length src)) = (int (length src), src)))))"

definition zlib_law :: "codec_libs \<Rightarrow> int \<Rightarrow> bool" where
  "zlib_law libs level \<longleftrightarrow> (\<forall>src dst. length dst = zlib_compressBound libs (length src) \<longrightarrow>
     (case zlib_compress2 libs dst (length dst) src level of
        (ok, n, d) \<Rightarrow> ok \<and> n \<le> length d \<and> length d = length dst \<and>
          (\<forall>buf. length buf = length src \<longrightarrow> zlib_uncompress libs buf (length src) (take n d) = (True, length src, src))))"

definition zstd_law :: "codec_libs \<Rightarrow> int \<Rightarrow> bool" where
  "zstd_law libs level \<longleftrightarrow> (\<forall>src dst. length dst = ZSTD_compressBound libs (length src) \<longrightarrow>
     (case ZSTD_compressCCtx libs dst (length dst) src level of
        (n, d) \<Rightarrow> \<not> ZSTD_isError libs n \<and> 0 < n \<and> n \<le> length d \<and> length d = length dst \<and>
          ZSTD_getFrameContentSize libs (take n d) = length src \<and> \<not> ZSTD_isError libs (length src) \<and>
          (\<forall>buf. length buf = length src \<longrightarrow> ZSTD_decompress libs buf (length src) (take n d) = (length src, src))))"

text \<open>The library that an algorithm calls restores what it compresses, at the level given to it.\<close>

definition codec_laws :: "codec_libs \<Rightarrow> CompressionAlgorithm \<Rightarrow> int \<Rightarrow> bool" where
  "codec_laws libs algo level \<longleftrightarrow>
     (algo = LZ4 \<longrightarrow> lz4_law libs) \<and> (algo = Zlib \<longrightarrow> zlib_law libs level) \<and> (algo = Zstd \<longrightarrow> zstd_law libs level)"

text \<open>Enough memory for data of up to \<open>n\<close> bytes and for every compressed form of it.\<close>

definition memory_for :: "codec_libs \<Rightarrow> nat \<Rightarrow> CompressionEngine \<Rightarrow> nat \<Rightarrow> bool" where
  "memory_for libs limit e n \<longleftrightarrow> n \<le> limit \<and> (\<forall>k \<in> {0..n}. estimateCompressedSize libs e k \<le> limit)"

definition engine_ok :: "CompressionEngine \<Rightarrow> bool" where
  "engine_ok e \<longleftrightarrow> en_ctx e = (cp_algorithm (en_config e) = Zstd)"

lemma engine_ok_new [simp]: "engine_ok (newCompressionEngine config)"
  by (simp add: engine_ok_def newCompressionEngine_def en_initContext_def)

lemma engine_ok_setConfig: "engine_ok (en_setConfig e config)"
  by (simp add: engine_ok_def en_setConfig_def en_initContext_def)

lemma to_int32_small: "n < 2 ^ 31 \<Longrightarrow> to_int32 n = int n"
  by (simp add: to_int32_def signed_of_nat signed_take_bit_int_eq_self)

lemma resize_take: "n \<le> length xs \<Longrightarrow> resize n xs = take n xs"
  by (simp add: resize_def)

section \<open>The round trip of the engine\<close>

definition restores :: "codec_libs \<Rightarrow> nat \<Rightarrow> CompressionEngine \<Rightarrow> byte list \<Rightarrow> CompressionResult \<Rightarrow> bool" where
  "restores libs limit e data r \<longleftrightarrow> cr_success r \<and> cr_originalSize r = length data \<and> length (cr_data r) \<le> limit \<and>
     (case en_decompress libs limit e (cr_data r) (cr_originalSize r) of
        Inl _ \<Rightarrow> False | Inr r' \<Rightarrow> cr_success r' \<and> cr_data r' = data)"

lemma lz4_restores:
  assumes "lz4_law libs" "cp_algorithm (en_config e) = LZ4" "length data \<le> 0x7E000000" "memory_for libs limit e (length data)"
  shows "\<exists>r. compressLZ4 libs limit data = Inr r \<and> restores libs limit e data r"
proof -
  let ?n = "int (length data)"
  have n: "to_int32 (length data) = ?n"
    using assms(3) by (intro to_int32_small) simp
  let ?b = "LZ4_compressBound libs ?n" and ?buf = "replicate (nat (LZ4_compressBound libs ?n)) 0 :: byte list"
  obtain k d where c: "LZ4_compress_default libs data ?buf ?n ?b = (k, d)"
    by (cases "LZ4_compress_default libs data ?buf ?n ?b")
  note sp = assms(1) [unfolded lz4_law_def, THEN spec, of data, THEN mp, OF assms(3)]
  have law: "0 < ?b" "?b < 2 ^ 31" "0 < k" "k < 2 ^ 31" "nat k \<le> length d" "length d = nat ?b"
    "\<forall>buf. length buf = length data \<longrightarrow> LZ4_decompress_safe libs (take (nat k) d) buf k ?n = (?n, data)"
    using sp sp [THEN conjunct2, THEN conjunct2, THEN spec, of ?buf] c by auto
  have "estimateCompressedSize libs e (length data) \<le> limit"
    using assms(4) unfolding memory_for_def by (meson atLeastAtMost_iff order_refl zero_le)
  moreover have "nat ?b \<le> unat (word_of_int ?b :: u64)"
    using law(1,2) by (simp add: unat_eq_nat_uint uint_word_of_int_eq take_bit_int_eq_self)
  ultimately have "nat ?b \<le> limit"
    using assms(2) n by (simp add: estimateCompressedSize_def)
  then have bl: "nat ?b \<le> limit" and "compressLZ4 libs limit data = Inr (newCompressionResult\<lparr>cr_data := take (nat k) d,
      cr_originalSize := length data, cr_compressedSize := nat k, cr_success := True\<rparr>)"
    using law c by (simp_all add: compressLZ4_def n zeros_def resize_take newCompressionResult_def)
  moreover have "to_int32 (nat k) = k"
    using law by (subst to_int32_small) auto
  ultimately show ?thesis
    using law assms(2,4) n bl
    by (auto simp: restores_def en_decompress_def decompressLZ4_def zeros_def memory_for_def newCompressionResult_def)
qed

lemma zlib_restores:
  assumes "zlib_law libs (cp_compressionLevel (en_config e))" "cp_algorithm (en_config e) = Zlib"
    "memory_for libs limit e (length data)"
  shows "\<exists>r. compressZlib libs limit e data = Inr r \<and> restores libs limit e data r"
proof -
  let ?b = "zlib_compressBound libs (length data)" and ?l = "cp_compressionLevel (en_config e)"
  obtain ok k d where c: "zlib_compress2 libs (replicate ?b 0) ?b data ?l = (ok, k, d)"
    by (cases "zlib_compress2 libs (replicate ?b 0) ?b data ?l")
  then have law: "ok" "k \<le> length d" "length d = ?b"
    "\<forall>buf. length buf = length data \<longrightarrow> zlib_uncompress libs buf (length data) (take k d) = (True, length data, data)"
    using assms(1) [unfolded zlib_law_def, THEN spec, of data, THEN spec, of "replicate ?b 0"] by auto
  have "estimateCompressedSize libs e (length data) \<le> limit"
    using assms(3) unfolding memory_for_def by (meson atLeastAtMost_iff order_refl zero_le)
  then have "?b \<le> limit"
    using assms(2) by (simp add: estimateCompressedSize_def)
  then have bl: "?b \<le> limit" and "compressZlib libs limit e data = Inr (newCompressionResult\<lparr>cr_data := take k d,
      cr_originalSize := length data, cr_compressedSize := k, cr_success := True\<rparr>)"
    using law c by (simp_all add: compressZlib_def zeros_def resize_take newCompressionResult_def)
  then show ?thesis
    using law assms(2,3) bl
    by (auto simp: restores_def en_decompress_def decompressZlib_def zeros_def memory_for_def newCompressionResult_def)
qed

lemma zstd_restores:
  assumes "zstd_law libs (cp_compressionLevel (en_config e))" "cp_algorithm (en_config e) = Zstd" "engine_ok e"
    "length data < 2 ^ 63" "memory_for libs limit e (length data)"
  shows "\<exists>r. compressZstd libs limit e data = Inr r \<and> restores libs limit e data r"
proof -
  let ?b = "ZSTD_compressBound libs (length data)" and ?l = "cp_compressionLevel (en_config e)"
  obtain k d where c: "ZSTD_compressCCtx libs (replicate ?b 0) ?b data ?l = (k, d)"
    by (cases "ZSTD_compressCCtx libs (replicate ?b 0) ?b data ?l")
  then have law: "\<not> ZSTD_isError libs k" "k \<le> length d" "length d = ?b" "ZSTD_getFrameContentSize libs (take k d) = length data"
    "\<not> ZSTD_isError libs (length data)"
    "\<forall>buf. length buf = length data \<longrightarrow> ZSTD_decompress libs buf (length data) (take k d) = (length data, data)"
    using assms(1) [unfolded zstd_law_def, THEN spec, of data, THEN spec, of "replicate ?b 0"] by auto
  have "estimateCompressedSize libs e (length data) \<le> limit"
    using assms(5) unfolding memory_for_def by (meson atLeastAtMost_iff order_refl zero_le)
  then have "?b \<le> limit"
    using assms(2) by (simp add: estimateCompressedSize_def)
  then have bl: "?b \<le> limit" and "compressZstd libs limit e data = Inr (newCompressionResult\<lparr>cr_data := take k d,
      cr_originalSize := length data, cr_compressedSize := k, cr_success := True\<rparr>)"
    using law c assms(2,3) by (simp_all add: compressZstd_def zeros_def resize_take newCompressionResult_def engine_ok_def)
  then show ?thesis
    using law assms(2,4,5) bl
    by (auto simp: restores_def en_decompress_def decompressZstd_def zeros_def memory_for_def newCompressionResult_def Let_def
        ZSTD_CONTENTSIZE_ERROR_def ZSTD_CONTENTSIZE_UNKNOWN_def)
qed

definition algorithm_named :: "CompressionAlgorithm \<Rightarrow> bool" where
  "algorithm_named a \<longleftrightarrow> a = CNone \<or> a = LZ4 \<or> a = Zlib \<or> a = Zstd"

lemma compress_restores:
  assumes "codec_laws libs (cp_algorithm (en_config e)) (cp_compressionLevel (en_config e))" "engine_ok e" "algorithm_named (cp_algorithm (en_config e))"
    "length data \<le> 0x7E000000" "memory_for libs limit e (length data)"
  shows "\<exists>r. en_compress libs limit e data = Inr r \<and> restores libs limit e data r"
proof -
  consider "cp_algorithm (en_config e) = CNone" | "cp_algorithm (en_config e) = LZ4"
    | "cp_algorithm (en_config e) = Zlib" | "cp_algorithm (en_config e) = Zstd"
    using assms(3) by (auto simp: algorithm_named_def)
  then show ?thesis
  proof cases
    case 1
    then show ?thesis
      using assms(5) by (simp add: en_compress_def restores_def en_decompress_def newCompressionResult_def memory_for_def)
  next
    case 2
    with lz4_restores [of libs e data limit] assms show ?thesis
      by (simp add: en_compress_def codec_laws_def)
  next
    case 3
    with zlib_restores [of libs e limit data] assms show ?thesis
      by (simp add: en_compress_def codec_laws_def)
  next
    case 4
    with zstd_restores [of libs e data limit] assms show ?thesis
      by (simp add: en_compress_def codec_laws_def)
  qed
qed

text \<open>Data of up to 0x7E000000 bytes that an engine compresses, with any of its four algorithms, is
  what it decompresses again, provided that the compression libraries restore what they
  compress and that there is memory for both.\<close>

theorem compression_roundtrip:
  assumes "codec_laws libs (cp_algorithm (en_config e)) (cp_compressionLevel (en_config e))" "engine_ok e" "algorithm_named (cp_algorithm (en_config e))"
    "length data \<le> 0x7E000000" "memory_for libs limit e (length data)"
  shows "\<exists>r r'. en_compress libs limit e data = Inr r \<and> cr_success r \<and> cr_originalSize r = length data \<and>
    en_decompress libs limit e (cr_data r) (cr_originalSize r) = Inr r' \<and> cr_success r' \<and> cr_data r' = data"
proof -
  obtain r where "en_compress libs limit e data = Inr r" "restores libs limit e data r"
    using compress_restores [OF assms] by blast
  then show ?thesis
    by (cases "en_decompress libs limit e (cr_data r) (cr_originalSize r)") (auto simp: restores_def)
qed

text \<open>A codec that satisfies the laws: it appends one byte.\<close>

definition copy_libs :: codec_libs where
  "copy_libs =
     \<lparr>LZ4_compressBound = (\<lambda>n. n + 1), LZ4_compress_default = (\<lambda>src dst n b. (n + 1, src @ [0])),
      LZ4_decompress_safe = (\<lambda>src dst n cap. (cap, take (nat cap) src)),
      zlib_compressBound = (\<lambda>n. n + 1), zlib_compress2 = (\<lambda>dst cap src level. (True, length src + 1, src @ [0])),
      zlib_uncompress = (\<lambda>dst cap src. (True, cap, take cap src)),
      ZSTD_compressBound = (\<lambda>n. n + 1), ZSTD_compressCCtx = (\<lambda>dst cap src level. (length src + 1, src @ [0])),
      ZSTD_decompress = (\<lambda>dst cap src. (cap, take cap src)),
      ZSTD_isError = (\<lambda>n. False), ZSTD_getFrameContentSize = (\<lambda>src. length src - 1)\<rparr>"

lemma copy_libs_laws: "codec_laws copy_libs algo level"
  by (auto simp: codec_laws_def lz4_law_def zlib_law_def zstd_law_def copy_libs_def)

definition example_engine :: CompressionEngine where
  "example_engine = newCompressionEngine
     \<lparr>cp_algorithm = LZ4, cp_compressionLevel = 3, cp_blockSize = 65536, cp_enableChecksum = True, cp_workMemory = 0\<rparr>"

lemma example_engine_ok:
  "engine_ok example_engine" "algorithm_named (cp_algorithm (en_config example_engine))"
  by (simp_all add: example_engine_def algorithm_named_def newCompressionEngine_def en_initContext_def engine_ok_def)

lemma example_engine_estimate: "n < 2 ^ 30 \<Longrightarrow> estimateCompressedSize copy_libs example_engine n = n + 1"
proof -
  assume n: "n < 2 ^ 30"
  have "estimateCompressedSize copy_libs example_engine n = unat (word_of_int (int n + 1) :: u64)"
    using n by (simp add: estimateCompressedSize_def example_engine_def newCompressionEngine_def en_initContext_def
        copy_libs_def to_int32_small)
  also have "\<dots> = unat (size64 (n + 1))"
    by (simp add: size64_def add.commute)
  finally show ?thesis
    using n by simp
qed

lemma example_engine_memory: "n < 2 ^ 30 \<Longrightarrow> n < limit \<Longrightarrow> memory_for copy_libs limit example_engine n"
  by (auto simp: memory_for_def example_engine_estimate)

theorem compression_roundtrip_witness:
  "\<exists>r r'. en_compress copy_libs 9 example_engine [7, 8] = Inr r \<and> cr_success r \<and>
    en_decompress copy_libs 9 example_engine (cr_data r) (cr_originalSize r) = Inr r' \<and> cr_success r' \<and>
    cr_data r' = [7, 8]"
proof -
  have "memory_for copy_libs 9 example_engine (length [7, 8 :: byte])"
    by (rule example_engine_memory) simp_all
  from compression_roundtrip [OF copy_libs_laws example_engine_ok _ this] show ?thesis
    by simp blast
qed

section \<open>Blocks of data\<close>

lemma memory_for_mono: "memory_for libs limit e n \<Longrightarrow> m \<le> n \<Longrightarrow> memory_for libs limit e m"
  by (auto simp: memory_for_def)

lemma compress_loop_restores:
  assumes ok: "codec_laws libs (cp_algorithm (en_config e)) (cp_compressionLevel (en_config e))" "engine_ok e" "algorithm_named (cp_algorithm (en_config e))"
    "length data \<le> 0x7E000000" "memory_for libs limit e (length data)" "0 < blockSize"
  shows "\<exists>rs ps. compress_loop libs limit e data blockSize off acc = Some (Inr (acc @ rs)) \<and>
    concat ps = drop off data \<and> list_all2 (restores libs limit e) ps rs"
proof (induction "length data - off" arbitrary: off acc rule: less_induct)
  case less
  show ?case
  proof (cases "off < length data")
    case True
    let ?k = "min blockSize (length data - off)"
    let ?p = "take ?k (drop off data)"
    have "length ?p \<le> length data" by simp
    then obtain r where r: "en_compress libs limit e ?p = Inr r" "restores libs limit e ?p r"
      using compress_restores [OF ok(1-3), of ?p limit] ok(4) memory_for_mono [OF ok(5)] by fastforce
    have "length data - (off + ?k) < length data - off"
      using True ok(6) by auto
    from less [OF this, of "acc @ [r]"] obtain rs ps where
      "compress_loop libs limit e data blockSize (off + ?k) (acc @ [r]) = Some (Inr (acc @ r # rs))"
      "concat ps = drop (off + ?k) data" "list_all2 (restores libs limit e) ps rs"
      by auto
    moreover have "?p @ drop (off + ?k) data = drop off data"
      by (metis append_take_drop_id drop_drop add.commute)
    ultimately show ?thesis
      using r True
      by (intro exI [of _ "r # rs"] exI [of _ "?p # ps"]) (auto simp: compress_loop.simps [of libs limit e data blockSize off acc] Let_def)
  next
    case False
    then show ?thesis
      by (intro exI [of _ "[]"] exI [of _ "[]"]) (auto simp: compress_loop.simps [of libs limit e data blockSize off acc])
  qed
qed

lemma decompress_loop_restores:
  "list_all2 (restores libs limit e) ps rs \<Longrightarrow>
   decompress_loop libs limit e rs out result = Inr (result\<lparr>cr_data := out @ concat ps, cr_success := True\<rparr>)"
proof (induction arbitrary: out rule: list_all2_induct)
  case (Cons p ps r rs)
  then show ?case
    by (cases "en_decompress libs limit e (cr_data r) (cr_originalSize r)") (auto simp: restores_def)
qed simp

text \<open>C36: With a positive block size, compressing data block by block ends, and decompressing the
  blocks in order gives back the data.\<close>

theorem compress_blocks_roundtrip:
  assumes "codec_laws libs (cp_algorithm (en_config e)) (cp_compressionLevel (en_config e))" "engine_ok e" "algorithm_named (cp_algorithm (en_config e))"
    "length data \<le> 0x7E000000" "memory_for libs limit e (length data)" "0 < blockSize"
  shows "\<exists>rs r. compressBlocks libs limit e data blockSize = Some (Inr rs) \<and>
    decompressBlocks libs limit e rs (length data) = Inr r \<and> cr_success r \<and> cr_data r = data"
proof -
  obtain rs ps where rs: "compress_loop libs limit e data blockSize 0 [] = Some (Inr rs)"
    "concat ps = data" "list_all2 (restores libs limit e) ps rs"
    using compress_loop_restores [OF assms, of 0 "[]"] by auto
  have "length data \<le> limit"
    using assms(5) by (simp add: memory_for_def)
  then show ?thesis
    using rs decompress_loop_restores [OF rs(3)]
    by (simp add: compressBlocks_def decompressBlocks_def)
qed

theorem compress_blocks_roundtrip_witness:
  "\<exists>rs r. compressBlocks copy_libs 9 example_engine [7, 8] 1 = Some (Inr rs) \<and>
    decompressBlocks copy_libs 9 example_engine rs (length [7, 8 :: byte]) = Inr r \<and> cr_success r \<and> cr_data r = [7, 8]"
proof -
  have "memory_for copy_libs 9 example_engine (length [7, 8 :: byte])"
    by (rule example_engine_memory) simp_all
  from compress_blocks_roundtrip [OF copy_libs_laws example_engine_ok _ this] show ?thesis
    by simp
qed

text \<open>A block size of 0 makes the loop compress empty blocks for ever.\<close>

lemma compress_loop_diverges:
  "compress_loop libs limit e data bs off acc = Some r \<Longrightarrow>
   bs = 0 \<and> off < length data \<and> en_compress libs limit e [] = Inr r0 \<longrightarrow> False"
  by (erule compress_loop.raw_induct [rotated]) (fastforce simp: Let_def split: if_splits sum.splits)

text \<open>With the block size 0, \<^verbatim>\<open>compressBlocks\<close> never returns on data that is not empty.\<close>

theorem compress_blocks_zero:
  assumes "data \<noteq> []" "cp_algorithm (en_config e) = CNone"
  shows "compressBlocks libs limit e data 0 = None"
  using compress_loop_diverges [of libs limit e data 0 0 "[]"] assms
  by (cases "compress_loop libs limit e data 0 0 []") (auto simp: compressBlocks_def en_compress_def)

theorem compress_blocks_zero_witness:
  "compressBlocks copy_libs 9 (newCompressionEngine (en_config example_engine\<lparr>cp_algorithm := CNone\<rparr>)) [7] 0 = None"
  by (rule compress_blocks_zero) (simp_all add: newCompressionEngine_def en_initContext_def)

section \<open>Collections of blocks\<close>

text \<open>The owner of every byte of the original data.\<close>

abbreviation owners :: "BlockCollection \<Rightarrow> CompressionBlock list" where
  "owners blocks \<equiv> concat (map (\<lambda>b. replicate (unat (cb_originalSize b)) b) blocks)"

lemma findBlock_from_owner:
  "unat off + length (owners blocks) < 2 ^ 64 \<Longrightarrow> off \<le> x \<Longrightarrow>
   findBlock_from blocks x off =
     (if unat x - unat off < length (owners blocks) then Some (owners blocks ! (unat x - unat off)) else None)"
proof (induction blocks arbitrary: off)
  case (Cons b blocks)
  let ?n = "unat (cb_originalSize b)"
  have sum: "unat (off + cb_originalSize b) = unat off + ?n"
    using Cons.prems(1) by (simp add: unat_word_ariths)
  have "off \<le> x" "unat off \<le> unat x"
    using Cons.prems(2) by (simp_all add: word_le_nat_alt)
  show ?case
  proof (cases "x < off + cb_originalSize b")
    case True
    then have "unat x - unat off < ?n"
      using sum \<open>unat off \<le> unat x\<close> by (simp add: word_less_nat_alt)
    with True Cons.prems(2) show ?thesis
      by (simp add: nth_append)
  next
    case False
    then have "off + cb_originalSize b \<le> x" "unat off + ?n \<le> unat x"
      using sum by (simp_all add: word_le_nat_alt word_less_nat_alt)
    then show ?thesis
      using Cons.IH [of "off + cb_originalSize b"] Cons.prems sum False
      by (auto simp: nth_append)
  qed
qed simp

text \<open>\<^verbatim>\<open>findBlock\<close> returns the block that holds the byte at an offset of the original data, and
  nothing behind its end, as long as the sizes add up to less than \<open>2 ^ 64\<close>: the data is the
  blocks, each repeated as often as it has bytes.\<close>

theorem find_block:
  assumes "length (owners blocks) < 2 ^ 64"
  shows "findBlock blocks x = (if unat x < length (owners blocks) then Some (owners blocks ! unat x) else None)"
  using findBlock_from_owner [of 0 blocks x] assms by (simp add: findBlock_def)

theorem find_block_witness:
  "findBlock [newCompressionBlock\<lparr>cb_originalSize := 2, cb_algo := LZ4\<rparr>, newCompressionBlock\<lparr>cb_originalSize := 3\<rparr>] 2 =
     Some (newCompressionBlock\<lparr>cb_originalSize := 3\<rparr>)"
proof -
  let ?a = "newCompressionBlock\<lparr>cb_originalSize := 2, cb_algo := LZ4\<rparr>" and ?b = "newCompressionBlock\<lparr>cb_originalSize := 3\<rparr>"
  have o: "owners [?a, ?b] = [?a, ?a, ?b, ?b, ?b]"
    by simp (simp add: numeral_2_eq_2 numeral_3_eq_3)
  have "length (owners [?a, ?b]) < 2 ^ 64"
    unfolding o by simp
  from find_block [OF this, of 2] show ?thesis
    unfolding o by simp
qed

end
