(* ===== verification/Archive_Header.thy ===== *)
theory Archive_Header
  imports Checksum_Engine
begin

text \<open>
  \<^verbatim>\<open>format::ArchiveHeader\<close> of \<^verbatim>\<open>BinaryFormat.hpp\<close> and \<^verbatim>\<open>archive/ArchiveHeader\<close>: the packed header
  of 158 bytes at the start of every archive, with its checks.  \<^verbatim>\<open>memcpy\<close> between the packed
  structure and bytes is the little-endian layout of its fields in order.  The CRC-32 of zlib is
  the parameter \<open>crc\<close>.
\<close>

section \<open>The packed structure\<close>

record ArchiveHeader =
  ah_magic :: "byte list"   \<comment> \<open>\<^verbatim>\<open>uint8_t[4]\<close>\<close>
  ah_versionMajor :: u16
  ah_versionMinor :: u16
  ah_flags :: u16
  ah_archiveSize :: u64
  ah_metadataOffset :: u64
  ah_directoryOffset :: u64
  ah_indexOffset :: u64
  ah_chunkOffset :: u64
  ah_blocksOffset :: u64
  ah_journalOffset :: u64
  ah_entryCount :: u64
  ah_metadataSize :: u64
  ah_directorySize :: u64
  ah_indexSize :: u64
  ah_chunkSize :: u64
  ah_blocksSize :: u64
  ah_journalSize :: u64
  ah_headerChecksum :: u32
  ah_archiveChecksum :: "byte list"   \<comment> \<open>\<^verbatim>\<open>uint8_t[32]\<close>\<close>

definition archive_magic :: "byte list" where
  "archive_magic = [0x4E, 0x42, 0x46, 0x01]"

definition newArchiveHeader :: ArchiveHeader where
  "newArchiveHeader =
     \<lparr>ah_magic = archive_magic, ah_versionMajor = kArchiveVersionMajor, ah_versionMinor = kArchiveVersionMinor,
      ah_flags = 0, ah_archiveSize = 0, ah_metadataOffset = 0, ah_directoryOffset = 0, ah_indexOffset = 0,
      ah_chunkOffset = 0, ah_blocksOffset = 0, ah_journalOffset = 0, ah_entryCount = 0, ah_metadataSize = 0,
      ah_directorySize = 0, ah_indexSize = 0, ah_chunkSize = 0, ah_blocksSize = 0, ah_journalSize = 0,
      ah_headerChecksum = 0, ah_archiveChecksum = replicate 32 0\<rparr>"

definition headerSize :: nat where
  "headerSize = 158"

definition header_bytes :: "ArchiveHeader \<Rightarrow> byte list" where
  "header_bytes h =
     ah_magic h @ to_le 2 (ah_versionMajor h) @ to_le 2 (ah_versionMinor h) @ to_le 2 (ah_flags h) @
     to_le 8 (ah_archiveSize h) @ to_le 8 (ah_metadataOffset h) @ to_le 8 (ah_directoryOffset h) @
     to_le 8 (ah_indexOffset h) @ to_le 8 (ah_chunkOffset h) @ to_le 8 (ah_blocksOffset h) @
     to_le 8 (ah_journalOffset h) @ to_le 8 (ah_entryCount h) @ to_le 8 (ah_metadataSize h) @
     to_le 8 (ah_directorySize h) @ to_le 8 (ah_indexSize h) @ to_le 8 (ah_chunkSize h) @
     to_le 8 (ah_blocksSize h) @ to_le 8 (ah_journalSize h) @ to_le 4 (ah_headerChecksum h) @
     ah_archiveChecksum h"

definition field :: "byte list \<Rightarrow> nat \<Rightarrow> nat \<Rightarrow> 'a::len word" where
  "field data off n = from_le (take n (drop off data))"

definition header_of_bytes :: "byte list \<Rightarrow> ArchiveHeader" where
  "header_of_bytes data =
     \<lparr>ah_magic = take 4 data, ah_versionMajor = field data 4 2, ah_versionMinor = field data 6 2,
      ah_flags = field data 8 2, ah_archiveSize = field data 10 8, ah_metadataOffset = field data 18 8,
      ah_directoryOffset = field data 26 8, ah_indexOffset = field data 34 8, ah_chunkOffset = field data 42 8,
      ah_blocksOffset = field data 50 8, ah_journalOffset = field data 58 8, ah_entryCount = field data 66 8,
      ah_metadataSize = field data 74 8, ah_directorySize = field data 82 8, ah_indexSize = field data 90 8,
      ah_chunkSize = field data 98 8, ah_blocksSize = field data 106 8, ah_journalSize = field data 114 8,
      ah_headerChecksum = field data 122 4, ah_archiveChecksum = take 32 (drop 126 data)\<rparr>"

definition isValidMagic :: "ArchiveHeader \<Rightarrow> bool" where
  "isValidMagic h \<longleftrightarrow> ah_magic h ! 0 = 0x4E \<and> ah_magic h ! 1 = 0x42 \<and> ah_magic h ! 2 = 0x46 \<and> ah_magic h ! 3 = 0x01"

definition isVersionSupported :: "ArchiveHeader \<Rightarrow> bool" where
  "isVersionSupported h \<longleftrightarrow>
     ah_versionMajor h = kArchiveVersionMajor \<and> ah_versionMinor h \<le> kArchiveVersionMinor"

section \<open>Operations\<close>

definition ah_isValid :: "ArchiveHeader \<Rightarrow> bool" where
  "ah_isValid h \<longleftrightarrow> isValidMagic h \<and> isVersionSupported h"

definition ah_serialize :: "ArchiveHeader \<Rightarrow> byte list" where
  "ah_serialize h = header_bytes h"

text \<open>The checksum is computed over the serialised header with the checksum field set to 0.\<close>

definition ah_checksum :: "(byte list \<Rightarrow> u32) \<Rightarrow> ArchiveHeader \<Rightarrow> u32" where
  "ah_checksum crc h =
     (let serialized = ah_serialize h; mutableHeader = header_of_bytes serialized
      in crc (header_bytes (mutableHeader\<lparr>ah_headerChecksum := 0\<rparr>)))"

definition verifyChecksum :: "(byte list \<Rightarrow> u32) \<Rightarrow> ArchiveHeader \<Rightarrow> bool" where
  "verifyChecksum crc h =
     (if ah_headerChecksum h = 0 then True
      else if length (ah_serialize h) < headerSize then False
      else ah_checksum crc h = ah_headerChecksum h)"

definition updateChecksum :: "(byte list \<Rightarrow> u32) \<Rightarrow> ArchiveHeader \<Rightarrow> ArchiveHeader" where
  "updateChecksum crc h = h\<lparr>ah_headerChecksum := ah_checksum crc h\<rparr>"

definition ah_parse :: "(byte list \<Rightarrow> u32) \<Rightarrow> ArchiveHeader \<Rightarrow> byte list \<Rightarrow> ErrorCode \<times> ArchiveHeader" where
  "ah_parse crc h data =
     (if length data < headerSize then (CorruptHeader, h)
      else
        let h = header_of_bytes data in
        if \<not> ah_isValid h then (InvalidMagic, h)
        else if \<not> isVersionSupported h then (UnsupportedVersion, h)
        else if \<not> verifyChecksum crc h then (ChecksumMismatch, h)
        else (Success, h))"

text \<open>The setters.\<close>

definition setFlags :: "ArchiveHeader \<Rightarrow> u16 \<Rightarrow> ArchiveHeader" where
  "setFlags h v = h\<lparr>ah_flags := v\<rparr>"

definition setArchiveSize :: "ArchiveHeader \<Rightarrow> u64 \<Rightarrow> ArchiveHeader" where
  "setArchiveSize h v = h\<lparr>ah_archiveSize := v\<rparr>"

definition setMetadataOffset :: "ArchiveHeader \<Rightarrow> u64 \<Rightarrow> ArchiveHeader" where
  "setMetadataOffset h v = h\<lparr>ah_metadataOffset := v\<rparr>"

definition setDirectoryOffset :: "ArchiveHeader \<Rightarrow> u64 \<Rightarrow> ArchiveHeader" where
  "setDirectoryOffset h v = h\<lparr>ah_directoryOffset := v\<rparr>"

definition setIndexOffset :: "ArchiveHeader \<Rightarrow> u64 \<Rightarrow> ArchiveHeader" where
  "setIndexOffset h v = h\<lparr>ah_indexOffset := v\<rparr>"

definition setChunkOffset :: "ArchiveHeader \<Rightarrow> u64 \<Rightarrow> ArchiveHeader" where
  "setChunkOffset h v = h\<lparr>ah_chunkOffset := v\<rparr>"

definition setBlocksOffset :: "ArchiveHeader \<Rightarrow> u64 \<Rightarrow> ArchiveHeader" where
  "setBlocksOffset h v = h\<lparr>ah_blocksOffset := v\<rparr>"

definition setJournalOffset :: "ArchiveHeader \<Rightarrow> u64 \<Rightarrow> ArchiveHeader" where
  "setJournalOffset h v = h\<lparr>ah_journalOffset := v\<rparr>"

definition setEntryCount :: "ArchiveHeader \<Rightarrow> u64 \<Rightarrow> ArchiveHeader" where
  "setEntryCount h v = h\<lparr>ah_entryCount := v\<rparr>"

definition setMetadataSize :: "ArchiveHeader \<Rightarrow> u64 \<Rightarrow> ArchiveHeader" where
  "setMetadataSize h v = h\<lparr>ah_metadataSize := v\<rparr>"

definition setDirectorySize :: "ArchiveHeader \<Rightarrow> u64 \<Rightarrow> ArchiveHeader" where
  "setDirectorySize h v = h\<lparr>ah_directorySize := v\<rparr>"

definition setIndexSize :: "ArchiveHeader \<Rightarrow> u64 \<Rightarrow> ArchiveHeader" where
  "setIndexSize h v = h\<lparr>ah_indexSize := v\<rparr>"

definition setChunkSize :: "ArchiveHeader \<Rightarrow> u64 \<Rightarrow> ArchiveHeader" where
  "setChunkSize h v = h\<lparr>ah_chunkSize := v\<rparr>"

definition setBlocksSize :: "ArchiveHeader \<Rightarrow> u64 \<Rightarrow> ArchiveHeader" where
  "setBlocksSize h v = h\<lparr>ah_blocksSize := v\<rparr>"

definition setJournalSize :: "ArchiveHeader \<Rightarrow> u64 \<Rightarrow> ArchiveHeader" where
  "setJournalSize h v = h\<lparr>ah_journalSize := v\<rparr>"

section \<open>The layout\<close>

definition header_wf :: "ArchiveHeader \<Rightarrow> bool" where
  "header_wf h \<longleftrightarrow> length (ah_magic h) = 4 \<and> length (ah_archiveChecksum h) = 32"

lemma length_header_bytes [simp]: "header_wf h \<Longrightarrow> length (header_bytes h) = headerSize"
  by (simp add: header_bytes_def header_wf_def headerSize_def)

lemma header_of_header_bytes [simp]: "header_wf h \<Longrightarrow> header_of_bytes (header_bytes h @ rest) = h"
  by (simp add: header_of_bytes_def header_bytes_def field_def header_wf_def)

lemma header_wf_of_bytes [simp]: "headerSize \<le> length data \<Longrightarrow> header_wf (header_of_bytes data)"
  by (simp add: header_wf_def header_of_bytes_def headerSize_def)

lemma field_bytes:
  "off + n \<le> length data \<Longrightarrow> 8 * n \<le> LENGTH('a) \<Longrightarrow> to_le n (field data off n :: 'a::len word) = take n (drop off data)"
  using to_le_from_le [of "take n (drop off data)", where ?'a = 'a] by (simp add: field_def)

lemma take_drop_append: "take m (drop off data) @ take n (drop (off + m) data) = take (m + n) (drop off data)"
  by (simp add: take_add add.commute)

text \<open>The layout is a bijection between headers and their 158 bytes.\<close>

lemma header_bytes_split:
  assumes "headerSize \<le> length data"
  shows "header_bytes (header_of_bytes data) = take 122 data @ take 4 (drop 122 data) @ take 32 (drop 126 data)"
proof -
  have l: "158 \<le> length data" using assms by (simp add: headerSize_def)
  have glue: "take m (drop off data) @ take n (drop k data) @ xs = take (m + n) (drop off data) @ xs" if "k = off + m" for m n off k and xs :: "byte list"
    using take_drop_append [of m off data n] that by (simp flip: append_assoc)
  have glue0: "take m data @ take n (drop m data) @ xs = take (m + n) data @ xs" for m n and xs :: "byte list"
    using glue [of m 0 m n xs] by simp
  show ?thesis
    using l glue0 [of 114 8 "[]"] unfolding header_bytes_def header_of_bytes_def
    by (simp add: field_bytes) (simp only: glue0 numeral_plus_numeral add_num_simps)
qed

lemma header_bytes_of_bytes:
  "headerSize \<le> length data \<Longrightarrow> header_bytes (header_of_bytes data) = take headerSize data"
  using take_drop_append [of 122 0 data 4] take_drop_append [of 126 0 data 32]
  by (simp add: header_bytes_split headerSize_def flip: append_assoc)

lemma header_bytes_unsummed:
  assumes "headerSize \<le> length data"
  shows "header_bytes ((header_of_bytes data)\<lparr>ah_headerChecksum := 0\<rparr>) = take 122 data @ [0, 0, 0, 0] @ take 32 (drop 126 data)"
proof -
  let ?h = "header_of_bytes data"
  obtain pre where pre: "header_bytes h = pre h @ to_le 4 (ah_headerChecksum h) @ ah_archiveChecksum h"
      "pre (h\<lparr>ah_headerChecksum := c\<rparr>) = pre h" for h c
  proof -
    let ?pre = "\<lambda>h. ah_magic h @ to_le 2 (ah_versionMajor h) @ to_le 2 (ah_versionMinor h) @ to_le 2 (ah_flags h) @
     to_le 8 (ah_archiveSize h) @ to_le 8 (ah_metadataOffset h) @ to_le 8 (ah_directoryOffset h) @
     to_le 8 (ah_indexOffset h) @ to_le 8 (ah_chunkOffset h) @ to_le 8 (ah_blocksOffset h) @
     to_le 8 (ah_journalOffset h) @ to_le 8 (ah_entryCount h) @ to_le 8 (ah_metadataSize h) @
     to_le 8 (ah_directorySize h) @ to_le 8 (ah_indexSize h) @ to_le 8 (ah_chunkSize h) @
     to_le 8 (ah_blocksSize h) @ to_le 8 (ah_journalSize h)"
    show thesis
      by (rule that [of ?pre]) (simp_all add: header_bytes_def)
  qed
  have "to_le 4 (ah_headerChecksum ?h) = take 4 (drop 122 data)" "ah_archiveChecksum ?h = take 32 (drop 126 data)"
    using assms by (simp_all add: header_of_bytes_def field_bytes headerSize_def)
  then have "pre ?h = take 122 data"
    using header_bytes_split [OF assms] pre(1) [of ?h] by simp
  moreover have "to_le 4 (0 :: u32) = [0, 0, 0, 0]"
    by (simp add: numeral_eq_Suc)
  moreover have "ah_archiveChecksum (?h\<lparr>ah_headerChecksum := 0\<rparr>) = take 32 (drop 126 data)"
    by (simp add: header_of_bytes_def)
  ultimately show ?thesis
    using pre(1) [of "?h\<lparr>ah_headerChecksum := 0\<rparr>"] pre(2) [where h = ?h and c = 0] by simp
qed

lemma list_of_four:
  "length xs = 4 \<Longrightarrow> (xs ! 0 = a \<and> xs ! 1 = b \<and> xs ! 2 = c \<and> xs ! 3 = d) = (xs = [a, b, c, d])"
  by (auto simp: numeral_eq_Suc length_Suc_conv)


lemma header_of_serialized:
  "header_wf h \<Longrightarrow> header_of_bytes (ah_serialize h @ rest) = h"
  by (simp add: ah_serialize_def)

lemma ah_checksum_eq: "header_wf h \<Longrightarrow> ah_checksum crc h = crc (header_bytes (h\<lparr>ah_headerChecksum := 0\<rparr>))"
  using header_of_serialized [of h "[]"] by (simp add: ah_checksum_def)

lemma ah_checksum_updated:
  "header_wf h \<Longrightarrow> ah_checksum crc (h\<lparr>ah_headerChecksum := c\<rparr>) = ah_checksum crc h"
  using ah_checksum_eq [of "h\<lparr>ah_headerChecksum := c\<rparr>" crc] ah_checksum_eq [of h crc]
  by (simp add: header_wf_def)

lemma ah_parse_serialized:
  assumes "header_wf h" "ah_isValid h" "verifyChecksum crc h"
  shows "ah_parse crc h0 (ah_serialize h @ rest) = (Success, h)"
proof -
  have "headerSize \<le> length (ah_serialize h @ rest)"
    using assms(1) by (simp add: ah_serialize_def)
  then show ?thesis
    using assms header_of_serialized [OF assms(1), of rest]
    by (simp add: ah_parse_def ah_isValid_def Let_def)
qed

lemma verify_updated: "header_wf h \<Longrightarrow> verifyChecksum crc (updateChecksum crc h)"
proof -
  assume wf: "header_wf h"
  then have "header_wf (updateChecksum crc h)"
    by (simp add: header_wf_def updateChecksum_def)
  then have "length (ah_serialize (updateChecksum crc h)) = headerSize"
    by (simp add: ah_serialize_def)
  moreover have "ah_headerChecksum (updateChecksum crc h) = ah_checksum crc h"
    by (simp add: updateChecksum_def)
  ultimately show ?thesis
    using ah_checksum_updated [OF wf, of crc "ah_checksum crc h"] by (simp add: verifyChecksum_def updateChecksum_def)
qed

text \<open>A header with the right magic and version whose checksum has been updated is read back from
  its serialised form by \<^verbatim>\<open>parse\<close>, whatever follows it and whatever the checksum function.\<close>

theorem header_roundtrip:
  assumes "header_wf h" "ah_isValid h"
  shows "ah_parse crc h0 (ah_serialize (updateChecksum crc h) @ rest) = (Success, updateChecksum crc h)"
  using assms verify_updated [OF assms(1), of crc]
  by (intro ah_parse_serialized)
    (auto simp: header_wf_def updateChecksum_def ah_isValid_def isValidMagic_def isVersionSupported_def)

theorem header_roundtrip_witness:
  "ah_parse (\<lambda>bs. word_of_nat (length bs)) newArchiveHeader
     (ah_serialize (updateChecksum (\<lambda>bs. word_of_nat (length bs)) (setFlags newArchiveHeader 8)) @ [1, 2]) =
   (Success, updateChecksum (\<lambda>bs. word_of_nat (length bs)) (setFlags newArchiveHeader 8))"
  by (rule header_roundtrip)
    (simp_all add: header_wf_def ah_isValid_def isValidMagic_def isVersionSupported_def setFlags_def
      newArchiveHeader_def archive_magic_def)

text \<open>\<^verbatim>\<open>parse\<close> never reports an unsupported version: \<^verbatim>\<open>isValid\<close> tests the version too, so a header
  of another version is reported as having the wrong magic.\<close>

theorem header_version_error_unreachable:
  "fst (ah_parse crc h data) \<noteq> UnsupportedVersion \<and>
   fst (ah_parse crc h (ah_serialize (newArchiveHeader\<lparr>ah_versionMajor := 2\<rparr>))) = InvalidMagic"
proof
  show "fst (ah_parse crc h data) \<noteq> UnsupportedVersion"
    by (auto simp: ah_parse_def Let_def ah_isValid_def)
  let ?h = "newArchiveHeader\<lparr>ah_versionMajor := 2\<rparr>"
  have wf: "header_wf ?h"
    by (simp add: header_wf_def newArchiveHeader_def archive_magic_def)
  then have "length (ah_serialize ?h) = headerSize"
    by (simp add: ah_serialize_def)
  moreover have "\<not> ah_isValid ?h"
    by (simp add: ah_isValid_def isVersionSupported_def kArchiveVersionMajor_def)
  ultimately show "fst (ah_parse crc h (ah_serialize ?h)) = InvalidMagic"
    using header_of_serialized [OF wf, of "[]"] by (simp add: ah_parse_def Let_def)
qed

end
