(* ===== verification/Block_Store.thy ===== *)
theory Block_Store
  imports Compression Archive_Header
begin

text \<open>
  \<^verbatim>\<open>storage/BlockStorage\<close>: blocks with their packed header of 25 bytes.
\<close>

section \<open>The block header\<close>

record BlockHeader =
  bh_sync :: "byte list"
  bh_compressedSize :: u64
  bh_originalSize :: u64
  bh_compression :: CompressionAlgorithm
  bh_encryption :: EncryptionAlgorithm
  bh_encrypted :: byte
  bh_reserved :: "byte list"

definition newBlockHeader :: BlockHeader where
  "newBlockHeader =
     \<lparr>bh_sync = [0x4E, 0x42], bh_compressedSize = 0, bh_originalSize = 0, bh_compression = CNone,
      bh_encryption = ENone, bh_encrypted = 0, bh_reserved = [0, 0, 0, 0]\<rparr>"

definition blockHeaderSize :: nat where
  "blockHeaderSize = 25"

definition block_header_bytes :: "BlockHeader \<Rightarrow> byte list" where
  "block_header_bytes h =
     bh_sync h @ to_le 8 (bh_compressedSize h) @ to_le 8 (bh_originalSize h) @
     [compression_to_byte (bh_compression h), encryption_to_byte (bh_encryption h), bh_encrypted h] @ bh_reserved h"

definition block_header_of :: "byte list \<Rightarrow> BlockHeader" where
  "block_header_of data =
     \<lparr>bh_sync = take 2 data, bh_compressedSize = field data 2 8, bh_originalSize = field data 10 8,
      bh_compression = compression_of_byte (data ! 18), bh_encryption = encryption_of_byte (data ! 19),
      bh_encrypted = data ! 20, bh_reserved = take 4 (drop 21 data)\<rparr>"

section \<open>Operations\<close>

record BlockStorage =
  bs_blockData :: "byte list"

definition newBlockStorage :: BlockStorage where
  "newBlockStorage = \<lparr>bs_blockData = []\<rparr>"

definition serializeBlock :: "CompressionBlock \<Rightarrow> byte list" where
  "serializeBlock b =
     (let header = newBlockHeader\<lparr>bh_sync := [0x4E, 0x42], bh_compressedSize := cb_compressedSize b,
            bh_originalSize := cb_originalSize b, bh_compression := cb_algo b, bh_encryption := ENone,
            bh_encrypted := (if cb_encrypted b then 1 else 0)\<rparr>
      in block_header_bytes header @ cb_compressedData b)"

definition writeBlock :: "codec_libs \<Rightarrow> nat \<Rightarrow> (byte list \<Rightarrow> u32) \<Rightarrow> BlockStorage \<Rightarrow> byte list \<Rightarrow>
    CompressionAlgorithm \<Rightarrow> bool \<Rightarrow> ChunkDescriptor \<Rightarrow> (ErrorCode \<times> BlockStorage \<times> ChunkDescriptor) cpp" where
  "writeBlock libs limit crc st data algo encr descriptor =
     (let descriptor = descriptor\<lparr>cd_originalSize := size64 (length data), cd_compression := algo\<rparr>;
          block = newCompressionBlock\<lparr>cb_originalSize := size64 (length data), cb_algo := algo,
            cb_compressedData := data, cb_compressedSize := size64 (length data), cb_checksum := crc data\<rparr> in
      bind_cpp
        (if algo \<noteq> CNone then
           bind_cpp (en_compress libs limit
               (newCompressionEngine \<lparr>cp_algorithm = algo, cp_compressionLevel = 3, cp_blockSize = 0,
                  cp_enableChecksum = False, cp_workMemory = 0\<rparr>) data)
             (\<lambda>result. Inr (if cr_success result
               then block\<lparr>cb_compressedData := cr_data result, cb_compressedSize := size64 (length (cr_data result))\<rparr>
               else block))
         else Inr block)
        (\<lambda>block.
          let serialized = serializeBlock block in
          Inr (Success, st\<lparr>bs_blockData := serialized\<rparr>,
            descriptor\<lparr>cd_offset := 0, cd_compressedSize := size64 (length serialized)\<rparr>)))"

text \<open>\<open>out\<close> is the content of the output vector before the call.\<close>

definition readBlock :: "codec_libs \<Rightarrow> nat \<Rightarrow> BlockStorage \<Rightarrow> ChunkDescriptor \<Rightarrow> byte list \<Rightarrow> (ErrorCode \<times> byte list) cpp" where
  "readBlock libs limit st descriptor out =
     (if cd_compression descriptor = CNone then
        if unat (cd_originalSize descriptor) > limit then Inl Alloc_failure
        else Inr (Success, resize (unat (cd_originalSize descriptor)) out)
      else
        bind_cpp (en_decompress libs limit
            (newCompressionEngine \<lparr>cp_algorithm = cd_compression descriptor, cp_compressionLevel = 3,
               cp_blockSize = 0, cp_enableChecksum = False, cp_workMemory = 0\<rparr>)
            (bs_blockData st) (unat (cd_originalSize descriptor)))
          (\<lambda>result. Inr (if \<not> cr_success result then (DecompressionError, out) else (Success, cr_data result))))"

text \<open>The sum of the guard wraps.\<close>

definition readRawBlock :: "byte list \<Rightarrow> ChunkDescriptor \<Rightarrow> byte list cpp" where
  "readRawBlock blocksSection descriptor =
     (if unat (cd_offset descriptor + cd_compressedSize descriptor) > length blocksSection then Inr []
      else if unat (cd_offset descriptor) + unat (cd_compressedSize descriptor) > length blocksSection
      then Inl Undefined_behaviour
      else Inr (take (unat (cd_compressedSize descriptor)) (drop (unat (cd_offset descriptor)) blocksSection)))"

definition block_error :: "nat \<Rightarrow> string \<Rightarrow> ParseError" where
  "block_error off message = toParseError CorruptBlock PS_CompressedBlocks (size64 off) message"

definition deserializeBlock :: "byte list \<Rightarrow> nat \<Rightarrow> CompressionBlock Result cpp" where
  "deserializeBlock data off =
     (if (off + blockHeaderSize) mod 2 ^ 64 > length data then Inr (Inl (block_error off ''block header truncated''))
      else if off + blockHeaderSize > length data then Inl Undefined_behaviour
      else
        let header = block_header_of (drop off data) in
        if bh_sync header ! 0 \<noteq> 0x4E \<or> bh_sync header ! 1 \<noteq> 0x42
        then Inr (Inl (block_error off ''invalid block sync''))
        else
          let block = newCompressionBlock\<lparr>cb_offset := size64 off, cb_compressedSize := bh_compressedSize header,
                cb_originalSize := bh_originalSize header, cb_algo := bh_compression header,
                cb_encrypted := (bh_encrypted header \<noteq> 0)\<rparr>;
              blockStart = off + blockHeaderSize; n = unat (cb_compressedSize block) in
          if (blockStart + n) mod 2 ^ 64 > length data
          then Inr (Inl (block_error blockStart ''block data truncated''))
          else if blockStart + n > length data then Inl Undefined_behaviour
          else Inr (Inr (block\<lparr>cb_compressedData := take n (drop blockStart data)\<rparr>)))"

definition verifyBlock :: "byte list \<Rightarrow> bool" where
  "verifyBlock blockData =
     (if length blockData < blockHeaderSize then False
      else let header = block_header_of blockData in bh_sync header ! 0 = 0x4E \<and> bh_sync header ! 1 = 0x42)"

section \<open>Blocks in a section\<close>

lemma block_header_of_bytes [simp]:
  "length (bh_sync h) = 2 \<Longrightarrow> length (bh_reserved h) = 4 \<Longrightarrow> compression_named (bh_compression h) \<Longrightarrow>
   encryption_of_byte (encryption_to_byte (bh_encryption h)) = bh_encryption h \<Longrightarrow>
   block_header_of (block_header_bytes h @ rest) = h"
  by (simp add: block_header_of_def block_header_bytes_def field_def nth_append compression_named_def)

lemma length_block_header_bytes:
  "length (bh_sync h) = 2 \<Longrightarrow> length (bh_reserved h) = 4 \<Longrightarrow> length (block_header_bytes h) = blockHeaderSize"
  by (simp add: block_header_bytes_def blockHeaderSize_def)

lemma block_roundtrip_lemma:
  assumes "unat (cb_compressedSize b) = length (cb_compressedData b)" "compression_named (cb_algo b)"
    "length pre + length (serializeBlock b) + length rest < 2 ^ 63"
  shows "deserializeBlock (pre @ serializeBlock b @ rest) (length pre) =
      Inr (Inr (b\<lparr>cb_offset := size64 (length pre), cb_checksum := 0, cb_decompressedData := [], cb_isDecompressed := False\<rparr>)) \<and>
    verifyBlock (serializeBlock b)"
proof -
  let ?h = "newBlockHeader\<lparr>bh_sync := [0x4E, 0x42], bh_compressedSize := cb_compressedSize b,
            bh_originalSize := cb_originalSize b, bh_compression := cb_algo b, bh_encryption := ENone,
            bh_encrypted := (if cb_encrypted b then 1 else 0)\<rparr>"
  have h: "length (bh_sync ?h) = 2" "length (bh_reserved ?h) = 4"
    "encryption_of_byte (encryption_to_byte (bh_encryption ?h)) = bh_encryption ?h"
    by (simp_all add: newBlockHeader_def encryption_of_byte_def encryption_to_byte_def)
  have s: "serializeBlock b = block_header_bytes ?h @ cb_compressedData b"
    by (simp add: serializeBlock_def)
  have n: "length (block_header_bytes ?h) = 25"
    using length_block_header_bytes [OF h(1,2)] by (simp add: blockHeaderSize_def)
  have hd: "block_header_of (block_header_bytes ?h @ xs) = ?h" for xs
    using assms(2) h by (intro block_header_of_bytes) simp_all
  have "drop (length pre + 25) (pre @ block_header_bytes ?h @ cb_compressedData b @ rest) = cb_compressedData b @ rest"
    using n by (simp add: drop_add del: drop_drop)
  then show ?thesis
    using assms n hd [of "cb_compressedData b @ rest"] hd [of "cb_compressedData b"] unfolding s
    by (simp add: deserializeBlock_def verifyBlock_def blockHeaderSize_def newCompressionBlock_def)
qed

text \<open>A block is read back at its offset from a section that contains its serialised form: everything
  but the checksum and the cached data, which are not written.  \<^verbatim>\<open>verifyBlock\<close> accepts it.\<close>

theorem block_roundtrip:
  assumes "unat (cb_compressedSize b) = length (cb_compressedData b)" "compression_named (cb_algo b)"
    "length pre + length (serializeBlock b) + length rest < 2 ^ 63"
  shows "deserializeBlock (pre @ serializeBlock b @ rest) (length pre) =
      Inr (Inr (b\<lparr>cb_offset := size64 (length pre), cb_checksum := 0, cb_decompressedData := [], cb_isDecompressed := False\<rparr>)) \<and>
    verifyBlock (serializeBlock b)"
  by (rule block_roundtrip_lemma [OF assms])

theorem block_roundtrip_witness:
  "\<exists>b. deserializeBlock ([9, 9] @ serializeBlock (newCompressionBlock\<lparr>cb_compressedSize := 1, cb_compressedData := [5], cb_checksum := 3\<rparr>) @ [8])
     (length [9, 9 :: byte]) = Inr (Inr b) \<and> cb_compressedData b = [5] \<and> cb_offset b = 2 \<and> cb_checksum b = 0"
proof -
  let ?b = "newCompressionBlock\<lparr>cb_compressedSize := 1, cb_compressedData := [5], cb_checksum := 3\<rparr>"
  have "unat (cb_compressedSize ?b) = length (cb_compressedData ?b)" "compression_named (cb_algo ?b)"
    "length [9, 9 :: byte] + length (serializeBlock ?b) + length [8 :: byte] < 2 ^ 63"
    by (simp_all add: newCompressionBlock_def compression_named_def compression_of_byte_def compression_to_byte_def
        serializeBlock_def block_header_bytes_def newBlockHeader_def)
  from block_roundtrip [OF this] show ?thesis
    by (simp add: size64_def)
qed

text \<open>When \<^verbatim>\<open>readRawBlock\<close> is undefined: exactly when offset and size overflow 64 bits and the sum,
  taken modulo \<open>2 ^ 64\<close>, is within the section.  In every other case it returns the bytes of the
  range, or nothing when the range ends behind the section.\<close>

theorem raw_block_overflow_iff:
  assumes "length blocks < 2 ^ 63"
  shows "readRawBlock blocks d =
     (let off = unat (cd_offset d); n = unat (cd_compressedSize d) in
      if off + n < 2 ^ 64 then Inr (if off + n \<le> length blocks then take n (drop off blocks) else [])
      else if off + n - 2 ^ 64 \<le> length blocks then Inl Undefined_behaviour
      else Inr [])"
proof -
  have "unat (cd_offset d + cd_compressedSize d) =
      (if unat (cd_offset d) + unat (cd_compressedSize d) < 2 ^ 64
       then unat (cd_offset d) + unat (cd_compressedSize d)
       else unat (cd_offset d) + unat (cd_compressedSize d) - 2 ^ 64)"
    using unsigned_less [of "cd_offset d", where ?'a = nat] unsigned_less [of "cd_compressedSize d", where ?'a = nat]
    by (auto simp: unat_word_ariths le_mod_geq)
  then show ?thesis
    using assms by (auto simp: readRawBlock_def Let_def)
qed

theorem raw_block_overflow_iff_witness:
  "readRawBlock [1, 2] (default_chunk\<lparr>cd_offset := 1, cd_compressedSize := -1\<rparr>) = Inl Undefined_behaviour \<and>
   readRawBlock [1, 2] (default_chunk\<lparr>cd_offset := 1, cd_compressedSize := 1\<rparr>) = Inr [2]"
  using raw_block_overflow_iff [of "[1, 2]" "default_chunk\<lparr>cd_offset := 1, cd_compressedSize := -1\<rparr>"]
    raw_block_overflow_iff [of "[1, 2]" "default_chunk\<lparr>cd_offset := 1, cd_compressedSize := 1\<rparr>"]
  by (simp add: unsigned_minus_1_eq_mask mask_eq_exp_minus_1)

section \<open>Writing and reading back\<close>

text \<open>Reading an uncompressed block back yields zero bytes in the place of what was written.\<close>

theorem uncompressed_block_lost:
  assumes "length data \<le> limit" "length data < 2 ^ 64"
  shows "\<exists>st' d'. writeBlock libs limit crc st data CNone encr d = Inr (Success, st', d') \<and>
    readBlock libs limit st' d' [] = Inr (Success, replicate (length data) 0)"
  using assms by (auto simp: writeBlock_def readBlock_def resize_def Let_def)

theorem uncompressed_block_lost_witness:
  "\<exists>st' d'. writeBlock copy_libs 9 (\<lambda>_. 0) newBlockStorage [1, 2, 3] CNone False default_chunk = Inr (Success, st', d') \<and>
    readBlock copy_libs 9 st' d' [] = Inr (Success, [0, 0, 0])"
  using uncompressed_block_lost [of "[1, 2, 3]" 9 copy_libs "\<lambda>_. 0" newBlockStorage False default_chunk]
  by (simp add: numeral_3_eq_3)

lemma en_decompress_algorithm:
  "cp_algorithm (en_config e) = cp_algorithm (en_config e') \<Longrightarrow>
   en_decompress libs limit e data n = en_decompress libs limit e' data n"
  by (simp add: en_decompress_def)

definition block_engine :: "CompressionAlgorithm \<Rightarrow> int \<Rightarrow> CompressionEngine" where
  "block_engine algo level = newCompressionEngine \<lparr>cp_algorithm = algo, cp_compressionLevel = level,
     cp_blockSize = 0, cp_enableChecksum = False, cp_workMemory = 0\<rparr>"

lemma block_engine_simps [simp]:
  "cp_algorithm (en_config (block_engine algo level)) = algo"
  "cp_compressionLevel (en_config (block_engine algo level)) = level"
  "engine_ok (block_engine algo level)"
  by (simp_all add: block_engine_def newCompressionEngine_def en_initContext_def engine_ok_def)

text \<open>The block that \<^verbatim>\<open>writeBlock\<close> serialises.\<close>

lemma writeBlock_serialized:
  assumes "codec_laws libs algo 3" "algorithm_named algo" "length data \<le> 0x7E000000"
    "memory_for libs limit (block_engine algo 3) (length data)"
  obtains b st' d' where "writeBlock libs limit crc st data algo encr d = Inr (Success, st', d')"
    "bs_blockData st' = serializeBlock b" "cb_compressedSize b = size64 (length (cb_compressedData b))"
    "cb_originalSize b = size64 (length data)" "cb_algo b = algo" "\<not> cb_encrypted b"
    "algo = CNone \<Longrightarrow> cb_compressedData b = data"
    "algo \<noteq> CNone \<Longrightarrow> \<exists>r. cb_compressedData b = cr_data r \<and> restores libs limit (block_engine algo 3) data r"
proof -
  obtain r where r: "en_compress libs limit (block_engine algo 3) data = Inr r" "restores libs limit (block_engine algo 3) data r"
    using compress_restores [of libs "block_engine algo 3" data limit] assms by auto
  let ?b0 = "newCompressionBlock\<lparr>cb_originalSize := size64 (length data), cb_algo := algo,
            cb_compressedData := data, cb_compressedSize := size64 (length data), cb_checksum := crc data\<rparr>"
  let ?b = "if algo = CNone then ?b0
    else ?b0\<lparr>cb_compressedData := cr_data r, cb_compressedSize := size64 (length (cr_data r))\<rparr>"
  have "cr_success r" using r(2) by (simp add: restores_def)
  then have "writeBlock libs limit crc st data algo encr d = Inr (Success, st\<lparr>bs_blockData := serializeBlock ?b\<rparr>,
      d\<lparr>cd_originalSize := size64 (length data), cd_compression := algo, cd_offset := 0,
        cd_compressedSize := size64 (length (serializeBlock ?b))\<rparr>)"
    using r(1) by (simp add: writeBlock_def Let_def flip: block_engine_def)
  then show thesis
  proof (rule that [where b = ?b])
    show "algo \<noteq> CNone \<Longrightarrow> \<exists>r. cb_compressedData ?b = cr_data r \<and> restores libs limit (block_engine algo 3) data r"
      using r(2) by auto
  qed (auto simp: newCompressionBlock_def)
qed

text \<open>C37: What \<^verbatim>\<open>writeBlock\<close> leaves in the storage is a block from which the data can be recovered with
  \<^verbatim>\<open>deserializeBlock\<close> and \<^verbatim>\<open>getDecompressedData\<close>, for all four algorithms.\<close>

theorem written_block_recovered:
  assumes "codec_laws libs algo 3" "algorithm_named algo" "length data \<le> 0x7E000000"
    "memory_for libs limit (block_engine algo 3) (length data)" "limit < 2 ^ 62"
  shows "\<exists>st' d' b b'. writeBlock libs limit crc st data algo encr d = Inr (Success, st', d') \<and>
    deserializeBlock (bs_blockData st') 0 = Inr (Inr b) \<and> getDecompressedData libs limit b = Inr (data, b')"
proof -
  obtain b st' d' where b: "writeBlock libs limit crc st data algo encr d = Inr (Success, st', d')"
    "bs_blockData st' = serializeBlock b" "cb_compressedSize b = size64 (length (cb_compressedData b))"
    "cb_originalSize b = size64 (length data)" "cb_algo b = algo"
    "algo = CNone \<Longrightarrow> cb_compressedData b = data"
    "algo \<noteq> CNone \<Longrightarrow> \<exists>r. cb_compressedData b = cr_data r \<and> restores libs limit (block_engine algo 3) data r"
    by (rule writeBlock_serialized [OF assms(1-4)]) blast
  have n: "length (cb_compressedData b) < 2 ^ 62"
    using b(6,7) assms(3,5) by (cases "algo = CNone") (auto simp: restores_def)
  have "length (serializeBlock b) = 25 + length (cb_compressedData b)"
    by (simp add: serializeBlock_def block_header_bytes_def newBlockHeader_def)
  moreover have "unat (cb_compressedSize b) = length (cb_compressedData b)"
    using n b(3) by simp
  moreover have "compression_named (cb_algo b)"
    using assms(2) b(5) by (auto simp: algorithm_named_def compression_named_def compression_of_byte_def compression_to_byte_def)
  ultimately have d: "deserializeBlock (bs_blockData st') 0 =
      Inr (Inr (b\<lparr>cb_offset := size64 0, cb_checksum := 0, cb_decompressedData := [], cb_isDecompressed := False\<rparr>))"
    using block_roundtrip_lemma [of b "[]" "[]"] n b(2) by simp
  let ?b = "b\<lparr>cb_offset := size64 0, cb_checksum := 0, cb_decompressedData := [], cb_isDecompressed := False\<rparr>"
  have "\<exists>b'. getDecompressedData libs limit ?b = Inr (data, b')"
  proof (cases "algo = CNone")
    case True
    then show ?thesis
      using b(5,6) by (simp add: getDecompressedData_def Let_def)
  next
    case False
    then obtain r where r: "cb_compressedData b = cr_data r" "restores libs limit (block_engine algo 3) data r"
      using b(7) by blast
    have "en_decompress libs limit (block_engine algo 0) (cr_data r) (length data) =
        en_decompress libs limit (block_engine algo 3) (cr_data r) (length data)"
      by (rule en_decompress_algorithm) simp
    then show ?thesis
      using r False b(4,5) assms(3)
      by (auto simp: getDecompressedData_def restores_def Let_def split: sum.splits simp flip: block_engine_def)
  qed
  with b(1) d show ?thesis by blast
qed

theorem written_block_recovered_witness:
  "\<exists>st' d' b b'. writeBlock copy_libs 9 (\<lambda>_. 0) newBlockStorage [7, 8] LZ4 False default_chunk = Inr (Success, st', d') \<and>
    deserializeBlock (bs_blockData st') 0 = Inr (Inr b) \<and> getDecompressedData copy_libs 9 b = Inr ([7, 8], b')"
proof -
  have "estimateCompressedSize copy_libs (block_engine LZ4 3) k = estimateCompressedSize copy_libs example_engine k" for k
    by (simp add: estimateCompressedSize_def example_engine_def newCompressionEngine_def en_initContext_def)
  then have "memory_for copy_libs 9 (block_engine LZ4 3) (length [7, 8 :: byte])"
    using example_engine_memory [of "length [7, 8 :: byte]" 9] by (simp add: memory_for_def)
  from written_block_recovered [OF copy_libs_laws _ _ this] show ?thesis
    by (simp add: algorithm_named_def)
qed

end
