(* ===== verification/Archive_Parser.thy ===== *)
theory Archive_Parser
  imports Archive_Header Metadata_Store Directory_Tree Index_Manager Chunk_Store
begin

text \<open>
  \<^verbatim>\<open>parser/Parser\<close>: the parser of a whole archive in memory.  It walks through the sections the
  header points to and hands each to the reader of its component.

  Parameters: \<open>crc\<close>, the CRC-32 of zlib; \<open>stack\<close>, how deep the directory reader may recurse; \<open>grow\<close>,
  the growth of the global storage of the chunk manager, which is passed along (\<open>ChunkGlobals\<close>);
  \<open>limit\<close>, the largest allocation that succeeds.
\<close>

record ParserConfig =
  pc_verifyChecksums :: bool
  pc_lazyMode :: bool
  pc_strictMode :: bool
  pc_maxMetadataSize :: nat
  pc_maxDirectoryDepth :: nat

definition default_ParserConfig :: ParserConfig where
  "default_ParserConfig =
     \<lparr>pc_verifyChecksums = True, pc_lazyMode = True, pc_strictMode = False, pc_maxMetadataSize = kMaxMetadataSize,
      pc_maxDirectoryDepth = 255\<rparr>"

record ParseResult =
  pr_header :: ArchiveHeader
  pr_metadata :: MetadataStore
  pr_directoryTree :: DirectoryTree
  pr_indexManager :: IndexManager
  pr_chunkManager :: ChunkManager
  pr_blocksData :: "byte list"
  pr_valid :: bool
  pr_warnings :: "ParseError list"

definition newParseResult :: ParseResult where
  "newParseResult =
     \<lparr>pr_header = newArchiveHeader, pr_metadata = newMetadataStore, pr_directoryTree = newDirectoryTree,
      pr_indexManager = newIndexManager, pr_chunkManager = newChunkManager default_ChunkConfig,
      pr_blocksData = [], pr_valid = False, pr_warnings = []\<rparr>"

record Parser =
  pa_config :: ParserConfig
  pa_state :: ParserState
  pa_warnings :: "ParseError list"

definition newParser :: "ParserConfig \<Rightarrow> Parser" where
  "newParser config = \<lparr>pa_config = config, pa_state = PS_Init, pa_warnings = []\<rparr>"

definition pa_reset :: "Parser \<Rightarrow> Parser" where
  "pa_reset p = p\<lparr>pa_state := PS_Init, pa_warnings := []\<rparr>"

definition pa_setConfig :: "Parser \<Rightarrow> ParserConfig \<Rightarrow> Parser" where
  "pa_setConfig p config = p\<lparr>pa_config := config\<rparr>"

definition addWarning :: "Parser \<Rightarrow> ParseError \<Rightarrow> Parser" where
  "addWarning p err =
     (let err = (if pc_strictMode (pa_config p) \<and> pe_severity err = Warning
                 then err\<lparr>pe_severity := Recoverable\<rparr> else err)
      in p\<lparr>pa_warnings := pa_warnings p @ [err]\<rparr>)"

section \<open>Sections\<close>

definition parseHeader :: "(byte list \<Rightarrow> u32) \<Rightarrow> byte list \<Rightarrow> ArchiveHeader Result" where
  "parseHeader crc data =
     (let (ec, header) = ah_parse crc newArchiveHeader data in
      if ec \<noteq> Success then Inl (toParseError CorruptHeader PS_Header 0 (error_message ec)) else Inr header)"

text \<open>The checks every section starts with, and its span: the header is valid and the section is
  within the data.\<close>

definition section_span :: "byte list \<Rightarrow> ArchiveHeader \<Rightarrow> ParserState \<Rightarrow> u64 \<Rightarrow> u64 \<Rightarrow> byte list Result" where
  "section_span data header state off sz =
     (if \<not> ah_isValid header then Inl (toParseError CorruptHeader PS_Header 0 [])
      else if unat off > length data then Inl (toParseError OutOfRange state off [])
      else
        let remaining = length data - unat off in
        if unat sz > remaining then Inl (toParseError OutOfRange state off [])
        else Inr (take (unat sz) (drop (unat off) data)))"

definition parseMetadata :: "byte list \<Rightarrow> ArchiveHeader \<Rightarrow> MetadataStore Result cpp" where
  "parseMetadata data header =
     (case section_span data header PS_Metadata (ah_metadataOffset header) (ah_metadataSize header) of
        Inl e \<Rightarrow> Inr (Inl e)
      | Inr bytes \<Rightarrow> mp_parse bytes (unat (ah_metadataSize header)))"

definition parseDirectoryTree :: "nat \<Rightarrow> byte list \<Rightarrow> ArchiveHeader \<Rightarrow> DirectoryTree Result cpp" where
  "parseDirectoryTree stack data header =
     (case section_span data header PS_DirectoryTree (ah_directoryOffset header) (ah_directorySize header) of
        Inl e \<Rightarrow> Inr (Inl e)
      | Inr bytes \<Rightarrow>
          bind_cpp (dt_deserialize stack newDirectoryTree bytes) (\<lambda>(ec, tree).
          Inr (if ec \<noteq> Success
               then Inl (toParseError CorruptDirectory PS_DirectoryTree (ah_directoryOffset header) (error_message ec))
               else Inr tree)))"

definition parseIndexTable :: "byte list \<Rightarrow> ArchiveHeader \<Rightarrow> IndexManager Result cpp" where
  "parseIndexTable data header =
     (case section_span data header PS_IndexTable (ah_indexOffset header) (ah_indexSize header) of
        Inl e \<Rightarrow> Inr (Inl e)
      | Inr bytes \<Rightarrow>
          bind_cpp (im_deserialize newIndexManager bytes) (\<lambda>(ec, indexMgr).
          Inr (if ec \<noteq> Success
               then Inl (toParseError CorruptIndex PS_IndexTable (ah_indexOffset header) (error_message ec))
               else Inr indexMgr)))"

definition parseChunkTable :: "(nat \<Rightarrow> nat) \<Rightarrow> ChunkGlobals \<Rightarrow> byte list \<Rightarrow> ArchiveHeader \<Rightarrow> (ChunkManager Result \<times> ChunkGlobals) cpp" where
  "parseChunkTable grow g data header =
     (case section_span data header PS_ChunkTable (ah_chunkOffset header) (ah_chunkSize header) of
        Inl e \<Rightarrow> Inr (Inl e, g)
      | Inr bytes \<Rightarrow>
          bind_cpp (cm_deserialize grow (newChunkManager default_ChunkConfig, g) bytes) (\<lambda>(ec, chunkMgr, g).
          Inr (if ec \<noteq> Success
               then Inl (toParseError CorruptChunkTable PS_ChunkTable (ah_chunkOffset header) (error_message ec))
               else Inr chunkMgr, g)))"

definition validateSectionBounds :: "u64 \<Rightarrow> u64 \<Rightarrow> u64 \<Rightarrow> bool" where
  "validateSectionBounds off sz archiveSize =
     (if off + sz > archiveSize then False else if unat off < headerSize then False else True)"

definition getSectionPointer :: "byte list \<Rightarrow> nat \<Rightarrow> nat option" where
  "getSectionPointer data off = (if off \<ge> length data then None else Some off)"

definition processSection :: "byte list \<Rightarrow> unit cpp" where
  "processSection data =
     (if data = [] then Inr ()
      else case getSectionPointer data 0 of
        None \<Rightarrow> Inr ()
      | Some p \<Rightarrow> bind_cpp (vec_at data p) (\<lambda>_. Inr ()))"

section \<open>The pipeline\<close>

text \<open>One of the four sections between the header and the blocks.  \<open>Inl\<close> is the early return of
  strict mode.\<close>

definition section_step ::
  "u64 \<Rightarrow> 'a Result cpp \<Rightarrow> ('a \<Rightarrow> ParseResult \<Rightarrow> ParseResult) \<Rightarrow> ParserState \<Rightarrow> Parser \<Rightarrow> ParseResult \<Rightarrow>
   ((ParseError \<times> Parser) + (Parser \<times> ParseResult)) cpp" where
  "section_step sz sect store nextState p result =
     (if sz > 0 then
        bind_cpp sect (\<lambda>r. case r of
          Inl e \<Rightarrow>
            let p = addWarning p e in
            if pc_strictMode (pa_config p) then Inr (Inl (e, p\<lparr>pa_state := PS_Error\<rparr>))
            else Inr (Inr (p\<lparr>pa_state := nextState\<rparr>, result))
        | Inr x \<Rightarrow> Inr (Inr (p\<lparr>pa_state := nextState\<rparr>, store x result)))
      else Inr (Inr (p\<lparr>pa_state := nextState\<rparr>, result)))"

definition parse_blocks :: "nat \<Rightarrow> byte list \<Rightarrow> ArchiveHeader \<Rightarrow> byte list Result" where
  "parse_blocks limit data header =
     (if unat (ah_blocksOffset header) > length data then Inr []
      else if unat (ah_blocksSize header) > length data - unat (ah_blocksOffset header) then Inr []
      else if unat (ah_blocksSize header) > 64 * 1024 * 1024 then Inr []
      else if ah_blocksSize header > 0 then
        if unat (ah_blocksSize header) > limit then Inl (toParseError OutOfMemory PS_CompressedBlocks 0 [])
        else Inr (take (unat (ah_blocksSize header)) (drop (unat (ah_blocksOffset header)) data))
      else Inr [])"

definition parseInternal :: "(byte list \<Rightarrow> u32) \<Rightarrow> nat \<Rightarrow> (nat \<Rightarrow> nat) \<Rightarrow> nat \<Rightarrow> ChunkGlobals \<Rightarrow> Parser \<Rightarrow> byte list \<Rightarrow>
    (ParseResult Result \<times> Parser \<times> ChunkGlobals) cpp" where
  "parseInternal crc stack grow limit g p data =
     (if length data < headerSize
      then Inr (Inl (toParseError CorruptHeader PS_Header (size64 (length data)) []), p\<lparr>pa_state := PS_Error\<rparr>, g)
      else
        let p = p\<lparr>pa_state := PS_Header\<rparr> in
        case parseHeader crc data of
          Inl e \<Rightarrow> Inr (Inl e, p\<lparr>pa_state := PS_Error\<rparr>, g)
        | Inr h \<Rightarrow>
            let result = newParseResult\<lparr>pr_header := h\<rparr>; p = p\<lparr>pa_state := PS_Metadata\<rparr> in
            bind_cpp (section_step (ah_metadataSize h) (parseMetadata data h)
                (\<lambda>x r. r\<lparr>pr_metadata := x\<rparr>) PS_DirectoryTree p result) (\<lambda>s. case s of
              Inl (e, p) \<Rightarrow> Inr (Inl e, p, g)
            | Inr (p, result) \<Rightarrow>
            bind_cpp (section_step (ah_directorySize h) (parseDirectoryTree stack data h)
                (\<lambda>x r. r\<lparr>pr_directoryTree := x\<rparr>) PS_IndexTable p result) (\<lambda>s. case s of
              Inl (e, p) \<Rightarrow> Inr (Inl e, p, g)
            | Inr (p, result) \<Rightarrow>
            bind_cpp (section_step (ah_indexSize h) (parseIndexTable data h)
                (\<lambda>x r. r\<lparr>pr_indexManager := x\<rparr>) PS_ChunkTable p result) (\<lambda>s. case s of
              Inl (e, p) \<Rightarrow> Inr (Inl e, p, g)
            | Inr (p, result) \<Rightarrow>
            bind_cpp (if ah_chunkSize h > 0 then parseChunkTable grow g data h
                      else Inr (Inr (newChunkManager default_ChunkConfig), g)) (\<lambda>(chunkResult, g).
            bind_cpp (section_step (ah_chunkSize h) (Inr chunkResult)
                (\<lambda>x r. r\<lparr>pr_chunkManager := x\<rparr>) PS_CompressedBlocks p result) (\<lambda>s. case s of
              Inl (e, p) \<Rightarrow> Inr (Inl e, p, g)
            | Inr (p, result) \<Rightarrow>
            case parse_blocks limit data h of
              Inl e \<Rightarrow> Inr (Inl e, p, g)
            | Inr blocks \<Rightarrow>
                bind_cpp (processSection data) (\<lambda>_.
                Inr (Inr (result\<lparr>pr_blocksData := blocks, pr_valid := True, pr_warnings := pa_warnings p\<rparr>),
                     p\<lparr>pa_state := PS_Complete\<rparr>, g))))))))"

definition pa_parse :: "(byte list \<Rightarrow> u32) \<Rightarrow> nat \<Rightarrow> (nat \<Rightarrow> nat) \<Rightarrow> nat \<Rightarrow> ChunkGlobals \<Rightarrow> Parser \<Rightarrow> byte list \<Rightarrow>
    (ParseResult Result \<times> Parser \<times> ChunkGlobals) cpp" where
  "pa_parse crc stack grow limit g p data = parseInternal crc stack grow limit g (pa_reset p) data"

text \<open>\<open>file\<close> is the content of the mapped file, \<open>None\<close> when it cannot be opened.\<close>

definition pa_parseFile :: "(byte list \<Rightarrow> u32) \<Rightarrow> nat \<Rightarrow> (nat \<Rightarrow> nat) \<Rightarrow> nat \<Rightarrow> ChunkGlobals \<Rightarrow> Parser \<Rightarrow> string \<Rightarrow> byte list option \<Rightarrow>
    (ParseResult Result \<times> Parser \<times> ChunkGlobals) cpp" where
  "pa_parseFile crc stack grow limit g p path file =
     (let p = pa_reset p in
      case file of
        None \<Rightarrow> Inr (Inl (toParseError IOError PS_Init 0 (''cannot open file: '' @ path)), p, g)
      | Some data \<Rightarrow> parseInternal crc stack grow limit g p data)"

section \<open>A whole archive\<close>

text \<open>What a reader makes of a section: an empty section leaves the value as it was.\<close>

definition reads :: "('s \<Rightarrow> byte list \<Rightarrow> (ErrorCode \<times> 's) cpp) \<Rightarrow> 's \<Rightarrow> byte list \<Rightarrow> 's \<Rightarrow> bool" where
  "reads deserialize cur bs x \<longleftrightarrow> (if bs = [] then x = cur else deserialize cur bs = Inr (Success, x))"

definition reads_metadata :: "byte list \<Rightarrow> byte list \<Rightarrow> MetadataStore \<Rightarrow> bool" where
  "reads_metadata bs rest x \<longleftrightarrow>
     (if bs = [] then x = newMetadataStore else mp_parse (bs @ rest) (length bs) = Inr (Inr x))"

definition reads_chunks :: "(nat \<Rightarrow> nat) \<Rightarrow> ChunkManager \<times> ChunkGlobals \<Rightarrow> byte list \<Rightarrow> ChunkManager \<times> ChunkGlobals \<Rightarrow> bool" where
  "reads_chunks grow cur bs x \<longleftrightarrow>
     (if bs = [] then x = cur else cm_deserialize grow cur bs = Inr (Success, x))"

text \<open>The header announces the sizes of the sections.\<close>

definition announces :: "ArchiveHeader \<Rightarrow> byte list \<Rightarrow> byte list \<Rightarrow> byte list \<Rightarrow> byte list \<Rightarrow> byte list \<Rightarrow> bool" where
  "announces h m d i c b \<longleftrightarrow>
     ah_metadataSize h = size64 (length m) \<and> ah_directorySize h = size64 (length d) \<and>
     ah_indexSize h = size64 (length i) \<and> ah_chunkSize h = size64 (length c) \<and> ah_blocksSize h = size64 (length b) \<and>
     length m + length d + length i + length c + length b < 2 ^ 63"

text \<open>The parsed archive.\<close>

definition archive_result :: "ArchiveHeader \<Rightarrow> MetadataStore \<Rightarrow> DirectoryTree \<Rightarrow> IndexManager \<Rightarrow> ChunkManager \<Rightarrow> byte list \<Rightarrow> ParseResult" where
  "archive_result h store tree idx chunks b =
     \<lparr>pr_header = h, pr_metadata = store, pr_directoryTree = tree, pr_indexManager = idx, pr_chunkManager = chunks,
      pr_blocksData = b, pr_valid = True, pr_warnings = []\<rparr>"

lemma size64_eq_0: "n < 2 ^ 64 \<Longrightarrow> size64 n = 0 \<longleftrightarrow> n = 0"
  using size64_eq_iff [of n 0] by (simp add: size64_def)

lemma pr_metadata_same: "pr_metadata r = m \<Longrightarrow> r\<lparr>pr_metadata := m\<rparr> = r"
  by (cases r) simp

lemma pr_blocksData_same: "pr_blocksData r = b \<Longrightarrow> r\<lparr>pr_blocksData := b\<rparr> = r"
  by (cases r) simp

lemma pr_same:
  "pr_directoryTree r = x \<Longrightarrow> r\<lparr>pr_directoryTree := x\<rparr> = r" "pr_indexManager r = y \<Longrightarrow> r\<lparr>pr_indexManager := y\<rparr> = r"
  "pr_chunkManager r = z \<Longrightarrow> r\<lparr>pr_chunkManager := z\<rparr> = r"
  by (cases r; simp)+

text \<open>The header points to the sections, which follow each other behind the bytes \<open>pre\<close>.\<close>

definition places :: "ArchiveHeader \<Rightarrow> byte list \<Rightarrow> byte list \<Rightarrow> byte list \<Rightarrow> byte list \<Rightarrow> byte list \<Rightarrow> bool" where
  "places h pre m d i c \<longleftrightarrow> length pre < 2 ^ 62 \<and>
     ah_metadataOffset h = size64 (headerSize + length pre) \<and>
     ah_directoryOffset h = size64 (headerSize + length pre + length m) \<and>
     ah_indexOffset h = size64 (headerSize + length pre + length m + length d) \<and>
     ah_chunkOffset h = size64 (headerSize + length pre + length m + length d + length i) \<and>
     ah_blocksOffset h = size64 (headerSize + length pre + length m + length d + length i + length c)"

text \<open>The blocks that the parser in memory keeps: none when there are more than 64 MiB of them.\<close>

definition kept_blocks :: "byte list \<Rightarrow> byte list" where
  "kept_blocks b = (if length b > 64 * 1024 * 1024 then [] else b)"

lemma section_span_at:
  assumes "ah_isValid h" "data = pre @ bs @ rest" "off = size64 (length pre)" "sz = size64 (length bs)"
    "length pre + length bs < 2 ^ 64"
  shows "section_span data h st off sz = Inr bs"
  using assms by (simp add: section_span_def)

lemma section_step_reads:
  assumes "sz = size64 (length bs)" "length bs < 2 ^ 63" "bs = [] \<Longrightarrow> result' = result"
    "bs \<noteq> [] \<Longrightarrow> sect = Inr (Inr x) \<and> store x result = result'"
  shows "section_step sz sect store nextState p result = Inr (Inr (p\<lparr>pa_state := nextState\<rparr>, result'))"
  using assms size64_eq_0 [of "length bs"] by (auto simp: section_step_def word_gt_0)



lemma archive_spans:
  assumes "header_wf h" "ah_isValid h" "announces h m d i c b" "places h pre m d i c"
    "data = ah_serialize h @ pre @ m @ d @ i @ c @ b @ rest"
  shows "section_span data h PS_Metadata (ah_metadataOffset h) (ah_metadataSize h) = Inr m"
    and "section_span data h PS_DirectoryTree (ah_directoryOffset h) (ah_directorySize h) = Inr d"
    and "section_span data h PS_IndexTable (ah_indexOffset h) (ah_indexSize h) = Inr i"
    and "section_span data h PS_ChunkTable (ah_chunkOffset h) (ah_chunkSize h) = Inr c"
    and "length (kept_blocks b) \<le> limit \<Longrightarrow> parse_blocks limit data h = Inr (kept_blocks b)"
proof -
  have hs: "length (ah_serialize h) = headerSize"
    using assms(1) by (simp add: ah_serialize_def)
  note sz = assms(3) [unfolded announces_def] and off = assms(4) [unfolded places_def]
  have small: "headerSize + length pre + length m + length d + length i + length c + length b < 2 ^ 64"
    using sz off by (simp add: headerSize_def)
  note at = section_span_at [OF assms(2), of data]
  show "section_span data h PS_Metadata (ah_metadataOffset h) (ah_metadataSize h) = Inr m"
    by (rule at [where pre = "ah_serialize h @ pre"]) (use small in \<open>simp_all add: off sz hs assms(5) add.assoc\<close>)
  show "section_span data h PS_DirectoryTree (ah_directoryOffset h) (ah_directorySize h) = Inr d"
    by (rule at [where pre = "ah_serialize h @ pre @ m"]) (use small in \<open>simp_all add: off sz hs assms(5) add.assoc\<close>)
  show "section_span data h PS_IndexTable (ah_indexOffset h) (ah_indexSize h) = Inr i"
    by (rule at [where pre = "ah_serialize h @ pre @ m @ d"]) (use small in \<open>simp_all add: off sz hs assms(5) add.assoc\<close>)
  show "section_span data h PS_ChunkTable (ah_chunkOffset h) (ah_chunkSize h) = Inr c"
    by (rule at [where pre = "ah_serialize h @ pre @ m @ d @ i"]) (use small in \<open>simp_all add: off sz hs assms(5) add.assoc\<close>)
  show "length (kept_blocks b) \<le> limit \<Longrightarrow> parse_blocks limit data h = Inr (kept_blocks b)"
    using sz off small hs size64_eq_0 [of "length b"]
    by (auto simp: parse_blocks_def kept_blocks_def assms(5) add.assoc word_gt_0 drop_add simp del: drop_drop split: if_split_asm)
qed

lemma parse_archive_kept:
  assumes "header_wf h" "ah_isValid h" "verifyChecksum crc h" "announces h m d i c b" "places h pre m d i c"
    "reads_metadata m [] store" "reads (dt_deserialize stack) newDirectoryTree d tree"
    "reads im_deserialize newIndexManager i idx" "reads_chunks grow (newChunkManager default_ChunkConfig, g) c (chunks, g')"
    "length (kept_blocks b) \<le> limit"
  shows "pa_parse crc stack grow limit g p (ah_serialize h @ pre @ m @ d @ i @ c @ b @ rest) =
    Inr (Inr (archive_result h store tree idx chunks (kept_blocks b)), p\<lparr>pa_state := PS_Complete, pa_warnings := []\<rparr>, g')"
proof -
  let ?data = "ah_serialize h @ pre @ m @ d @ i @ c @ b @ rest"
  note sz = assms(4) [unfolded announces_def]
  note spans = archive_spans [OF assms(1,2,4,5) refl, where rest = rest]
  have head: "parseHeader crc ?data = Inr h"
    using ah_parse_serialized [OF assms(1-3), of newArchiveHeader "pre @ m @ d @ i @ c @ b @ rest"] by (simp add: parseHeader_def)
  have meta: "m \<noteq> [] \<Longrightarrow> parseMetadata ?data h = Inr (Inr store)"
    unfolding parseMetadata_def spans(1) using assms(6) sz by (auto simp: reads_metadata_def)
  have dir: "d \<noteq> [] \<Longrightarrow> parseDirectoryTree stack ?data h = Inr (Inr tree)"
    using assms(7) by (simp add: parseDirectoryTree_def spans(2) reads_def)
  have index: "i \<noteq> [] \<Longrightarrow> parseIndexTable ?data h = Inr (Inr idx)"
    using assms(8) by (simp add: parseIndexTable_def spans(3) reads_def)
  have chunk: "(if ah_chunkSize h > 0 then parseChunkTable grow g ?data h
      else Inr (Inr (newChunkManager default_ChunkConfig), g)) = Inr (Inr chunks, g')"
  proof (cases "c = []")
    case True
    then show ?thesis using assms(9) sz by (simp add: reads_chunks_def size64_def)
  next
    case False
    then have "ah_chunkSize h > 0"
      using sz size64_eq_0 [of "length c"] by (simp add: word_gt_0)
    then show ?thesis
      using assms(9) False by (simp add: parseChunkTable_def spans(4) reads_chunks_def)
  qed
  have "processSection ?data = Inr ()"
    by (simp add: processSection_def getSectionPointer_def)
  moreover have "headerSize \<le> length ?data"
    using assms(1) by (simp add: ah_serialize_def)
  moreover have "section_step (ah_metadataSize h) (parseMetadata ?data h) (\<lambda>x r. r\<lparr>pr_metadata := x\<rparr>) st q r =
      Inr (Inr (q\<lparr>pa_state := st\<rparr>, r\<lparr>pr_metadata := store\<rparr>))" if "pr_metadata r = newMetadataStore" for st q r
    using that assms(6) sz meta
    by (intro section_step_reads [where bs = m and x = store]) (auto simp: reads_metadata_def pr_metadata_same)
  moreover have "section_step (ah_directorySize h) (parseDirectoryTree stack ?data h) (\<lambda>x r. r\<lparr>pr_directoryTree := x\<rparr>) st q r =
      Inr (Inr (q\<lparr>pa_state := st\<rparr>, r\<lparr>pr_directoryTree := tree\<rparr>))" if "pr_directoryTree r = newDirectoryTree" for st q r
    using that assms(7) sz dir
    by (intro section_step_reads [where bs = d and x = tree]) (auto simp: reads_def pr_same)
  moreover have "section_step (ah_indexSize h) (parseIndexTable ?data h) (\<lambda>x r. r\<lparr>pr_indexManager := x\<rparr>) st q r =
      Inr (Inr (q\<lparr>pa_state := st\<rparr>, r\<lparr>pr_indexManager := idx\<rparr>))" if "pr_indexManager r = newIndexManager" for st q r
    using that assms(8) sz index
    by (intro section_step_reads [where bs = i and x = idx]) (auto simp: reads_def pr_same)
  moreover have "section_step (ah_chunkSize h) (Inr (Inr chunks)) (\<lambda>x r. r\<lparr>pr_chunkManager := x\<rparr>) st q r =
      Inr (Inr (q\<lparr>pa_state := st\<rparr>, r\<lparr>pr_chunkManager := chunks\<rparr>))" if "pr_chunkManager r = newChunkManager default_ChunkConfig" for st q r
    using that assms(9) sz
    by (intro section_step_reads [where bs = c and x = chunks]) (auto simp: reads_chunks_def pr_same)
  ultimately show ?thesis
    using head chunk spans(5) [OF assms(10)]
    by (simp add: pa_parse_def parseInternal_def pa_reset_def newParseResult_def archive_result_def Let_def)
qed

lemma parse_archive_lemma:
  assumes "header_wf h" "ah_isValid h" "verifyChecksum crc h" "announces h m d i c b" "places h pre m d i c"
    "reads_metadata m [] store" "reads (dt_deserialize stack) newDirectoryTree d tree"
    "reads im_deserialize newIndexManager i idx" "reads_chunks grow (newChunkManager default_ChunkConfig, g) c (chunks, g')"
    "length b \<le> 64 * 1024 * 1024" "length b \<le> limit"
  shows "pa_parse crc stack grow limit g p (ah_serialize h @ pre @ m @ d @ i @ c @ b @ rest) =
    Inr (Inr (archive_result h store tree idx chunks b), p\<lparr>pa_state := PS_Complete, pa_warnings := []\<rparr>, g')"
  using parse_archive_kept [OF assms(1-9), of limit p rest] assms(10,11) by (simp add: kept_blocks_def)

text \<open>the parser of a whole archive in memory returns, for a well-formed archive, exactly what the
  section readers make of the sections, in strict mode and otherwise.\<close>

theorem parse_archive:
  assumes "header_wf h" "ah_isValid h" "verifyChecksum crc h" "announces h m d i c b" "places h pre m d i c"
    "reads_metadata m [] store" "reads (dt_deserialize stack) newDirectoryTree d tree"
    "reads im_deserialize newIndexManager i idx" "reads_chunks grow (newChunkManager default_ChunkConfig, g) c (chunks, g')"
    "length b \<le> 64 * 1024 * 1024" "length b \<le> limit"
  shows "pa_parse crc stack grow limit g p (ah_serialize h @ pre @ m @ d @ i @ c @ b @ rest) =
    Inr (Inr (archive_result h store tree idx chunks b), p\<lparr>pa_state := PS_Complete, pa_warnings := []\<rparr>, g')"
  by (rule parse_archive_lemma [OF assms])


text \<open>An archive with an empty index and one byte of blocks.\<close>

definition small_header :: ArchiveHeader where
  "small_header = newArchiveHeader
     \<lparr>ah_archiveSize := 160, ah_metadataOffset := 158, ah_directoryOffset := 158, ah_indexOffset := 158,
      ah_chunkOffset := 159, ah_blocksOffset := 159, ah_indexSize := 1, ah_blocksSize := 1\<rparr>"

lemma small_header_ok [simp]:
  "header_wf small_header" "ah_isValid small_header" "verifyChecksum crc small_header"
  "announces small_header [] [] [0] [] [7]" "places small_header [] [] [] [0] []"
  by (simp_all add: small_header_def newArchiveHeader_def header_wf_def archive_magic_def ah_isValid_def isValidMagic_def
      isVersionSupported_def verifyChecksum_def announces_def places_def size64_def headerSize_def)

lemma reads_empty_index: "reads im_deserialize newIndexManager [0] (newIndexManager\<lparr>im_sorted := False\<rparr>)"
proof -
  have "read_varint [0] 0 = Inr (Some (0, 1))" by code_simp
  then show ?thesis
    by (simp add: reads_def im_deserialize_def newIndexManager_def im_clear_def)
qed

text \<open>What the parser makes of it.\<close>

definition small_result :: ParseResult where
  "small_result = archive_result small_header newMetadataStore newDirectoryTree (newIndexManager\<lparr>im_sorted := False\<rparr>)
     (newChunkManager default_ChunkConfig) [7]"

lemmas small_archive_reads = reads_metadata_def [of "[]" _ newMetadataStore] reads_def [of _ newDirectoryTree "[]" newDirectoryTree]
  reads_chunks_def [of _ _ "[]"] reads_empty_index

lemma small_archive:
  "4096 \<le> limit \<Longrightarrow> pa_parse crc stack grow limit g p (ah_serialize small_header @ [0, 7]) =
   Inr (Inr small_result, p\<lparr>pa_state := PS_Complete, pa_warnings := []\<rparr>, g)"
  using parse_archive_lemma [OF small_header_ok, where rest = "[]" and stack = stack and grow = grow and g = g and g' = g
      and store = newMetadataStore and tree = newDirectoryTree and idx = "newIndexManager\<lparr>im_sorted := False\<rparr>"
      and chunks = "newChunkManager default_ChunkConfig" and limit = limit and p = p and crc = crc]
  by (simp add: small_archive_reads small_result_def)

theorem parse_archive_witness:
  "pa_parse (\<lambda>_. 0) 9 Suc 4096 newChunkGlobals (newParser default_ParserConfig) (ah_serialize small_header @ [0, 7]) =
   Inr (Inr small_result, (newParser default_ParserConfig)\<lparr>pa_state := PS_Complete\<rparr>, newChunkGlobals)"
  using parse_archive [OF small_header_ok, where rest = "[]" and stack = 9 and grow = Suc and g = newChunkGlobals and g' = newChunkGlobals
      and store = newMetadataStore and tree = newDirectoryTree and idx = "newIndexManager\<lparr>im_sorted := False\<rparr>"
      and chunks = "newChunkManager default_ChunkConfig" and limit = 4096 and p = "newParser default_ParserConfig" and crc = "\<lambda>_. 0"]
  by (simp add: small_archive_reads small_result_def newParser_def)

section \<open>How a parse ends\<close>

lemma section_step_outcome:
  assumes "section_step sz sect store st p r = Inr s"
  shows "case s of
      Inl (e, p') \<Rightarrow> pc_strictMode (pa_config p) \<and> pa_state p' = PS_Error
    | Inr (p', r') \<Rightarrow> pa_config p' = pa_config p \<and> pa_state p' = st \<and>
        (pc_strictMode (pa_config p) \<longrightarrow> pa_warnings p' = pa_warnings p)"
proof (cases "sz > 0")
  case True
  with assms obtain x where "sect = Inr x"
    by (cases sect) (simp_all add: section_step_def)
  with assms True show ?thesis
    by (cases x) (auto simp: section_step_def addWarning_def Let_def split: if_split_asm)
qed (use assms in \<open>auto simp: section_step_def\<close>)

lemma section_step_bind:
  assumes "bind_cpp (section_step sz sect store st p r) (\<lambda>s. case s of
      Inl (e, p) \<Rightarrow> Inr (Inl e, p, g) | Inr (p, r) \<Rightarrow> k p r) = Inr (res, p', g')"
  obtains e where "res = Inl e" "pa_state p' = PS_Error" "pc_strictMode (pa_config p)"
  | q r' where "pa_config q = pa_config p" "pa_state q = st" "pc_strictMode (pa_config p) \<longrightarrow> pa_warnings q = pa_warnings p"
      "k q r' = Inr (res, p', g')"
proof -
  obtain s where s: "section_step sz sect store st p r = Inr s"
    using assms by (cases "section_step sz sect store st p r") simp_all
  note out = section_step_outcome [OF s]
  show thesis
    by (cases s) (use assms s out that in auto)
qed

definition ends :: "bool \<Rightarrow> ParseResult Result \<Rightarrow> Parser \<Rightarrow> bool" where
  "ends strict r p \<longleftrightarrow>
     (case r of
        Inr res \<Rightarrow> pa_state p = PS_Complete \<and> pr_valid res \<and> pr_warnings res = pa_warnings p \<and> (strict \<longrightarrow> pa_warnings p = [])
      | Inl e \<Rightarrow> (pa_state p = PS_Error \<and> strict) \<or>
          (pa_state p = PS_CompressedBlocks \<and> e = toParseError OutOfMemory PS_CompressedBlocks 0 []))"

lemma bind_pair:
  assumes "bind_cpp a (\<lambda>(x, y). k x y) = Inr z"
  obtains x y where "a = Inr (x, y)" "k x y = Inr z"
  using assms by (cases a) auto

lemma parse_tail:
  assumes "bind_cpp (section_step sz sect store PS_CompressedBlocks p r) (\<lambda>s. case s of
      Inl (e, p) \<Rightarrow> Inr (Inl e, p, g)
    | Inr (p, result) \<Rightarrow>
      case parse_blocks limit data h of
        Inl e \<Rightarrow> Inr (Inl e, p, g)
      | Inr blocks \<Rightarrow>
          bind_cpp u (\<lambda>_.
          Inr (Inr (result\<lparr>pr_blocksData := blocks, pr_valid := True, pr_warnings := pa_warnings p\<rparr>),
               p\<lparr>pa_state := PS_Complete\<rparr>, g))) = Inr (res, p', g')"
    "pc_strictMode (pa_config p) \<longrightarrow> pa_warnings p = []"
  shows "ends (pc_strictMode (pa_config p)) res p'"
  using assms(1)
proof (cases rule: section_step_bind)
  case (2 q r')
  show ?thesis
  proof (cases "parse_blocks limit data h")
    case (Inl e)
    moreover from this have "e = toParseError OutOfMemory PS_CompressedBlocks 0 []"
      by (simp add: parse_blocks_def split: if_split_asm)
    ultimately show ?thesis using 2 by (auto simp: ends_def)
  next
    case (Inr b)
    with 2 assms(2) show ?thesis by (cases u) (auto simp: ends_def)
  qed
qed (simp add: ends_def)

lemma parse_outcome_lemma:
  assumes "pa_parse crc stack grow limit g p data = Inr (r, p', g')" "headerSize \<le> length data" "parseHeader crc data = Inr h"
  shows "ends (pc_strictMode (pa_config p)) r p'"
proof -
  let ?strict = "pc_strictMode (pa_config p)"
  note parse = assms(1) [unfolded pa_parse_def parseInternal_def Let_def assms(3) sum.case]
  from parse assms(2) show ?thesis
    apply (simp add: pa_reset_def)
    apply (erule section_step_bind, simp add: ends_def)
    apply (erule section_step_bind, simp add: ends_def)
    apply (erule section_step_bind, simp add: ends_def)
    apply (erule bind_pair)
    apply (drule parse_tail)
    apply simp_all
    done
qed

text \<open>C35: how a parse that returns has ended.  With a result, the parser is in the state Complete, the
  result is marked valid and carries the parser's warnings, of which strict mode has none.  With
  an error, the parser is in the state Error, unless it had no memory for the blocks; and outside strict
  mode only the header can cause an error.\<close>

theorem parse_outcome:
  assumes "pa_parse crc stack grow limit g p data = Inr (r, p', g')"
  shows "case r of
      Inr res \<Rightarrow> pa_state p' = PS_Complete \<and> pr_valid res \<and> pr_warnings res = pa_warnings p' \<and>
        (pc_strictMode (pa_config p) \<longrightarrow> pa_warnings p' = [])
    | Inl e \<Rightarrow> (pa_state p' = PS_Error \<and> (pc_strictMode (pa_config p) \<or> length data < headerSize \<or> parseHeader crc data = Inl e)) \<or>
        (pa_state p' = PS_CompressedBlocks \<and> e = toParseError OutOfMemory PS_CompressedBlocks 0 [])"
proof (cases "length data < headerSize")
  case True
  with assms show ?thesis by (auto simp: pa_parse_def parseInternal_def)
next
  case False
  show ?thesis
  proof (cases "parseHeader crc data")
    case (Inl e)
    with assms False show ?thesis by (auto simp: pa_parse_def parseInternal_def Let_def)
  next
    case (Inr h)
    with parse_outcome_lemma [OF assms] False show ?thesis
      by (cases r) (auto simp: ends_def)
  qed
qed

theorem parse_outcome_witness:
  "pa_parse (\<lambda>_. 0) 9 Suc 4096 newChunkGlobals (newParser default_ParserConfig) (ah_serialize small_header @ [0, 7]) =
     Inr (Inr small_result, (newParser default_ParserConfig)\<lparr>pa_state := PS_Complete, pa_warnings := []\<rparr>, newChunkGlobals) \<and>
   pr_valid small_result \<and> pr_warnings small_result = []"
  using small_archive [of 4096 "\<lambda>_. 0" 9 Suc newChunkGlobals "newParser default_ParserConfig"]
    parse_outcome [OF small_archive [of 4096 "\<lambda>_. 0" 9 Suc newChunkGlobals "newParser default_ParserConfig"]]
  by simp


text \<open>The section of a metadata store that is not empty is the whole span the metadata parser gets, so the
  copy of its last value goes to \<^verbatim>\<open>&span[span.size()]\<close>: parsing such an archive is undefined.\<close>

theorem parse_metadata_undefined:
  fixes store :: MetadataStore
  assumes "header_wf h" "ah_isValid h" "verifyChecksum crc h" "announces h m d i c b" "places h pre m d i c"
    "m = mp_serialize it" "it \<noteq> []" "enumerates it (ms_entries store)" "list_all key_fits it"
  shows "pa_parse crc stack grow limit g p (ah_serialize h @ pre @ m @ d @ i @ c @ b @ rest) = Inl Undefined_behaviour"
proof -
  let ?data = "ah_serialize h @ pre @ m @ d @ i @ c @ b @ rest"
  note sz = assms(4) [unfolded announces_def]
  note spans = archive_spans [OF assms(1,2,4,5) refl, where rest = rest]
  have "parseHeader crc ?data = Inr h"
    using ah_parse_serialized [OF assms(1-3), of newArchiveHeader "pre @ m @ d @ i @ c @ b @ rest"] by (simp add: parseHeader_def)
  moreover have "parseMetadata ?data h = Inl Undefined_behaviour"
    unfolding parseMetadata_def spans(1)
    using mp_parse_serialized [OF assms(8,9,7), of "[]"] sz by (simp add: assms(6))
  moreover have "m \<noteq> []"
    using assms(6,7) by (cases it) (auto simp: mp_serialize_def)
  then have "ah_metadataSize h > 0"
    using sz size64_eq_0 [of "length m"] by (simp add: word_gt_0)
  moreover have "headerSize \<le> length ?data"
    using assms(1) by (simp add: ah_serialize_def)
  ultimately show ?thesis
    by (simp add: pa_parse_def parseInternal_def section_step_def)
qed

end
