(* ===== verification/Stream_Parser.thy ===== *)
theory Stream_Parser
  imports Archive_Parser
begin

text \<open>
  \<^verbatim>\<open>parser/StreamParser\<close>: the parser that is fed an archive piece by piece.  \<^verbatim>\<open>feed\<close> appends to the
  buffer and runs the section of the current state until a section has to wait for more bytes.
  The parameters are those of \<^verbatim>\<open>Parser\<close>.
\<close>

record StreamParser =
  sp_config :: ParserConfig
  sp_state :: ParserState
  sp_result :: ParseResult
  sp_buffer :: "byte list"
  sp_warnings :: "ParseError list"
  sp_bytesProcessed :: nat
  sp_expectedSize :: nat
  sp_globals :: ChunkGlobals   \<comment> \<open>the global objects of \<^verbatim>\<open>ChunkManager.cpp\<close>\<close>

definition newStreamParser :: "ParserConfig \<Rightarrow> ChunkGlobals \<Rightarrow> StreamParser" where
  "newStreamParser config g =
     \<lparr>sp_config = config, sp_state = PS_Init, sp_result = newParseResult, sp_buffer = [], sp_warnings = [],
      sp_bytesProcessed = 0, sp_expectedSize = 0, sp_globals = g\<rparr>"

definition sp_reset :: "StreamParser \<Rightarrow> StreamParser" where
  "sp_reset p = p\<lparr>sp_state := PS_Init, sp_result := newParseResult, sp_buffer := [], sp_warnings := [],
     sp_bytesProcessed := 0, sp_expectedSize := 0\<rparr>"

definition sp_isComplete :: "StreamParser \<Rightarrow> bool" where
  "sp_isComplete p \<longleftrightarrow> sp_state p = PS_Complete"

definition sp_hasError :: "StreamParser \<Rightarrow> bool" where
  "sp_hasError p \<longleftrightarrow> sp_state p = PS_Error"

definition sp_progress :: "StreamParser \<Rightarrow> real" where
  "sp_progress p = (if sp_expectedSize p = 0 then 0 else real (sp_bytesProcessed p) / real (sp_expectedSize p))"

definition haveBytes :: "StreamParser \<Rightarrow> nat \<Rightarrow> bool" where
  "haveBytes p needed \<longleftrightarrow> length (sp_buffer p) \<ge> needed"

definition transitionTo :: "StreamParser \<Rightarrow> ParserState \<Rightarrow> StreamParser" where
  "transitionTo p newState = p\<lparr>sp_state := newState\<rparr>"

text \<open>The end of every section: the bytes are erased and counted.\<close>

definition sp_consume :: "StreamParser \<Rightarrow> nat \<Rightarrow> ParserState \<Rightarrow> (nat Result \<times> StreamParser)" where
  "sp_consume p n newState =
     (Inr n, transitionTo (p\<lparr>sp_buffer := drop n (sp_buffer p), sp_bytesProcessed := sp_bytesProcessed p + n\<rparr>) newState)"

section \<open>The sections\<close>

definition processHeader :: "(byte list \<Rightarrow> u32) \<Rightarrow> StreamParser \<Rightarrow> nat Result \<times> StreamParser" where
  "processHeader crc p =
     (if \<not> haveBytes p headerSize then (Inr 0, p)
      else
        let (ec, header) = ah_parse crc newArchiveHeader (sp_buffer p) in
        if ec \<noteq> Success then (Inl (toParseError CorruptHeader PS_Header 0 (error_message ec)), p)
        else
          let p = p\<lparr>sp_result := (sp_result p)\<lparr>pr_header := header\<rparr>, sp_expectedSize := unat (ah_archiveSize header)\<rparr>
          in sp_consume p headerSize PS_Metadata)"

text \<open>A metadata section that cannot be parsed is dropped without a warning.\<close>

definition sp_setMetadata :: "StreamParser \<Rightarrow> MetadataStore Result \<Rightarrow> StreamParser" where
  "sp_setMetadata p metaResult =
     p\<lparr>sp_result := (sp_result p)\<lparr>pr_metadata :=
        (case metaResult of Inl _ \<Rightarrow> pr_metadata (sp_result p) | Inr m \<Rightarrow> m)\<rparr>\<rparr>"

definition processMetadata :: "StreamParser \<Rightarrow> (nat Result \<times> StreamParser) cpp" where
  "processMetadata p =
     (if ah_metadataSize (pr_header (sp_result p)) = 0 then Inr (Inr 0, transitionTo p PS_DirectoryTree)
      else
        let metaSize = unat (ah_metadataSize (pr_header (sp_result p))) in
        if \<not> haveBytes p metaSize then Inr (Inr 0, p)
        else bind_cpp (mp_parse (sp_buffer p) metaSize) (\<lambda>metaResult.
          Inr (sp_consume (sp_setMetadata p metaResult) metaSize PS_DirectoryTree)))"

definition sp_warn :: "StreamParser \<Rightarrow> ErrorCode \<Rightarrow> ErrorCode \<Rightarrow> ParserState \<Rightarrow> StreamParser" where
  "sp_warn p ec code state =
     (if ec \<noteq> Success
      then p\<lparr>sp_warnings := sp_warnings p @ [toParseError code state (size64 (sp_bytesProcessed p)) (error_message ec)]\<rparr>
      else p)"

definition processDirectoryTree :: "nat \<Rightarrow> StreamParser \<Rightarrow> (nat Result \<times> StreamParser) cpp" where
  "processDirectoryTree stack p =
     (if ah_directorySize (pr_header (sp_result p)) = 0 then Inr (Inr 0, transitionTo p PS_IndexTable)
      else
        let dirSize = unat (ah_directorySize (pr_header (sp_result p))) in
        if \<not> haveBytes p dirSize then Inr (Inr 0, p)
        else bind_cpp (dt_deserialize stack (pr_directoryTree (sp_result p)) (take dirSize (sp_buffer p))) (\<lambda>(ec, tree).
          let p = p\<lparr>sp_result := (sp_result p)\<lparr>pr_directoryTree := tree\<rparr>\<rparr>;
              p = sp_warn p ec CorruptDirectory PS_DirectoryTree
          in Inr (sp_consume p dirSize PS_IndexTable)))"

definition processIndexTable :: "StreamParser \<Rightarrow> (nat Result \<times> StreamParser) cpp" where
  "processIndexTable p =
     (if ah_indexSize (pr_header (sp_result p)) = 0 then Inr (Inr 0, transitionTo p PS_ChunkTable)
      else
        let idxSize = unat (ah_indexSize (pr_header (sp_result p))) in
        if \<not> haveBytes p idxSize then Inr (Inr 0, p)
        else bind_cpp (im_deserialize (pr_indexManager (sp_result p)) (take idxSize (sp_buffer p))) (\<lambda>(ec, idx).
          let p = p\<lparr>sp_result := (sp_result p)\<lparr>pr_indexManager := idx\<rparr>\<rparr>;
              p = sp_warn p ec CorruptIndex PS_IndexTable
          in Inr (sp_consume p idxSize PS_ChunkTable)))"

definition processChunkTable :: "(nat \<Rightarrow> nat) \<Rightarrow> StreamParser \<Rightarrow> (nat Result \<times> StreamParser) cpp" where
  "processChunkTable grow p =
     (if ah_chunkSize (pr_header (sp_result p)) = 0 then Inr (Inr 0, transitionTo p PS_CompressedBlocks)
      else
        let chunkSize = unat (ah_chunkSize (pr_header (sp_result p))) in
        if \<not> haveBytes p chunkSize then Inr (Inr 0, p)
        else bind_cpp (cm_deserialize grow (pr_chunkManager (sp_result p), sp_globals p) (take chunkSize (sp_buffer p)))
          (\<lambda>(ec, chunks, g).
          let p = p\<lparr>sp_result := (sp_result p)\<lparr>pr_chunkManager := chunks\<rparr>, sp_globals := g\<rparr>;
              p = sp_warn p ec CorruptChunkTable PS_ChunkTable
          in Inr (sp_consume p chunkSize PS_CompressedBlocks)))"

definition processCompressedBlocks :: "StreamParser \<Rightarrow> nat Result \<times> StreamParser" where
  "processCompressedBlocks p =
     (if ah_blocksSize (pr_header (sp_result p)) = 0 then (Inr 0, transitionTo p PS_ObjectRecon)
      else
        let blocksSize = unat (ah_blocksSize (pr_header (sp_result p))) in
        if \<not> haveBytes p blocksSize then (Inr 0, p)
        else
          let p = p\<lparr>sp_result := (sp_result p)\<lparr>pr_blocksData := take blocksSize (sp_buffer p)\<rparr>\<rparr>
          in sp_consume p blocksSize PS_ObjectRecon)"

definition sp_finalize :: "StreamParser \<Rightarrow> nat Result \<times> StreamParser" where
  "sp_finalize p =
     (Inr 0, transitionTo (p\<lparr>sp_result := (sp_result p)\<lparr>pr_valid := True, pr_warnings := sp_warnings p\<rparr>\<rparr>) PS_Complete)"

section \<open>The loop\<close>

text \<open>The switch.\<close>

definition sp_process :: "(byte list \<Rightarrow> u32) \<Rightarrow> nat \<Rightarrow> (nat \<Rightarrow> nat) \<Rightarrow> StreamParser \<Rightarrow> (nat Result \<times> StreamParser) cpp" where
  "sp_process crc stack grow p =
     (case sp_state p of
        PS_Init \<Rightarrow> Inr (processHeader crc p)
      | PS_Header \<Rightarrow> Inr (processHeader crc p)
      | PS_Metadata \<Rightarrow> processMetadata p
      | PS_DirectoryTree \<Rightarrow> processDirectoryTree stack p
      | PS_IndexTable \<Rightarrow> processIndexTable p
      | PS_ChunkTable \<Rightarrow> processChunkTable grow p
      | PS_CompressedBlocks \<Rightarrow> Inr (processCompressedBlocks p)
      | PS_ObjectRecon \<Rightarrow> Inr (sp_finalize p)
      | s \<Rightarrow> Inr (Inl (toParseError InternalError s (size64 (sp_bytesProcessed p)) []), p))"

text \<open>How far a state is from the end.\<close>

definition stage :: "ParserState \<Rightarrow> nat" where
  "stage s = (case s of PS_Init \<Rightarrow> 8 | PS_Header \<Rightarrow> 8 | PS_Metadata \<Rightarrow> 7 | PS_DirectoryTree \<Rightarrow> 6 | PS_IndexTable \<Rightarrow> 5
     | PS_ChunkTable \<Rightarrow> 4 | PS_CompressedBlocks \<Rightarrow> 3 | PS_ObjectRecon \<Rightarrow> 2 | PS_Complete \<Rightarrow> 1 | PS_Error \<Rightarrow> 0)"

lemmas sp_defs = processHeader_def processMetadata_def processDirectoryTree_def processIndexTable_def
  processChunkTable_def processCompressedBlocks_def sp_finalize_def sp_consume_def transitionTo_def sp_warn_def Let_def

lemma sp_process_progress:
  assumes "sp_process crc stack grow p = Inr (Inr n, p')"
  shows "n = 0 \<and> p' = p \<or> stage (sp_state p') < stage (sp_state p)"
  using assms
  by (cases "sp_state p")
    (auto simp: sp_process_def sp_defs stage_def bind_cpp_eq_Inr sp_setMetadata_def split: if_split_asm prod.split_asm)

function sp_loop :: "(byte list \<Rightarrow> u32) \<Rightarrow> nat \<Rightarrow> (nat \<Rightarrow> nat) \<Rightarrow> nat \<Rightarrow> StreamParser \<Rightarrow> (nat Result \<times> StreamParser) cpp" where
  "sp_loop crc stack grow tot p =
     (if sp_state p \<noteq> PS_Complete \<and> sp_state p \<noteq> PS_Error then
        bind_cpp (sp_process crc stack grow p) (\<lambda>(consumed, p'). case consumed of
          Inl e \<Rightarrow> Inr (Inl e, p'\<lparr>sp_state := PS_Error\<rparr>)
        | Inr n \<Rightarrow>
            if n = 0 \<and> sp_state p = sp_state p' then Inr (Inr (tot + n), p')
            else sp_loop crc stack grow (tot + n) p')
      else Inr (Inr tot, p))"
  by pat_completeness auto
termination
  by (relation "measure (\<lambda>(crc, stack, grow, tot, p). stage (sp_state p))") (auto dest!: sp_process_progress)

declare sp_loop.simps [simp del]

definition sp_feed :: "(byte list \<Rightarrow> u32) \<Rightarrow> nat \<Rightarrow> (nat \<Rightarrow> nat) \<Rightarrow> StreamParser \<Rightarrow> byte list \<Rightarrow> (nat Result \<times> StreamParser) cpp" where
  "sp_feed crc stack grow p chunk = sp_loop crc stack grow 0 (p\<lparr>sp_buffer := sp_buffer p @ chunk\<rparr>)"

section \<open>Feeding in pieces\<close>

text \<open>The same parser with more bytes in its buffer.\<close>

definition sp_more :: "StreamParser \<Rightarrow> byte list \<Rightarrow> StreamParser" where
  "sp_more p bs = p\<lparr>sp_buffer := sp_buffer p @ bs\<rparr>"

lemma sp_more_simps [simp]:
  "sp_state (sp_more p bs) = sp_state p" "sp_result (sp_more p bs) = sp_result p"
  "sp_buffer (sp_more p bs) = sp_buffer p @ bs" "sp_bytesProcessed (sp_more p bs) = sp_bytesProcessed p"
  "sp_globals (sp_more p bs) = sp_globals p" "sp_warnings (sp_more p bs) = sp_warnings p"
  "sp_more p [] = p" "sp_more (sp_more p bs) cs = sp_more p (bs @ cs)"
  by (simp_all add: sp_more_def)

text \<open>There is no metadata section ahead: the section parser would look at the bytes behind it.\<close>

definition no_metadata_ahead :: "StreamParser \<Rightarrow> bool" where
  "no_metadata_ahead p \<longleftrightarrow>
     (case sp_state p of
        PS_Init \<Rightarrow> headerSize \<le> length (sp_buffer p) \<longrightarrow> ah_metadataSize (header_of_bytes (sp_buffer p)) = 0
      | PS_Header \<Rightarrow> headerSize \<le> length (sp_buffer p) \<longrightarrow> ah_metadataSize (header_of_bytes (sp_buffer p)) = 0
      | PS_Metadata \<Rightarrow> ah_metadataSize (pr_header (sp_result p)) = 0
      | _ \<Rightarrow> True)"

lemma header_of_bytes_append:
  "headerSize \<le> length data \<Longrightarrow> header_of_bytes (data @ rest) = header_of_bytes data"
  by (simp add: header_of_bytes_def headerSize_def field_def)

lemma ah_parse_append: "headerSize \<le> length data \<Longrightarrow> ah_parse crc h (data @ rest) = ah_parse crc h data"
  by (simp add: ah_parse_def header_of_bytes_append)

definition more_res :: "byte list \<Rightarrow> nat Result \<times> StreamParser \<Rightarrow> nat Result \<times> StreamParser" where
  "more_res bs = (\<lambda>(r, p). (r, sp_more p bs))"

lemma sp_more_update:
  "(sp_more p bs)\<lparr>sp_result := r\<rparr> = sp_more (p\<lparr>sp_result := r\<rparr>) bs"
  "(sp_more p bs)\<lparr>sp_globals := g\<rparr> = sp_more (p\<lparr>sp_globals := g\<rparr>) bs"
  "(sp_more p bs)\<lparr>sp_expectedSize := n\<rparr> = sp_more (p\<lparr>sp_expectedSize := n\<rparr>) bs"
  "sp_warn (sp_more p bs) ec code state = sp_more (sp_warn p ec code state) bs"
  "transitionTo (sp_more p bs) s = sp_more (transitionTo p s) bs"
  by (simp_all add: sp_more_def sp_warn_def transitionTo_def)

lemma sp_consume_more:
  "n \<le> length (sp_buffer p) \<Longrightarrow> sp_consume (sp_more p bs) n s = more_res bs (sp_consume p n s)"
  by (simp add: sp_consume_def more_res_def sp_more_def transitionTo_def)

lemma sp_buffer_warn [simp]: "sp_buffer (sp_warn p ec code state) = sp_buffer p"
  by (simp add: sp_warn_def)

lemmas more_simps = sp_more_update sp_consume_more haveBytes_def more_res_def Let_def

lemma processHeader_more:
  "headerSize \<le> length (sp_buffer p) \<Longrightarrow> processHeader crc (sp_more p bs) = more_res bs (processHeader crc p)"
  by (simp add: processHeader_def ah_parse_append more_simps split: prod.split)

lemma processDirectoryTree_more:
  "unat (ah_directorySize (pr_header (sp_result p))) \<le> length (sp_buffer p) \<Longrightarrow>
   processDirectoryTree stack (sp_more p bs) = bind_cpp (processDirectoryTree stack p) (\<lambda>x. Inr (more_res bs x))"
  by (cases "dt_deserialize stack (pr_directoryTree (sp_result p))
       (take (unat (ah_directorySize (pr_header (sp_result p)))) (sp_buffer p))")
    (auto simp: processDirectoryTree_def more_simps)

lemma processIndexTable_more:
  "unat (ah_indexSize (pr_header (sp_result p))) \<le> length (sp_buffer p) \<Longrightarrow>
   processIndexTable (sp_more p bs) = bind_cpp (processIndexTable p) (\<lambda>x. Inr (more_res bs x))"
  by (cases "im_deserialize (pr_indexManager (sp_result p))
       (take (unat (ah_indexSize (pr_header (sp_result p)))) (sp_buffer p))")
    (auto simp: processIndexTable_def more_simps)

lemma processChunkTable_more:
  "unat (ah_chunkSize (pr_header (sp_result p))) \<le> length (sp_buffer p) \<Longrightarrow>
   processChunkTable grow (sp_more p bs) = bind_cpp (processChunkTable grow p) (\<lambda>x. Inr (more_res bs x))"
  by (cases "cm_deserialize grow (pr_chunkManager (sp_result p), sp_globals p)
       (take (unat (ah_chunkSize (pr_header (sp_result p)))) (sp_buffer p))")
    (auto simp: processChunkTable_def more_simps)

lemma processCompressedBlocks_more:
  "unat (ah_blocksSize (pr_header (sp_result p))) \<le> length (sp_buffer p) \<Longrightarrow>
   processCompressedBlocks (sp_more p bs) = more_res bs (processCompressedBlocks p)"
  by (auto simp: processCompressedBlocks_def more_simps)

lemma sp_finalize_more: "sp_finalize (sp_more p bs) = more_res bs (sp_finalize p)"
  by (simp add: sp_finalize_def more_simps)

lemma processMetadata_more:
  "ah_metadataSize (pr_header (sp_result p)) = 0 \<Longrightarrow>
   processMetadata (sp_more p bs) = bind_cpp (processMetadata p) (\<lambda>x. Inr (more_res bs x))"
  by (simp add: processMetadata_def more_simps)

text \<open>The bytes the section of the current state waits for.\<close>

definition needed :: "StreamParser \<Rightarrow> nat" where
  "needed p =
     (let h = pr_header (sp_result p) in
      case sp_state p of
        PS_Init \<Rightarrow> headerSize | PS_Header \<Rightarrow> headerSize
      | PS_Metadata \<Rightarrow> unat (ah_metadataSize h) | PS_DirectoryTree \<Rightarrow> unat (ah_directorySize h)
      | PS_IndexTable \<Rightarrow> unat (ah_indexSize h) | PS_ChunkTable \<Rightarrow> unat (ah_chunkSize h)
      | PS_CompressedBlocks \<Rightarrow> unat (ah_blocksSize h) | _ \<Rightarrow> 0)"

lemma sp_process_waits:
  "length (sp_buffer p) < needed p \<Longrightarrow> sp_process crc stack grow p = Inr (Inr 0, p)"
  by (cases "sp_state p") (auto simp: needed_def sp_process_def sp_defs haveBytes_def)

definition ready :: "StreamParser \<Rightarrow> bool" where
  "ready p \<longleftrightarrow> sp_state p \<noteq> PS_Complete \<and> sp_state p \<noteq> PS_Error \<and> needed p \<le> length (sp_buffer p)"

lemma ready_more: "ready p \<Longrightarrow> ready (sp_more p bs)"
  by (auto simp: ready_def needed_def)

lemma sp_process_more:
  assumes "ready p" "no_metadata_ahead p"
  shows "sp_process crc stack grow (sp_more p bs) = bind_cpp (sp_process crc stack grow p) (\<lambda>x. Inr (more_res bs x))"
  using assms
  by (cases "sp_state p")
    (simp_all add: ready_def needed_def sp_process_def no_metadata_ahead_def processHeader_more processDirectoryTree_more
      processIndexTable_more processChunkTable_more processCompressedBlocks_more sp_finalize_more processMetadata_more)

lemma sp_process_advances:
  assumes "ready p" "sp_process crc stack grow p = Inr (Inr n, p')"
  shows "stage (sp_state p') < stage (sp_state p)"
  using assms
  by (cases "sp_state p")
    (auto simp: ready_def needed_def sp_process_def sp_defs stage_def bind_cpp_eq_Inr sp_setMetadata_def haveBytes_def
      split: if_split_asm prod.split_asm)

lemma no_metadata_ready: "ready p \<Longrightarrow> no_metadata_ahead (sp_more p bs) = no_metadata_ahead p"
  by (cases "sp_state p") (auto simp: no_metadata_ahead_def ready_def needed_def header_of_bytes_append)

lemma no_metadata_later:
  "stage (sp_state p') < stage (sp_state p) \<Longrightarrow> no_metadata_ahead (sp_more p' bs) = no_metadata_ahead p'"
  by (cases "sp_state p'"; cases "sp_state p") (auto simp: no_metadata_ahead_def stage_def)

lemma no_metadata_step:
  assumes "no_metadata_ahead p" "ready p" "sp_process crc stack grow p = Inr (Inr n, p')"
  shows "no_metadata_ahead (sp_more p' bs)"
proof -
  have "no_metadata_ahead p'"
    using assms
    by (cases "sp_state p")
      (auto simp: no_metadata_ahead_def ready_def needed_def sp_process_def sp_defs haveBytes_def bind_cpp_eq_Inr ah_parse_def
        sp_setMetadata_def split: if_split_asm prod.split_asm)
  then show ?thesis
    using no_metadata_later [OF sp_process_advances [OF assms(2,3)]] by simp
qed

text \<open>The loop as equations: it stops when the section has to wait or has failed, and runs the next
  section otherwise.  The induction that goes with them.\<close>

lemma sp_loop_waits [simp]: "\<not> ready p \<Longrightarrow> sp_loop crc stack grow tot p = Inr (Inr tot, p)"
  by (subst sp_loop.simps) (auto simp: ready_def sp_process_waits)

lemma sp_loop_aborts: "ready p \<Longrightarrow> sp_process crc stack grow p = Inl a \<Longrightarrow> sp_loop crc stack grow tot p = Inl a"
  by (subst sp_loop.simps) (simp add: ready_def)

lemma sp_loop_fails:
  "ready p \<Longrightarrow> sp_process crc stack grow p = Inr (Inl e, p') \<Longrightarrow>
   sp_loop crc stack grow tot p = Inr (Inl e, p'\<lparr>sp_state := PS_Error\<rparr>)"
  by (subst sp_loop.simps) (simp add: ready_def)

lemma sp_loop_step:
  assumes "ready p" "sp_process crc stack grow p = Inr (Inr n, p')"
  shows "sp_loop crc stack grow tot p = sp_loop crc stack grow (tot + n) p'"
proof -
  have "sp_state p \<noteq> sp_state p'"
    using sp_process_advances [OF assms] by auto
  with assms show ?thesis
    by (subst sp_loop.simps) (simp add: ready_def)
qed

lemma stream_induct [case_names wait abort fail step]:
  assumes "\<And>p. \<not> ready p \<Longrightarrow> P p"
    and "\<And>p a. ready p \<Longrightarrow> sp_process crc stack grow p = Inl a \<Longrightarrow> P p"
    and "\<And>p e p'. ready p \<Longrightarrow> sp_process crc stack grow p = Inr (Inl e, p') \<Longrightarrow> P p"
    and "\<And>p n p'. ready p \<Longrightarrow> sp_process crc stack grow p = Inr (Inr n, p') \<Longrightarrow> P p' \<Longrightarrow> P p"
  shows "P p"
proof (induction "stage (sp_state p)" arbitrary: p rule: less_induct)
  case less
  show ?case
  proof (cases "ready p")
    case True
    consider a where "sp_process crc stack grow p = Inl a"
      | e p' where "sp_process crc stack grow p = Inr (Inl e, p')"
      | n p' where "sp_process crc stack grow p = Inr (Inr n, p')"
      by (metis prod.exhaust sum.exhaust)
    then show ?thesis
    proof cases
      case 3
      then show ?thesis
        using assms(4) [OF True] less sp_process_advances [OF True 3] by blast
    qed (use assms(2,3) True in blast)+
  qed (use assms(1) in blast)
qed

lemma sp_loop_more:
  "no_metadata_ahead (sp_more p bs) \<Longrightarrow>
   sp_loop crc stack grow tot (sp_more p bs) =
     bind_cpp (sp_loop crc stack grow tot p) (\<lambda>(r, p'). case r of
       Inl e \<Rightarrow> Inr (Inl e, sp_more p' bs) | Inr n \<Rightarrow> sp_loop crc stack grow n (sp_more p' bs))"
proof (induction p arbitrary: tot rule: stream_induct [where crc = crc and stack = stack and grow = grow])
  case (abort p a)
  then show ?case
    using sp_process_more [of p crc stack grow bs] no_metadata_ready [of p bs]
    by (simp add: sp_loop_aborts ready_more)
next
  case (fail p e p')
  then have "sp_process crc stack grow (sp_more p bs) = Inr (Inl e, sp_more p' bs)"
    using sp_process_more [of p crc stack grow bs] no_metadata_ready [of p bs] by (simp add: more_res_def)
  with fail show ?case
    by (simp add: sp_loop_fails [OF ready_more] sp_loop_fails) (simp add: sp_more_def)
next
  case (step p n p')
  then have nm: "no_metadata_ahead p"
    using no_metadata_ready by simp
  then have "sp_process crc stack grow (sp_more p bs) = Inr (Inr n, sp_more p' bs)"
    using step sp_process_more [of p crc stack grow bs] by (simp add: more_res_def)
  with step no_metadata_step [OF nm step.hyps(1,2)] show ?case
    by (simp add: sp_loop_step [OF ready_more] sp_loop_step)
qed simp

lemma sp_loop_no_metadata:
  "no_metadata_ahead (sp_more p bs) \<Longrightarrow> sp_loop crc stack grow tot p = Inr (r, p') \<Longrightarrow> no_metadata_ahead (sp_more p' bs)"
proof (induction p arbitrary: tot rule: stream_induct [where crc = crc and stack = stack and grow = grow])
  case (fail p e p')
  then show ?case
    by (auto simp: sp_loop_fails no_metadata_ahead_def)
next
  case (step p n q)
  then have "no_metadata_ahead (sp_more q bs)"
    using no_metadata_step [OF _ step.hyps(1,2)] no_metadata_ready by simp
  with step show ?case
    by (simp add: sp_loop_step)
qed (simp_all add: sp_loop_aborts)

lemma sp_loop_error: "sp_loop crc stack grow tot p = Inr (Inl e, p') \<Longrightarrow> sp_state p' = PS_Error"
  by (induction p arbitrary: tot rule: stream_induct [where crc = crc and stack = stack and grow = grow])
    (auto simp: sp_loop_aborts sp_loop_fails sp_loop_step)

text \<open>The count returned is added to what was consumed before.\<close>

lemma sp_loop_total:
  "sp_loop crc stack grow tot p =
     bind_cpp (sp_loop crc stack grow 0 p) (\<lambda>(r, p'). Inr (case r of Inl e \<Rightarrow> Inl e | Inr n \<Rightarrow> Inr (tot + n), p'))"
proof (induction p arbitrary: tot rule: stream_induct [where crc = crc and stack = stack and grow = grow])
  case (step p n p')
  show ?case
    unfolding sp_loop_step [OF step.hyps(1,2), of tot] sp_loop_step [OF step.hyps(1,2), of 0]
      step.IH [of "tot + n"] step.IH [of "0 + n"]
    by (cases "sp_loop crc stack grow 0 p'") (auto split: prod.split sum.split)
qed (simp_all add: sp_loop_aborts sp_loop_fails)

section \<open>Feeding any number of pieces\<close>

fun feed_all :: "(byte list \<Rightarrow> u32) \<Rightarrow> nat \<Rightarrow> (nat \<Rightarrow> nat) \<Rightarrow> StreamParser \<Rightarrow> byte list list \<Rightarrow> StreamParser cpp" where
  "feed_all crc stack grow p [] = Inr p"
| "feed_all crc stack grow p (c # cs) = bind_cpp (sp_feed crc stack grow p c) (\<lambda>(r, p). feed_all crc stack grow p cs)"

lemma sp_feed_more: "sp_feed crc stack grow p chunk = sp_loop crc stack grow 0 (sp_more p chunk)"
  by (simp add: sp_feed_def sp_more_def)

lemma feed_split:
  assumes "no_metadata_ahead (sp_more p (a @ b))" "sp_feed crc stack grow p a = Inr (r1, p1)"
  shows "bind_cpp (sp_feed crc stack grow p (a @ b)) (\<lambda>(r, p). Inr p) = bind_cpp (sp_feed crc stack grow p1 b) (\<lambda>(r, p). Inr p)"
proof -
  have nm: "no_metadata_ahead (sp_more (sp_more p a) b)"
    using assms(1) by simp
  have "sp_loop crc stack grow 0 (sp_more p (a @ b)) =
      (case r1 of Inl e \<Rightarrow> Inr (Inl e, sp_more p1 b) | Inr n \<Rightarrow> sp_loop crc stack grow n (sp_more p1 b))"
    using sp_loop_more [OF nm, of crc stack grow 0] assms(2) by (simp add: sp_feed_more)
  then show ?thesis
  proof (cases r1)
    case (Inl e)
    then have "sp_state (sp_more p1 b) = PS_Error"
      using assms(2) sp_loop_error by (simp add: sp_feed_more)
    then have "sp_loop crc stack grow 0 (sp_more p1 b) = Inr (Inr 0, sp_more p1 b)"
      by (simp add: ready_def)
    with Inl \<open>sp_loop crc stack grow 0 (sp_more p (a @ b)) = _\<close> show ?thesis
      by (simp add: sp_feed_more)
  next
    case (Inr n)
    with \<open>sp_loop crc stack grow 0 (sp_more p (a @ b)) = _\<close> show ?thesis
      using sp_loop_total [of crc stack grow n "sp_more p1 b"]
      by (cases "sp_loop crc stack grow 0 (sp_more p1 b)") (auto simp: sp_feed_more split: prod.split)
  qed
qed

lemma stream_pieces_lemma:
  assumes "no_metadata_ahead (sp_more p (concat cs))" "cs \<noteq> []"
  shows "feed_all crc stack grow p cs = bind_cpp (sp_feed crc stack grow p (concat cs)) (\<lambda>(r, p). Inr p)"
  using assms
proof (induction cs arbitrary: p)
  case (Cons c cs)
  show ?case
  proof (cases "cs = []")
    case True
    then show ?thesis
      by (cases "sp_feed crc stack grow p c") (auto split: prod.split)
  next
    case False
    show ?thesis
    proof (cases "sp_feed crc stack grow p c")
      case (Inl a)
      have "no_metadata_ahead (sp_more (sp_more p c) (concat cs))"
        using Cons.prems by simp
      from sp_loop_more [OF this, of crc stack grow 0] Inl show ?thesis
        by (simp add: sp_feed_more)
    next
      case (Inr x)
      obtain r1 p1 where x: "x = (r1, p1)" by (cases x)
      have nm: "no_metadata_ahead (sp_more (sp_more p c) (concat cs))"
        using Cons.prems by simp
      have "no_metadata_ahead (sp_more p1 (concat cs))"
        using sp_loop_no_metadata [OF nm] Inr x by (simp add: sp_feed_more)
      from Cons.IH [OF this False] show ?thesis
        using feed_split [of p c "concat cs" crc stack grow r1 p1] Cons.prems Inr x by simp
    qed
  qed
qed simp

text \<open>C33: Feeding an archive in pieces, however it is cut, leaves the parser in the same state with the
  same result as feeding it at once, and is undefined or throws exactly when that does, as
  long as the archive has no metadata section.\<close>

theorem stream_pieces:
  assumes "no_metadata_ahead (sp_more p (concat cs))" "cs \<noteq> []"
  shows "feed_all crc stack grow p cs = bind_cpp (sp_feed crc stack grow p (concat cs)) (\<lambda>(r, p). Inr p)"
  by (rule stream_pieces_lemma [OF assms])

section \<open>A whole archive\<close>

text \<open>A parser without warnings in the middle of an archive.\<close>

definition sp_at :: "ParserConfig \<Rightarrow> nat \<Rightarrow> ParserState \<Rightarrow> ParseResult \<Rightarrow> byte list \<Rightarrow> nat \<Rightarrow> ChunkGlobals \<Rightarrow> StreamParser" where
  "sp_at config e st r buf n g =
     \<lparr>sp_config = config, sp_state = st, sp_result = r, sp_buffer = buf, sp_warnings = [], sp_bytesProcessed = n,
      sp_expectedSize = e, sp_globals = g\<rparr>"

lemmas at_simps = ready_def needed_def sp_process_def sp_at_def haveBytes_def size64_eq_0 sp_warn_def sp_consume_def
  transitionTo_def sp_setMetadata_def pr_metadata_same pr_blocksData_same pr_same Let_def

lemma stream_header:
  assumes "header_wf h" "ah_isValid h" "verifyChecksum crc h"
  shows "sp_loop crc stack grow tot (sp_at config e PS_Init r (ah_serialize h @ rest) n g) =
    sp_loop crc stack grow (tot + headerSize)
      (sp_at config (unat (ah_archiveSize h)) PS_Metadata (r\<lparr>pr_header := h\<rparr>) rest (n + headerSize) g)"
proof -
  have "length (ah_serialize h) = headerSize"
    using assms(1) by (simp add: ah_serialize_def)
  then show ?thesis
    using ah_parse_serialized [OF assms, of newArchiveHeader rest]
    by (intro sp_loop_step) (simp_all add: at_simps processHeader_def)
qed

lemma stream_metadata:
  assumes "ah_metadataSize (pr_header r) = size64 (length m)" "length m < 2 ^ 63" "reads_metadata m rest x"
    "pr_metadata r = newMetadataStore"
  shows "sp_loop crc stack grow tot (sp_at config e PS_Metadata r (m @ rest) n g) =
    sp_loop crc stack grow (tot + length m)
      (sp_at config e PS_DirectoryTree (r\<lparr>pr_metadata := x\<rparr>) rest (n + length m) g)"
  using assms by (intro sp_loop_step) (auto simp: at_simps processMetadata_def reads_metadata_def)

lemma stream_directory:
  assumes "ah_directorySize (pr_header r) = size64 (length d)" "length d < 2 ^ 63"
    "reads (dt_deserialize stack) (pr_directoryTree r) d x"
  shows "sp_loop crc stack grow tot (sp_at config e PS_DirectoryTree r (d @ rest) n g) =
    sp_loop crc stack grow (tot + length d)
      (sp_at config e PS_IndexTable (r\<lparr>pr_directoryTree := x\<rparr>) rest (n + length d) g)"
  using assms by (intro sp_loop_step) (auto simp: at_simps processDirectoryTree_def reads_def)

lemma stream_index:
  assumes "ah_indexSize (pr_header r) = size64 (length i)" "length i < 2 ^ 63" "reads im_deserialize (pr_indexManager r) i x"
  shows "sp_loop crc stack grow tot (sp_at config e PS_IndexTable r (i @ rest) n g) =
    sp_loop crc stack grow (tot + length i)
      (sp_at config e PS_ChunkTable (r\<lparr>pr_indexManager := x\<rparr>) rest (n + length i) g)"
  using assms by (intro sp_loop_step) (auto simp: at_simps processIndexTable_def reads_def)

lemma stream_chunks:
  assumes "ah_chunkSize (pr_header r) = size64 (length c)" "length c < 2 ^ 63"
    "reads_chunks grow (pr_chunkManager r, g) c (x, g')"
  shows "sp_loop crc stack grow tot (sp_at config e PS_ChunkTable r (c @ rest) n g) =
    sp_loop crc stack grow (tot + length c)
      (sp_at config e PS_CompressedBlocks (r\<lparr>pr_chunkManager := x\<rparr>) rest (n + length c) g')"
  using assms by (intro sp_loop_step) (auto simp: at_simps processChunkTable_def reads_chunks_def)

lemma stream_blocks:
  assumes "ah_blocksSize (pr_header r) = size64 (length b)" "length b < 2 ^ 63" "pr_blocksData r = []"
  shows "sp_loop crc stack grow tot (sp_at config e PS_CompressedBlocks r (b @ rest) n g) =
    sp_loop crc stack grow (tot + length b)
      (sp_at config e PS_ObjectRecon (r\<lparr>pr_blocksData := b\<rparr>) rest (n + length b) g)"
  using assms by (intro sp_loop_step) (auto simp: at_simps processCompressedBlocks_def)

lemma stream_finalize:
  "sp_loop crc stack grow tot (sp_at config e PS_ObjectRecon r buf n g) =
    Inr (Inr tot, sp_at config e PS_Complete (r\<lparr>pr_valid := True, pr_warnings := []\<rparr>) buf n g)"
  by (subst sp_loop_step [where n = 0]) (auto simp: at_simps sp_finalize_def)

lemma stream_archive_lemma:
  assumes "header_wf h" "ah_isValid h" "verifyChecksum crc h" "announces h m d i c b"
    "reads_metadata m (d @ i @ c @ b @ rest) store" "reads (dt_deserialize stack) newDirectoryTree d tree"
    "reads im_deserialize newIndexManager i idx" "reads_chunks grow (newChunkManager default_ChunkConfig, g) c (chunks, g')"
    "n = headerSize + length m + length d + length i + length c + length b"
  shows "sp_feed crc stack grow (newStreamParser config g) (ah_serialize h @ m @ d @ i @ c @ b @ rest) =
    Inr (Inr n, sp_at config (unat (ah_archiveSize h)) PS_Complete (archive_result h store tree idx chunks b) rest n g')"
proof -
  have "sp_feed crc stack grow (newStreamParser config g) (ah_serialize h @ m @ d @ i @ c @ b @ rest) =
      sp_loop crc stack grow 0 (sp_at config 0 PS_Init newParseResult (ah_serialize h @ m @ d @ i @ c @ b @ rest) 0 g)"
    by (simp add: sp_feed_def newStreamParser_def sp_at_def)
  then show ?thesis
    using assms(4-)
    by (simp add: stream_header [OF assms(1-3)] announces_def stream_metadata [where x = store] stream_directory [where x = tree]
        stream_index [where x = idx] stream_chunks [where x = chunks and g' = g'] stream_blocks stream_finalize newParseResult_def)
      (simp add: archive_result_def)
qed

text \<open>C34: Feeding a well-formed archive, header and sections in order, completes the parser with exactly
  what the section readers make of the sections, counts every byte and leaves what follows
  the archive in the buffer.\<close>

theorem stream_archive:
  assumes "header_wf h" "ah_isValid h" "verifyChecksum crc h" "announces h m d i c b"
    "reads_metadata m (d @ i @ c @ b @ rest) store" "reads (dt_deserialize stack) newDirectoryTree d tree"
    "reads im_deserialize newIndexManager i idx" "reads_chunks grow (newChunkManager default_ChunkConfig, g) c (chunks, g')"
    "n = headerSize + length m + length d + length i + length c + length b"
  shows "sp_feed crc stack grow (newStreamParser config g) (ah_serialize h @ m @ d @ i @ c @ b @ rest) =
    Inr (Inr n, sp_at config (unat (ah_archiveSize h)) PS_Complete (archive_result h store tree idx chunks b) rest n g')"
  by (rule stream_archive_lemma [OF assms])

lemma no_metadata_archive:
  "header_wf h \<Longrightarrow> ah_metadataSize h = 0 \<Longrightarrow> no_metadata_ahead (sp_more (newStreamParser config g) (ah_serialize h @ rest))"
  by (simp add: no_metadata_ahead_def newStreamParser_def header_of_serialized)

text \<open>C32: how the two parsers read the same archive.  The archive has a valid header with a right checksum, no metadata
  section, and its sections in order right behind the header, where the header says they are; each section can be
  read.  (An archive of \<^verbatim>\<open>ArchiveWriter\<close> is laid out this way only while no entry has data, since the data
  stands in front of the sections.)  However the archive is cut into pieces, the stream parser ends in the state Complete with
  the result that the parser in memory returns for the whole archive, and with the same chunk storage, but for the
  blocks: the stream parser keeps them all, and the parser in memory drops them silently when they are more than 64 MiB.
  The blocks kept fit the memory.\<close>

theorem stream_agrees_with_parse:
  assumes "header_wf h" "ah_isValid h" "verifyChecksum crc h" "announces h [] d i c b" "places h [] [] d i c"
    "reads (dt_deserialize stack) newDirectoryTree d tree"
    "reads im_deserialize newIndexManager i idx" "reads_chunks grow (newChunkManager default_ChunkConfig, g) c (chunks, g')"
    "length (kept_blocks b) \<le> limit" "concat pieces = ah_serialize h @ d @ i @ c @ b"
  shows "\<exists>p' q r. feed_all crc stack grow (newStreamParser config g) pieces = Inr p' \<and>
    pa_parse crc stack grow limit g (newParser config) (concat pieces) = Inr (Inr r, q, sp_globals p') \<and>
    sp_isComplete p' \<and> pa_state q = PS_Complete \<and> sp_result p' = r\<lparr>pr_blocksData := b\<rparr> \<and>
    pr_blocksData r = (if length b > 64 * 1024 * 1024 then [] else b)"
proof -
  have meta: "reads_metadata [] rest newMetadataStore" for rest
    by (simp add: reads_metadata_def)
  have "pieces \<noteq> []"
    using assms(10) length_header_bytes [OF assms(1)] by (auto simp: ah_serialize_def headerSize_def)
  moreover have "no_metadata_ahead (sp_more (newStreamParser config g) (concat pieces))"
    using no_metadata_archive [OF assms(1), of config g "d @ i @ c @ b"] assms(4,10) by (simp add: announces_def size64_def)
  ultimately have "feed_all crc stack grow (newStreamParser config g) pieces =
      bind_cpp (sp_feed crc stack grow (newStreamParser config g) (concat pieces)) (\<lambda>(r, p). Inr p)"
    by - (rule stream_pieces_lemma)
  with stream_archive_lemma [OF assms(1-4) meta assms(6-8) refl, where rest = "[]" and config = config]
    parse_archive_kept [OF assms(1-5) meta assms(6-9), where rest = "[]" and p = "newParser config", simplified append_Nil]
  show ?thesis
    by (simp add: assms(10) sp_isComplete_def sp_at_def archive_result_def kept_blocks_def)
qed

text \<open>The small archive in three pieces, the header cut in two.\<close>

definition small_pieces :: "byte list list" where
  "small_pieces = [take 100 (ah_serialize small_header), drop 100 (ah_serialize small_header), [0, 7]]"

lemma small_pieces_simps [simp]:
  "concat small_pieces = ah_serialize small_header @ [0, 7]" "small_pieces \<noteq> []" "ah_metadataSize small_header = 0"
  by (simp_all add: small_pieces_def small_header_def newArchiveHeader_def flip: append_assoc)

theorem stream_pieces_witness:
  "feed_all (\<lambda>_. 0) 9 Suc (newStreamParser default_ParserConfig newChunkGlobals) small_pieces =
   bind_cpp (sp_feed (\<lambda>_. 0) 9 Suc (newStreamParser default_ParserConfig newChunkGlobals) (ah_serialize small_header @ [0, 7]))
     (\<lambda>(r, p). Inr p)"
  using stream_pieces [of "newStreamParser default_ParserConfig newChunkGlobals" small_pieces "\<lambda>_. 0" 9 Suc]
    no_metadata_archive [of small_header default_ParserConfig newChunkGlobals "[0, 7]"]
  by simp

theorem stream_agrees_with_parse_witness:
  "\<exists>p' q r. feed_all (\<lambda>_. 0) 9 Suc (newStreamParser default_ParserConfig newChunkGlobals) small_pieces = Inr p' \<and>
    pa_parse (\<lambda>_. 0) 9 Suc 4096 newChunkGlobals (newParser default_ParserConfig) (concat small_pieces) = Inr (Inr r, q, sp_globals p') \<and>
    sp_isComplete p' \<and> pa_state q = PS_Complete \<and> sp_result p' = r"
  using stream_agrees_with_parse [OF small_header_ok, where g' = newChunkGlobals and tree = newDirectoryTree
        and idx = "newIndexManager\<lparr>im_sorted := False\<rparr>" and chunks = "newChunkManager default_ChunkConfig"
        and pieces = small_pieces and stack = 9 and grow = Suc and g = newChunkGlobals and limit = 4096 and config = default_ParserConfig and crc = "\<lambda>_. 0"]
  by (fastforce simp: small_archive_reads kept_blocks_def)

text \<open>An archive with metadata.\<close>

definition meta_header :: ArchiveHeader where
  "meta_header = newArchiveHeader\<lparr>ah_archiveSize := 164, ah_metadataSize := 4, ah_indexSize := 1, ah_blocksSize := 1\<rparr>"

lemma meta_header_ok [simp]:
  "header_wf meta_header" "ah_isValid meta_header" "verifyChecksum crc meta_header"
  "announces meta_header [1, 1, 97, 5] [] [0] [] [7]"
  by (simp_all add: meta_header_def newArchiveHeader_def header_wf_def archive_magic_def ah_isValid_def isValidMagic_def
      isVersionSupported_def verifyChecksum_def announces_def size64_def)

theorem stream_archive_witness:
  "\<exists>p'. sp_feed (\<lambda>_. 0) 9 Suc (newStreamParser default_ParserConfig newChunkGlobals)
      (ah_serialize meta_header @ [1, 1, 97, 5] @ [] @ [0] @ [] @ [7] @ [8, 9]) = Inr (Inr 164, p') \<and>
    sp_isComplete p' \<and> sp_buffer p' = [8, 9] \<and> ms_getBinary (pr_metadata (sp_result p')) ''a'' = Some [5]"
proof -
  have "mp_serialize [(''a'', [5])] = [1, 1, 97, 5]"
    by code_simp
  then have "reads_metadata [1, 1, 97, 5] ([] @ [0] @ [] @ [7] @ [8, 9]) (ms_set newMetadataStore ''a'' [5])"
    using mp_parse_serialized [of "[(''a'', [5])]" "ms_set newMetadataStore ''a'' [5]" "[0, 7, 8, 9]"]
    by (simp add: reads_metadata_def enumerates_def ms_set_def newMetadataStore_def key_fits_def kMaxFileNameLength_def
        kMaxMetadataSize_def)
  from stream_archive [OF meta_header_ok this, where stack = 9 and grow = Suc and g = newChunkGlobals and g' = newChunkGlobals
      and tree = newDirectoryTree and idx = "newIndexManager\<lparr>im_sorted := False\<rparr>" and chunks = "newChunkManager default_ChunkConfig"
      and config = default_ParserConfig and n = 164]
  show ?thesis
    by (simp add: small_archive_reads headerSize_def sp_isComplete_def sp_at_def archive_result_def ms_getBinary_def ms_set_def)
qed


section \<open>A metadata section that reaches into the next one\<close>

text \<open>The metadata section is three bytes, the length of a key and of a value and the key; the two bytes of
  the value are the first of the blocks.\<close>

definition long_header :: ArchiveHeader where
  "long_header = newArchiveHeader\<lparr>ah_archiveSize := 164, ah_metadataSize := 3, ah_blocksSize := 3\<rparr>"

lemma long_header_ok [simp]:
  "header_wf long_header" "ah_isValid long_header" "verifyChecksum crc long_header"
  "announces long_header [1, 2, 65] [] [] [] [66, 67, 0]" "length (ah_serialize long_header) = headerSize"
  by (simp_all add: long_header_def newArchiveHeader_def header_wf_def archive_magic_def ah_isValid_def isValidMagic_def
      isVersionSupported_def verifyChecksum_def announces_def size64_def ah_serialize_def)

lemma long_metadata:
  "reads_metadata [1, 2, 65] [66, 67, 0] (ms_set newMetadataStore ''A'' [66, 67])"
  "mp_parse [1, 2, 65] 3 = Inr (Inl (metadata_error 3 []))"
proof -
  have enc: "encode 1 = [1]" "encode 2 = [2]" "string_of_bytes [65] = ''A''" by code_simp+
  have dec: "decode (1 # xs) = Inr \<lparr>dr_value = 1, dr_consumed = 1, dr_valid = True\<rparr>"
    "decode (2 # xs) = Inr \<lparr>dr_value = 2, dr_consumed = 1, dr_valid = True\<rparr>" for xs
    using decode_encode [of 1 xs] decode_encode [of 2 xs] enc by simp_all
  have "parseEntry [1, 2, 65, 66, 67, 0] 0 = Inr (Inr ((''A'', [66, 67]), 5))"
    by (simp add: parseEntry_def dec enc mp_copy_def kMaxFileNameLength_def kMaxMetadataSize_def)
  then show "reads_metadata [1, 2, 65] [66, 67, 0] (ms_set newMetadataStore ''A'' [66, 67])"
    using mp_loop.simps [of "[1, 2, 65, 66, 67, 0]" 3 0] mp_loop.simps [of "[1, 2, 65, 66, 67, 0]" 3 5]
    by (simp add: reads_metadata_def mp_parse_def flip: numeral_3_eq_3)
  have "parseEntry [1, 2, 65] 0 = Inr (Inl (metadata_error 3 []))"
    by (simp add: parseEntry_def dec enc mp_copy_def kMaxFileNameLength_def kMaxMetadataSize_def flip: numeral_3_eq_3)
  then show "mp_parse [1, 2, 65] 3 = Inr (Inl (metadata_error 3 []))"
    using mp_loop.simps [of "[1, 2, 65]" 3 0] by (simp add: mp_parse_def)
qed

text \<open>The first piece ends behind the metadata section: the parser waits for the blocks.\<close>

lemma long_first_piece:
  "sp_feed crc stack grow (newStreamParser config g) (ah_serialize long_header @ [1, 2, 65]) =
   Inr (Inr (headerSize + 3), sp_at config 164 PS_CompressedBlocks (newParseResult\<lparr>pr_header := long_header\<rparr>) [] (headerSize + 3) g)"
proof -
  let ?r = "newParseResult\<lparr>pr_header := long_header\<rparr>"
  have "sp_loop crc stack grow 0 (sp_at config 0 PS_Init newParseResult (ah_serialize long_header @ [1, 2, 65]) 0 g) =
      sp_loop crc stack grow headerSize (sp_at config 164 PS_Metadata ?r [1, 2, 65] headerSize g)"
    using stream_header [OF long_header_ok(1-3), where rest = "[1, 2, 65]"] by (simp add: long_header_def)
  also have "\<dots> = sp_loop crc stack grow (headerSize + 3) (sp_at config 164 PS_DirectoryTree ?r [] (headerSize + 3) g)"
    by (rule sp_loop_step) (simp_all add: at_simps processMetadata_def long_metadata long_header_def)
  also have "\<dots> = sp_loop crc stack grow (headerSize + 3) (sp_at config 164 PS_IndexTable ?r [] (headerSize + 3) g)"
    by (rule sp_loop_step [where n = 0, simplified]) (simp_all add: at_simps processDirectoryTree_def long_header_def newArchiveHeader_def)
  also have "\<dots> = sp_loop crc stack grow (headerSize + 3) (sp_at config 164 PS_ChunkTable ?r [] (headerSize + 3) g)"
    by (rule sp_loop_step [where n = 0, simplified]) (simp_all add: at_simps processIndexTable_def long_header_def newArchiveHeader_def)
  also have "\<dots> = sp_loop crc stack grow (headerSize + 3) (sp_at config 164 PS_CompressedBlocks ?r [] (headerSize + 3) g)"
    by (rule sp_loop_step [where n = 0, simplified]) (simp_all add: at_simps processChunkTable_def long_header_def newArchiveHeader_def)
  also have "\<dots> = Inr (Inr (headerSize + 3), sp_at config 164 PS_CompressedBlocks ?r [] (headerSize + 3) g)"
    by (rule sp_loop_waits) (simp add: at_simps long_header_def)
  finally show ?thesis
    by (simp add: sp_feed_def newStreamParser_def sp_at_def)
qed

text \<open>Feeding such an archive at once sets an entry that the same archive, fed with a cut behind
  the metadata section, does not have.\<close>

theorem stream_metadata_depends_on_cut:
  "(\<exists>p. feed_all crc stack grow (newStreamParser config g) [ah_serialize long_header @ [1, 2, 65] @ [66, 67, 0]] = Inr p \<and>
      sp_isComplete p \<and> ms_getBinary (pr_metadata (sp_result p)) ''A'' = Some [66, 67]) \<and>
   (\<exists>p. feed_all crc stack grow (newStreamParser config g) [ah_serialize long_header @ [1, 2, 65], [66, 67, 0]] = Inr p \<and>
      sp_isComplete p \<and> ms_getBinary (pr_metadata (sp_result p)) ''A'' = None)"
proof
  show "\<exists>p. feed_all crc stack grow (newStreamParser config g) [ah_serialize long_header @ [1, 2, 65] @ [66, 67, 0]] = Inr p \<and>
      sp_isComplete p \<and> ms_getBinary (pr_metadata (sp_result p)) ''A'' = Some [66, 67]"
    using stream_archive_lemma [OF long_header_ok(1-4), where rest = "[]" and store = "ms_set newMetadataStore ''A'' [66, 67]"
        and tree = newDirectoryTree and idx = newIndexManager and chunks = "newChunkManager default_ChunkConfig" and g = g and g' = g
        and stack = stack and grow = grow and crc = crc and config = config] long_metadata(1)
    by (simp add: reads_def reads_chunks_def sp_isComplete_def sp_at_def archive_result_def ms_getBinary_def ms_set_def)
  show "\<exists>p. feed_all crc stack grow (newStreamParser config g) [ah_serialize long_header @ [1, 2, 65], [66, 67, 0]] = Inr p \<and>
      sp_isComplete p \<and> ms_getBinary (pr_metadata (sp_result p)) ''A'' = None"
    using stream_blocks [where b = "[66, 67, 0]" and rest = "[]" and r = "newParseResult\<lparr>pr_header := long_header\<rparr>" and
        crc = crc and stack = stack and grow = grow and tot = 0 and config = config and e = 164 and n = "headerSize + 3" and g = g]
      stream_finalize [of crc stack grow 3 config 164 "newParseResult\<lparr>pr_header := long_header, pr_blocksData := [66, 67, 0]\<rparr>"
        "[]" "headerSize + 6" g]
    by (simp add: long_first_piece)
      (simp add: sp_feed_def sp_at_def long_header_def newParseResult_def size64_def numeral_3_eq_3 sp_isComplete_def
        ms_getBinary_def newMetadataStore_def add.commute)
qed

end
