(* ===== verification/Storage_Backend.thy ===== *)
theory Storage_Backend
  imports Core_Types Store_Interface Archive_Header "HOL-Library.AList"
begin

text \<open>
  \<^verbatim>\<open>storage/backend/StorageBackend.hpp\<close>, \<^verbatim>\<open>MemoryStorageBackend\<close> and \<^verbatim>\<open>FileStorageBackend\<close>: the interface
  of the block stores and its two implementations.

  The interface \<^verbatim>\<open>IStorageBackend\<close> is a record of operations on a state, its table of virtual
  functions; its contract is the locale \<open>block_backend\<close>, and \<open>reliable_backend\<close> where no operation
  of the system fails.  Every public operation holds the lock of its object from the first to the last
  line, so an operation is one step.

  Parameters: \<open>crc\<close>, the CRC-32 of zlib; \<open>limit\<close>, the largest allocation that succeeds; \<open>io\<close>, which
  calls of the operating system fail.
\<close>

datatype StorageError = SE_Success | SE_NotFound | SE_AlreadyExists | SE_CapacityExceeded | SE_IOError
  | SE_CorruptBlock | SE_InvalidOffset | SE_InvalidParameter

type_synonym 'a StorageResult = "StorageError + 'a"

definition isSuccess :: "StorageError \<Rightarrow> bool" where
  "isSuccess err \<longleftrightarrow> err = SE_Success"

fun storageErrorMessage :: "StorageError \<Rightarrow> string" where
  "storageErrorMessage SE_Success = ''Success''"
| "storageErrorMessage SE_NotFound = ''Block not found''"
| "storageErrorMessage SE_AlreadyExists = ''Block already exists''"
| "storageErrorMessage SE_CapacityExceeded = ''Storage capacity exceeded''"
| "storageErrorMessage SE_IOError = ''I/O subsystem failure''"
| "storageErrorMessage SE_CorruptBlock = ''Block data corruption detected''"
| "storageErrorMessage SE_InvalidOffset = ''Invalid block offset or length''"
| "storageErrorMessage SE_InvalidParameter = ''Invalid parameter''"

record StorageStats =
  ss_totalBlocks :: u64
  ss_totalBytes :: u64
  ss_capacityBytes :: u64
  ss_readOps :: u64
  ss_writeOps :: u64
  ss_deleteOps :: u64

definition newStorageStats :: StorageStats where
  "newStorageStats = \<lparr>ss_totalBlocks = 0, ss_totalBytes = 0, ss_capacityBytes = 0, ss_readOps = 0, ss_writeOps = 0, ss_deleteOps = 0\<rparr>"

record 's IStorageBackend =
  be_writeBlock :: "'s \<Rightarrow> u64 \<Rightarrow> byte list \<Rightarrow> (StorageError \<times> 's) cpp"
  be_readBlock :: "'s \<Rightarrow> u64 \<Rightarrow> (byte list StorageResult \<times> 's) cpp"
  be_readSpan :: "'s \<Rightarrow> u64 \<Rightarrow> u64 \<Rightarrow> u64 \<Rightarrow> (byte list StorageResult \<times> 's) cpp"
  be_deleteBlock :: "'s \<Rightarrow> u64 \<Rightarrow> (StorageError \<times> 's) cpp"
  be_hasBlock :: "'s \<Rightarrow> u64 \<Rightarrow> bool"
  be_stats :: "'s \<Rightarrow> StorageStats"
  be_sync :: "'s \<Rightarrow> StorageError"
  be_clear :: "'s \<Rightarrow> 's"

section \<open>The contract\<close>

text \<open>A block store behaves as a map from block numbers to data, as far as it succeeds: an operation that reports
  an error has changed nothing, a part that is read is a part of the data (where offset and length do not
  wrap), and clearing invents nothing.  \<open>small\<close> tells which data can be handled.\<close>

locale block_backend =
  fixes b :: "'s IStorageBackend"
    and inv :: "'s \<Rightarrow> bool"
    and content :: "'s \<Rightarrow> u64 \<Rightarrow> byte list option"
    and small :: "byte list \<Rightarrow> bool"
  assumes write_law: "inv s \<Longrightarrow> small d \<Longrightarrow>
      \<exists>e s'. be_writeBlock b s k d = Inr (e, s') \<and> inv s' \<and> content s' = (if e = SE_Success then (content s)(k \<mapsto> d) else content s)"
    and read_law: "inv s \<Longrightarrow>
      \<exists>r s'. be_readBlock b s k = Inr (r, s') \<and> inv s' \<and> content s' = content s \<and>
        r \<noteq> Inl SE_Success \<and> (\<forall>d. r = Inr d \<longrightarrow> content s k = Some d)"
    and delete_law: "inv s \<Longrightarrow>
      \<exists>e s'. be_deleteBlock b s k = Inr (e, s') \<and> inv s' \<and> content s' = (if e = SE_Success then (content s)(k := None) else content s)"
    and span_law: "inv s \<Longrightarrow> unat off + unat len < 2 ^ 64 \<Longrightarrow>
      \<exists>r s'. be_readSpan b s k off len = Inr (r, s') \<and> inv s' \<and> content s' = content s \<and>
        (\<forall>d. r = Inr d \<longrightarrow> (\<exists>d'. content s k = Some d' \<and> d = take (unat len) (drop (unat off) d')))"
    and clear_law: "inv s \<Longrightarrow> inv (be_clear b s) \<and> content (be_clear b s) \<subseteq>\<^sub>m content s"
    and small_law: "inv s \<Longrightarrow> content s k = Some d \<Longrightarrow> small d"
begin

lemma writeE:
  assumes "inv s" "small d"
  obtains e s' where "be_writeBlock b s k d = Inr (e, s')" "inv s'"
    "content s' = (if e = SE_Success then (content s)(k \<mapsto> d) else content s)"
  using write_law [OF assms] by blast

lemma readE:
  assumes "inv s"
  obtains r s' where "be_readBlock b s k = Inr (r, s')" "inv s'" "content s' = content s" "r \<noteq> Inl SE_Success"
    "\<And>d. r = Inr d \<Longrightarrow> content s k = Some d"
  using read_law [OF assms] by blast

lemma spanE:
  assumes "inv s" "unat off + unat len < 2 ^ 64"
  obtains r s' where "be_readSpan b s k off len = Inr (r, s')" "inv s'" "content s' = content s"
    "\<And>d. r = Inr d \<Longrightarrow> \<exists>d'. content s k = Some d' \<and> d = take (unat len) (drop (unat off) d')"
  using span_law [OF assms] by blast

lemma deleteE:
  assumes "inv s"
  obtains e s' where "be_deleteBlock b s k = Inr (e, s')" "inv s'"
    "content s' = (if e = SE_Success then (content s)(k := None) else content s)"
  using delete_law [OF assms] by blast

text \<open>What a write stored, a read returns, as long as nothing else is written to the block.\<close>

lemma read_written:
  assumes "inv s" "small d" "be_writeBlock b s k d = Inr (SE_Success, s')" "be_readBlock b s' k = Inr (Inr d', s'')"
  shows "d' = d"
  using write_law [OF assms(1,2), of k] read_law [of s' k] assms(3,4) by fastforce

end

locale reliable_backend = block_backend +
  assumes read_ok: "inv s \<Longrightarrow> content s k = Some d \<Longrightarrow> \<exists>s'. be_readBlock b s k = Inr (Inr d, s')"
    and delete_ok: "inv s \<Longrightarrow> content s k \<noteq> None \<Longrightarrow> \<exists>s'. be_deleteBlock b s k = Inr (SE_Success, s')"
    and has_iff: "inv s \<Longrightarrow> be_hasBlock b s k \<longleftrightarrow> content s k \<noteq> None"
    and clear_ok: "inv s \<Longrightarrow> content (be_clear b s) = Map.empty"

section \<open>MemoryStorageBackend\<close>

record InternalBlock =
  ib_data :: "byte list"
  ib_checksum :: u32

record MemoryStorageBackend =
  mb_maxCapacityBytes :: u64
  mb_currentBytes :: u64
  mb_blocks :: "(u64 \<times> InternalBlock) list"   \<comment> \<open>the hash table is never iterated over\<close>
  mb_stats :: StorageStats

definition newMemoryStorageBackend :: "u64 \<Rightarrow> MemoryStorageBackend" where
  "newMemoryStorageBackend maxCapacityBytes =
     \<lparr>mb_maxCapacityBytes = maxCapacityBytes, mb_currentBytes = 0, mb_blocks = [],
      mb_stats = newStorageStats\<lparr>ss_capacityBytes := maxCapacityBytes\<rparr>\<rparr>"

definition mb_setCapacity :: "MemoryStorageBackend \<Rightarrow> u64 \<Rightarrow> MemoryStorageBackend" where
  "mb_setCapacity m maxCapacityBytes =
     m\<lparr>mb_maxCapacityBytes := maxCapacityBytes, mb_stats := (mb_stats m)\<lparr>ss_capacityBytes := maxCapacityBytes\<rparr>\<rparr>"

definition mb_writeBlock :: "(byte list \<Rightarrow> u32) \<Rightarrow> MemoryStorageBackend \<Rightarrow> u64 \<Rightarrow> byte list \<Rightarrow> (StorageError \<times> MemoryStorageBackend) cpp" where
  "mb_writeBlock crc m blockId data =
     (let existingSize = (case map_of (mb_blocks m) blockId of None \<Rightarrow> 0 | Some block \<Rightarrow> size64 (length (ib_data block))) in
      if mb_currentBytes m + size64 (length data) - existingSize > mb_maxCapacityBytes m then Inr (SE_CapacityExceeded, m)
      else
        let block = \<lparr>ib_data = data, ib_checksum = crc data\<rparr>;
            currentBytes = mb_currentBytes m + size64 (length data) - existingSize;
            blocks = AList.update blockId block (mb_blocks m)
        in Inr (SE_Success, m\<lparr>mb_currentBytes := currentBytes, mb_blocks := blocks,
             mb_stats := (mb_stats m)\<lparr>ss_writeOps := ss_writeOps (mb_stats m) + 1,
               ss_totalBlocks := size64 (length blocks), ss_totalBytes := currentBytes\<rparr>\<rparr>))"

definition mb_count_read :: "MemoryStorageBackend \<Rightarrow> MemoryStorageBackend" where
  "mb_count_read m = m\<lparr>mb_stats := (mb_stats m)\<lparr>ss_readOps := ss_readOps (mb_stats m) + 1\<rparr>\<rparr>"

definition mb_readBlock :: "(byte list \<Rightarrow> u32) \<Rightarrow> MemoryStorageBackend \<Rightarrow> u64 \<Rightarrow> (byte list StorageResult \<times> MemoryStorageBackend) cpp" where
  "mb_readBlock crc m blockId =
     Inr (case map_of (mb_blocks m) blockId of
        None \<Rightarrow> (Inl SE_NotFound, m)
      | Some block \<Rightarrow>
          if crc (ib_data block) \<noteq> ib_checksum block then (Inl SE_CorruptBlock, m)
          else (Inr (ib_data block), mb_count_read m))"

text \<open>The sum of the guard wraps; the iterators of the copy are then out of range.\<close>

definition mb_readSpan :: "MemoryStorageBackend \<Rightarrow> u64 \<Rightarrow> u64 \<Rightarrow> u64 \<Rightarrow> (byte list StorageResult \<times> MemoryStorageBackend) cpp" where
  "mb_readSpan m blockId off len =
     (case map_of (mb_blocks m) blockId of
        None \<Rightarrow> Inr (Inl SE_NotFound, m)
      | Some block \<Rightarrow>
          if off + len > size64 (length (ib_data block)) then Inr (Inl SE_InvalidOffset, m)
          else if unat off > length (ib_data block) then Inl Undefined_behaviour
          else Inr (Inr (take (unat len) (drop (unat off) (ib_data block))), mb_count_read m))"

definition mb_deleteBlock :: "MemoryStorageBackend \<Rightarrow> u64 \<Rightarrow> (StorageError \<times> MemoryStorageBackend) cpp" where
  "mb_deleteBlock m blockId =
     Inr (case map_of (mb_blocks m) blockId of
        None \<Rightarrow> (SE_NotFound, m)
      | Some block \<Rightarrow>
          let currentBytes = mb_currentBytes m - size64 (length (ib_data block));
              blocks = AList.delete blockId (mb_blocks m)
          in (SE_Success, m\<lparr>mb_currentBytes := currentBytes, mb_blocks := blocks,
               mb_stats := (mb_stats m)\<lparr>ss_deleteOps := ss_deleteOps (mb_stats m) + 1,
                 ss_totalBlocks := size64 (length blocks), ss_totalBytes := currentBytes\<rparr>\<rparr>))"

definition mb_hasBlock :: "MemoryStorageBackend \<Rightarrow> u64 \<Rightarrow> bool" where
  "mb_hasBlock m blockId \<longleftrightarrow> map_of (mb_blocks m) blockId \<noteq> None"

definition mb_getStats :: "MemoryStorageBackend \<Rightarrow> StorageStats" where
  "mb_getStats m = (mb_stats m)\<lparr>ss_totalBlocks := size64 (length (mb_blocks m)), ss_totalBytes := mb_currentBytes m,
     ss_capacityBytes := mb_maxCapacityBytes m\<rparr>"

definition mb_sync :: "MemoryStorageBackend \<Rightarrow> StorageError" where
  "mb_sync m = SE_Success"

definition mb_clear :: "MemoryStorageBackend \<Rightarrow> MemoryStorageBackend" where
  "mb_clear m = m\<lparr>mb_blocks := [], mb_currentBytes := 0, mb_stats := (mb_stats m)\<lparr>ss_totalBlocks := 0, ss_totalBytes := 0\<rparr>\<rparr>"

definition memory_backend :: "(byte list \<Rightarrow> u32) \<Rightarrow> MemoryStorageBackend IStorageBackend" where
  "memory_backend crc =
     \<lparr>be_writeBlock = mb_writeBlock crc, be_readBlock = mb_readBlock crc, be_readSpan = mb_readSpan,
      be_deleteBlock = mb_deleteBlock, be_hasBlock = mb_hasBlock, be_stats = mb_getStats, be_sync = mb_sync,
      be_clear = mb_clear\<rparr>"

section \<open>The memory store keeps its contract\<close>

definition small_block :: "nat \<Rightarrow> byte list \<Rightarrow> bool" where
  "small_block limit d \<longleftrightarrow> length d \<le> limit \<and> length d < 2 ^ 62"

definition stored_bytes :: "('k \<times> InternalBlock) list \<Rightarrow> nat" where
  "stored_bytes xs = sum_list (map (\<lambda>(k, block). length (ib_data block)) xs)"

definition mb_content :: "MemoryStorageBackend \<Rightarrow> u64 \<Rightarrow> byte list option" where
  "mb_content m k = map_option ib_data (map_of (mb_blocks m) k)"

text \<open>The byte count is exact, the checksums are those of the data, and the capacity is a real one.\<close>

definition mb_inv :: "(byte list \<Rightarrow> u32) \<Rightarrow> nat \<Rightarrow> MemoryStorageBackend \<Rightarrow> bool" where
  "mb_inv crc limit m \<longleftrightarrow>
     distinct (map fst (mb_blocks m)) \<and> mb_currentBytes m = size64 (stored_bytes (mb_blocks m)) \<and>
     stored_bytes (mb_blocks m) < 2 ^ 63 \<and> unat (mb_maxCapacityBytes m) < 2 ^ 63 \<and>
     (\<forall>(k, block) \<in> set (mb_blocks m). ib_checksum block = crc (ib_data block) \<and> small_block limit (ib_data block))"

lemma stored_bytes_update:
  "distinct (map fst xs) \<Longrightarrow> stored_bytes (AList.update k block xs) +
     (case map_of xs k of None \<Rightarrow> 0 | Some old \<Rightarrow> length (ib_data old)) = stored_bytes xs + length (ib_data block)"
proof (induction xs)
  case (Cons x xs)
  then show ?case
    by (cases x) (auto simp: stored_bytes_def map_of_eq_None_iff [THEN iffD2] image_iff split: option.splits)
qed (simp add: stored_bytes_def)

lemma stored_bytes_delete:
  "distinct (map fst xs) \<Longrightarrow> map_of xs k = Some old \<Longrightarrow>
   stored_bytes (AList.delete k xs) + length (ib_data old) = stored_bytes xs"
proof (induction xs)
  case (Cons x xs)
  then show ?case
    by (cases x) (auto simp: stored_bytes_def split: if_splits)
qed simp


lemma memory_backend_simps [simp]:
  "be_writeBlock (memory_backend crc) = mb_writeBlock crc" "be_readBlock (memory_backend crc) = mb_readBlock crc"
  "be_readSpan (memory_backend crc) = mb_readSpan" "be_deleteBlock (memory_backend crc) = mb_deleteBlock"
  "be_hasBlock (memory_backend crc) = mb_hasBlock" "be_stats (memory_backend crc) = mb_getStats"
  "be_sync (memory_backend crc) = mb_sync" "be_clear (memory_backend crc) = mb_clear"
  by (simp_all add: memory_backend_def)

lemma set_alist_update: "set (AList.update k v al) \<subseteq> insert (k, v) (set al)"
  by (induction al) auto

lemma set_alist_delete: "set (AList.delete k al) = {(k', v) \<in> set al. k' \<noteq> k}"
  by (auto simp: AList.delete_eq)

lemma mb_inv_at:
  "mb_inv crc limit m \<Longrightarrow> map_of (mb_blocks m) k = Some block \<Longrightarrow>
   ib_checksum block = crc (ib_data block) \<and> small_block limit (ib_data block)"
  by (auto simp: mb_inv_def dest: map_of_SomeD)

lemma mb_new_size:
  fixes k :: u64
  assumes "mb_inv crc limit m" "small_block limit d"
  defines "old \<equiv> (case map_of (mb_blocks m) k of None \<Rightarrow> 0 | Some block \<Rightarrow> length (ib_data block))"
  shows "mb_currentBytes m + size64 (length d) - size64 old =
      size64 (stored_bytes (AList.update k \<lparr>ib_data = d, ib_checksum = c\<rparr> (mb_blocks m)))"
    and "stored_bytes (AList.update k \<lparr>ib_data = d, ib_checksum = c\<rparr> (mb_blocks m)) < 2 ^ 64"
proof -
  let ?new = "stored_bytes (AList.update k \<lparr>ib_data = d, ib_checksum = c\<rparr> (mb_blocks m))"
  have sum: "?new + old = stored_bytes (mb_blocks m) + length d"
    using assms(1) stored_bytes_update [of "mb_blocks m" k "\<lparr>ib_data = d, ib_checksum = c\<rparr>"] by (simp add: mb_inv_def old_def)
  then have "size64 ?new + size64 old = mb_currentBytes m + size64 (length d)"
    using assms(1) by (simp add: mb_inv_def size64_def flip: of_nat_add)
  then show "mb_currentBytes m + size64 (length d) - size64 old = size64 ?new"
    by (simp add: algebra_simps)
  show "?new < 2 ^ 64"
    using sum assms(1,2) by (simp add: mb_inv_def small_block_def)
qed

lemma mb_writeBlock_ok:
  assumes "mb_inv crc limit m" "small_block limit d"
  shows "\<exists>e m'. mb_writeBlock crc m k d = Inr (e, m') \<and> mb_inv crc limit m' \<and>
    mb_content m' = (if e = SE_Success then (mb_content m)(k \<mapsto> d) else mb_content m)"
proof -
  let ?blocks = "AList.update k \<lparr>ib_data = d, ib_checksum = crc d\<rparr> (mb_blocks m)"
  have old: "(case map_of (mb_blocks m) k of None \<Rightarrow> 0 | Some block \<Rightarrow> size64 (length (ib_data block))) =
      size64 (case map_of (mb_blocks m) k of None \<Rightarrow> 0 | Some block \<Rightarrow> length (ib_data block))"
    by (simp add: size64_def split: option.split)
  note new = mb_new_size [OF assms, of k "crc d"]
  show ?thesis
  proof (cases "size64 (stored_bytes ?blocks) > mb_maxCapacityBytes m")
    case False
    then have "stored_bytes ?blocks \<le> unat (mb_maxCapacityBytes m)"
      using new(2) by (simp add: not_less word_le_nat_alt)
    then show ?thesis
      using assms False new
      by (auto simp: mb_writeBlock_def old mb_inv_def Let_def mb_content_def fun_eq_iff update_conv'
          intro!: distinct_update dest!: set_alist_update [THEN subsetD])
  qed (use assms(1) new in \<open>simp add: mb_writeBlock_def old\<close>)
qed


lemma mb_readBlock_ok:
  assumes "mb_inv crc limit m"
  shows "\<exists>m'. mb_readBlock crc m k = Inr (case mb_content m k of None \<Rightarrow> Inl SE_NotFound | Some d \<Rightarrow> Inr d, m') \<and>
    mb_inv crc limit m' \<and> mb_content m' = mb_content m"
proof (cases "map_of (mb_blocks m) k")
  case None
  then show ?thesis using assms by (simp add: mb_readBlock_def mb_content_def)
next
  case (Some block)
  then show ?thesis
    using assms mb_inv_at [OF assms Some]
    by (simp add: mb_readBlock_def mb_content_def mb_count_read_def mb_inv_def fun_eq_iff)
qed

lemma mb_deleteBlock_ok:
  assumes "mb_inv crc limit m"
  shows "\<exists>m'. mb_deleteBlock m k = Inr (if mb_content m k = None then SE_NotFound else SE_Success, m') \<and>
    mb_inv crc limit m' \<and> mb_content m' = (mb_content m)(k := None)"
proof (cases "map_of (mb_blocks m) k")
  case None
  then show ?thesis using assms by (auto simp: mb_deleteBlock_def mb_content_def fun_eq_iff)
next
  case (Some block)
  let ?blocks = "AList.delete k (mb_blocks m)"
  have "stored_bytes ?blocks + length (ib_data block) = stored_bytes (mb_blocks m)"
    using assms Some by (simp add: mb_inv_def stored_bytes_delete)
  then have "size64 (stored_bytes ?blocks) = mb_currentBytes m - size64 (length (ib_data block))" "stored_bytes ?blocks < 2 ^ 63"
    using assms by (simp_all add: mb_inv_def size64_def eq_diff_eq flip: of_nat_add)
  then show ?thesis
    using assms Some
    by (auto simp: mb_deleteBlock_def mb_content_def mb_inv_def Let_def fun_eq_iff delete_conv' set_alist_delete
        intro!: distinct_delete)
qed

lemma mb_readSpan_ok:
  assumes "mb_inv crc limit m" "unat off + unat len < 2 ^ 64"
  shows "\<exists>r m'. mb_readSpan m k off len = Inr (r, m') \<and> mb_inv crc limit m' \<and> mb_content m' = mb_content m \<and>
    (\<forall>d. r = Inr d \<longrightarrow> (\<exists>d'. mb_content m k = Some d' \<and> d = take (unat len) (drop (unat off) d')))"
proof (cases "map_of (mb_blocks m) k")
  case None
  then show ?thesis using assms by (simp add: mb_readSpan_def)
next
  case (Some block)
  have "length (ib_data block) < 2 ^ 64" "unat (off + len) = unat off + unat len"
    using mb_inv_at [OF assms(1) Some] assms(2) by (simp_all add: small_block_def unat_word_ariths)
  then have "off + len \<le> size64 (length (ib_data block)) \<Longrightarrow> unat off \<le> length (ib_data block)"
    by (simp add: word_le_nat_alt)
  with Some show ?thesis
    using assms(1)
    by (auto simp: mb_readSpan_def mb_content_def mb_count_read_def mb_inv_def fun_eq_iff not_less)
qed

interpretation memory: reliable_backend "memory_backend crc" "mb_inv crc limit" mb_content "small_block limit"
proof
  fix s :: MemoryStorageBackend and k :: u64 and d :: "byte list"
  assume inv: "mb_inv crc limit s"
  show "\<exists>r s'. be_readBlock (memory_backend crc) s k = Inr (r, s') \<and> mb_inv crc limit s' \<and> mb_content s' = mb_content s \<and>
      r \<noteq> Inl SE_Success \<and> (\<forall>d. r = Inr d \<longrightarrow> mb_content s k = Some d)"
    using mb_readBlock_ok [OF inv, of k] by (auto split: option.splits)
  show "\<exists>e s'. be_deleteBlock (memory_backend crc) s k = Inr (e, s') \<and> mb_inv crc limit s' \<and>
      mb_content s' = (if e = SE_Success then (mb_content s)(k := None) else mb_content s)"
    using mb_deleteBlock_ok [OF inv, of k] by (auto simp: fun_eq_iff)
  show "be_hasBlock (memory_backend crc) s k \<longleftrightarrow> mb_content s k \<noteq> None"
    by (simp add: mb_content_def mb_hasBlock_def)
  show "\<exists>r s'. be_readSpan (memory_backend crc) s k off len = Inr (r, s') \<and> mb_inv crc limit s' \<and> mb_content s' = mb_content s \<and>
      (\<forall>d. r = Inr d \<longrightarrow> (\<exists>d'. mb_content s k = Some d' \<and> d = take (unat len) (drop (unat off) d')))"
    if "unat off + unat len < 2 ^ 64" for off len :: u64
    using mb_readSpan_ok [OF inv that] by simp
  show "mb_content s k = Some d \<Longrightarrow> small_block limit d"
    using mb_inv_at [OF inv] by (auto simp: mb_content_def)
  show "mb_content s k = Some d \<Longrightarrow> \<exists>s'. be_readBlock (memory_backend crc) s k = Inr (Inr d, s')"
    using mb_readBlock_ok [OF inv, of k] by auto
  show "mb_content s k \<noteq> None \<Longrightarrow> \<exists>s'. be_deleteBlock (memory_backend crc) s k = Inr (SE_Success, s')"
    using mb_deleteBlock_ok [OF inv, of k] by auto
  show "mb_content (be_clear (memory_backend crc) s) = Map.empty"
    by (auto simp: mb_clear_def mb_content_def)
  show "mb_inv crc limit (be_clear (memory_backend crc) s) \<and> mb_content (be_clear (memory_backend crc) s) \<subseteq>\<^sub>m mb_content s"
    using inv by (auto simp: mb_clear_def mb_inv_def mb_content_def stored_bytes_def size64_def map_le_def)
qed (use mb_writeBlock_ok in auto)


text \<open>A write that succeeds keeps the store within its capacity.\<close>

theorem memory_capacity:
  assumes "mb_inv crc limit m" "small_block limit d" "mb_writeBlock crc m k d = Inr (SE_Success, m')"
  shows "stored_bytes (mb_blocks m') \<le> unat (mb_maxCapacityBytes m) \<and>
    ss_totalBytes (mb_getStats m') = size64 (stored_bytes (mb_blocks m'))"
proof -
  have old: "(case map_of (mb_blocks m) k of None \<Rightarrow> 0 | Some block \<Rightarrow> size64 (length (ib_data block))) =
      size64 (case map_of (mb_blocks m) k of None \<Rightarrow> 0 | Some block \<Rightarrow> length (ib_data block))"
    by (simp add: size64_def split: option.split)
  show ?thesis
    using mb_new_size [OF assms(1,2), of k "crc d"] assms(3)
    by (auto simp: mb_writeBlock_def old Let_def mb_getStats_def word_le_nat_alt not_less split: if_split_asm)
qed

theorem memory_capacity_witness:
  "stored_bytes (mb_blocks \<lparr>mb_maxCapacityBytes = 4, mb_currentBytes = 3, mb_blocks = [(1, \<lparr>ib_data = [5, 6, 7], ib_checksum = 0\<rparr>)],
     mb_stats = \<lparr>ss_totalBlocks = 1, ss_totalBytes = 3, ss_capacityBytes = 4, ss_readOps = 0, ss_writeOps = 1, ss_deleteOps = 0\<rparr>\<rparr>) \<le> 4"
  using memory_capacity [of "\<lambda>_. 0" 9 "newMemoryStorageBackend 4" "[5, 6, 7]" 1]
  by (simp add: newMemoryStorageBackend_def mb_inv_def stored_bytes_def small_block_def size64_def mb_writeBlock_def
      newStorageStats_def Let_def)

text \<open>Reading a part of a block is undefined exactly when the offset is behind the data and the sum of offset and length
  wraps to something that is not.\<close>

theorem memory_span_undefined_iff:
  "mb_readSpan m k off len = Inl e \<longleftrightarrow>
     e = Undefined_behaviour \<and>
     (\<exists>block. map_of (mb_blocks m) k = Some block \<and> length (ib_data block) < unat off \<and> off + len \<le> size64 (length (ib_data block)))"
  by (auto simp: mb_readSpan_def not_less split: option.split)

end
