(* ===== verification/File_Storage.thy ===== *)
theory File_Storage
  imports Storage_Backend "HOL-Library.Sublist"
begin

text \<open>
  \<^verbatim>\<open>storage/backend/FileStorageBackend\<close>: a block store with one file for every block.

  The file system is an association list of the paths of the regular files under the root directory
  and their content.  Every call of the operating system in an operation may fail.  Which of them do is
  \<open>io n\<close> for the \<open>n\<close>-th operation of the object: a record with one field for every place of
  the code that calls the system, as a function of the path, so a call on a path may succeed in one
  operation and fail in the next.  A write may stop after some bytes.
\<close>

record io_calls =
  io_mkdir :: "string \<Rightarrow> bool"              \<comment> \<open>\<^verbatim>\<open>create_directories\<close> succeeds\<close>
  io_openWrite :: "string \<Rightarrow> bool"
  io_written :: "string \<Rightarrow> nat option"      \<comment> \<open>\<open>None\<close>: all bytes reach the disk\<close>
  io_exists :: "string \<Rightarrow> bool"             \<comment> \<open>\<^verbatim>\<open>exists\<close> is false when the query fails\<close>
  io_hasBlock :: "string \<Rightarrow> bool"           \<comment> \<open>the query of \<^verbatim>\<open>hasBlock\<close>\<close>
  io_fileSize :: "string \<Rightarrow> bool"
  io_rename :: "string \<Rightarrow> bool"
  io_openRead :: "string \<Rightarrow> bool"
  io_readHeader :: "string \<Rightarrow> bool"
  io_readData :: "string \<Rightarrow> bool"
  io_remove :: "string \<Rightarrow> bool"

definition no_faults :: "nat \<Rightarrow> io_calls" where
  "no_faults _ = \<lparr>io_mkdir = \<lambda>_. True, io_openWrite = \<lambda>_. True, io_written = \<lambda>_. None, io_exists = \<lambda>_. True,
     io_hasBlock = \<lambda>_. True, io_fileSize = \<lambda>_. True, io_rename = \<lambda>_. True, io_openRead = \<lambda>_. True,
     io_readHeader = \<lambda>_. True, io_readData = \<lambda>_. True, io_remove = \<lambda>_. True\<rparr>"

section \<open>Names\<close>

text \<open>The paths are those of POSIX: the root directory, the bucket in hexadecimal, the number of the block.
  \<open>fb_calls\<close> counts the operations that have been run; it is no field of the class.\<close>

record FileStorageBackend =
  fb_rootDirectory :: string
  fb_maxCapacityBytes :: u64
  fb_currentBytes :: u64
  fb_blockCount :: u64
  fb_stats :: StorageStats
  fb_files :: "(string \<times> byte list) list"
  fb_calls :: nat

definition bucket_path :: "string \<Rightarrow> u64 \<Rightarrow> string" where
  "bucket_path root blockId = root @ ''/'' @ hex_byte (word_of_nat (unat blockId mod 256))"

definition getBlockPath :: "string \<Rightarrow> u64 \<Rightarrow> string" where
  "getBlockPath root blockId = bucket_path root blockId @ ''/'' @ to_string (unat blockId) @ ''.blk''"

lemma getBlockPath_inject [simp]: "getBlockPath root k = getBlockPath root k' \<longleftrightarrow> k = k'"
  by (auto simp: getBlockPath_def bucket_path_def hex_byte_def word_unat_eq_iff dest!: to_string_inject)

lemma temp_not_block [simp]: "getBlockPath root k @ ''.tmp'' \<noteq> getBlockPath root k'"
  by (rule notI, drule arg_cong [where f = last]) (simp add: getBlockPath_def)

section \<open>The format on disk\<close>

definition kBlockMagic :: u32 where
  "kBlockMagic = 0x4E424C4B"

record DiskBlockHeader =
  dh_magic :: u32
  dh_checksum :: u32
  dh_dataSize :: u64

definition diskHeaderSize :: nat where
  "diskHeaderSize = 16"

definition disk_header_bytes :: "DiskBlockHeader \<Rightarrow> byte list" where
  "disk_header_bytes h = to_le 4 (dh_magic h) @ to_le 4 (dh_checksum h) @ to_le 8 (dh_dataSize h)"

definition disk_header_of :: "byte list \<Rightarrow> DiskBlockHeader" where
  "disk_header_of bytes = \<lparr>dh_magic = field bytes 0 4, dh_checksum = field bytes 4 4, dh_dataSize = field bytes 8 8\<rparr>"

lemma length_disk_header [simp]: "length (disk_header_bytes h) = diskHeaderSize"
  by (simp add: disk_header_bytes_def diskHeaderSize_def)

lemma disk_header_of_bytes [simp]: "disk_header_of (disk_header_bytes h @ rest) = h"
  by (simp add: disk_header_of_def disk_header_bytes_def field_def)

definition disk_block :: "(byte list \<Rightarrow> u32) \<Rightarrow> byte list \<Rightarrow> byte list" where
  "disk_block crc data =
     disk_header_bytes \<lparr>dh_magic = kBlockMagic, dh_checksum = crc data, dh_dataSize = size64 (length data)\<rparr> @ data"

section \<open>Operations\<close>

text \<open>\<^verbatim>\<open>path.extension() == ".blk"\<close>\<close>

definition file_name_of :: "string \<Rightarrow> string" where
  "file_name_of path = rev (takeWhile (\<lambda>c. c \<noteq> CHR ''/'') (rev path))"

definition is_block_file :: "string \<Rightarrow> bool" where
  "is_block_file path \<longleftrightarrow> suffix ''.blk'' (file_name_of path) \<and> file_name_of path \<noteq> ''.blk''"

text \<open>The constructor counts the blocks already there; the directory is taken to be readable.\<close>

definition newFileStorageBackend :: "string \<Rightarrow> u64 \<Rightarrow> (string \<times> byte list) list \<Rightarrow> FileStorageBackend" where
  "newFileStorageBackend rootDirectory maxCapacityBytes existing =
     (let blocks = filter (\<lambda>(path, bytes). is_block_file path) existing in
      \<lparr>fb_rootDirectory = rootDirectory, fb_maxCapacityBytes = maxCapacityBytes,
       fb_currentBytes = sum_list (map (\<lambda>(path, bytes). size64 (length bytes)) blocks),
       fb_blockCount = size64 (length blocks), fb_stats = newStorageStats\<lparr>ss_capacityBytes := maxCapacityBytes\<rparr>,
       fb_files = existing, fb_calls = 0\<rparr>)"

definition remove_file :: "io_calls \<Rightarrow> string \<Rightarrow> (string \<times> byte list) list \<Rightarrow> (string \<times> byte list) list" where
  "remove_file io path files = (if io_remove io path then AList.delete path files else files)"

text \<open>\<^verbatim>\<open>file_size\<close> returns the largest number when the query fails; the error code is not looked at.\<close>

definition file_size_of :: "io_calls \<Rightarrow> string \<Rightarrow> byte list \<Rightarrow> u64" where
  "file_size_of io path bytes = (if io_fileSize io path then size64 (length bytes) else - 1)"

text \<open>The failures of the current operation, and the next one.\<close>

definition next_call :: "FileStorageBackend \<Rightarrow> FileStorageBackend" where
  "next_call f = f\<lparr>fb_calls := fb_calls f + 1\<rparr>"

definition fb_writeBlock :: "(byte list \<Rightarrow> u32) \<Rightarrow> (nat \<Rightarrow> io_calls) \<Rightarrow> FileStorageBackend \<Rightarrow> u64 \<Rightarrow> byte list \<Rightarrow>
    (StorageError \<times> FileStorageBackend) cpp" where
  "fb_writeBlock crc ios f blockId data =
     (let io = ios (fb_calls f); f = next_call f; totalNewBytes = size64 diskHeaderSize + size64 (length data) in
      if fb_currentBytes f + totalNewBytes > fb_maxCapacityBytes f then Inr (SE_CapacityExceeded, f)
      else
        let targetPath = getBlockPath (fb_rootDirectory f) blockId in
        if \<not> io_mkdir io (bucket_path (fb_rootDirectory f) blockId) then Inr (SE_IOError, f)
        else
          let tempPath = targetPath @ ''.tmp'' in
          if \<not> io_openWrite io tempPath then Inr (SE_IOError, f)
          else
            let bytes = disk_block crc data in
            case io_written io tempPath of
              Some n \<Rightarrow>
                Inr (SE_IOError, f\<lparr>fb_files := remove_file io tempPath (AList.update tempPath (take n bytes) (fb_files f))\<rparr>)
            | None \<Rightarrow>
                let f = f\<lparr>fb_files := AList.update tempPath bytes (fb_files f)\<rparr>;
                    existed = io_exists io targetPath \<and> map_of (fb_files f) targetPath \<noteq> None;
                    oldSize = (if existed then file_size_of io targetPath (the (map_of (fb_files f) targetPath)) else 0) in
                if \<not> io_rename io targetPath then Inr (SE_IOError, f\<lparr>fb_files := remove_file io tempPath (fb_files f)\<rparr>)
                else
                  let f = f\<lparr>fb_files := AList.update targetPath bytes (AList.delete tempPath (fb_files f)),
                        fb_blockCount := (if existed then fb_blockCount f else fb_blockCount f + 1),
                        fb_currentBytes := fb_currentBytes f + totalNewBytes - oldSize\<rparr>
                  in Inr (SE_Success, f\<lparr>fb_stats := (fb_stats f)\<lparr>ss_writeOps := ss_writeOps (fb_stats f) + 1,
                       ss_totalBlocks := fb_blockCount f, ss_totalBytes := fb_currentBytes f\<rparr>\<rparr>))"

definition fb_count_read :: "FileStorageBackend \<Rightarrow> FileStorageBackend" where
  "fb_count_read f = f\<lparr>fb_stats := (fb_stats f)\<lparr>ss_readOps := ss_readOps (fb_stats f) + 1\<rparr>\<rparr>"

text \<open>Opening a block and reading its header.\<close>

definition read_disk_header :: "io_calls \<Rightarrow> FileStorageBackend \<Rightarrow> u64 \<Rightarrow> (byte list \<times> DiskBlockHeader) StorageResult" where
  "read_disk_header io f blockId =
     (let path = getBlockPath (fb_rootDirectory f) blockId in
      case map_of (fb_files f) path of
        None \<Rightarrow> Inl SE_NotFound
      | Some bytes \<Rightarrow>
          if \<not> io_exists io path then Inl SE_NotFound
          else if \<not> io_openRead io path then Inl SE_IOError
          else if \<not> io_readHeader io path \<or> length bytes < diskHeaderSize \<or> dh_magic (disk_header_of bytes) \<noteq> kBlockMagic
          then Inl SE_CorruptBlock
          else Inr (bytes, disk_header_of bytes))"

definition fb_readBlock :: "(byte list \<Rightarrow> u32) \<Rightarrow> nat \<Rightarrow> (nat \<Rightarrow> io_calls) \<Rightarrow> FileStorageBackend \<Rightarrow> u64 \<Rightarrow>
    (byte list StorageResult \<times> FileStorageBackend) cpp" where
  "fb_readBlock crc limit ios f blockId =
     (let io = ios (fb_calls f); f = next_call f in
      case read_disk_header io f blockId of
        Inl err \<Rightarrow> Inr (Inl err, f)
      | Inr (bytes, header) \<Rightarrow>
          if unat (dh_dataSize header) > limit then Inl Alloc_failure
          else if dh_dataSize header > 0 \<and> (\<not> io_readData io (getBlockPath (fb_rootDirectory f) blockId) \<or>
            length bytes < diskHeaderSize + unat (dh_dataSize header)) then Inr (Inl SE_CorruptBlock, f)
          else
            let buffer = take (unat (dh_dataSize header)) (drop diskHeaderSize bytes) in
            if crc buffer \<noteq> dh_checksum header then Inr (Inl SE_CorruptBlock, f)
            else Inr (Inr buffer, fb_count_read f))"

text \<open>The sum of the guard wraps, and so does the position: an offset close to \<open>2 ^ 64\<close> leads into the header.
  Seeking to a position that is negative as a \<^verbatim>\<open>streamoff\<close> fails, seeking beyond the end does not.\<close>

definition fb_readSpan :: "nat \<Rightarrow> (nat \<Rightarrow> io_calls) \<Rightarrow> FileStorageBackend \<Rightarrow> u64 \<Rightarrow> u64 \<Rightarrow> u64 \<Rightarrow>
    (byte list StorageResult \<times> FileStorageBackend) cpp" where
  "fb_readSpan limit ios f blockId off len =
     (let io = ios (fb_calls f); f = next_call f in
      case read_disk_header io f blockId of
        Inl err \<Rightarrow> Inr (Inl err, f)
      | Inr (bytes, header) \<Rightarrow>
          if off + len > dh_dataSize header then Inr (Inl SE_InvalidOffset, f)
          else
            let pos = size64 diskHeaderSize + off in
            if sint pos < 0 then Inr (Inl SE_IOError, f)
            else if unat len > limit then Inl Alloc_failure
            else if len > 0 \<and> (\<not> io_readData io (getBlockPath (fb_rootDirectory f) blockId) \<or> length bytes < unat pos + unat len)
            then Inr (Inl SE_IOError, f)
            else Inr (Inr (take (unat len) (drop (unat pos) bytes)), fb_count_read f))"

definition fb_deleteBlock :: "(nat \<Rightarrow> io_calls) \<Rightarrow> FileStorageBackend \<Rightarrow> u64 \<Rightarrow> (StorageError \<times> FileStorageBackend) cpp" where
  "fb_deleteBlock ios f blockId =
     (let io = ios (fb_calls f); f = next_call f; path = getBlockPath (fb_rootDirectory f) blockId in
      Inr (case map_of (fb_files f) path of
        None \<Rightarrow> (SE_NotFound, f)
      | Some bytes \<Rightarrow>
          let sz = file_size_of io path bytes in
          if \<not> io_exists io path then (SE_NotFound, f)
          else if \<not> io_remove io path then (SE_IOError, f)
          else
            let f = f\<lparr>fb_files := AList.delete path (fb_files f),
                  fb_blockCount := (if fb_blockCount f > 0 then fb_blockCount f - 1 else fb_blockCount f),
                  fb_currentBytes := (if fb_currentBytes f \<ge> sz then fb_currentBytes f - sz else 0)\<rparr>
            in (SE_Success, f\<lparr>fb_stats := (fb_stats f)\<lparr>ss_deleteOps := ss_deleteOps (fb_stats f) + 1,
                 ss_totalBlocks := fb_blockCount f, ss_totalBytes := fb_currentBytes f\<rparr>\<rparr>)))"

definition fb_hasBlock :: "(nat \<Rightarrow> io_calls) \<Rightarrow> FileStorageBackend \<Rightarrow> u64 \<Rightarrow> bool" where
  "fb_hasBlock ios f blockId \<longleftrightarrow> io_hasBlock (ios (fb_calls f)) (getBlockPath (fb_rootDirectory f) blockId) \<and>
     map_of (fb_files f) (getBlockPath (fb_rootDirectory f) blockId) \<noteq> None"

definition fb_getStats :: "FileStorageBackend \<Rightarrow> StorageStats" where
  "fb_getStats f = (fb_stats f)\<lparr>ss_totalBlocks := fb_blockCount f, ss_totalBytes := fb_currentBytes f,
     ss_capacityBytes := fb_maxCapacityBytes f\<rparr>"

definition fb_sync :: "FileStorageBackend \<Rightarrow> StorageError" where
  "fb_sync f = SE_Success"

text \<open>\<^verbatim>\<open>remove_all\<close> reports no error here: any of the files may remain.\<close>

definition fb_clear :: "(nat \<Rightarrow> io_calls) \<Rightarrow> FileStorageBackend \<Rightarrow> FileStorageBackend" where
  "fb_clear ios f = (next_call f)\<lparr>fb_files := filter (\<lambda>(path, bytes). \<not> io_remove (ios (fb_calls f)) path) (fb_files f), fb_blockCount := 0, fb_currentBytes := 0,
     fb_stats := (fb_stats f)\<lparr>ss_totalBlocks := 0, ss_totalBytes := 0\<rparr>\<rparr>"

definition file_backend :: "(byte list \<Rightarrow> u32) \<Rightarrow> nat \<Rightarrow> (nat \<Rightarrow> io_calls) \<Rightarrow> FileStorageBackend IStorageBackend" where
  "file_backend crc limit io =
     \<lparr>be_writeBlock = fb_writeBlock crc io, be_readBlock = fb_readBlock crc limit io, be_readSpan = fb_readSpan limit io,
      be_deleteBlock = fb_deleteBlock io, be_hasBlock = fb_hasBlock io, be_stats = fb_getStats, be_sync = fb_sync,
      be_clear = fb_clear io\<rparr>"

section \<open>The file store keeps its contract\<close>

text \<open>Every file at the path of a block is a complete block.\<close>

definition fb_inv :: "(byte list \<Rightarrow> u32) \<Rightarrow> nat \<Rightarrow> FileStorageBackend \<Rightarrow> bool" where
  "fb_inv crc limit f \<longleftrightarrow>
     (\<forall>k bytes. map_of (fb_files f) (getBlockPath (fb_rootDirectory f) k) = Some bytes \<longrightarrow>
        (\<exists>d. bytes = disk_block crc d \<and> small_block limit d))"

definition fb_content :: "FileStorageBackend \<Rightarrow> u64 \<Rightarrow> byte list option" where
  "fb_content f k = map_option (drop diskHeaderSize) (map_of (fb_files f) (getBlockPath (fb_rootDirectory f) k))"

lemma drop_disk_block [simp]: "drop diskHeaderSize (disk_block crc d) = d"
  by (simp add: disk_block_def)

lemma next_call_simps [simp]:
  "fb_rootDirectory (next_call f) = fb_rootDirectory f" "fb_maxCapacityBytes (next_call f) = fb_maxCapacityBytes f"
  "fb_currentBytes (next_call f) = fb_currentBytes f" "fb_files (next_call f) = fb_files f"
  "fb_stats (next_call f) = fb_stats f" "fb_blockCount (next_call f) = fb_blockCount f"
  "fb_inv crc limit (next_call f) = fb_inv crc limit f" "fb_content (next_call f) = fb_content f"
  "read_disk_header io (next_call f) k = read_disk_header io f k"
  by (simp_all add: next_call_def fb_inv_def fb_content_def fun_eq_iff read_disk_header_def)

lemma fb_count_read_simps [simp]:
  "fb_inv crc limit (fb_count_read f) = fb_inv crc limit f" "fb_content (fb_count_read f) = fb_content f"
  by (simp_all add: fb_count_read_def fb_inv_def fb_content_def fun_eq_iff)

lemma fb_same_files:
  assumes "\<And>k. map_of (fb_files f') (getBlockPath (fb_rootDirectory f) k) = map_of (fb_files f) (getBlockPath (fb_rootDirectory f) k)"
    "fb_rootDirectory f' = fb_rootDirectory f"
  shows "fb_inv crc limit f' = fb_inv crc limit f \<and> fb_content f' = fb_content f"
  using assms by (simp add: fb_inv_def fb_content_def fun_eq_iff)

lemma map_of_remove_file:
  "map_of (remove_file io p files) q = (if io_remove io p \<and> q = p then None else map_of files q)"
  by (auto simp: remove_file_def delete_conv')

lemma fb_writeBlock_ok:
  assumes "fb_inv crc limit f" "small_block limit d"
  shows "\<exists>e f'. fb_writeBlock crc io f k d = Inr (e, f') \<and> fb_inv crc limit f' \<and>
    fb_content f' = (if e = SE_Success then (fb_content f)(k \<mapsto> d) else fb_content f)"
proof -
  let ?p = "getBlockPath (fb_rootDirectory f)"
  have ne: "?p k' \<noteq> ?p k @ ''.tmp''" for k'
    using temp_not_block by metis
  obtain e f' where w: "fb_writeBlock crc io f k d = Inr (e, f')"
    by (cases "fb_writeBlock crc io f k d") (auto simp: fb_writeBlock_def Let_def split: option.splits if_splits)
  show ?thesis
  proof (cases "e = SE_Success")
    case True
    then have "\<And>k'. map_of (fb_files f') (?p k') = (if k' = k then Some (disk_block crc d) else map_of (fb_files f) (?p k'))"
        "fb_rootDirectory f' = fb_rootDirectory f"
      using w ne by (auto simp: fb_writeBlock_def Let_def update_conv' delete_conv' split: option.splits if_splits)
    with w True assms show ?thesis
      by (auto simp: fb_inv_def fb_content_def fun_eq_iff)
  next
    case False
    then have "\<And>k'. map_of (fb_files f') (?p k') = map_of (fb_files f) (?p k')" "fb_rootDirectory f' = fb_rootDirectory f"
      using w ne
      by (auto simp: fb_writeBlock_def Let_def update_conv' delete_conv' map_of_remove_file split: option.splits if_splits)
    with fb_same_files [of f' f] w False assms show ?thesis by simp
  qed
qed


lemma fb_stored:
  "fb_inv crc limit f \<Longrightarrow> fb_content f k = Some d \<Longrightarrow>
   map_of (fb_files f) (getBlockPath (fb_rootDirectory f) k) = Some (disk_block crc d) \<and> small_block limit d"
  by (fastforce simp: fb_content_def fb_inv_def)

lemma unat_stored: "small_block limit d \<Longrightarrow> unat (size64 (length d)) = length d"
  by (simp add: small_block_def)

lemma read_disk_header_ok:
  assumes "fb_inv crc limit f" "read_disk_header io f k = Inr (bytes, h)"
  obtains d where "fb_content f k = Some d" "small_block limit d" "bytes = disk_block crc d"
    "h = \<lparr>dh_magic = kBlockMagic, dh_checksum = crc d, dh_dataSize = size64 (length d)\<rparr>"
proof -
  have "map_of (fb_files f) (getBlockPath (fb_rootDirectory f) k) = Some bytes" and h: "h = disk_header_of bytes"
    using assms(2) by (simp_all add: read_disk_header_def Let_def split: option.splits if_splits)
  moreover from this obtain d where d: "bytes = disk_block crc d" "small_block limit d"
    using assms(1) by (auto simp: fb_inv_def)
  ultimately show thesis
    using that [of d] by (simp add: fb_content_def) (simp add: disk_block_def)
qed

text \<open>A read finds the data of the block or reports an error, and a part that is read is a part of the data.\<close>

lemma fb_readBlock_ok:
  assumes "fb_inv crc limit f"
  shows "\<exists>r f'. fb_readBlock crc limit ios f k = Inr (r, f') \<and> fb_inv crc limit f' \<and> fb_content f' = fb_content f \<and>
    r \<noteq> Inl SE_Success \<and> (\<forall>d. r = Inr d \<longrightarrow> fb_content f k = Some d)"
proof (cases "read_disk_header (ios (fb_calls f)) f k")
  case (Inl e)
  then have "e \<noteq> SE_Success"
    by (auto simp: read_disk_header_def Let_def split: option.splits if_splits)
  with Inl assms show ?thesis by (simp add: fb_readBlock_def)
next
  case (Inr x)
  obtain bytes h where x: "x = (bytes, h)" by fastforce
  obtain d where d: "fb_content f k = Some d" "small_block limit d" "bytes = disk_block crc d"
      "h = \<lparr>dh_magic = kBlockMagic, dh_checksum = crc d, dh_dataSize = size64 (length d)\<rparr>"
    using read_disk_header_ok [OF assms Inr [unfolded x]] .
  have "\<not> length d > limit" using d(2) by (simp add: small_block_def)
  with Inr x d unat_stored [OF d(2)] assms show ?thesis
    by (auto simp: fb_readBlock_def Let_def)
qed

lemma fb_readSpan_ok:
  assumes "fb_inv crc limit f" "unat off + unat len < 2 ^ 64"
  shows "\<exists>r f'. fb_readSpan limit ios f k off len = Inr (r, f') \<and> fb_inv crc limit f' \<and> fb_content f' = fb_content f \<and>
    (\<forall>d. r = Inr d \<longrightarrow> (\<exists>d'. fb_content f k = Some d' \<and> d = take (unat len) (drop (unat off) d')))"
proof (cases "read_disk_header (ios (fb_calls f)) f k")
  case (Inl e)
  with assms show ?thesis by (simp add: fb_readSpan_def)
next
  case (Inr x)
  obtain bytes h where x: "x = (bytes, h)" by fastforce
  obtain d where d: "fb_content f k = Some d" "small_block limit d" "bytes = disk_block crc d"
      "h = \<lparr>dh_magic = kBlockMagic, dh_checksum = crc d, dh_dataSize = size64 (length d)\<rparr>"
    using read_disk_header_ok [OF assms(1) Inr [unfolded x]] .
  show ?thesis
  proof (cases "off + len > size64 (length d)")
    case True
    with Inr x d assms(1) show ?thesis by (simp add: fb_readSpan_def)
  next
    case False
    have "unat (off + len) = unat off + unat len"
      using assms(2) by (simp add: unat_word_ariths)
    then have le: "unat off + unat len \<le> length d"
      using False unat_stored [OF d(2)] by (simp add: not_less word_le_nat_alt)
    moreover have "length d < 2 ^ 62" "length d \<le> limit" using d(2) by (simp_all add: small_block_def)
    ultimately have "unat (size64 diskHeaderSize + off) = diskHeaderSize + unat off"
      by (simp add: unat_word_ariths diskHeaderSize_def size64_def)
    then have "drop (unat (size64 diskHeaderSize + off)) bytes = drop (unat off) d" "unat len \<le> limit"
      using d(3) le \<open>length d \<le> limit\<close> by (simp_all add: disk_block_def)
    with Inr x d assms(1) False show ?thesis
      by (auto simp: fb_readSpan_def Let_def)
  qed
qed

lemma fb_deleteBlock_ok:
  assumes "fb_inv crc limit f"
  shows "\<exists>e f'. fb_deleteBlock io f k = Inr (e, f') \<and> fb_inv crc limit f' \<and>
    fb_content f' = (if e = SE_Success then (fb_content f)(k := None) else fb_content f) \<and>
    (e = SE_Success \<longleftrightarrow> fb_content f k \<noteq> None \<and> io_exists (io (fb_calls f)) (getBlockPath (fb_rootDirectory f) k) \<and>
       io_remove (io (fb_calls f)) (getBlockPath (fb_rootDirectory f) k))"
  using assms
  by (cases "map_of (fb_files f) (getBlockPath (fb_rootDirectory f) k)")
    (auto simp: fb_deleteBlock_def Let_def fb_inv_def fb_content_def fun_eq_iff delete_conv')

lemma map_of_filter_key: "map_of (filter (\<lambda>(k, v). P k) xs) k = (if P k then map_of xs k else None)"
  by (induction xs) auto

lemma fb_clear_ok:
  assumes "fb_inv crc limit f"
  shows "fb_inv crc limit (fb_clear ios f) \<and> fb_content (fb_clear ios f) \<subseteq>\<^sub>m fb_content f"
  using assms by (auto simp: fb_clear_def fb_inv_def fb_content_def map_of_filter_key map_le_def split: if_splits)

lemma file_backend_simps [simp]:
  "be_writeBlock (file_backend crc limit io) = fb_writeBlock crc io" "be_readBlock (file_backend crc limit io) = fb_readBlock crc limit io"
  "be_readSpan (file_backend crc limit io) = fb_readSpan limit io" "be_deleteBlock (file_backend crc limit io) = fb_deleteBlock io"
  "be_hasBlock (file_backend crc limit io) = fb_hasBlock io" "be_stats (file_backend crc limit io) = fb_getStats"
  "be_sync (file_backend crc limit io) = fb_sync" "be_clear (file_backend crc limit io) = fb_clear io"
  by (simp_all add: file_backend_def)

interpretation disk: block_backend "file_backend crc limit io" "fb_inv crc limit" fb_content "small_block limit"
proof
  fix s :: FileStorageBackend and k :: u64 and d :: "byte list"
  assume inv: "fb_inv crc limit s"
  show "\<exists>r s'. be_readBlock (file_backend crc limit io) s k = Inr (r, s') \<and> fb_inv crc limit s' \<and> fb_content s' = fb_content s \<and>
      r \<noteq> Inl SE_Success \<and> (\<forall>d. r = Inr d \<longrightarrow> fb_content s k = Some d)"
    using fb_readBlock_ok [OF inv] by simp
  show "\<exists>r s'. be_readSpan (file_backend crc limit io) s k off len = Inr (r, s') \<and> fb_inv crc limit s' \<and> fb_content s' = fb_content s \<and>
      (\<forall>d. r = Inr d \<longrightarrow> (\<exists>d'. fb_content s k = Some d' \<and> d = take (unat len) (drop (unat off) d')))"
    if "unat off + unat len < 2 ^ 64" for off len :: u64
    using fb_readSpan_ok [OF inv that] by simp
  show "fb_inv crc limit (be_clear (file_backend crc limit io) s) \<and> fb_content (be_clear (file_backend crc limit io) s) \<subseteq>\<^sub>m fb_content s"
    using fb_clear_ok [OF inv] by simp
  show "\<exists>e s'. be_deleteBlock (file_backend crc limit io) s k = Inr (e, s') \<and> fb_inv crc limit s' \<and>
      fb_content s' = (if e = SE_Success then (fb_content s)(k := None) else fb_content s)"
    using fb_deleteBlock_ok [OF inv, of io k] by auto
  show "fb_content s k = Some d \<Longrightarrow> small_block limit d"
    using fb_stored [OF inv] by blast
qed (use fb_writeBlock_ok in auto)

text \<open>Where no call of the operating system fails, the store is reliable.\<close>

interpretation reliable_disk: reliable_backend "file_backend crc limit no_faults" "fb_inv crc limit" fb_content "small_block limit"
proof
  fix s :: FileStorageBackend and k :: u64 and d :: "byte list"
  assume inv: "fb_inv crc limit s"
  show "fb_content s k = Some d \<Longrightarrow> \<exists>s'. be_readBlock (file_backend crc limit no_faults) s k = Inr (Inr d, s')"
    using fb_stored [OF inv, of k d] unat_stored [of limit d]
    by (auto simp: fb_readBlock_def read_disk_header_def Let_def no_faults_def disk_block_def small_block_def)
  show "fb_content s k \<noteq> None \<Longrightarrow> \<exists>s'. be_deleteBlock (file_backend crc limit no_faults) s k = Inr (SE_Success, s')"
    using fb_deleteBlock_ok [OF inv, of no_faults k] by (auto simp: no_faults_def)
  show "be_hasBlock (file_backend crc limit no_faults) s k \<longleftrightarrow> fb_content s k \<noteq> None"
    by (simp add: fb_content_def fb_hasBlock_def no_faults_def)
  show "fb_content (be_clear (file_backend crc limit no_faults) s) = Map.empty"
    by (auto simp: fb_clear_def fb_content_def no_faults_def)
qed


text \<open>The offset \<open>2 ^ 64 - 16\<close> passes the guard and leads to the first byte of the header.\<close>

theorem file_span_reads_header:
  "fst (projr (bind_cpp (fb_writeBlock crc no_faults (newFileStorageBackend ''/b'' 1000 []) 1 [7]) (\<lambda>(_, f).
     fb_readSpan 100 no_faults f 1 (- 16) 16))) = Inr (to_le 4 kBlockMagic @ to_le 4 (crc [7]) @ to_le 8 (1 :: u64))"
  by (simp add: fb_writeBlock_def newFileStorageBackend_def no_faults_def diskHeaderSize_def size64_def Let_def
      fb_readSpan_def read_disk_header_def disk_block_def)
    (simp add: disk_header_bytes_def)

end
