(* ===== verification/Tiered_Storage.thy ===== *)
theory Tiered_Storage
  imports File_Storage
begin

text \<open>
  \<^verbatim>\<open>storage/backend/TieredStorageManager\<close>: a store of blocks in two tiers, with the least recently used
  blocks of the hot tier moved to the cold one.  The two tiers are any implementations of
  \<^verbatim>\<open>IStorageBackend\<close>: the operations take their tables of functions, \<open>H\<close> and \<open>C\<close>.
\<close>

datatype TierLevel = HotMemory | ColdDisk

record TieredStorageStats =
  st_hotBlocks :: u64
  st_coldBlocks :: u64
  st_hotBytes :: u64
  st_coldBytes :: u64
  st_migrationsToCold :: u64
  st_migrationsToHot :: u64

definition newTieredStorageStats :: TieredStorageStats where
  "newTieredStorageStats = \<lparr>st_hotBlocks = 0, st_coldBlocks = 0, st_hotBytes = 0, st_coldBytes = 0,
     st_migrationsToCold = 0, st_migrationsToHot = 0\<rparr>"

record ('h, 'c) TieredStorageManager =
  ts_hotTier :: 'h
  ts_coldTier :: 'c
  ts_maxHotBlocks :: nat
  ts_blockTiers :: "u64 \<rightharpoonup> TierLevel"
  ts_hotLruQueue :: "u64 list"
  ts_stats :: TieredStorageStats

definition newTieredStorageManager :: "'h \<Rightarrow> 'c \<Rightarrow> nat \<Rightarrow> ('h, 'c) TieredStorageManager" where
  "newTieredStorageManager hotTier coldTier maxHotBlocks =
     \<lparr>ts_hotTier = hotTier, ts_coldTier = coldTier, ts_maxHotBlocks = maxHotBlocks, ts_blockTiers = Map.empty,
      ts_hotLruQueue = [], ts_stats = newTieredStorageStats\<rparr>"

definition touchHot :: "('h, 'c) TieredStorageManager \<Rightarrow> u64 \<Rightarrow> ('h, 'c) TieredStorageManager" where
  "touchHot t blockId = t\<lparr>ts_hotLruQueue := blockId # remove1 blockId (ts_hotLruQueue t)\<rparr>"

definition demoteBlock :: "'h IStorageBackend \<Rightarrow> 'c IStorageBackend \<Rightarrow> ('h, 'c) TieredStorageManager \<Rightarrow> u64 \<Rightarrow>
    (StorageError \<times> ('h, 'c) TieredStorageManager) cpp" where
  "demoteBlock H C t blockId =
     bind_cpp (be_readBlock H (ts_hotTier t) blockId) (\<lambda>(readRes, hot).
     let t = t\<lparr>ts_hotTier := hot\<rparr> in
     case readRes of
       Inl err \<Rightarrow> Inr (err, t)
     | Inr data \<Rightarrow>
         bind_cpp (be_writeBlock C (ts_coldTier t) blockId data) (\<lambda>(writeErr, cold).
         let t = t\<lparr>ts_coldTier := cold\<rparr> in
         if writeErr \<noteq> SE_Success then Inr (writeErr, t)
         else
           bind_cpp (be_deleteBlock H (ts_hotTier t) blockId) (\<lambda>(_, hot).
           Inr (SE_Success, t\<lparr>ts_hotTier := hot, ts_blockTiers := (ts_blockTiers t)(blockId \<mapsto> ColdDisk),
             ts_hotLruQueue := remove1 blockId (ts_hotLruQueue t),
             ts_stats := (ts_stats t)\<lparr>st_migrationsToCold := st_migrationsToCold (ts_stats t) + 1\<rparr>\<rparr>))))"

lemma demote_queue:
  assumes "demoteBlock H C t k = Inr (e, t')"
  shows "length (ts_hotLruQueue t') \<le> length (ts_hotLruQueue t) \<and> (e \<noteq> SE_Success \<longrightarrow> ts_hotLruQueue t' = ts_hotLruQueue t)"
proof -
  from assms obtain r hot where r: "be_readBlock H (ts_hotTier t) k = Inr (r, hot)"
    by (auto simp: demoteBlock_def bind_cpp_eq_Inr)
  show ?thesis
    using assms r
    by (cases r) (auto simp: demoteBlock_def bind_cpp_eq_Inr Let_def length_remove1 split: if_split_asm)
qed

text \<open>The loop ends: a demotion that succeeds counts down, one that fails drops its victim.\<close>

function spillHotToCold :: "'h IStorageBackend \<Rightarrow> 'c IStorageBackend \<Rightarrow> nat \<Rightarrow> ('h, 'c) TieredStorageManager \<Rightarrow>
    ('h, 'c) TieredStorageManager cpp" where
  "spillHotToCold H C blocksToSpill t =
     (if blocksToSpill > 0 \<and> ts_hotLruQueue t \<noteq> [] then
        let victimId = last (ts_hotLruQueue t) in
        bind_cpp (demoteBlock H C t victimId) (\<lambda>x.
        if fst x = SE_Success then spillHotToCold H C (blocksToSpill - 1) (snd x)
        else spillHotToCold H C blocksToSpill ((snd x)\<lparr>ts_hotLruQueue := butlast (ts_hotLruQueue (snd x)),
          ts_blockTiers := (ts_blockTiers (snd x))(victimId := None)\<rparr>))
      else Inr t)"
  by pat_completeness auto
termination
  by (relation "measure (\<lambda>(H, C, n, t). n + length (ts_hotLruQueue t))") (auto dest!: demote_queue)

declare spillHotToCold.simps [simp del]

text \<open>Every operation first makes room when the queue is full.\<close>

definition make_room :: "'h IStorageBackend \<Rightarrow> 'c IStorageBackend \<Rightarrow> ('h, 'c) TieredStorageManager \<Rightarrow> ('h, 'c) TieredStorageManager cpp" where
  "make_room H C t = (if length (ts_hotLruQueue t) \<ge> ts_maxHotBlocks t then spillHotToCold H C 1 t else Inr t)"

definition promoteBlock :: "'h IStorageBackend \<Rightarrow> 'c IStorageBackend \<Rightarrow> ('h, 'c) TieredStorageManager \<Rightarrow> u64 \<Rightarrow>
    (StorageError \<times> ('h, 'c) TieredStorageManager) cpp" where
  "promoteBlock H C t blockId =
     bind_cpp (be_readBlock C (ts_coldTier t) blockId) (\<lambda>(readRes, cold).
     let t = t\<lparr>ts_coldTier := cold\<rparr> in
     case readRes of
       Inl err \<Rightarrow> Inr (err, t)
     | Inr data \<Rightarrow>
         bind_cpp (make_room H C t) (\<lambda>t.
         bind_cpp (be_writeBlock H (ts_hotTier t) blockId data) (\<lambda>(writeErr, hot).
         let t = t\<lparr>ts_hotTier := hot\<rparr> in
         if writeErr \<noteq> SE_Success then Inr (writeErr, t)
         else
           bind_cpp (be_deleteBlock C (ts_coldTier t) blockId) (\<lambda>(_, cold).
           let t = touchHot (t\<lparr>ts_coldTier := cold, ts_blockTiers := (ts_blockTiers t)(blockId \<mapsto> HotMemory)\<rparr>) blockId
           in Inr (SE_Success, t\<lparr>ts_stats := (ts_stats t)\<lparr>st_migrationsToHot := st_migrationsToHot (ts_stats t) + 1\<rparr>\<rparr>)))))"

definition ts_writeBlock :: "'h IStorageBackend \<Rightarrow> 'c IStorageBackend \<Rightarrow> ('h, 'c) TieredStorageManager \<Rightarrow> u64 \<Rightarrow> byte list \<Rightarrow>
    (StorageError \<times> ('h, 'c) TieredStorageManager) cpp" where
  "ts_writeBlock H C t blockId data =
     bind_cpp (if be_hasBlock C (ts_coldTier t) blockId then be_deleteBlock C (ts_coldTier t) blockId
               else Inr (SE_Success, ts_coldTier t)) (\<lambda>(_, cold).
     bind_cpp (make_room H C (t\<lparr>ts_coldTier := cold\<rparr>)) (\<lambda>t.
     bind_cpp (be_writeBlock H (ts_hotTier t) blockId data) (\<lambda>(err, hot).
     let t = t\<lparr>ts_hotTier := hot\<rparr> in
     Inr (err, if err = SE_Success
               then touchHot (t\<lparr>ts_blockTiers := (ts_blockTiers t)(blockId \<mapsto> HotMemory)\<rparr>) blockId else t))))"

definition ts_readBlock :: "'h IStorageBackend \<Rightarrow> 'c IStorageBackend \<Rightarrow> ('h, 'c) TieredStorageManager \<Rightarrow> u64 \<Rightarrow> bool \<Rightarrow>
    (byte list StorageResult \<times> ('h, 'c) TieredStorageManager) cpp" where
  "ts_readBlock H C t blockId promoteToHot =
     (case ts_blockTiers t blockId of
        None \<Rightarrow> Inr (Inl SE_NotFound, t)
      | Some HotMemory \<Rightarrow>
          bind_cpp (be_readBlock H (ts_hotTier t) blockId) (\<lambda>(res, hot).
          let t = t\<lparr>ts_hotTier := hot\<rparr>
          in Inr (res, case res of Inl _ \<Rightarrow> t | Inr _ \<Rightarrow> touchHot t blockId))
      | Some ColdDisk \<Rightarrow>
          bind_cpp (be_readBlock C (ts_coldTier t) blockId) (\<lambda>(res, cold).
          let t = t\<lparr>ts_coldTier := cold\<rparr> in
          case res of
            Inl err \<Rightarrow> Inr (Inl err, t)
          | Inr data \<Rightarrow>
              if promoteToHot then bind_cpp (promoteBlock H C t blockId) (\<lambda>(_, t). Inr (Inr data, t))
              else Inr (Inr data, t)))"

definition ts_readSpan :: "'h IStorageBackend \<Rightarrow> 'c IStorageBackend \<Rightarrow> ('h, 'c) TieredStorageManager \<Rightarrow> u64 \<Rightarrow> u64 \<Rightarrow> u64 \<Rightarrow>
    (byte list StorageResult \<times> ('h, 'c) TieredStorageManager) cpp" where
  "ts_readSpan H C t blockId off len =
     (case ts_blockTiers t blockId of
        None \<Rightarrow> Inr (Inl SE_NotFound, t)
      | Some HotMemory \<Rightarrow>
          bind_cpp (be_readSpan H (ts_hotTier t) blockId off len) (\<lambda>(res, hot). Inr (res, t\<lparr>ts_hotTier := hot\<rparr>))
      | Some ColdDisk \<Rightarrow>
          bind_cpp (be_readSpan C (ts_coldTier t) blockId off len) (\<lambda>(res, cold). Inr (res, t\<lparr>ts_coldTier := cold\<rparr>)))"

definition ts_deleteBlock :: "'h IStorageBackend \<Rightarrow> 'c IStorageBackend \<Rightarrow> ('h, 'c) TieredStorageManager \<Rightarrow> u64 \<Rightarrow>
    (StorageError \<times> ('h, 'c) TieredStorageManager) cpp" where
  "ts_deleteBlock H C t blockId =
     (case ts_blockTiers t blockId of
        None \<Rightarrow> Inr (SE_NotFound, t)
      | Some HotMemory \<Rightarrow>
          bind_cpp (be_deleteBlock H (ts_hotTier t) blockId) (\<lambda>(err, hot).
          Inr (err, t\<lparr>ts_hotTier := hot, ts_hotLruQueue := remove1 blockId (ts_hotLruQueue t),
            ts_blockTiers := (ts_blockTiers t)(blockId := None)\<rparr>))
      | Some ColdDisk \<Rightarrow>
          bind_cpp (be_deleteBlock C (ts_coldTier t) blockId) (\<lambda>(err, cold).
          Inr (err, t\<lparr>ts_coldTier := cold, ts_blockTiers := (ts_blockTiers t)(blockId := None)\<rparr>)))"

definition ts_hasBlock :: "('h, 'c) TieredStorageManager \<Rightarrow> u64 \<Rightarrow> bool" where
  "ts_hasBlock t blockId \<longleftrightarrow> ts_blockTiers t blockId \<noteq> None"

definition getBlockTier :: "('h, 'c) TieredStorageManager \<Rightarrow> u64 \<Rightarrow> TierLevel" where
  "getBlockTier t blockId = (case ts_blockTiers t blockId of Some tier \<Rightarrow> tier | None \<Rightarrow> ColdDisk)"

definition ts_getStats :: "'h IStorageBackend \<Rightarrow> 'c IStorageBackend \<Rightarrow> ('h, 'c) TieredStorageManager \<Rightarrow> TieredStorageStats" where
  "ts_getStats H C t =
     (let hotStats = be_stats H (ts_hotTier t); coldStats = be_stats C (ts_coldTier t) in
      (ts_stats t)\<lparr>st_hotBlocks := ss_totalBlocks hotStats, st_hotBytes := ss_totalBytes hotStats,
        st_coldBlocks := ss_totalBlocks coldStats, st_coldBytes := ss_totalBytes coldStats\<rparr>)"

definition ts_sync :: "'h IStorageBackend \<Rightarrow> 'c IStorageBackend \<Rightarrow> ('h, 'c) TieredStorageManager \<Rightarrow> StorageError" where
  "ts_sync H C t =
     (let e1 = be_sync H (ts_hotTier t); e2 = be_sync C (ts_coldTier t) in if e1 \<noteq> SE_Success then e1 else e2)"

definition ts_clear :: "'h IStorageBackend \<Rightarrow> 'c IStorageBackend \<Rightarrow> ('h, 'c) TieredStorageManager \<Rightarrow> ('h, 'c) TieredStorageManager" where
  "ts_clear H C t =
     t\<lparr>ts_hotTier := be_clear H (ts_hotTier t), ts_coldTier := be_clear C (ts_coldTier t), ts_blockTiers := Map.empty,
       ts_hotLruQueue := [], ts_stats := newTieredStorageStats\<rparr>"

section \<open>What the manager stores\<close>

text \<open>The content of the manager: the data of a block in the tier it is listed in.\<close>

definition ts_content :: "('h \<Rightarrow> u64 \<rightharpoonup> byte list) \<Rightarrow> ('c \<Rightarrow> u64 \<rightharpoonup> byte list) \<Rightarrow> ('h, 'c) TieredStorageManager \<Rightarrow> u64 \<rightharpoonup> byte list" where
  "ts_content hotContent coldContent t k =
     (case ts_blockTiers t k of
        None \<Rightarrow> None
      | Some HotMemory \<Rightarrow> hotContent (ts_hotTier t) k
      | Some ColdDisk \<Rightarrow> coldContent (ts_coldTier t) k)"

text \<open>The queue lists, each once, the blocks that the table of tiers holds for hot, and no more of them than the limit;
  where the limit is 0 it still holds one, the block written last.  The hot backend may hold more: a victim that the
  cold tier refuses leaves the table and the queue, not the backend.\<close>

definition queue_ok :: "('h, 'c) TieredStorageManager \<Rightarrow> bool" where
  "queue_ok t \<longleftrightarrow> distinct (ts_hotLruQueue t) \<and> set (ts_hotLruQueue t) = {k. ts_blockTiers t k = Some HotMemory} \<and>
     length (ts_hotLruQueue t) \<le> max 1 (ts_maxHotBlocks t)"


locale tiered =
  hot: block_backend H hot_inv hot_content small + cold: block_backend C cold_inv cold_content small
  for H :: "'h IStorageBackend" and hot_inv and hot_content and C :: "'c IStorageBackend" and cold_inv and cold_content
    and small :: "byte list \<Rightarrow> bool"
begin

definition inv :: "('h, 'c) TieredStorageManager \<Rightarrow> bool" where
  "inv t \<longleftrightarrow> hot_inv (ts_hotTier t) \<and> cold_inv (ts_coldTier t) \<and> queue_ok t"

abbreviation content :: "('h, 'c) TieredStorageManager \<Rightarrow> u64 \<rightharpoonup> byte list" where
  "content \<equiv> ts_content hot_content cold_content"

lemma in_queue: "inv t \<Longrightarrow> k \<in> set (ts_hotLruQueue t) \<longleftrightarrow> ts_blockTiers t k = Some HotMemory"
  by (auto simp: inv_def queue_ok_def)

lemma demote:
  assumes "inv t"
  obtains (moved) t' where "demoteBlock H C t k = Inr (SE_Success, t')" "inv t'" "ts_maxHotBlocks t' = ts_maxHotBlocks t"
      "ts_blockTiers t' = (ts_blockTiers t)(k \<mapsto> ColdDisk)" "ts_hotLruQueue t' = remove1 k (ts_hotLruQueue t)"
      "cold_content (ts_coldTier t') = (cold_content (ts_coldTier t))(k := hot_content (ts_hotTier t) k)"
      "\<And>k'. k' \<noteq> k \<Longrightarrow> hot_content (ts_hotTier t') k' = hot_content (ts_hotTier t) k'"
  | (kept) e t' where "e \<noteq> SE_Success" "demoteBlock H C t k = Inr (e, t')" "inv t'" "ts_maxHotBlocks t' = ts_maxHotBlocks t"
      "ts_blockTiers t' = ts_blockTiers t" "ts_hotLruQueue t' = ts_hotLruQueue t"
      "hot_content (ts_hotTier t') = hot_content (ts_hotTier t)" "cold_content (ts_coldTier t') = cold_content (ts_coldTier t)"
proof -
  have hi: "hot_inv (ts_hotTier t)" and ci: "cold_inv (ts_coldTier t)" and q: "queue_ok t"
    using assms by (simp_all add: inv_def)
  obtain r h where r: "be_readBlock H (ts_hotTier t) k = Inr (r, h)" "hot_inv h" "hot_content h = hot_content (ts_hotTier t)"
      "r \<noteq> Inl SE_Success" "\<And>d. r = Inr d \<Longrightarrow> hot_content (ts_hotTier t) k = Some d"
    using hot.readE [OF hi] by metis
  show thesis
  proof (cases r)
    case (Inl e)
    show thesis
      by (rule kept [of e "t\<lparr>ts_hotTier := h\<rparr>"]) (use r Inl ci q in \<open>auto simp: demoteBlock_def inv_def queue_ok_def\<close>)
  next
    case (Inr d)
    have d: "hot_content (ts_hotTier t) k = Some d" using r(5) [OF Inr] .
    then have "small d" by (rule hot.small_law [OF hi])
    then obtain e c where w: "be_writeBlock C (ts_coldTier t) k d = Inr (e, c)" "cold_inv c"
        "cold_content c = (if e = SE_Success then (cold_content (ts_coldTier t))(k \<mapsto> d) else cold_content (ts_coldTier t))"
      using cold.writeE [OF ci] by metis
    show thesis
    proof (cases "e = SE_Success")
      case False
      show thesis
        by (rule kept [of e "t\<lparr>ts_hotTier := h, ts_coldTier := c\<rparr>"])
          (use False r w Inr q in \<open>auto simp: demoteBlock_def inv_def queue_ok_def\<close>)
    next
      case True
      obtain e' h' where x: "be_deleteBlock H h k = Inr (e', h')" "hot_inv h'"
          "hot_content h' = (if e' = SE_Success then (hot_content h)(k := None) else hot_content h)"
        using hot.deleteE [OF r(2)] by metis
      show thesis
        by (rule moved [of "t\<lparr>ts_hotTier := h', ts_coldTier := c, ts_blockTiers := (ts_blockTiers t)(k \<mapsto> ColdDisk),
            ts_hotLruQueue := remove1 k (ts_hotLruQueue t),
            ts_stats := (ts_stats t)\<lparr>st_migrationsToCold := st_migrationsToCold (ts_stats t) + 1\<rparr>\<rparr>"])
          (use True r w Inr x q d in \<open>auto simp: demoteBlock_def inv_def queue_ok_def length_remove1\<close>)
    qed
  qed
qed

text \<open>Making room loses nothing but what the cold tier refuses, and touches no block outside the hot tier.\<close>

lemma spill:
  "inv t \<Longrightarrow> \<exists>t'. spillHotToCold H C n t = Inr t' \<and> inv t' \<and> ts_maxHotBlocks t' = ts_maxHotBlocks t \<and>
     content t' \<subseteq>\<^sub>m content t \<and> length (ts_hotLruQueue t') \<le> length (ts_hotLruQueue t) - n \<and>
     (\<forall>k. ts_blockTiers t k \<noteq> Some HotMemory \<longrightarrow> ts_blockTiers t' k = ts_blockTiers t k \<and>
        cold_content (ts_coldTier t') k = cold_content (ts_coldTier t) k)"
proof (induction "n + length (ts_hotLruQueue t)" arbitrary: n t rule: less_induct)
  case less
  show ?case
  proof (cases "n > 0 \<and> ts_hotLruQueue t \<noteq> []")
    case False
    then show ?thesis using less.prems by (subst spillHotToCold.simps) auto
  next
    case True
    define v where "v = last (ts_hotLruQueue t)"
    have v: "v \<in> set (ts_hotLruQueue t)" "ts_blockTiers t v = Some HotMemory"
      using True in_queue [OF less.prems, of v] by (simp_all add: v_def)
    from less.prems show ?thesis
    proof (cases rule: demote [where k = v])
      case (moved t1)
      have step: "spillHotToCold H C n t = spillHotToCold H C (n - 1) t1"
        using True moved(1) by (subst spillHotToCold.simps) (simp add: v_def)
      have "content t1 = content t"
        using moved v by (auto simp: fun_eq_iff ts_content_def split: option.splits TierLevel.splits)
      moreover have len: "length (ts_hotLruQueue t1) = length (ts_hotLruQueue t) - 1"
        using moved(5) v(1) by (simp add: length_remove1)
      moreover have "n - 1 + length (ts_hotLruQueue t1) < n + length (ts_hotLruQueue t)"
        using True len by linarith
      moreover have "ts_blockTiers t1 k = ts_blockTiers t k \<and> cold_content (ts_coldTier t1) k = cold_content (ts_coldTier t) k"
        if "ts_blockTiers t k \<noteq> Some HotMemory" for k
        using that moved v by auto
      ultimately show ?thesis
        using less.hyps [of "n - 1" t1] moved(2,3) True step by fastforce
    next
      case (kept e t1)
      let ?t2 = "t1\<lparr>ts_hotLruQueue := butlast (ts_hotLruQueue t1), ts_blockTiers := (ts_blockTiers t1)(v := None)\<rparr>"
      have step: "spillHotToCold H C n t = spillHotToCold H C n ?t2"
        using True kept(1,2) by (subst spillHotToCold.simps) (simp add: v_def)
      have q: "ts_hotLruQueue t = butlast (ts_hotLruQueue t) @ [v]"
        using True by (simp add: v_def)
      then have "v \<notin> set (butlast (ts_hotLruQueue t))" "insert v (set (butlast (ts_hotLruQueue t))) = set (ts_hotLruQueue t)"
        using less.prems by (metis distinct_append inv_def queue_ok_def disjoint_insert(1) list.set(2), metis list.simps(15) set_append Un_insert_right empty_set sup_bot.right_neutral)
      then have "inv ?t2"
        using kept less.prems by (auto simp: inv_def queue_ok_def distinct_butlast)
      moreover have "content ?t2 \<subseteq>\<^sub>m content t"
        using kept by (auto simp: map_le_def ts_content_def split: option.splits TierLevel.splits if_splits)
      moreover have "ts_blockTiers ?t2 k = ts_blockTiers t k \<and> cold_content (ts_coldTier ?t2) k = cold_content (ts_coldTier t) k"
        if "ts_blockTiers t k \<noteq> Some HotMemory" for k
        using that kept v by auto
      moreover have "n + length (ts_hotLruQueue ?t2) < n + length (ts_hotLruQueue t)"
        using kept(6) True by (cases "ts_hotLruQueue t") simp_all
      ultimately show ?thesis
        using less.hyps [of n ?t2] kept(4) step map_le_trans by fastforce
    qed
  qed
qed

lemma room:
  assumes "inv t"
  obtains t' where "make_room H C t = Inr t'" "inv t'" "content t' \<subseteq>\<^sub>m content t" "ts_maxHotBlocks t' = ts_maxHotBlocks t"
    "length (ts_hotLruQueue t') < max 1 (ts_maxHotBlocks t)" "length (ts_hotLruQueue t) < ts_maxHotBlocks t \<Longrightarrow> t' = t"
    "\<And>k. ts_blockTiers t k \<noteq> Some HotMemory \<Longrightarrow> ts_blockTiers t' k = ts_blockTiers t k \<and>
        cold_content (ts_coldTier t') k = cold_content (ts_coldTier t) k"
proof (cases "length (ts_hotLruQueue t) \<ge> ts_maxHotBlocks t")
  case True
  have "length (ts_hotLruQueue t) - 1 < max 1 (ts_maxHotBlocks t)"
    using assms by (auto simp: inv_def queue_ok_def)
  then show thesis
    using spill [OF assms, of 1] True that by (fastforce simp: make_room_def)
next
  case False
  then show thesis
    using that [of t] assms by (simp add: make_room_def)
qed

lemma push:
  assumes "inv t" "length (ts_hotLruQueue t) < max 1 (ts_maxHotBlocks t)" "hot_inv h"
  shows "inv (touchHot (t\<lparr>ts_hotTier := h, ts_blockTiers := (ts_blockTiers t)(k \<mapsto> HotMemory)\<rparr>) k)"
  using assms by (auto simp: inv_def queue_ok_def touchHot_def length_remove1)

lemma drop_cold:
  assumes "cold_inv s"
  shows "\<exists>e c. (if be_hasBlock C s k then be_deleteBlock C s k else Inr (SE_Success, s)) = Inr (e, c) \<and> cold_inv c \<and>
    (\<forall>k'. k' \<noteq> k \<longrightarrow> cold_content c k' = cold_content s k') \<and> (cold_content c k = cold_content s k \<or> cold_content c k = None)"
proof -
  obtain e c where "be_deleteBlock C s k = Inr (e, c)" "cold_inv c"
      "cold_content c = (if e = SE_Success then (cold_content s)(k := None) else cold_content s)"
    using cold.delete_law [OF assms] by blast
  with assms show ?thesis by auto
qed

lemma writes:
  assumes "inv t" "small d"
  obtains e t' where "ts_writeBlock H C t k d = Inr (e, t')" "inv t'"
    "if e = SE_Success then content t' k = Some d \<and> content t' \<subseteq>\<^sub>m (content t)(k \<mapsto> d) else content t' \<subseteq>\<^sub>m content t"
    "e = SE_Success \<Longrightarrow> length (ts_hotLruQueue t) < ts_maxHotBlocks t \<Longrightarrow> content t' = (content t)(k \<mapsto> d)"
    "e = SE_Success \<Longrightarrow> \<exists>q. ts_hotLruQueue t' = k # q"
proof -
  have ci: "cold_inv (ts_coldTier t)"
    using assms(1) by (simp add: inv_def)
  obtain e0 c where c: "(if be_hasBlock C (ts_coldTier t) k then be_deleteBlock C (ts_coldTier t) k else Inr (SE_Success, ts_coldTier t)) =
      Inr (e0, c)" "cold_inv c" "\<And>k'. k' \<noteq> k \<Longrightarrow> cold_content c k' = cold_content (ts_coldTier t) k'"
      "cold_content c k = cold_content (ts_coldTier t) k \<or> cold_content c k = None"
    using drop_cold [OF ci] by metis
  let ?t0 = "t\<lparr>ts_coldTier := c\<rparr>"
  have "inv ?t0" and sub0: "content ?t0 \<subseteq>\<^sub>m content t" and other: "\<And>k'. k' \<noteq> k \<Longrightarrow> content ?t0 k' = content t k'"
    subgoal using assms(1) c by (auto simp: inv_def queue_ok_def)
    subgoal using c(3,4) by (force simp: ts_content_def map_le_def split: option.splits TierLevel.splits)
    subgoal using c(3) by (auto simp: ts_content_def split: option.splits TierLevel.splits)
    done
  obtain t1 where t1: "make_room H C ?t0 = Inr t1" "inv t1" "content t1 \<subseteq>\<^sub>m content ?t0" "ts_maxHotBlocks t1 = ts_maxHotBlocks t"
      "length (ts_hotLruQueue t1) < max 1 (ts_maxHotBlocks t)" "length (ts_hotLruQueue t) < ts_maxHotBlocks t \<Longrightarrow> t1 = ?t0"
    using room [OF \<open>inv ?t0\<close>] by simp metis
  obtain e h where h: "be_writeBlock H (ts_hotTier t1) k d = Inr (e, h)" "hot_inv h"
      "hot_content h = (if e = SE_Success then (hot_content (ts_hotTier t1))(k \<mapsto> d) else hot_content (ts_hotTier t1))"
    using hot.writeE [OF _ assms(2)] t1(2) by (metis inv_def)
  show thesis
  proof (cases "e = SE_Success")
    case True
    let ?t2 = "touchHot (t1\<lparr>ts_hotTier := h, ts_blockTiers := (ts_blockTiers t1)(k \<mapsto> HotMemory)\<rparr>) k"
    have new: "content ?t2 = (content t1)(k \<mapsto> d)"
      using h(3) True t1(2) by (auto simp: fun_eq_iff ts_content_def touchHot_def split: option.split TierLevel.split)
    have "content t1 \<subseteq>\<^sub>m content t"
      using t1(3) sub0 by (rule map_le_trans)
    then have "(content t1)(k \<mapsto> d) \<subseteq>\<^sub>m (content t)(k \<mapsto> d)"
      by (rule map_le_upd)
    moreover have "(content t1)(k \<mapsto> d) = (content t)(k \<mapsto> d)" if "length (ts_hotLruQueue t) < ts_maxHotBlocks t"
      using t1(6) [OF that] other by auto
    ultimately show thesis
      by (intro that [of e ?t2]) (use True c(1) t1(1,4,5) h(1) new push [OF t1(2) _ h(2)] in \<open>simp_all add: ts_writeBlock_def touchHot_def\<close>)
  next
    case False
    have "content (t1\<lparr>ts_hotTier := h\<rparr>) = content t1"
      using h(3) False by (auto simp: fun_eq_iff ts_content_def split: option.split TierLevel.split)
    then show thesis
      using t1(2) h(2)
      by (intro that [of e "t1\<lparr>ts_hotTier := h\<rparr>"])
        (use False c(1) t1(1,3) h(1) sub0 map_le_trans in \<open>auto simp: ts_writeBlock_def inv_def queue_ok_def\<close>)
  qed
qed

text \<open>Promoting a block keeps the invariant, and the data of every block when the block is listed in the cold tier.\<close>

lemma promote:
  assumes "inv t"
  obtains e t' where "promoteBlock H C t k = Inr (e, t')" "inv t'"
    "ts_blockTiers t k = Some ColdDisk \<Longrightarrow> content t' \<subseteq>\<^sub>m content t \<and> content t' k = content t k"
proof -
  have ci: "cold_inv (ts_coldTier t)"
    using assms by (simp add: inv_def)
  obtain r c where r: "be_readBlock C (ts_coldTier t) k = Inr (r, c)" "cold_inv c" "cold_content c = cold_content (ts_coldTier t)"
      "\<And>d. r = Inr d \<Longrightarrow> cold_content (ts_coldTier t) k = Some d"
    using cold.readE [OF ci] by metis
  let ?t0 = "t\<lparr>ts_coldTier := c\<rparr>"
  have t0: "inv ?t0" "content ?t0 = content t"
    using assms r(2,3) by (auto simp: inv_def queue_ok_def fun_eq_iff ts_content_def split: option.split TierLevel.split)
  show thesis
  proof (cases r)
    case (Inl e)
    then show thesis
      using that [of e ?t0] t0 r(1) by (simp add: promoteBlock_def)
  next
    case (Inr d)
    have d: "cold_content (ts_coldTier t) k = Some d" "small d"
      using r(4) [OF Inr] cold.small_law [OF ci] by auto
    obtain t1 where t1: "make_room H C ?t0 = Inr t1" "inv t1" "content t1 \<subseteq>\<^sub>m content t"
        "length (ts_hotLruQueue t1) < max 1 (ts_maxHotBlocks t1)"
        "ts_blockTiers t k = Some ColdDisk \<Longrightarrow> ts_blockTiers t1 k = Some ColdDisk \<and> cold_content (ts_coldTier t1) k = Some d"
      by (rule room [OF t0(1)]) (use d(1) t0(2) r(3) in auto)
    have k: "content t1 k = Some d" "content t k = Some d" if "ts_blockTiers t k = Some ColdDisk"
      using t1(5) [OF that] that d(1) by (simp_all add: ts_content_def)
    obtain e h where h: "be_writeBlock H (ts_hotTier t1) k d = Inr (e, h)" "hot_inv h"
        "hot_content h = (if e = SE_Success then (hot_content (ts_hotTier t1))(k \<mapsto> d) else hot_content (ts_hotTier t1))"
      using hot.writeE [OF _ d(2)] t1(2) by (metis inv_def)
    show thesis
    proof (cases "e = SE_Success")
      case False
      have "content (t1\<lparr>ts_hotTier := h\<rparr>) = content t1"
        using h(3) False by (auto simp: fun_eq_iff ts_content_def split: option.split TierLevel.split)
      then show thesis
        using t1(2) h(2) r(1) Inr False t1(1,3) h(1) k
        by (intro that [of e "t1\<lparr>ts_hotTier := h\<rparr>"]) (auto simp: promoteBlock_def inv_def queue_ok_def)
    next
      case True
      obtain e' c' where c': "be_deleteBlock C (ts_coldTier t1) k = Inr (e', c')" "cold_inv c'"
          "\<And>k'. k' \<noteq> k \<Longrightarrow> cold_content c' k' = cold_content (ts_coldTier t1) k'"
        using cold.delete_law [of "ts_coldTier t1" k] t1(2) by (auto simp: inv_def split: if_splits)
      define t2 where "t2 = touchHot (t1\<lparr>ts_hotTier := h, ts_coldTier := c', ts_blockTiers := (ts_blockTiers t1)(k \<mapsto> HotMemory)\<rparr>) k"
      let ?t3 = "t2\<lparr>ts_stats := (ts_stats t2)\<lparr>st_migrationsToHot := st_migrationsToHot (ts_stats t2) + 1\<rparr>\<rparr>"
      have "inv ?t3"
        using push [OF t1(2,4) h(2)] c'(2) by (simp add: t2_def inv_def queue_ok_def touchHot_def)
      moreover have "content ?t3 = content t1" if "ts_blockTiers t k = Some ColdDisk"
        using h(3) True c'(3) k [OF that]
        by (auto simp: t2_def fun_eq_iff ts_content_def touchHot_def split: option.split TierLevel.split)
      ultimately show thesis
        using t1(1,3) r(1) Inr True h(1) c'(1) k
        by (intro that [of e ?t3]) (simp_all add: promoteBlock_def t2_def Let_def)
    qed
  qed
qed

lemma reads:
  assumes "inv t"
  obtains r t' where "ts_readBlock H C t k p = Inr (r, t')" "inv t'" "content t' \<subseteq>\<^sub>m content t" "content t' k = content t k"
    "\<And>d. r = Inr d \<Longrightarrow> content t k = Some d"
proof -
  have hi: "hot_inv (ts_hotTier t)" and ci: "cold_inv (ts_coldTier t)" and q: "queue_ok t"
    using assms by (simp_all add: inv_def)
  show thesis
  proof (cases "ts_blockTiers t k")
    case None
    then show thesis
      using that [of "Inl SE_NotFound" t] assms by (simp add: ts_readBlock_def)
  next
    case (Some tier)
    show thesis
    proof (cases tier)
      case HotMemory
      obtain r h where r: "be_readBlock H (ts_hotTier t) k = Inr (r, h)" "hot_inv h" "hot_content h = hot_content (ts_hotTier t)"
          "\<And>d. r = Inr d \<Longrightarrow> hot_content (ts_hotTier t) k = Some d"
        using hot.readE [OF hi] by metis
      let ?t' = "case r of Inl _ \<Rightarrow> t\<lparr>ts_hotTier := h\<rparr> | Inr _ \<Rightarrow> touchHot (t\<lparr>ts_hotTier := h\<rparr>) k"
      have "k \<in> set (ts_hotLruQueue t)"
        using Some HotMemory in_queue [OF assms] by simp
      then have "inv ?t'" "content ?t' = content t"
        using r(2,3) ci q
        by (auto simp: inv_def queue_ok_def touchHot_def length_remove1 Suc_diff_Suc fun_eq_iff ts_content_def
            split: sum.split option.split TierLevel.split)
      then show thesis
        using that [of r ?t'] r(1,4) Some HotMemory by (simp add: ts_readBlock_def ts_content_def Let_def)
    next
      case ColdDisk
      obtain r c where r: "be_readBlock C (ts_coldTier t) k = Inr (r, c)" "cold_inv c" "cold_content c = cold_content (ts_coldTier t)"
          "\<And>d. r = Inr d \<Longrightarrow> cold_content (ts_coldTier t) k = Some d"
        using cold.readE [OF ci] by metis
      let ?t0 = "t\<lparr>ts_coldTier := c\<rparr>"
      have t0: "inv ?t0" "content ?t0 = content t"
        using assms(1) r(2,3) by (auto simp: inv_def queue_ok_def fun_eq_iff ts_content_def split: option.split TierLevel.split)
      show thesis
      proof (cases "p \<and> isl r = False")
        case True
        then obtain d where d: "r = Inr d" by (cases r) auto
        obtain e t1 where "promoteBlock H C ?t0 k = Inr (e, t1)" "inv t1" "content t1 \<subseteq>\<^sub>m content t" "content t1 k = content t k"
          by (rule promote [OF t0(1), of k]) (use Some ColdDisk t0(2) in auto)
        then show thesis
          using that [of r t1] r(1,4) Some ColdDisk True d by (simp add: ts_readBlock_def ts_content_def)
      next
        case False
        then have "ts_readBlock H C t k p = Inr (r, ?t0)"
          using r(1) Some ColdDisk by (cases r) (simp_all add: ts_readBlock_def)
        then show thesis
          using that [of r ?t0] t0 r(4) Some ColdDisk by (simp add: ts_content_def)
      qed
    qed
  qed
qed

lemma read_spans:
  assumes "inv t" "unat off + unat len < 2 ^ 64"
  obtains r t' where "ts_readSpan H C t k off len = Inr (r, t')" "inv t'" "content t' = content t"
    "\<And>d. r = Inr d \<Longrightarrow> \<exists>d'. content t k = Some d' \<and> d = take (unat len) (drop (unat off) d')"
proof -
  have hi: "hot_inv (ts_hotTier t)" and ci: "cold_inv (ts_coldTier t)" and q: "queue_ok t"
    using assms(1) by (simp_all add: inv_def)
  consider "ts_blockTiers t k = None" | "ts_blockTiers t k = Some HotMemory" | "ts_blockTiers t k = Some ColdDisk"
    by (metis TierLevel.exhaust option.exhaust)
  then show thesis
  proof cases
    case 1
    then show thesis
      using that [of "Inl SE_NotFound" t] assms(1) by (simp add: ts_readSpan_def)
  next
    case 2
    obtain r h where r: "be_readSpan H (ts_hotTier t) k off len = Inr (r, h)" "hot_inv h" "hot_content h = hot_content (ts_hotTier t)"
        "\<And>d. r = Inr d \<Longrightarrow> \<exists>d'. hot_content (ts_hotTier t) k = Some d' \<and> d = take (unat len) (drop (unat off) d')"
      using hot.spanE [OF hi assms(2)] by metis
    with 2 ci q show thesis
      by (intro that [of r "t\<lparr>ts_hotTier := h\<rparr>"])
        (auto simp: ts_readSpan_def inv_def queue_ok_def fun_eq_iff ts_content_def split: option.split TierLevel.split)
  next
    case 3
    obtain r c where r: "be_readSpan C (ts_coldTier t) k off len = Inr (r, c)" "cold_inv c" "cold_content c = cold_content (ts_coldTier t)"
        "\<And>d. r = Inr d \<Longrightarrow> \<exists>d'. cold_content (ts_coldTier t) k = Some d' \<and> d = take (unat len) (drop (unat off) d')"
      using cold.spanE [OF ci assms(2)] by metis
    with 3 hi q show thesis
      by (intro that [of r "t\<lparr>ts_coldTier := c\<rparr>"])
        (auto simp: ts_readSpan_def inv_def queue_ok_def fun_eq_iff ts_content_def split: option.split TierLevel.split)
  qed
qed

text \<open>Demoting any block keeps the invariant, and the data of every block when the block is listed in the hot tier.\<close>

lemma demotes:
  assumes "inv t"
  obtains e t' where "demoteBlock H C t k = Inr (e, t')" "inv t'" "ts_blockTiers t k = Some HotMemory \<Longrightarrow> content t' = content t"
proof -
  from assms show thesis
  proof (cases rule: demote [where k = k])
    case (moved t')
    have "content t' = content t" if "ts_blockTiers t k = Some HotMemory"
      using moved that by (auto simp: fun_eq_iff ts_content_def split: option.splits TierLevel.splits)
    with moved that show thesis by blast
  next
    case (kept e t')
    then have "content t' = content t"
      by (auto simp: fun_eq_iff ts_content_def split: option.splits TierLevel.splits)
    with kept that show thesis by blast
  qed
qed

lemma clears:
  assumes "inv t"
  shows "inv (ts_clear H C t) \<and> content (ts_clear H C t) = Map.empty"
  using assms hot.clear_law cold.clear_law by (simp add: inv_def queue_ok_def ts_clear_def fun_eq_iff ts_content_def)

lemma deletes:
  assumes "inv t"
  obtains e t' where "ts_deleteBlock H C t k = Inr (e, t')" "inv t'" "content t' = (content t)(k := None)"
proof -
  have hi: "hot_inv (ts_hotTier t)" and ci: "cold_inv (ts_coldTier t)" and q: "queue_ok t"
    using assms by (simp_all add: inv_def)
  show thesis
  proof (cases "ts_blockTiers t k")
    case None
    then show thesis
      using that [of SE_NotFound t] assms by (simp add: ts_deleteBlock_def fun_eq_iff ts_content_def)
  next
    case (Some tier)
    show thesis
    proof (cases tier)
      case HotMemory
      obtain e h where "be_deleteBlock H (ts_hotTier t) k = Inr (e, h)" "hot_inv h"
          "hot_content h = (if e = SE_Success then (hot_content (ts_hotTier t))(k := None) else hot_content (ts_hotTier t))"
        using hot.delete_law [OF hi] by blast
      with Some HotMemory ci q show thesis
        by (intro that [of e "t\<lparr>ts_hotTier := h, ts_hotLruQueue := remove1 k (ts_hotLruQueue t),
              ts_blockTiers := (ts_blockTiers t)(k := None)\<rparr>"])
          (auto simp: ts_deleteBlock_def inv_def queue_ok_def length_remove1 fun_eq_iff ts_content_def
            split: option.split TierLevel.split)
    next
      case ColdDisk
      obtain e c where "be_deleteBlock C (ts_coldTier t) k = Inr (e, c)" "cold_inv c"
          "cold_content c = (if e = SE_Success then (cold_content (ts_coldTier t))(k := None) else cold_content (ts_coldTier t))"
        using cold.delete_law [OF ci] by blast
      with Some ColdDisk hi q show thesis
        by (intro that [of e "t\<lparr>ts_coldTier := c, ts_blockTiers := (ts_blockTiers t)(k := None)\<rparr>"])
          (auto simp: ts_deleteBlock_def inv_def queue_ok_def fun_eq_iff ts_content_def split: option.split TierLevel.split)
    qed
  qed
qed

end

section \<open>Runs\<close>

text \<open>A sequence of the public operations, each one step, and the data last written to every block.  A write that
  reports an error may have lost the block, and a deletion forgets it.\<close>

datatype tier_op = Write u64 "byte list" | Read u64 bool | ReadSpan u64 u64 u64 | Delete u64 | Spill nat
  | Demote u64 | Promote u64 | Clear

fun tier_step :: "'h IStorageBackend \<Rightarrow> 'c IStorageBackend \<Rightarrow> ('h, 'c) TieredStorageManager \<Rightarrow> tier_op \<Rightarrow>
    (byte list StorageResult \<times> ('h, 'c) TieredStorageManager) cpp" where
  "tier_step H C t (Write k d) =
     bind_cpp (ts_writeBlock H C t k d) (\<lambda>(e, t'). Inr (if e = SE_Success then Inr d else Inl e, t'))"
| "tier_step H C t (Read k p) = ts_readBlock H C t k p"
| "tier_step H C t (ReadSpan k off len) = ts_readSpan H C t k off len"
| "tier_step H C t (Delete k) = bind_cpp (ts_deleteBlock H C t k) (\<lambda>(e, t'). Inr (Inl e, t'))"
| "tier_step H C t (Spill n) = bind_cpp (spillHotToCold H C n t) (\<lambda>t'. Inr (Inl SE_Success, t'))"
| "tier_step H C t (Demote k) = bind_cpp (demoteBlock H C t k) (\<lambda>(e, t'). Inr (Inl e, t'))"
| "tier_step H C t (Promote k) = bind_cpp (promoteBlock H C t k) (\<lambda>(e, t'). Inr (Inl e, t'))"
| "tier_step H C t Clear = Inr (Inl SE_Success, ts_clear H C t)"

fun last_written :: "(u64 \<rightharpoonup> byte list) \<Rightarrow> tier_op \<Rightarrow> byte list StorageResult \<Rightarrow> (u64 \<rightharpoonup> byte list)" where
  "last_written g (Write k d) (Inr _) = g(k \<mapsto> d)"
| "last_written g (Delete k) _ = g(k := None)"
| "last_written g Clear _ = Map.empty"
| "last_written g _ _ = g"

text \<open>The data of a write can be handled, and the offset and length of a part do not wrap.\<close>

definition op_small :: "(byte list \<Rightarrow> bool) \<Rightarrow> tier_op \<Rightarrow> bool" where
  "op_small small a = (case a of Write k d \<Rightarrow> small d | ReadSpan k off len \<Rightarrow> unat off + unat len < 2 ^ 64 | _ \<Rightarrow> True)"

text \<open>A block is moved out of the tier it is listed in.\<close>

definition moves_listed :: "('h, 'c) TieredStorageManager \<Rightarrow> tier_op \<Rightarrow> bool" where
  "moves_listed t a = (case a of Demote k \<Rightarrow> ts_blockTiers t k = Some HotMemory | Promote k \<Rightarrow> ts_blockTiers t k = Some ColdDisk | _ \<Rightarrow> True)"

text \<open>Runs of operations that \<open>ok\<close> admits.\<close>

inductive tier_run :: "(('h, 'c) TieredStorageManager \<Rightarrow> tier_op \<Rightarrow> bool) \<Rightarrow> (byte list \<Rightarrow> bool) \<Rightarrow> 'h IStorageBackend \<Rightarrow>
    'c IStorageBackend \<Rightarrow> ('h, 'c) TieredStorageManager \<Rightarrow> ('h, 'c) TieredStorageManager \<Rightarrow> (u64 \<rightharpoonup> byte list) \<Rightarrow> bool"
  for ok small H C t0 where
  start: "tier_run ok small H C t0 t0 Map.empty"
| step: "tier_run ok small H C t0 t g \<Longrightarrow> ok t a \<Longrightarrow> op_small small a \<Longrightarrow> tier_step H C t a = Inr (r, t') \<Longrightarrow>
    tier_run ok small H C t0 t' (last_written g a r)"

context tiered
begin

lemma tier_step_ok:
  assumes "inv t" "op_small small a"
  obtains r t' where "tier_step H C t a = Inr (r, t')" "inv t'"
    "content t \<subseteq>\<^sub>m g \<Longrightarrow> moves_listed t a \<Longrightarrow> content t' \<subseteq>\<^sub>m last_written g a r"
    "\<And>k d. a = Write k d \<Longrightarrow> r = Inr d \<Longrightarrow> \<exists>q. ts_hotLruQueue t' = k # q"
proof (cases a)
  case (Write k d)
  then have "small d" using assms(2) by (simp add: op_small_def)
  then obtain e t' where w: "ts_writeBlock H C t k d = Inr (e, t')" "inv t'"
      "if e = SE_Success then content t' k = Some d \<and> content t' \<subseteq>\<^sub>m (content t)(k \<mapsto> d) else content t' \<subseteq>\<^sub>m content t"
      "e = SE_Success \<Longrightarrow> \<exists>q. ts_hotLruQueue t' = k # q"
    using writes [OF assms(1)] by metis
  have "content t' \<subseteq>\<^sub>m last_written g a (if e = SE_Success then Inr d else Inl e)" if "content t \<subseteq>\<^sub>m g"
    using w(3) Write that map_le_trans map_le_upd by (auto split: if_splits)
  then show thesis
    using that [of "if e = SE_Success then Inr d else Inl e" t'] w(1,2,4) Write by (cases "e = SE_Success") simp_all
next
  case (Read k p)
  obtain r t' where "ts_readBlock H C t k p = Inr (r, t')" "inv t'" "content t' \<subseteq>\<^sub>m content t"
    using reads [OF assms(1)] by metis
  then show thesis
    using that [of r t'] Read map_le_trans by simp blast
next
  case (ReadSpan k off len)
  then have "unat off + unat len < 2 ^ 64" using assms(2) by (simp add: op_small_def)
  then obtain r t' where "ts_readSpan H C t k off len = Inr (r, t')" "inv t'" "content t' = content t"
    using read_spans [OF assms(1)] by metis
  then show thesis
    using that [of r t'] ReadSpan by simp
next
  case (Delete k)
  obtain e t' where "ts_deleteBlock H C t k = Inr (e, t')" "inv t'" "content t' = (content t)(k := None)"
    using deletes [OF assms(1)] by metis
  then show thesis
    using that [of "Inl e" t'] Delete by (auto simp: map_le_def dom_def split: if_splits)
next
  case (Spill n)
  obtain t' where "spillHotToCold H C n t = Inr t'" "inv t'" "content t' \<subseteq>\<^sub>m content t"
    using spill [OF assms(1)] by blast
  then show thesis
    using that [of "Inl SE_Success" t'] Spill map_le_trans by simp blast
next
  case (Demote k)
  obtain e t' where "demoteBlock H C t k = Inr (e, t')" "inv t'" "ts_blockTiers t k = Some HotMemory \<Longrightarrow> content t' = content t"
    using demotes [OF assms(1)] by metis
  then show thesis
    using that [of "Inl e" t'] Demote by (simp add: moves_listed_def)
next
  case (Promote k)
  obtain e t' where "promoteBlock H C t k = Inr (e, t')" "inv t'"
      "ts_blockTiers t k = Some ColdDisk \<Longrightarrow> content t' \<subseteq>\<^sub>m content t"
    using promote [OF assms(1)] by metis
  then show thesis
    using that [of "Inl e" t'] Promote map_le_trans by (simp add: moves_listed_def) blast
next
  case Clear
  then show thesis
    using that [of "Inl SE_Success" "ts_clear H C t"] clears [OF assms(1)] by simp
qed

text \<open>Whatever the tiers refuse, the invariant holds after every run, and when every block is moved out of the tier it is
  listed in, a block never has other data than what was last written to it.\<close>

lemma tier_run_inv: "tier_run ok small H C t0 t g \<Longrightarrow> inv t0 \<Longrightarrow> inv t"
proof (induction rule: tier_run.induct)
  case (step t g a r t')
  then show ?case
    using tier_step_ok [of t a] by (metis Inr_inject prod.inject)
qed

lemma tier_run_content:
  "tier_run moves_listed small H C t0 t g \<Longrightarrow> inv t0 \<Longrightarrow> ts_blockTiers t0 = Map.empty \<Longrightarrow> content t \<subseteq>\<^sub>m g"
proof (induction rule: tier_run.induct)
  case start
  then show ?case by (simp add: ts_content_def map_le_def dom_def)
next
  case (step t g a r t')
  moreover have "inv t" using step tier_run_inv by blast
  ultimately show ?case
    using tier_step_ok [of t a g] by (metis Inr_inject prod.inject)
qed

end


locale reliable_tiers =
  hot: reliable_backend H hot_inv hot_content small + cold: reliable_backend C cold_inv cold_content small
  for H :: "'h IStorageBackend" and hot_inv and hot_content and C :: "'c IStorageBackend" and cold_inv and cold_content
    and small :: "byte list \<Rightarrow> bool"

sublocale reliable_tiers \<subseteq> tiered
  by unfold_locales

context reliable_tiers
begin

lemma read_present:
  assumes "inv t" "content t k = Some d"
  obtains t' where "ts_readBlock H C t k p = Inr (Inr d, t')" "inv t'" "content t' k = Some d"
proof -
  obtain r t' where r: "ts_readBlock H C t k p = Inr (r, t')" "inv t'" "content t' k = content t k"
    using reads [OF assms(1)] by metis
  have inv: "hot_inv (ts_hotTier t)" "cold_inv (ts_coldTier t)"
    using assms(1) by (simp_all add: inv_def)
  have "r = Inr d"
  proof (cases "ts_blockTiers t k = Some HotMemory")
    case True
    then show ?thesis
      using hot.read_ok [OF inv(1), of k d] assms(2) r(1) by (auto simp: ts_content_def ts_readBlock_def Let_def)
  next
    case False
    then have cold: "ts_blockTiers t k = Some ColdDisk" "cold_content (ts_coldTier t) k = Some d"
      using assms(2) by (auto simp: ts_content_def split: option.splits TierLevel.splits)
    then show ?thesis
      using cold.read_ok [OF inv(2), of k d] r(1)
      by (auto simp: ts_readBlock_def Let_def bind_cpp_eq_Inr split: if_splits)
  qed
  with that r assms(2) show thesis by simp
qed

end

interpretation tiers: tiered "memory_backend crc" "mb_inv crc limit" mb_content "file_backend crc limit io" "fb_inv crc limit" fb_content "small_block limit"
  by unfold_locales

interpretation reliable: reliable_tiers "memory_backend crc" "mb_inv crc limit" mb_content "file_backend crc limit no_faults" "fb_inv crc limit" fb_content
  "small_block limit"
  by unfold_locales

text \<open>A fresh manager with a memory tier above an empty directory.\<close>

definition fresh_tiers :: "u64 \<Rightarrow> string \<Rightarrow> u64 \<Rightarrow> nat \<Rightarrow> (MemoryStorageBackend, FileStorageBackend) TieredStorageManager" where
  "fresh_tiers hotCapacity root coldCapacity maxHotBlocks =
     newTieredStorageManager (newMemoryStorageBackend hotCapacity) (newFileStorageBackend root coldCapacity []) maxHotBlocks"

lemma fresh_tiers_ok:
  "unat hotCapacity < 2 ^ 63 \<Longrightarrow> tiers.inv crc limit (fresh_tiers hotCapacity root coldCapacity n) \<and>
     ts_blockTiers (fresh_tiers hotCapacity root coldCapacity n) = Map.empty"
  by (simp add: fresh_tiers_def newTieredStorageManager_def tiers.inv_def queue_ok_def newMemoryStorageBackend_def mb_inv_def
      newFileStorageBackend_def fb_inv_def stored_bytes_def size64_def)


section \<open>An example\<close>

text \<open>One block is written to a small store.\<close>

definition small_tiers :: "(MemoryStorageBackend, FileStorageBackend) TieredStorageManager" where
  "small_tiers = fresh_tiers 64 ''/var/blocks'' 4096 1"

abbreviation hot_ops :: "MemoryStorageBackend IStorageBackend" where
  "hot_ops \<equiv> memory_backend (\<lambda>_. 0)"

abbreviation cold_ops :: "FileStorageBackend IStorageBackend" where
  "cold_ops \<equiv> file_backend (\<lambda>_. 0) 100 no_faults"

lemma small_write:
  obtains t1 t2 where "ts_writeBlock hot_ops cold_ops small_tiers 1 [7] = Inr (SE_Success, t1)"
    "ts_readBlock hot_ops cold_ops t1 1 True = Inr (Inr [7], t2)"
    "tier_run moves_listed (small_block 100) hot_ops cold_ops small_tiers t1 [1 \<mapsto> [7]]"
proof -
  have "case bind_cpp (ts_writeBlock hot_ops cold_ops small_tiers 1 [7]) (\<lambda>(e, t).
      bind_cpp (ts_readBlock hot_ops cold_ops t 1 True) (\<lambda>(r, _). Inr (e, r))) of
      Inl _ \<Rightarrow> False | Inr x \<Rightarrow> x = (SE_Success, Inr [7])"
    by code_simp
  then obtain t1 t2 where w: "ts_writeBlock hot_ops cold_ops small_tiers 1 [7] = Inr (SE_Success, t1)"
      "ts_readBlock hot_ops cold_ops t1 1 True = Inr (Inr [7], t2)"
    by (auto simp: bind_cpp_eq_Inr split: sum.splits)
  have "tier_run moves_listed (small_block 100) hot_ops cold_ops small_tiers t1 (last_written Map.empty (Write 1 [7]) (Inr [7]))"
    by (rule tier_run.step [OF tier_run.start]) (use w in \<open>simp_all add: op_small_def small_block_def moves_listed_def\<close>)
  with w that show thesis by simp
qed

section \<open>Properties of the tiered store\<close>

text \<open>C4: A memory tier stands above a disk tier, and any sequence of writes, reads, reads of a part, deletions, spills,
  demotions, promotions and clears is run, where every call of the operating system may fail, differently in
  every operation of the disk tier.  The data that a read returns is the data last written to the block,
  and a read of a part returns that part of it.  Not covered: a demotion of a block that is not listed in the
  hot tier and a promotion of one that is not listed in the cold tier, which the public functions
  \<^verbatim>\<open>demoteBlock\<close> and \<^verbatim>\<open>promoteBlock\<close> do not exclude and which can bring back older data (\<open>tiered_promote_rolls_back\<close>);
  parts whose offset and length wrap; and blocks the allocator cannot hold or of \<open>2 ^ 62\<close> bytes and more.\<close>

theorem tiered_reads_last_written:
  assumes "tier_run moves_listed (small_block limit) (memory_backend crc) (file_backend crc limit io)
      (fresh_tiers hotCapacity root coldCapacity n) t g"
    "unat hotCapacity < 2 ^ 63"
  shows "(\<forall>p d t'. ts_readBlock (memory_backend crc) (file_backend crc limit io) t k p = Inr (Inr d, t') \<longrightarrow> g k = Some d) \<and>
    (\<forall>off len d t'. unat off + unat len < 2 ^ 64 \<longrightarrow>
       ts_readSpan (memory_backend crc) (file_backend crc limit io) t k off len = Inr (Inr d, t') \<longrightarrow>
       (\<exists>d'. g k = Some d' \<and> d = take (unat len) (drop (unat off) d')))"
proof -
  have t: "tiers.inv crc limit t" "ts_content mb_content fb_content t \<subseteq>\<^sub>m g"
    using tiers.tier_run_inv [OF assms(1)] tiers.tier_run_content [OF assms(1)] fresh_tiers_ok [OF assms(2)] by blast+
  have g: "g k = Some d" if "ts_content mb_content fb_content t k = Some d" for d
    using t(2) that by (auto simp: map_le_def dom_def)
  have "g k = Some d" if "ts_readBlock (memory_backend crc) (file_backend crc limit io) t k p = Inr (Inr d, t')" for p d t'
    using tiers.reads [OF t(1), where k = k and p = p] that g by (metis Inr_inject prod.inject)
  moreover have "\<exists>d'. g k = Some d' \<and> d = take (unat len) (drop (unat off) d')"
    if "unat off + unat len < 2 ^ 64" "ts_readSpan (memory_backend crc) (file_backend crc limit io) t k off len = Inr (Inr d, t')"
    for off len d t'
    using tiers.read_spans [OF t(1) that(1), where k = k] that(2) g by (metis Inr_inject prod.inject)
  ultimately show ?thesis by blast
qed

theorem tiered_reads_last_written_witness:
  "\<exists>t t' g. tier_run moves_listed (small_block 100) hot_ops cold_ops small_tiers t g \<and>
     ts_readBlock hot_ops cold_ops t 1 True = Inr (Inr [7], t') \<and> g 1 = Some [7]"
proof -
  obtain t1 t2 where w: "ts_readBlock hot_ops cold_ops t1 1 True = Inr (Inr [7], t2)"
      "tier_run moves_listed (small_block 100) hot_ops cold_ops small_tiers t1 [1 \<mapsto> [7]]"
    by (rule small_write)
  have "[1 :: u64 \<mapsto> [7 :: byte]] 1 = Some [7]"
    using tiered_reads_last_written [OF w(2) [unfolded small_tiers_def], of 1] w(1) by simp
  with w show ?thesis by blast
qed

text \<open>C7: In any run of the public operations, promotions and demotions of any block included and whichever system calls
  fail, every operation returns (a read of a part under the condition that offset and length do not
  wrap).  After it the queue holds exactly the blocks that the table of tiers lists as hot, each once, and no
  more of them than \<^verbatim>\<open>maxHotBlocks\<close>, or one where that is 0; a write that succeeds has put its block at the front.
  The statement is about the table: the hot backend may hold further blocks, victims of a spill that the cold
  tier refused.\<close>

theorem tiered_invariant:
  assumes "tier_run (\<lambda>_ _. True) (small_block limit) (memory_backend crc) (file_backend crc limit io)
      (fresh_tiers hotCapacity root coldCapacity n) t g"
    "unat hotCapacity < 2 ^ 63" "op_small (small_block limit) a"
  shows "\<exists>r t'. tier_step (memory_backend crc) (file_backend crc limit io) t a = Inr (r, t') \<and> queue_ok t' \<and>
    (\<forall>k d. a = Write k d \<and> r = Inr d \<longrightarrow> (\<exists>q. ts_hotLruQueue t' = k # q))"
proof -
  have "tiers.inv crc limit t"
    using tiers.tier_run_inv [OF assms(1)] fresh_tiers_ok [OF assms(2)] by blast
  then show ?thesis
    using tiers.tier_step_ok [OF _ assms(3)] by (metis tiers.inv_def)
qed

theorem tiered_invariant_witness:
  "\<exists>r t'. tier_step hot_ops cold_ops small_tiers (Write 1 [7]) = Inr (r, t') \<and> queue_ok t'"
proof -
  have "tier_run (\<lambda>_ _. True) (small_block 100) hot_ops cold_ops small_tiers small_tiers Map.empty"
    by (rule tier_run.start)
  from tiered_invariant [OF this [unfolded small_tiers_def], where a = "Write 1 [7]"] show ?thesis
    unfolding small_tiers_def by (simp add: op_small_def small_block_def) blast
qed

text \<open>Where no call of the operating system fails, a block that was written is read back, with or without promotion,
  and a second read finds the same.\<close>

theorem tiered_write_read:
  assumes "tier_run ok (small_block limit) (memory_backend crc) (file_backend crc limit no_faults) (fresh_tiers hotCapacity root coldCapacity n) t g"
    "unat hotCapacity < 2 ^ 63" "small_block limit d"
    "ts_writeBlock (memory_backend crc) (file_backend crc limit no_faults) t k d = Inr (SE_Success, t1)"
  shows "\<exists>t2 t3. ts_readBlock (memory_backend crc) (file_backend crc limit no_faults) t1 k p = Inr (Inr d, t2) \<and>
     ts_readBlock (memory_backend crc) (file_backend crc limit no_faults) t2 k p' = Inr (Inr d, t3)"
proof -
  have "tiers.inv crc limit t"
    using tiers.tier_run_inv [OF assms(1)] fresh_tiers_ok [OF assms(2)] by blast
  then have "tiers.inv crc limit t1" "ts_content mb_content fb_content t1 k = Some d"
    using tiers.writes [OF _ assms(3), where k = k] assms(4) by (smt (verit) Inr_inject prod.inject)+
  then show ?thesis
    by (metis reliable.read_present)
qed

theorem tiered_write_read_witness:
  "\<exists>t1 t2 t3. ts_writeBlock hot_ops cold_ops small_tiers 1 [7] = Inr (SE_Success, t1) \<and>
     ts_readBlock hot_ops cold_ops t1 1 True = Inr (Inr [7], t2) \<and> ts_readBlock hot_ops cold_ops t2 1 False = Inr (Inr [7], t3)"
proof -
  obtain t1 where "ts_writeBlock hot_ops cold_ops small_tiers 1 [7] = Inr (SE_Success, t1)"
    by (rule small_write)
  with tiered_write_read [OF tier_run.start _ _ this [unfolded small_tiers_def], of True False] show ?thesis
    by (auto simp: small_block_def)
qed

text \<open>A write to a block of the cold tier removes the old data first: when the hot tier then refuses the new data,
  the block is lost.\<close>

theorem tiered_failed_write_loses_block:
  "bind_cpp (ts_writeBlock (memory_backend (\<lambda>_. 0)) (memory_backend (\<lambda>_. 0))
      (newTieredStorageManager (newMemoryStorageBackend 2) (newMemoryStorageBackend 100) 1) 1 [7]) (\<lambda>(_, t).
   bind_cpp (demoteBlock (memory_backend (\<lambda>_. 0)) (memory_backend (\<lambda>_. 0)) t 1) (\<lambda>(_, t).
   bind_cpp (ts_writeBlock (memory_backend (\<lambda>_. 0)) (memory_backend (\<lambda>_. 0)) t 1 [1, 2, 3]) (\<lambda>(e, t).
   bind_cpp (ts_readBlock (memory_backend (\<lambda>_. 0)) (memory_backend (\<lambda>_. 0)) t 1 False) (\<lambda>(r, _).
   Inr (e, r))))) = Inr (SE_CapacityExceeded, Inl SE_NotFound)"
  by code_simp

text \<open>Rewriting the least recently used block leaves its old data in the cold tier, and promoting the block then brings the
  old data back.\<close>

theorem tiered_promote_rolls_back:
  "bind_cpp (ts_writeBlock (memory_backend (\<lambda>_. 0)) (memory_backend (\<lambda>_. 0))
      (newTieredStorageManager (newMemoryStorageBackend 100) (newMemoryStorageBackend 100) 1) 1 [7]) (\<lambda>(_, t).
   bind_cpp (ts_writeBlock (memory_backend (\<lambda>_. 0)) (memory_backend (\<lambda>_. 0)) t 1 [8]) (\<lambda>(e, t).
   bind_cpp (promoteBlock (memory_backend (\<lambda>_. 0)) (memory_backend (\<lambda>_. 0)) t 1) (\<lambda>(e', t).
   bind_cpp (ts_readBlock (memory_backend (\<lambda>_. 0)) (memory_backend (\<lambda>_. 0)) t 1 False) (\<lambda>(r, _).
   Inr (e, e', r))))) = Inr (SE_Success, SE_Success, Inr [7])"
  by code_simp

end
