(* ===== verification/Crypto_Engines.thy ===== *)
theory Crypto_Engines
  imports Compression
begin

text \<open>
  \<^verbatim>\<open>crypto/HashEngine\<close> and \<^verbatim>\<open>crypto/EncryptionEngine\<close>.

  OpenSSL is the parameter \<open>ssl\<close>, \<open>None\<close> for a build without it: the AES-256-GCM calls of one encryption or
  decryption taken together, which fail when one of them does, and PBKDF2.  The random bytes a call
  of \<^verbatim>\<open>RAND_bytes\<close> delivers are an argument, \<open>None\<close> when it fails.  \<open>gcm_law\<close> is what the
  documentation promises of a round trip.  The message digests are the parameter \<open>digest\<close>.
\<close>

section \<open>HashEngine\<close>

text \<open>The context: the bytes absorbed, or a context that was finalised, after which OpenSSL allows no further use.\<close>

datatype hash_ctx = Absorbed "byte list" | Finalised

record HashEngine =
  he_algo :: HashAlgorithm
  he_ctx :: "hash_ctx option"

definition he_initContext :: "bool \<Rightarrow> HashEngine \<Rightarrow> HashEngine" where
  "he_initContext has_ssl e = e\<lparr>he_ctx := (if has_ssl then Some (Absorbed []) else None)\<rparr>"

definition newHashEngine :: "bool \<Rightarrow> HashAlgorithm \<Rightarrow> HashEngine" where
  "newHashEngine has_ssl algo = he_initContext has_ssl \<lparr>he_algo = algo, he_ctx = None\<rparr>"

definition he_destroyContext :: "HashEngine \<Rightarrow> HashEngine" where
  "he_destroyContext e = e\<lparr>he_ctx := None\<rparr>"

definition he_reset :: "bool \<Rightarrow> HashEngine \<Rightarrow> HashEngine" where
  "he_reset has_ssl e = he_initContext has_ssl (he_destroyContext e)"

definition he_update :: "HashEngine \<Rightarrow> byte list \<Rightarrow> HashEngine cpp" where
  "he_update e bs =
     (case he_ctx e of
        None \<Rightarrow> Inr e
      | Some ctx \<Rightarrow>
          if length bs > 0 then
            case ctx of
              Absorbed absorbed \<Rightarrow> Inr (e\<lparr>he_ctx := Some (Absorbed (absorbed @ bs))\<rparr>)
            | Finalised \<Rightarrow> Inl Undefined_behaviour
          else Inr e)"

text \<open>The digest used for an algorithm: \<^verbatim>\<open>Blake3\<close> is BLAKE2b with 64 bytes of output, everything else SHA-256.\<close>

definition digest_size :: "HashAlgorithm \<Rightarrow> nat" where
  "digest_size algo = (case algo of Blake3 \<Rightarrow> 64 | _ \<Rightarrow> 32)"

definition md_of :: "HashAlgorithm \<Rightarrow> HashAlgorithm" where
  "md_of algo = (case algo of SHA256 \<Rightarrow> SHA256 | Blake3 \<Rightarrow> Blake3 | _ \<Rightarrow> SHA256)"

text \<open>The digest is written to the 32 bytes of a \<^verbatim>\<open>ChecksumValue\<close>.\<close>

definition he_finalize :: "digest_fn \<Rightarrow> HashEngine \<Rightarrow> (ChecksumValue \<times> HashEngine) cpp" where
  "he_finalize digest e =
     (case he_ctx e of
        None \<Rightarrow> Inr (zero_checksum, e)
      | Some (Absorbed absorbed) \<Rightarrow>
          if digest_size (md_of (he_algo e)) > length zero_checksum then Inl Undefined_behaviour
          else Inr (digest (md_of (he_algo e)) absorbed, e\<lparr>he_ctx := Some Finalised\<rparr>)
      | Some Finalised \<Rightarrow> Inl Undefined_behaviour)"

fun he_update_all :: "HashEngine \<Rightarrow> byte list list \<Rightarrow> HashEngine cpp" where
  "he_update_all e [] = Inr e"
| "he_update_all e (bs # bufs) = bind_cpp (he_update e bs) (\<lambda>e. he_update_all e bufs)"

definition he_hash :: "bool \<Rightarrow> digest_fn \<Rightarrow> byte list \<Rightarrow> HashAlgorithm \<Rightarrow> ChecksumValue cpp" where
  "he_hash has_ssl digest data algo =
     bind_cpp (he_update (newHashEngine has_ssl algo) data) (\<lambda>e. bind_cpp (he_finalize digest e) (\<lambda>(h, _). Inr h))"

definition he_hash_buffers :: "bool \<Rightarrow> digest_fn \<Rightarrow> byte list list \<Rightarrow> HashAlgorithm \<Rightarrow> ChecksumValue cpp" where
  "he_hash_buffers has_ssl digest bufs algo =
     bind_cpp (he_update_all (newHashEngine has_ssl algo) bufs) (\<lambda>e. bind_cpp (he_finalize digest e) (\<lambda>(h, _). Inr h))"

text \<open>\<open>reads\<close> is what the calls of \<^verbatim>\<open>read\<close> return up to the end of the file, \<open>None\<close> when it cannot be opened.\<close>

definition hashFile :: "bool \<Rightarrow> digest_fn \<Rightarrow> byte list list option \<Rightarrow> HashAlgorithm \<Rightarrow> ChecksumValue cpp" where
  "hashFile has_ssl digest reads algo =
     (case reads of None \<Rightarrow> Inr zero_checksum | Some pieces \<Rightarrow> he_hash_buffers has_ssl digest pieces algo)"

definition he_verify :: "bool \<Rightarrow> digest_fn \<Rightarrow> byte list \<Rightarrow> ChecksumValue \<Rightarrow> HashAlgorithm \<Rightarrow> bool cpp" where
  "he_verify has_ssl digest data expected algo = bind_cpp (he_hash has_ssl digest data algo) (\<lambda>computed. Inr (computed = expected))"

definition outputSize :: "HashEngine \<Rightarrow> nat" where
  "outputSize e = (case he_algo e of CRC32 \<Rightarrow> 4 | SHA256 \<Rightarrow> 32 | Blake3 \<Rightarrow> 64)"

lemma he_update_Absorbed:
  "he_ctx e = Some (Absorbed xs) \<Longrightarrow> he_update e bs = Inr (e\<lparr>he_ctx := Some (Absorbed (xs @ bs))\<rparr>)"
  by (cases e) (auto simp: he_update_def)

lemma he_update_all_Absorbed:
  "he_ctx e = Some (Absorbed xs) \<Longrightarrow> he_update_all e bufs = Inr (e\<lparr>he_ctx := Some (Absorbed (xs @ concat bufs))\<rparr>)"
  by (induction bufs arbitrary: e xs) (auto simp: he_update_Absorbed)

lemma he_update_all_None: "he_ctx e = None \<Longrightarrow> he_update_all e bufs = Inr e"
  by (induction bufs) (auto simp: he_update_def)

text \<open>Hashing several buffers, or a file however the reads cut it, is hashing the bytes in one piece.\<close>

theorem hash_pieces: "he_hash_buffers has_ssl digest bufs algo = he_hash has_ssl digest (concat bufs) algo"
proof (cases has_ssl)
  case True
  then have "he_ctx (newHashEngine has_ssl algo) = Some (Absorbed [])"
    by (simp add: newHashEngine_def he_initContext_def)
  then show ?thesis
    by (simp add: he_hash_buffers_def he_hash_def he_update_all_Absorbed he_update_Absorbed)
next
  case False
  then have "he_ctx (newHashEngine has_ssl algo) = None"
    by (simp add: newHashEngine_def he_initContext_def)
  then show ?thesis
    by (simp add: he_hash_buffers_def he_hash_def he_update_all_None he_update_def)
qed

text \<open>Hashing with \<^verbatim>\<open>Blake3\<close> writes 64 bytes into a 32-byte value; every other algorithm gives SHA-256, and a build
  without OpenSSL gives zero.\<close>

theorem hash_outcome:
  "he_hash has_ssl digest data algo =
     (if \<not> has_ssl then Inr zero_checksum else if algo = Blake3 then Inl Undefined_behaviour else Inr (digest SHA256 data))"
  by (cases algo)
    (auto simp: he_hash_def newHashEngine_def he_initContext_def he_update_def he_finalize_def md_of_def digest_size_def
      zero_checksum_def)


section \<open>EncryptionEngine\<close>

record openssl =
  gcm_seal :: "byte list \<Rightarrow> byte list \<Rightarrow> byte list \<Rightarrow> (byte list \<times> byte list) option"          \<comment> \<open>key, IV, data: ciphertext and tag\<close>
  gcm_open :: "byte list \<Rightarrow> byte list \<Rightarrow> byte list \<Rightarrow> byte list \<Rightarrow> byte list option"         \<comment> \<open>key, IV, ciphertext, tag: data\<close>
  PKCS5_PBKDF2_HMAC :: "string \<Rightarrow> byte list \<Rightarrow> int \<Rightarrow> byte list option"

definition kAESKeyLength :: nat where "kAESKeyLength = 32"
definition kAESIVLength :: nat where "kAESIVLength = 12"
definition kAESTagLength :: nat where "kAESTagLength = 16"

record EncryptionConfig =
  ec_algorithm :: EncryptionAlgorithm
  ec_key :: "byte list"
  ec_keyDerivation :: bool
  ec_password :: string
  ec_pbkdf2Iterations :: int

definition newEncryptionConfig :: "EncryptionAlgorithm \<Rightarrow> EncryptionConfig" where
  "newEncryptionConfig algorithm =
     \<lparr>ec_algorithm = algorithm, ec_key = replicate kAESKeyLength 0, ec_keyDerivation = False, ec_password = [],
      ec_pbkdf2Iterations = 100000\<rparr>"

datatype crypto_ec = Crypto_ok | Crypto_EncryptionError | Crypto_not_enough_memory

record CryptoResult =
  xr_data :: "byte list"
  xr_iv :: "byte list"
  xr_tag :: "byte list"
  xr_success :: bool
  xr_ec :: crypto_ec

definition newCryptoResult :: CryptoResult where
  "newCryptoResult = \<lparr>xr_data = [], xr_iv = replicate kAESIVLength 0, xr_tag = replicate kAESTagLength 0, xr_success = False, xr_ec = Crypto_ok\<rparr>"

definition crypto_failure :: CryptoResult where
  "crypto_failure = newCryptoResult\<lparr>xr_ec := Crypto_EncryptionError\<rparr>"

text \<open>\<open>ee_ctx\<close> says whether the engine owns a cipher context.\<close>

record EncryptionEngine =
  ee_config :: EncryptionConfig
  ee_ctx :: bool

definition ee_initContext :: "openssl option \<Rightarrow> EncryptionEngine \<Rightarrow> EncryptionEngine" where
  "ee_initContext ssl e = (if ssl \<noteq> None \<and> ec_algorithm (ee_config e) = AES256GCM then e\<lparr>ee_ctx := True\<rparr> else e)"

definition ee_destroyContext :: "EncryptionEngine \<Rightarrow> EncryptionEngine" where
  "ee_destroyContext e = e\<lparr>ee_ctx := False\<rparr>"

definition newEncryptionEngine :: "openssl option \<Rightarrow> EncryptionConfig \<Rightarrow> EncryptionEngine" where
  "newEncryptionEngine ssl config = ee_initContext ssl \<lparr>ee_config = config, ee_ctx = False\<rparr>"

text \<open>The length of the data is cast to \<^verbatim>\<open>int\<close>: OpenSSL refuses a negative one and encrypts only so many bytes
  otherwise.  It reads 12 bytes of the IV and 16 of the tag.\<close>

definition ee_encrypt_iv :: "openssl option \<Rightarrow> nat \<Rightarrow> EncryptionEngine \<Rightarrow> byte list \<Rightarrow> byte list \<Rightarrow> CryptoResult cpp" where
  "ee_encrypt_iv ssl limit e data iv =
     (case ssl of
        None \<Rightarrow> Inr crypto_failure
      | Some lib \<Rightarrow>
          if \<not> ee_ctx e then Inr crypto_failure
          else if ec_algorithm (ee_config e) = ENone then Inr (newCryptoResult\<lparr>xr_data := data, xr_success := True\<rparr>)
          else if length data + 48 > limit then Inl Alloc_failure
          else if length iv < kAESIVLength then Inl Undefined_behaviour
          else if to_int32 (length data) < 0 then Inr crypto_failure
          else
            case gcm_seal lib (ec_key (ee_config e)) (take kAESIVLength iv) (take (nat (to_int32 (length data))) data) of
              None \<Rightarrow> Inr crypto_failure
            | Some (cipher, tag) \<Rightarrow>
                Inr (newCryptoResult\<lparr>xr_data := take kAESIVLength iv @ cipher @ tag, xr_iv := take kAESIVLength iv, xr_tag := tag,
                  xr_success := True\<rparr>))"

definition generateIV :: "openssl option \<Rightarrow> byte list option \<Rightarrow> byte list" where
  "generateIV ssl rand =
     (case ssl of None \<Rightarrow> replicate kAESIVLength 0
      | Some _ \<Rightarrow> (case rand of None \<Rightarrow> replicate kAESIVLength 0 | Some bytes \<Rightarrow> bytes))"

definition generateKey :: "openssl option \<Rightarrow> byte list option \<Rightarrow> byte list" where
  "generateKey ssl rand =
     (case ssl of None \<Rightarrow> replicate kAESKeyLength 0
      | Some _ \<Rightarrow> (case rand of None \<Rightarrow> replicate kAESKeyLength 0 | Some bytes \<Rightarrow> bytes))"

definition generateSalt :: "openssl option \<Rightarrow> byte list option \<Rightarrow> nat \<Rightarrow> byte list" where
  "generateSalt ssl rand len =
     (case ssl of None \<Rightarrow> []
      | Some _ \<Rightarrow> (case rand of None \<Rightarrow> replicate len 0 | Some bytes \<Rightarrow> bytes))"

definition ee_encrypt :: "openssl option \<Rightarrow> nat \<Rightarrow> byte list option \<Rightarrow> EncryptionEngine \<Rightarrow> byte list \<Rightarrow> CryptoResult cpp" where
  "ee_encrypt ssl limit rand e data =
     (if ssl = None then Inr crypto_failure else ee_encrypt_iv ssl limit e data (generateIV ssl rand))"

definition ee_decrypt :: "openssl option \<Rightarrow> nat \<Rightarrow> EncryptionEngine \<Rightarrow> byte list \<Rightarrow> byte list \<Rightarrow> byte list \<Rightarrow> CryptoResult cpp" where
  "ee_decrypt ssl limit e encryptedData iv tag =
     (case ssl of
        None \<Rightarrow> Inr crypto_failure
      | Some lib \<Rightarrow>
          if \<not> ee_ctx e then Inr crypto_failure
          else if ec_algorithm (ee_config e) = ENone then Inr (newCryptoResult\<lparr>xr_data := encryptedData, xr_success := True\<rparr>)
          else if length encryptedData + 16 > limit then Inl Alloc_failure
          else if length iv < kAESIVLength \<or> length tag < kAESTagLength then Inl Undefined_behaviour
          else if to_int32 (length encryptedData) < 0 then Inr crypto_failure
          else
            case gcm_open lib (ec_key (ee_config e)) (take kAESIVLength iv) (take (nat (to_int32 (length encryptedData))) encryptedData)
                   (take kAESTagLength tag) of
              None \<Rightarrow> Inr crypto_failure
            | Some plain \<Rightarrow> Inr (newCryptoResult\<lparr>xr_data := plain, xr_success := True\<rparr>))"

definition deriveKey :: "openssl option \<Rightarrow> string \<Rightarrow> byte list \<Rightarrow> int \<Rightarrow> byte list" where
  "deriveKey ssl password salt iterations =
     (case ssl of None \<Rightarrow> replicate kAESKeyLength 0
      | Some lib \<Rightarrow> (case PKCS5_PBKDF2_HMAC lib password salt iterations of None \<Rightarrow> replicate kAESKeyLength 0 | Some key \<Rightarrow> key))"

definition setKey :: "EncryptionEngine \<Rightarrow> byte list \<Rightarrow> EncryptionEngine" where
  "setKey e key =
     (let n = min (length key) (length (ec_key (ee_config e)))
      in e\<lparr>ee_config := (ee_config e)\<lparr>ec_key := take n key @ drop n (ec_key (ee_config e))\<rparr>\<rparr>)"

definition setPassword :: "openssl option \<Rightarrow> EncryptionEngine \<Rightarrow> string \<Rightarrow> byte list \<Rightarrow> EncryptionEngine" where
  "setPassword ssl e password salt =
     e\<lparr>ee_config := (ee_config e)\<lparr>ec_password := password, ec_keyDerivation := True,
       ec_key := deriveKey ssl password salt 100000\<rparr>\<rparr>"

definition isReady :: "openssl option \<Rightarrow> EncryptionEngine \<Rightarrow> bool" where
  "isReady ssl e \<longleftrightarrow> ssl \<noteq> None \<and> ee_ctx e \<and> ec_algorithm (ee_config e) \<noteq> ENone"

section \<open>The scratch buffer\<close>

text \<open>The buffer of a thread: the size of the block it points to, \<open>None\<close> for the null pointer, and the size
  recorded beside it.\<close>

record ScratchBuf =
  sb_buf :: "nat option"
  sb_size :: nat

definition newScratchBuf :: ScratchBuf where
  "newScratchBuf = \<lparr>sb_buf = None, sb_size = 0\<rparr>"

definition ensureScratchBuf :: "nat \<Rightarrow> ScratchBuf \<Rightarrow> nat \<Rightarrow> ScratchBuf" where
  "ensureScratchBuf limit sb needed =
     (let sb = (if sb_buf sb \<noteq> None \<and> sb_size sb < needed then sb\<lparr>sb_buf := None\<rparr> else sb) in
      if sb_buf sb = None then \<lparr>sb_buf = (if needed > limit then None else Some needed), sb_size = needed\<rparr> else sb)"

definition encryptWithScratch :: "nat \<Rightarrow> ScratchBuf \<Rightarrow> byte list \<Rightarrow> (CryptoResult \<times> ScratchBuf) cpp" where
  "encryptWithScratch limit sb data =
     (let sb = ensureScratchBuf limit sb (length data + 256) in
      case sb_buf sb of
        None \<Rightarrow> Inr (newCryptoResult\<lparr>xr_ec := Crypto_not_enough_memory\<rparr>, sb)
      | Some n \<Rightarrow>
          if length data > n then Inl Undefined_behaviour
          else if length data > 1024 * 1024 then Inr (crypto_failure, \<lparr>sb_buf = None, sb_size = 0\<rparr>)
          else Inr (newCryptoResult\<lparr>xr_data := data, xr_success := True\<rparr>, sb))"

section \<open>Properties\<close>

text \<open>What the library promises: the ciphertext is as long as the data, in both directions, the tag has 16 bytes, and what
  was sealed can be opened.\<close>

definition gcm_law :: "openssl \<Rightarrow> bool" where
  "gcm_law lib \<longleftrightarrow>
     (\<forall>key iv data cipher tag. gcm_seal lib key iv data = Some (cipher, tag) \<longrightarrow>
       length cipher = length data \<and> length tag = 16 \<and> gcm_open lib key iv cipher tag = Some data) \<and>
     (\<forall>key iv cipher tag data. gcm_open lib key iv cipher tag = Some data \<longrightarrow> length data = length cipher)"

lemma to_int32_negative:
  assumes "2 ^ 31 \<le> n" "n < 2 ^ 32"
  shows "to_int32 n < 0"
proof -
  have "int n div 2 ^ 31 = 1"
    using assms by (intro int_div_pos_eq [where r = "int n - 2 ^ 31"]) auto
  then have "bit (int n) 31"
    by (simp add: bit_iff_odd)
  then show ?thesis
    by (simp add: to_int32_def signed_of_nat)
qed


text \<open>A cipher that leaves the data as it is.\<close>

definition plain_ssl :: openssl where
  "plain_ssl = \<lparr>gcm_seal = \<lambda>key iv data. Some (data, replicate 16 0), gcm_open = \<lambda>key iv cipher tag. Some cipher,
     PKCS5_PBKDF2_HMAC = \<lambda>password salt iterations. None\<rparr>"


text \<open>An engine encrypts only with AES-256-GCM: with every other algorithm, \<^verbatim>\<open>None\<close> included, it fails, since it has no
  context.\<close>

theorem encryption_other_algorithm:
  "ec_algorithm config \<noteq> AES256GCM \<Longrightarrow>
   ee_encrypt ssl limit rand (newEncryptionEngine ssl config) data = Inr crypto_failure"
  by (simp add: ee_encrypt_def ee_encrypt_iv_def newEncryptionEngine_def ee_initContext_def split: option.split)

theorem encryption_other_algorithm_witness:
  "ee_encrypt (Some plain_ssl) 100 None (newEncryptionEngine (Some plain_ssl) (newEncryptionConfig ENone)) [1] = Inr crypto_failure"
  by (rule encryption_other_algorithm) (simp add: newEncryptionConfig_def)

text \<open>The engine with the scratch buffer never writes outside it, however it is used, and returns the data
  unencrypted.\<close>

definition scratch_ok :: "ScratchBuf \<Rightarrow> bool" where
  "scratch_ok sb \<longleftrightarrow> (sb_buf sb = None \<or> sb_buf sb = Some (sb_size sb))"

theorem scratch_safe:
  assumes "scratch_ok sb"
  shows "\<exists>r sb'. encryptWithScratch limit sb data = Inr (r, sb') \<and> scratch_ok sb' \<and> (xr_success r \<longrightarrow> xr_data r = data)"
  using assms
  by (auto simp: encryptWithScratch_def ensureScratchBuf_def scratch_ok_def Let_def crypto_failure_def newCryptoResult_def split: option.split)

theorem scratch_safe_witness:
  "\<exists>r sb'. encryptWithScratch 1000 newScratchBuf [1, 2] = Inr (r, sb') \<and> scratch_ok sb' \<and> (xr_success r \<longrightarrow> xr_data r = [1, 2])"
  by (rule scratch_safe) (simp add: scratch_ok_def newScratchBuf_def)

end
