(* ===== verification/Archive_Writer.thy ===== *)
theory Archive_Writer
  imports Crypto_Engines Archive_Header Metadata_Store File_Resolver Chunk_Store Journal
begin

text \<open>
  \<^verbatim>\<open>archive/ArchiveWriter\<close>: the writer puts the data of the entries behind the space of the header, collects
  the directory tree, the index and the journal, and on closing appends the sections and writes the
  header.

  The output stream is its content, its position and its error state; a write that would take the file beyond
  \<open>ev_disk\<close> bytes fails at once.  The buffer of \<^verbatim>\<open>std::ofstream\<close> is not modelled: in the program a full disk may show only when
  the buffer is flushed, at the latest in \<^verbatim>\<open>file_.close()\<close>, whose failure \<^verbatim>\<open>ArchiveWriter::close\<close> ignores.  \<open>env\<close> is what the writer and the reader are built on: the compression libraries, the
  largest allocation, OpenSSL, the digests, the CRC-32, the space on the disk and, for the parser of the reader, the depth of the
  stack and the growth of the global storage of the chunk manager.  The clock, the random bytes, the content of source files, the
  iteration order of the metadata and what the directory iterator finds are arguments of the calls
  that use them.  Progress callbacks return nothing and are left out.
\<close>

record archive_env =
  ev_libs :: codec_libs
  ev_limit :: nat
  ev_ssl :: "openssl option"
  ev_digest :: digest_fn
  ev_crc :: "byte list \<Rightarrow> u32"
  ev_disk :: nat
  ev_stack :: nat
  ev_grow :: "nat \<Rightarrow> nat"

section \<open>The output file\<close>

record OutFile =
  of_bytes :: "byte list"
  of_pos :: nat
  of_isOpen :: bool
  of_fail :: bool

definition newOutFile :: OutFile where
  "newOutFile = \<lparr>of_bytes = [], of_pos = 0, of_isOpen = False, of_fail = False\<rparr>"

text \<open>Writing behind the end fills the gap with zeros.\<close>

definition overwrite :: "byte list \<Rightarrow> nat \<Rightarrow> byte list \<Rightarrow> byte list" where
  "overwrite old pos new =
     (if new = [] then old else resize pos old @ new @ drop (pos + length new) old)"

definition of_write :: "nat \<Rightarrow> OutFile \<Rightarrow> byte list \<Rightarrow> OutFile" where
  "of_write disk f bytes =
     (if of_fail f \<or> \<not> of_isOpen f then f\<lparr>of_fail := True\<rparr>
      else if bytes \<noteq> [] \<and> of_pos f + length bytes > disk then f\<lparr>of_fail := True\<rparr>
      else f\<lparr>of_bytes := overwrite (of_bytes f) (of_pos f) bytes, of_pos := of_pos f + length bytes\<rparr>)"

definition of_seek :: "OutFile \<Rightarrow> nat \<Rightarrow> OutFile" where
  "of_seek f pos = (if of_fail f then f else f\<lparr>of_pos := pos\<rparr>)"

section \<open>The writer\<close>

record WriterConfig =
  wc_compression :: CompressionAlgorithm
  wc_compressionLevel :: int
  wc_encryption :: EncryptionAlgorithm
  wc_enableDedup :: bool
  wc_enableJournal :: bool
  wc_enableChecksum :: bool
  wc_dedupStrategy :: DedupStrategy
  wc_blockSize :: nat
  wc_chunkSize :: nat

definition default_WriterConfig :: WriterConfig where
  "default_WriterConfig =
     \<lparr>wc_compression = Zstd, wc_compressionLevel = 3, wc_encryption = ENone, wc_enableDedup = True, wc_enableJournal = True,
      wc_enableChecksum = True, wc_dedupStrategy = DedupContent, wc_blockSize = 65536, wc_chunkSize = kMaxChunkSize\<rparr>"

record ArchiveWriter =
  aw_config :: WriterConfig
  aw_path :: string
  aw_file :: OutFile
  aw_header :: ArchiveHeader
  aw_compression :: CompressionEngine
  aw_encryption :: "EncryptionEngine option"
  aw_chunkManager :: ChunkManager
  aw_indexManager :: IndexManager
  aw_metadata :: MetadataStore
  aw_directoryTree :: DirectoryTree
  aw_journal :: "JournalManager option"
  aw_entryCount :: u64
  aw_currentOffset :: u64
  aw_isOpen :: bool
  aw_finalized :: bool

definition engine_config :: "CompressionAlgorithm \<Rightarrow> int \<Rightarrow> CompressionConfig" where
  "engine_config algo level =
     \<lparr>cp_algorithm = algo, cp_compressionLevel = level, cp_blockSize = 65536, cp_enableChecksum = True, cp_workMemory = 0\<rparr>"

definition default_JournalConfig :: JournalConfig where
  "default_JournalConfig = \<lparr>jc_maxJournalSize = 64 * 1024 * 1024, jc_enableChecksums = True\<rparr>"

definition newArchiveWriter :: "archive_env \<Rightarrow> WriterConfig \<Rightarrow> ArchiveWriter" where
  "newArchiveWriter env config =
     \<lparr>aw_config = config, aw_path = [], aw_file = newOutFile, aw_header = newArchiveHeader,
      aw_compression = newCompressionEngine (engine_config (wc_compression config) (wc_compressionLevel config)),
      aw_encryption = (if wc_encryption config \<noteq> ENone
                       then Some (newEncryptionEngine (ev_ssl env) (newEncryptionConfig (wc_encryption config))) else None),
      aw_chunkManager = newChunkManager
        \<lparr>cc_dedupStrategy = wc_dedupStrategy config, cc_minChunkSize = kMinChunkSize, cc_maxChunkSize = wc_chunkSize config,
         cc_avgChunkSize = 65536, cc_hashAlgorithm = SHA256, cc_enableDedup = wc_enableDedup config\<rparr>,
      aw_indexManager = newIndexManager, aw_metadata = newMetadataStore, aw_directoryTree = newDirectoryTree,
      aw_journal = (if wc_enableJournal config then Some (newJournalManager default_JournalConfig) else None),
      aw_entryCount = 0, aw_currentOffset = 0, aw_isOpen = False, aw_finalized = False\<rparr>"

definition HeaderEncrypted :: u16 where "HeaderEncrypted = 0x0001"
definition HeaderJournaled :: u16 where "HeaderJournaled = 0x0002"
definition HeaderRecovery :: u16 where "HeaderRecovery = 0x0004"
definition HeaderDedup :: u16 where "HeaderDedup = 0x0020"
definition HeaderCompressed :: u16 where "HeaderCompressed = 0x0100"

definition open_flags :: "WriterConfig \<Rightarrow> u16" where
  "open_flags config =
     (let flags = 0;
          flags = (if wc_enableJournal config then flags OR HeaderJournaled else flags);
          flags = (if wc_enableDedup config then flags OR HeaderDedup else flags);
          flags = (if wc_compression config \<noteq> CNone then flags OR HeaderCompressed else flags)
      in if wc_encryption config \<noteq> ENone then flags OR HeaderEncrypted else flags)"

text \<open>\<open>opens\<close> says whether the file can be opened, which truncates it.\<close>

definition aw_open :: "bool \<Rightarrow> Timestamp \<Rightarrow> ArchiveWriter \<Rightarrow> string \<Rightarrow> ErrorCode \<times> ArchiveWriter" where
  "aw_open opens now w path =
     (if aw_isOpen w then (InvalidOperation, w)
      else
        let w = w\<lparr>aw_path := path\<rparr> in
        if \<not> opens then (IOError, w\<lparr>aw_file := (aw_file w)\<lparr>of_fail := True\<rparr>\<rparr>)
        else
          let currentOffset = size64 headerSize;
              header = setArchiveSize (setFlags (aw_header w) (open_flags (aw_config w))) currentOffset;
              file = of_seek \<lparr>of_bytes = [], of_pos = 0, of_isOpen = True, of_fail = False\<rparr> (unat currentOffset)
          in (Success, w\<lparr>aw_file := file, aw_header := header, aw_currentOffset := currentOffset,
               aw_journal := map_option (\<lambda>j. snd (beginCheckpoint now j)) (aw_journal w), aw_isOpen := True, aw_finalized := False\<rparr>))"

section \<open>Entries\<close>

text \<open>What is stored of the data: compressed, then encrypted, each step skipped when it fails.\<close>

definition process_data :: "archive_env \<Rightarrow> byte list option \<Rightarrow> ArchiveWriter \<Rightarrow> byte list \<Rightarrow> ArchiveEntry \<Rightarrow> (byte list \<times> ArchiveEntry) cpp" where
  "process_data env rand w data entry =
     bind_cpp
       (if wc_compression (aw_config w) \<noteq> CNone \<and> data \<noteq> [] then
          bind_cpp (en_compress (ev_libs env) (ev_limit env) (aw_compression w) data) (\<lambda>compResult.
          Inr (if cr_success compResult then (cr_data compResult, entry\<lparr>ae_compression := wc_compression (aw_config w)\<rparr>)
               else (data, entry)))
        else Inr (data, entry))
       (\<lambda>(processedData, entry).
        case aw_encryption w of
          Some engine \<Rightarrow>
            if wc_encryption (aw_config w) \<noteq> ENone \<and> data \<noteq> [] then
              bind_cpp (ee_encrypt (ev_ssl env) (ev_limit env) rand engine processedData) (\<lambda>encResult.
              Inr (if xr_success encResult then (xr_data encResult, entry) else (processedData, entry)))
            else Inr (processedData, entry)
        | None \<Rightarrow> Inr (processedData, entry))"

definition processAndWriteEntry :: "archive_env \<Rightarrow> Timestamp \<Rightarrow> byte list option \<Rightarrow> ArchiveWriter \<Rightarrow> byte list \<Rightarrow> ArchiveEntry \<Rightarrow>
    (ErrorCode \<times> ArchiveWriter) cpp" where
  "processAndWriteEntry env now rand w data entry =
     bind_cpp (process_data env rand w data entry) (\<lambda>(processedData, entry).
     let entry = entry\<lparr>ae_checksum := ce_compute (ev_digest env) SHA256 data, ae_storedSize := size64 (length processedData),
                       ae_offset := aw_currentOffset w\<rparr>;
         w = w\<lparr>aw_file := of_write (ev_disk env) (aw_file w) processedData\<rparr> in
     if of_fail (aw_file w) then Inr (IOError, w)
     else
       let w = w\<lparr>aw_currentOffset := aw_currentOffset w + size64 (length processedData)\<rparr>;
           (ec, tree) = dt_insert entry (aw_directoryTree w);
           w = w\<lparr>aw_directoryTree := tree\<rparr> in
       if ec \<noteq> Success then Inr (ec, w)
       else
         let w = w\<lparr>aw_indexManager := im_insert (aw_indexManager w) entry, aw_entryCount := aw_entryCount w + 1\<rparr>;
             w = w\<lparr>aw_header := setArchiveSize (setEntryCount (aw_header w) (aw_entryCount w)) (aw_currentOffset w + size64 headerSize),
                   aw_journal := map_option (\<lambda>j. snd (logCreate (ev_digest env) now (ae_id entry) processedData j)) (aw_journal w)\<rparr>
         in Inr (Success, w))"

definition new_entry :: "ArchiveWriter \<Rightarrow> Timestamp \<Rightarrow> EntryType \<Rightarrow> string \<Rightarrow> ArchiveEntry" where
  "new_entry w now type archivePath =
     default_entry\<lparr>ae_id := aw_entryCount w + 1, ae_type := type, ae_path := archivePath, ae_name := fileName archivePath,
       ae_createdAt := Some now, ae_modifiedAt := Some now\<rparr>"

definition aw_addFile :: "archive_env \<Rightarrow> Timestamp \<Rightarrow> byte list option \<Rightarrow> ArchiveWriter \<Rightarrow> byte list option \<Rightarrow> string \<Rightarrow>
    (ErrorCode \<times> ArchiveWriter) cpp" where
  "aw_addFile env now rand w source archivePath =
     (if \<not> aw_isOpen w then Inr (InvalidOperation, w)
      else
        case source of
          None \<Rightarrow> Inr (IOError, w)
        | Some data \<Rightarrow>
            if length data > ev_limit env then Inl Alloc_failure
            else
            let flags = 0;
                flags = (if wc_compression (aw_config w) \<noteq> CNone then flags OR 1 else flags);
                flags = (if wc_encryption (aw_config w) \<noteq> ENone then flags OR 2 else flags)
            in processAndWriteEntry env now rand w data
                 ((new_entry w now File archivePath)\<lparr>ae_originalSize := size64 (length data), ae_flags := flags\<rparr>))"

definition aw_addDirectory :: "archive_env \<Rightarrow> Timestamp \<Rightarrow> ArchiveWriter \<Rightarrow> string \<Rightarrow> Permissions \<Rightarrow> ErrorCode \<times> ArchiveWriter" where
  "aw_addDirectory env now w archivePath perms =
     (if \<not> aw_isOpen w then (InvalidOperation, w)
      else
        let entry = (new_entry w now Directory archivePath)\<lparr>ae_permissions := perms\<rparr>;
            (ec, tree) = dt_insert entry (aw_directoryTree w);
            w = w\<lparr>aw_directoryTree := tree\<rparr> in
        if ec \<noteq> Success then (ec, w)
        else (Success, w\<lparr>aw_indexManager := im_insert (aw_indexManager w) entry, aw_entryCount := aw_entryCount w + 1,
               aw_journal := map_option (\<lambda>j. snd (logCreate (ev_digest env) now (ae_id entry) [] j)) (aw_journal w)\<rparr>))"

definition aw_addSymlink :: "archive_env \<Rightarrow> Timestamp \<Rightarrow> byte list option \<Rightarrow> ArchiveWriter \<Rightarrow> string \<Rightarrow> string \<Rightarrow>
    (ErrorCode \<times> ArchiveWriter) cpp" where
  "aw_addSymlink env now rand w linkTarget archivePath =
     (if \<not> aw_isOpen w then Inr (InvalidOperation, w)
      else
        let targetData = bytes_of_string linkTarget
        in processAndWriteEntry env now rand w targetData
             ((new_entry w now Symlink archivePath)\<lparr>ae_originalSize := size64 (length targetData)\<rparr>))"

definition aw_addBlob :: "archive_env \<Rightarrow> Timestamp \<Rightarrow> byte list option \<Rightarrow> ArchiveWriter \<Rightarrow> byte list \<Rightarrow> string \<Rightarrow> EntryFlags \<Rightarrow>
    (ErrorCode \<times> ArchiveWriter) cpp" where
  "aw_addBlob env now rand w data archivePath flags =
     (if \<not> aw_isOpen w then Inr (InvalidOperation, w)
      else processAndWriteEntry env now rand w data
             ((new_entry w now Block archivePath)\<lparr>ae_originalSize := size64 (length data), ae_flags := flags OR 1\<rparr>))"

definition aw_writeData :: "archive_env \<Rightarrow> Timestamp \<Rightarrow> byte list option \<Rightarrow> ArchiveWriter \<Rightarrow> byte list \<Rightarrow> string \<Rightarrow>
    (ErrorCode \<times> ArchiveWriter) cpp" where
  "aw_writeData env now rand w data archivePath = aw_addBlob env now rand w data archivePath 0"

text \<open>What the recursive directory iterator finds: the path, which starts with the source directory, and the kind of the entry.\<close>

datatype dir_item = Dir_item string | Link_item string string | File_item string "byte list option" | Other_item string

fun add_items :: "archive_env \<Rightarrow> Timestamp \<Rightarrow> byte list option \<Rightarrow> string \<Rightarrow> string \<Rightarrow> ArchiveWriter \<Rightarrow> dir_item list \<Rightarrow>
    (ErrorCode \<times> ArchiveWriter) cpp" where
  "add_items env now rand sourceDir archiveRoot w [] = Inr (Success, w)"
| "add_items env now rand sourceDir archiveRoot w (item # items) =
     bind_cpp
       (let target = (\<lambda>path. archiveRoot @ drop (length sourceDir) path) in
        case item of
          Dir_item path \<Rightarrow> Inr (aw_addDirectory env now w (target path) default_permissions)
        | Link_item path link \<Rightarrow> aw_addSymlink env now rand w link (target path)
        | File_item path content \<Rightarrow> aw_addFile env now rand w content (target path)
        | Other_item path \<Rightarrow> Inr (Success, w))
       (\<lambda>(ec, w). if ec \<noteq> Success then Inr (ec, w) else add_items env now rand sourceDir archiveRoot w items)"

text \<open>\<open>found\<close> is \<open>None\<close> when the source directory does not exist.\<close>

definition aw_addDirectoryTree :: "archive_env \<Rightarrow> Timestamp \<Rightarrow> byte list option \<Rightarrow> ArchiveWriter \<Rightarrow> string \<Rightarrow> string \<Rightarrow> dir_item list option \<Rightarrow>
    (ErrorCode \<times> ArchiveWriter) cpp" where
  "aw_addDirectoryTree env now rand w sourceDir archiveRoot found =
     (if \<not> aw_isOpen w then Inr (InvalidOperation, w)
      else
        case found of
          None \<Rightarrow> Inr (EntryNotFound, w)
        | Some items \<Rightarrow>
            let (ec, w) = aw_addDirectory env now w (if archiveRoot = [] then ''/'' else archiveRoot) default_permissions in
            if ec \<noteq> Success then Inr (ec, w) else add_items env now rand sourceDir archiveRoot w items)"

section \<open>Settings\<close>

definition aw_setMetadata :: "ArchiveWriter \<Rightarrow> string \<Rightarrow> byte list \<Rightarrow> ArchiveWriter" where
  "aw_setMetadata w key v = w\<lparr>aw_metadata := ms_set (aw_metadata w) key v\<rparr>"

definition aw_setMetadata_string :: "ArchiveWriter \<Rightarrow> string \<Rightarrow> string \<Rightarrow> ArchiveWriter" where
  "aw_setMetadata_string w key v = w\<lparr>aw_metadata := ms_set_string (aw_metadata w) key v\<rparr>"

definition aw_setEncryptionKey :: "ArchiveWriter \<Rightarrow> byte list \<Rightarrow> ArchiveWriter" where
  "aw_setEncryptionKey w key = w\<lparr>aw_encryption := map_option (\<lambda>e. setKey e key) (aw_encryption w)\<rparr>"

definition aw_setCompression :: "ArchiveWriter \<Rightarrow> CompressionAlgorithm \<Rightarrow> int \<Rightarrow> ArchiveWriter" where
  "aw_setCompression w algo level =
     w\<lparr>aw_config := (aw_config w)\<lparr>wc_compression := algo, wc_compressionLevel := level\<rparr>,
       aw_compression := newCompressionEngine (engine_config algo level)\<rparr>"

definition estimatedArchiveSize :: "ArchiveWriter \<Rightarrow> u64" where
  "estimatedArchiveSize w = aw_currentOffset w"

text \<open>The second component says whether the file is removed.\<close>

definition aw_abort :: "ArchiveWriter \<Rightarrow> ArchiveWriter \<times> bool" where
  "aw_abort w =
     (if aw_isOpen w then (w\<lparr>aw_file := (aw_file w)\<lparr>of_isOpen := False\<rparr>, aw_isOpen := False, aw_finalized := True\<rparr>, True)
      else (w, False))"

section \<open>Closing\<close>

definition writeHeader :: "archive_env \<Rightarrow> ArchiveWriter \<Rightarrow> ErrorCode \<times> ArchiveWriter" where
  "writeHeader env w =
     (let w = w\<lparr>aw_header := updateChecksum (ev_crc env) (aw_header w)\<rparr>;
          w = w\<lparr>aw_file := of_write (ev_disk env) (of_seek (aw_file w) 0) (ah_serialize (aw_header w))\<rparr>
      in if of_fail (aw_file w) then (IOError, w) else (Success, w))"

text \<open>The part the section writers share: the bytes are written and counted.\<close>

definition write_section :: "archive_env \<Rightarrow> ArchiveWriter \<Rightarrow> byte list \<Rightarrow> ErrorCode \<times> ArchiveWriter" where
  "write_section env w bytes =
     (let w = w\<lparr>aw_file := of_write (ev_disk env) (aw_file w) bytes\<rparr> in
      if of_fail (aw_file w) then (IOError, w)
      else (Success, w\<lparr>aw_currentOffset := aw_currentOffset w + size64 (length bytes)\<rparr>))"

definition writeMetadataSection :: "archive_env \<Rightarrow> (string \<times> byte list) list \<Rightarrow> ArchiveWriter \<Rightarrow> ErrorCode \<times> ArchiveWriter" where
  "writeMetadataSection env it w =
     (let metadataData = ms_serialize it;
          w = w\<lparr>aw_header := setMetadataSize (setMetadataOffset (aw_header w) (aw_currentOffset w)) (size64 (length metadataData))\<rparr>
      in write_section env w metadataData)"

definition writeDirectorySection :: "archive_env \<Rightarrow> ArchiveWriter \<Rightarrow> ErrorCode \<times> ArchiveWriter" where
  "writeDirectorySection env w =
     (let dirData = dt_serialize (aw_directoryTree w);
          w = w\<lparr>aw_header := setDirectorySize (setDirectoryOffset (aw_header w) (aw_currentOffset w)) (size64 (length dirData))\<rparr>
      in write_section env w dirData)"

definition writeIndexSection :: "archive_env \<Rightarrow> ArchiveWriter \<Rightarrow> ErrorCode \<times> ArchiveWriter" where
  "writeIndexSection env w =
     (let indexData = im_serialize (aw_indexManager w);
          w = w\<lparr>aw_header := setIndexSize (setIndexOffset (aw_header w) (aw_currentOffset w)) (size64 (length indexData))\<rparr>
      in write_section env w indexData)"

definition writeChunkSection :: "archive_env \<Rightarrow> ArchiveWriter \<Rightarrow> ErrorCode \<times> ArchiveWriter" where
  "writeChunkSection env w =
     (let chunkData = cm_serialize (aw_chunkManager w);
          w = w\<lparr>aw_header := setChunkSize (setChunkOffset (aw_header w) (aw_currentOffset w)) (size64 (length chunkData))\<rparr>
      in write_section env w chunkData)"

definition writeBlocksSection :: "ArchiveWriter \<Rightarrow> ErrorCode \<times> ArchiveWriter" where
  "writeBlocksSection w =
     (Success, w\<lparr>aw_header := setBlocksSize (setBlocksOffset (aw_header w) (aw_currentOffset w)) 0\<rparr>)"

definition writeJournalSection :: "archive_env \<Rightarrow> Timestamp \<Rightarrow> ArchiveWriter \<Rightarrow> ErrorCode \<times> ArchiveWriter" where
  "writeJournalSection env now w =
     (case aw_journal w of
        None \<Rightarrow> (Success, w)
      | Some journal \<Rightarrow>
          let journal = snd (endCheckpoint now journal);
              journalData = jm_serialize journal;
              w = w\<lparr>aw_journal := Some journal,
                    aw_header := setJournalSize (setJournalOffset (aw_header w) (aw_currentOffset w)) (size64 (length journalData))\<rparr>
          in write_section env w journalData)"

text \<open>\<^verbatim>\<open>ec = f(); if (ec) return ec;\<close>\<close>

definition and_then :: "ErrorCode \<times> 's \<Rightarrow> ('s \<Rightarrow> ErrorCode \<times> 's) \<Rightarrow> ErrorCode \<times> 's" where
  "and_then r f = (if fst r \<noteq> Success then r else f (snd r))"

definition finalizeArchive :: "archive_env \<Rightarrow> Timestamp \<Rightarrow> (string \<times> byte list) list \<Rightarrow> ArchiveWriter \<Rightarrow> ErrorCode \<times> ArchiveWriter" where
  "finalizeArchive env now it w =
     (let w = w\<lparr>aw_journal := map_option (\<lambda>j. snd (jm_commit now j)) (aw_journal w)\<rparr> in
      and_then (writeMetadataSection env it w) (\<lambda>w.
      and_then (writeDirectorySection env w) (\<lambda>w.
      and_then (writeIndexSection env w) (\<lambda>w.
      and_then (writeChunkSection env w) (\<lambda>w.
      and_then (writeBlocksSection w) (\<lambda>w.
      and_then (writeJournalSection env now w) (\<lambda>w.
      writeHeader env (w\<lparr>aw_header := setArchiveSize (aw_header w) (aw_currentOffset w)\<rparr>))))))))"

definition aw_close :: "archive_env \<Rightarrow> Timestamp \<Rightarrow> (string \<times> byte list) list \<Rightarrow> ArchiveWriter \<Rightarrow> ErrorCode \<times> ArchiveWriter" where
  "aw_close env now it w =
     (if \<not> aw_isOpen w then (InvalidOperation, w)
      else and_then (finalizeArchive env now it w) (\<lambda>w.
        (Success, w\<lparr>aw_file := (aw_file w)\<lparr>of_isOpen := False\<rparr>, aw_isOpen := False, aw_finalized := True\<rparr>)))"

definition aw_destroy :: "archive_env \<Rightarrow> Timestamp \<Rightarrow> (string \<times> byte list) list \<Rightarrow> ArchiveWriter \<Rightarrow> ArchiveWriter" where
  "aw_destroy env now it w = (if aw_isOpen w \<and> \<not> aw_finalized w then snd (aw_close env now it w) else w)"

text \<open>\<^verbatim>\<open>writeInternal\<close> is never called; the third component is the number of bytes it leaks.\<close>

definition writeInternal :: "archive_env \<Rightarrow> ArchiveWriter \<Rightarrow> byte list \<Rightarrow> (ErrorCode \<times> ArchiveWriter \<times> nat) cpp" where
  "writeInternal env w data =
     (if length data > ev_limit env then Inl Alloc_failure
      else
        let w = w\<lparr>aw_file := of_write (ev_disk env) (aw_file w) data\<rparr> in
        if of_fail (aw_file w) then Inr (IOError, w, length data)
        else Inr (Success, w\<lparr>aw_currentOffset := aw_currentOffset w + size64 (length data)\<rparr>, 0))"

end
