(* ===== verification/Archive_Reader.thy ===== *)
theory Archive_Reader
  imports Archive_Writer Archive_Parser
begin

text \<open>
  \<^verbatim>\<open>archive/ArchiveReader\<close>: the reader loads a whole archive into memory, has it parsed, and finds and
  extracts entries.

  The content of a file is an argument, \<open>None\<close> when it cannot be opened.
  Files written by an extraction are a map from paths to contents; \<open>opens\<close> says which of them can be opened.
\<close>

datatype ExtractMode = Exact | Decompress | Decrypt | FullRestore

record ReaderConfig =
  rc_verifyChecksums :: bool
  rc_lazyLoad :: bool
  rc_enableCache :: bool
  rc_cacheSize :: nat
  rc_extractMode :: ExtractMode

definition default_ReaderConfig :: ReaderConfig where
  "default_ReaderConfig =
     \<lparr>rc_verifyChecksums = True, rc_lazyLoad = True, rc_enableCache = True, rc_cacheSize = 1024, rc_extractMode = FullRestore\<rparr>"

text \<open>\<open>ar_owns\<close> is false after the reader has been moved from: then its pointers, that to the parser among them, are null.\<close>

record ArchiveReader =
  ar_config :: ReaderConfig
  ar_path :: string
  ar_header :: ArchiveHeader
  ar_owns :: bool
  ar_parser :: Parser
  ar_compression :: CompressionEngine
  ar_decryption :: "EncryptionEngine option"
  ar_indexManager :: IndexManager
  ar_metadata :: MetadataStore
  ar_directoryTree :: DirectoryTree
  ar_chunkManager :: ChunkManager
  ar_archiveData :: "byte list"
  ar_isOpen :: bool

definition newArchiveReader :: "ReaderConfig \<Rightarrow> ArchiveReader" where
  "newArchiveReader config =
     \<lparr>ar_config = config, ar_path = [], ar_header = newArchiveHeader, ar_owns = True,
      ar_parser = newParser (default_ParserConfig\<lparr>pc_verifyChecksums := rc_verifyChecksums config,
        pc_lazyMode := rc_lazyLoad config, pc_strictMode := False\<rparr>),
      ar_compression = newCompressionEngine (engine_config Zstd 3), ar_decryption = None, ar_indexManager = newIndexManager,
      ar_metadata = newMetadataStore, ar_directoryTree = newDirectoryTree,
      ar_chunkManager = newChunkManager default_ChunkConfig, ar_archiveData = [], ar_isOpen = False\<rparr>"

text \<open>The reader moved to, and the one moved from.\<close>

definition ar_move :: "ArchiveReader \<Rightarrow> ArchiveReader \<times> ArchiveReader" where
  "ar_move other = (other, other\<lparr>ar_path := [], ar_owns := False, ar_decryption := None, ar_archiveData := [], ar_isOpen := False\<rparr>)"

section \<open>Opening and closing\<close>

definition ar_close :: "ArchiveReader \<Rightarrow> ArchiveReader cpp" where
  "ar_close r =
     (let r = r\<lparr>ar_isOpen := False, ar_archiveData := [], ar_path := []\<rparr> in
      if \<not> ar_owns r then Inl Undefined_behaviour else Inr (r\<lparr>ar_parser := pa_reset (ar_parser r)\<rparr>))"

definition ar_destroy :: "ArchiveReader \<Rightarrow> unit cpp" where
  "ar_destroy r = bind_cpp (ar_close r) (\<lambda>_. Inr ())"

definition ar_assign :: "ArchiveReader \<Rightarrow> ArchiveReader \<Rightarrow> (ArchiveReader \<times> ArchiveReader) cpp" where
  "ar_assign r other = bind_cpp (ar_close r) (\<lambda>_. Inr (ar_move other))"

definition parseArchive :: "archive_env \<Rightarrow> ChunkGlobals \<Rightarrow> ArchiveReader \<Rightarrow> (ErrorCode \<times> ArchiveReader \<times> ChunkGlobals) cpp" where
  "parseArchive env g r =
     (if \<not> ar_owns r then Inl Undefined_behaviour
      else
        bind_cpp (pa_parse (ev_crc env) (ev_stack env) (ev_grow env) (ev_limit env) g (ar_parser r) (ar_archiveData r))
          (\<lambda>(result, parser, g).
           let r = r\<lparr>ar_parser := parser\<rparr> in
           Inr (case result of
                  Inl _ \<Rightarrow> (CorruptHeader, r, g)
                | Inr parseResult \<Rightarrow>
                    (Success, r\<lparr>ar_header := pr_header parseResult, ar_metadata := pr_metadata parseResult,
                       ar_directoryTree := pr_directoryTree parseResult, ar_indexManager := pr_indexManager parseResult,
                       ar_chunkManager := pr_chunkManager parseResult\<rparr>, g))))"

definition ar_open :: "archive_env \<Rightarrow> ChunkGlobals \<Rightarrow> ArchiveReader \<Rightarrow> string \<Rightarrow> byte list option \<Rightarrow>
    (ErrorCode \<times> ArchiveReader \<times> ChunkGlobals) cpp" where
  "ar_open env g r path file =
     (if ar_isOpen r then Inr (InvalidOperation, r, g)
      else
        let r = r\<lparr>ar_path := path\<rparr> in
        case file of
          None \<Rightarrow> Inr (IOError, r, g)
        | Some content \<Rightarrow>
            if length content > ev_limit env then Inl Alloc_failure
            else
              bind_cpp (parseArchive env g (r\<lparr>ar_archiveData := content\<rparr>)) (\<lambda>(ec, r, g).
              Inr (if ec \<noteq> Success then (ec, r, g) else (Success, r\<lparr>ar_isOpen := True\<rparr>, g))))"

section \<open>Entries\<close>

text \<open>The part of an entry the index holds.\<close>

definition listed_entry :: "IndexEntry \<Rightarrow> ArchiveEntry" where
  "listed_entry ie =
     default_entry\<lparr>ae_id := ie_entryId ie, ae_offset := ie_offset ie, ae_storedSize := ie_size ie, ae_checksum := ie_checksum ie\<rparr>"

definition listEntries :: "ArchiveReader \<Rightarrow> ArchiveEntry list Result" where
  "listEntries r =
     (if \<not> ar_isOpen r then Inl (toParseError InvalidOperation PS_Init 0 [])
      else Inr (map listed_entry (im_entries (ar_indexManager r))))"

definition ar_findEntry :: "ArchiveReader \<Rightarrow> string \<Rightarrow> ArchiveEntry Result cpp" where
  "ar_findEntry r path =
     (if \<not> ar_isOpen r then Inr (Inl (toParseError InvalidOperation PS_Init 0 []))
      else
        case dt_find (ar_directoryTree r) path of
          None \<Rightarrow> Inr (Inl (toParseError EntryNotFound PS_DirectoryTree 0 path))
        | Some node \<Rightarrow>
            bind_cpp (im_findById (ar_indexManager r) (dn_id node)) (\<lambda>idxOpt.
            Inr (case idxOpt of
                   None \<Rightarrow> Inl (toParseError EntryNotFound PS_IndexTable 0 (''no idx for id='' @ to_string (unat (dn_id node))))
                 | Some ie \<Rightarrow> Inr ((listed_entry ie)\<lparr>ae_path := path, ae_type := File\<rparr>))))"

definition ar_findEntry_id :: "ArchiveReader \<Rightarrow> EntryID \<Rightarrow> ArchiveEntry Result cpp" where
  "ar_findEntry_id r eid =
     (if \<not> ar_isOpen r then Inr (Inl (toParseError InvalidOperation PS_Init 0 []))
      else
        bind_cpp (im_findById (ar_indexManager r) eid) (\<lambda>idxOpt.
        Inr (case idxOpt of
               None \<Rightarrow> Inl (toParseError EntryNotFound PS_IndexTable 0 (''entry ID '' @ to_string (unat eid)))
             | Some ie \<Rightarrow> Inr (listed_entry ie))))"

text \<open>The value of the error code of a failed decompression: \<^verbatim>\<open>EINVAL\<close> or \<^verbatim>\<open>EIO\<close>.\<close>

definition errc_value :: "errc \<Rightarrow> nat" where
  "errc_value ec = (case ec of No_error \<Rightarrow> 0 | Errc_invalid_argument \<Rightarrow> 22 | Errc_io_error \<Rightarrow> 5)"

text \<open>The sum in the bounds check wraps; a span that is then not within the data is undefined.\<close>

definition readEntryData :: "archive_env \<Rightarrow> ArchiveReader \<Rightarrow> ArchiveEntry \<Rightarrow> byte list Result cpp" where
  "readEntryData env r entry =
     (if ae_offset entry + ae_storedSize entry > size64 (length (ar_archiveData r))
      then Inr (Inl (toParseError OutOfRange PS_CompressedBlocks (ae_offset entry) []))
      else if unat (ae_offset entry) + unat (ae_storedSize entry) > length (ar_archiveData r) then Inl Undefined_behaviour
      else
        let dataSpan = take (unat (ae_storedSize entry)) (drop (unat (ae_offset entry)) (ar_archiveData r));
            verify = (\<lambda>result.
              if rc_verifyChecksums (ar_config r) \<and> ce_compute (ev_digest env) SHA256 result \<noteq> ae_checksum entry
              then Inl (toParseError ChecksumMismatch PS_ObjectRecon (ae_offset entry) []) else Inr result) in
        if ah_flags (ar_header r) AND HeaderCompressed \<noteq> 0 \<and> dataSpan \<noteq> [] then
          bind_cpp (en_decompress (ev_libs env) (ev_limit env) (ar_compression r) dataSpan 0) (\<lambda>decompResult.
          Inr (if \<not> cr_success decompResult
               then Inl (toParseError DecompressionError PS_ObjectRecon (ae_offset entry)
                      (''decomp fail ec='' @ to_string (errc_value (cr_ec decompResult))))
               else verify (cr_data decompResult)))
        else Inr (verify dataSpan))"

definition extractEntry :: "archive_env \<Rightarrow> ArchiveReader \<Rightarrow> string \<Rightarrow> byte list Result cpp" where
  "extractEntry env r path =
     bind_cpp (ar_findEntry r path) (\<lambda>entryResult.
     case entryResult of Inl e \<Rightarrow> Inr (Inl e) | Inr entry \<Rightarrow> readEntryData env r entry)"

definition extractEntry_id :: "archive_env \<Rightarrow> ArchiveReader \<Rightarrow> EntryID \<Rightarrow> byte list Result cpp" where
  "extractEntry_id env r eid =
     bind_cpp (ar_findEntry_id r eid) (\<lambda>entryResult.
     case entryResult of Inl e \<Rightarrow> Inr (Inl e) | Inr entry \<Rightarrow> readEntryData env r entry)"

text \<open>The file an \<^verbatim>\<open>ofstream\<close> leaves: truncated when it is opened, then written.\<close>

definition write_file :: "nat \<Rightarrow> byte list \<Rightarrow> OutFile" where
  "write_file disk data = of_write disk \<lparr>of_bytes = [], of_pos = 0, of_isOpen = True, of_fail = False\<rparr> data"

definition extractToFile :: "archive_env \<Rightarrow> (string \<Rightarrow> bool) \<Rightarrow> ArchiveReader \<Rightarrow> string \<Rightarrow> string \<Rightarrow> (string \<rightharpoonup> byte list) \<Rightarrow>
    (ErrorCode \<times> (string \<rightharpoonup> byte list)) cpp" where
  "extractToFile env opens r archivePath outputPath files =
     bind_cpp (extractEntry env r archivePath) (\<lambda>dataResult.
     Inr (case dataResult of
            Inl _ \<Rightarrow> (EntryNotFound, files)
          | Inr data \<Rightarrow>
              if \<not> opens outputPath then (IOError, files)
              else
                let outFile = write_file (ev_disk env) data; files = files(outputPath \<mapsto> of_bytes outFile) in
                if of_fail outFile then (IOError, files) else (Success, files)))"

text \<open>The loop of \<^verbatim>\<open>extractAll\<close>: an entry whose data cannot be read, or whose file cannot be opened or written, is skipped.\<close>

fun extract_entries :: "archive_env \<Rightarrow> (string \<Rightarrow> bool) \<Rightarrow> ArchiveReader \<Rightarrow> string \<Rightarrow> ArchiveEntry list \<Rightarrow> (string \<rightharpoonup> byte list) \<Rightarrow>
    (string \<rightharpoonup> byte list) cpp" where
  "extract_entries env opens r outputDir [] files = Inr files"
| "extract_entries env opens r outputDir (entry # entries) files =
     (let outputPath = outputDir @ ''/'' @ to_string (unat (ae_id entry)) in
      bind_cpp (readEntryData env r entry) (\<lambda>dataResult.
      case dataResult of
        Inl _ \<Rightarrow> extract_entries env opens r outputDir entries files
      | Inr data \<Rightarrow>
          extract_entries env opens r outputDir entries
            (if opens outputPath then files(outputPath \<mapsto> of_bytes (write_file (ev_disk env) data)) else files)))"

text \<open>The output directory is taken to exist or to be created.\<close>

definition extractAll :: "archive_env \<Rightarrow> (string \<Rightarrow> bool) \<Rightarrow> ArchiveReader \<Rightarrow> string \<Rightarrow> (string \<rightharpoonup> byte list) \<Rightarrow>
    (ErrorCode \<times> (string \<rightharpoonup> byte list)) cpp" where
  "extractAll env opens r outputDir files =
     (case listEntries r of
        Inl _ \<Rightarrow> Inr (IOError, files)
      | Inr entries \<Rightarrow> bind_cpp (extract_entries env opens r outputDir entries files) (\<lambda>files. Inr (Success, files)))"

section \<open>The rest\<close>

definition ar_entryCount :: "ArchiveReader \<Rightarrow> nat" where
  "ar_entryCount r = unat (ah_entryCount (ar_header r))"

definition ar_getMetadata :: "ArchiveReader \<Rightarrow> string \<Rightarrow> string option cpp" where
  "ar_getMetadata r key = (if \<not> ar_owns r then Inl Undefined_behaviour else Inr (ms_getString (ar_metadata r) key))"

definition needsRecovery :: "ArchiveReader \<Rightarrow> bool" where
  "needsRecovery r \<longleftrightarrow> ah_flags (ar_header r) AND HeaderRecovery \<noteq> 0"

definition ar_recover :: "ArchiveReader \<Rightarrow> ErrorCode" where
  "ar_recover r = (if \<not> needsRecovery r then Success else NotImplemented)"

definition setDecryptionKey :: "archive_env \<Rightarrow> ArchiveReader \<Rightarrow> byte list \<Rightarrow> ArchiveReader" where
  "setDecryptionKey env r key =
     (let engine = (case ar_decryption r of Some e \<Rightarrow> e | None \<Rightarrow> newEncryptionEngine (ev_ssl env) (newEncryptionConfig AES256GCM))
      in r\<lparr>ar_decryption := Some (setKey engine key)\<rparr>)"

section \<open>What is extracted\<close>

lemma read_data_cases:
  assumes "readEntryData env r e = Inr (Inr d)"
  shows "unat (ae_offset e) + unat (ae_storedSize e) \<le> length (ar_archiveData r)"
    "rc_verifyChecksums (ar_config r) \<Longrightarrow> ce_compute (ev_digest env) SHA256 d = ae_checksum e"
proof -
  let ?span = "take (unat (ae_storedSize e)) (drop (unat (ae_offset e)) (ar_archiveData r))"
  show "unat (ae_offset e) + unat (ae_storedSize e) \<le> length (ar_archiveData r)"
    using assms by (simp add: readEntryData_def split: if_split_asm)
  show "ce_compute (ev_digest env) SHA256 d = ae_checksum e" if "rc_verifyChecksums (ar_config r)"
    using assms that
    by (cases "en_decompress (ev_libs env) (ev_limit env) (ar_compression r) ?span 0")
      (auto simp: readEntryData_def Let_def split: if_split_asm)
qed

lemma extract_checked:
  assumes "extractEntry env r path = Inr (Inr d)" "rc_verifyChecksums (ar_config r)"
  shows "\<exists>node ie. dt_find (ar_directoryTree r) path = Some node \<and> im_findById (ar_indexManager r) (dn_id node) = Inr (Some ie) \<and>
    ev_digest env SHA256 d = ie_checksum ie \<and> unat (ie_offset ie) + unat (ie_size ie) \<le> length (ar_archiveData r)"
proof -
  obtain e where e: "ar_findEntry r path = Inr (Inr e)" and d: "readEntryData env r e = Inr (Inr d)"
    using assms(1) by (cases "ar_findEntry r path") (auto simp: extractEntry_def split: sum.split_asm)
  then obtain node where n: "dt_find (ar_directoryTree r) path = Some node"
    by (auto simp: ar_findEntry_def split: option.split_asm if_split_asm)
  obtain x where x: "im_findById (ar_indexManager r) (dn_id node) = Inr x"
    using e n by (cases "im_findById (ar_indexManager r) (dn_id node)") (auto simp: ar_findEntry_def split: if_split_asm)
  obtain ie where ie: "x = Some ie" "e = (listed_entry ie)\<lparr>ae_path := path, ae_type := File\<rparr>"
    using e n x by (auto simp: ar_findEntry_def split: option.split_asm if_split_asm)
  show ?thesis
    using n x ie read_data_cases(1) [OF d] read_data_cases(2) [OF d assms(2)] by (auto simp: listed_entry_def ce_compute_eq)
qed

lemma write_file_bytes: "length data \<le> disk \<Longrightarrow> of_bytes (write_file disk data) = data"
  by (auto simp: write_file_def of_write_def overwrite_def resize_def)

definition output_path :: "string \<Rightarrow> ArchiveEntry \<Rightarrow> string" where
  "output_path outputDir e = outputDir @ ''/'' @ to_string (unat (ae_id e))"

lemma output_path_inject: "output_path dir e = output_path dir e' \<Longrightarrow> ae_id e = ae_id e'"
  using to_string_inject [of "unat (ae_id e)" "unat (ae_id e')"] by (simp add: output_path_def word_unat_eq_iff)

lemma extract_entries_files:
  assumes "list_all (\<lambda>e. \<exists>x. readEntryData env r e = Inr x \<and> (\<forall>d. x = Inr d \<longrightarrow> length d \<le> ev_disk env)) es"
    "distinct (map ae_id es)" "\<And>path. opens path"
  shows "\<exists>files'. extract_entries env opens r dir es files = Inr files' \<and>
    list_all (\<lambda>e. files' (output_path dir e) =
      (case readEntryData env r e of Inr (Inr d) \<Rightarrow> Some d | _ \<Rightarrow> files (output_path dir e))) es \<and>
    (\<forall>path. path \<notin> output_path dir ` set es \<longrightarrow> files' path = files path)"
  using assms(1,2)
proof (induction es arbitrary: files)
  case (Cons e es)
  then obtain x where x: "readEntryData env r e = Inr x" "\<And>d. x = Inr d \<Longrightarrow> length d \<le> ev_disk env" by auto
  let ?files = "case x of Inl _ \<Rightarrow> files | Inr d \<Rightarrow> files(output_path dir e \<mapsto> d)"
  have new: "output_path dir e \<notin> output_path dir ` set es"
    using Cons.prems(2) by (auto dest: output_path_inject)
  obtain files' where f: "extract_entries env opens r dir es ?files = Inr files'"
    "list_all (\<lambda>e. files' (output_path dir e) =
      (case readEntryData env r e of Inr (Inr d) \<Rightarrow> Some d | _ \<Rightarrow> ?files (output_path dir e))) es"
    "\<forall>path. path \<notin> output_path dir ` set es \<longrightarrow> files' path = ?files path"
    using Cons.IH [of ?files] Cons.prems by auto
  have "extract_entries env opens r dir (e # es) files = Inr files'"
    using f(1) x assms(3) write_file_bytes [of _ "ev_disk env"] by (cases x) (auto simp: output_path_def)
  moreover have "list_all (\<lambda>e. files' (output_path dir e) =
      (case readEntryData env r e of Inr (Inr d) \<Rightarrow> Some d | _ \<Rightarrow> files (output_path dir e))) es"
  proof -
    have "?files (output_path dir e') = files (output_path dir e')" if "e' \<in> set es" for e'
      using new that by (cases x) (auto simp: image_iff)
    with f(2) show ?thesis
      by (simp add: list_all_iff cong: sum.case_cong)
  qed
  ultimately show ?case
    using f(3) new x by (auto split: sum.split)
qed simp

text \<open>extracting everything from an open archive in which entries have different identifiers leaves, for every entry
  that can be read, a file named after its identifier with its data, and changes no other file.\<close>

theorem extract_all_files:
  assumes "listEntries r = Inr es" "distinct (map ae_id es)" "\<And>path. opens path"
    "list_all (\<lambda>e. \<exists>x. readEntryData env r e = Inr x \<and> (\<forall>d. x = Inr d \<longrightarrow> length d \<le> ev_disk env)) es"
  shows "\<exists>files'. extractAll env opens r dir files = Inr (Success, files') \<and>
    list_all (\<lambda>e. files' (output_path dir e) =
      (case readEntryData env r e of Inr (Inr d) \<Rightarrow> Some d | _ \<Rightarrow> files (output_path dir e))) es \<and>
    (\<forall>path. path \<notin> output_path dir ` set es \<longrightarrow> files' path = files path)"
  using extract_entries_files [OF assms(4,2), of opens dir files] assms(1,3) by (auto simp: extractAll_def)

section \<open>Defects\<close>

text \<open>Destroying a reader that has been moved from calls the parser through a null pointer.\<close>

theorem reader_moved_from_undefined: "ar_destroy (snd (ar_move r)) = Inl Undefined_behaviour"
  by (simp add: ar_destroy_def ar_close_def ar_move_def)

text \<open>The bounds check of \<^verbatim>\<open>readEntryData\<close> adds offset and size modulo 2^64, so that an entry of the index can make the
  reader read outside of the archive, whatever the archive is.\<close>

theorem read_bounds_wrap:
  assumes "length (ar_archiveData r) < 2 ^ 63"
  shows "readEntryData env r (default_entry\<lparr>ae_offset := 0xFFFFFFFFFFFFFFFF, ae_storedSize := 1\<rparr>) = Inl Undefined_behaviour"
proof -
  have "(0xFFFFFFFFFFFFFFFF + 1 :: u64) = 0"
    by code_simp
  then have "\<not> size64 n < 0xFFFFFFFFFFFFFFFF + 1" for n
    by (simp only:) simp
  with assms show ?thesis
    by (simp add: readEntryData_def)
qed

theorem read_bounds_wrap_witness:
  "readEntryData env (newArchiveReader default_ReaderConfig) (default_entry\<lparr>ae_offset := 0xFFFFFFFFFFFFFFFF, ae_storedSize := 1\<rparr>) = Inl Undefined_behaviour"
  by (rule read_bounds_wrap) (simp add: newArchiveReader_def)

end
