(* ===== verification/Archive_Roundtrip.thy ===== *)
theory Archive_Roundtrip
  imports Archive_Reader
begin

text \<open>
  What \<^verbatim>\<open>ArchiveReader\<close> finds in an archive that \<^verbatim>\<open>ArchiveWriter\<close> has written.  A writing session is an inductive relation over the
  operations of the writer; its invariant says where the data of every entry stands, and that the tree and the index lead
  to it.  Closing lays the archive out as the parser expects it, so that the reader extracts what was added.
\<close>

section \<open>The file of an open writer\<close>

text \<open>The bytes \<open>data\<close> stand behind the space of the header, and the position behind them.\<close>

definition laid_out :: "nat \<Rightarrow> OutFile \<Rightarrow> byte list \<Rightarrow> bool" where
  "laid_out disk f data \<longleftrightarrow>
     of_isOpen f \<and> \<not> of_fail f \<and> of_pos f = headerSize + length data \<and>
     of_bytes f = (if data = [] then [] else replicate headerSize 0 @ data) \<and>
     (data \<noteq> [] \<longrightarrow> headerSize + length data \<le> disk)"

lemma laid_out_write:
  assumes "laid_out disk f data" "\<not> of_fail (of_write disk f bytes)"
  shows "laid_out disk (of_write disk f bytes) (data @ bytes)"
  using assms
  by (cases "bytes = []") (auto simp: laid_out_def of_write_def overwrite_def resize_def split: if_split_asm)

lemma laid_out_header:
  assumes "laid_out disk f data" "data \<noteq> []" "length header = headerSize"
  shows "of_bytes (of_write disk (of_seek f 0) header) = header @ data" "\<not> of_fail (of_write disk (of_seek f 0) header)"
  using assms by (auto simp: laid_out_def of_write_def of_seek_def overwrite_def resize_def)

section \<open>Writing sections\<close>

text \<open>The part of the writer's state that is the same before and after a section is written, but for offsets.\<close>

definition at_offset :: "archive_env \<Rightarrow> ArchiveWriter \<Rightarrow> byte list \<Rightarrow> bool" where
  "at_offset env w data \<longleftrightarrow> laid_out (ev_disk env) (aw_file w) data \<and> aw_currentOffset w = size64 (headerSize + length data)"

lemma size64_add: "size64 m + size64 n = size64 (m + n)"
  by (simp add: size64_def)

lemma and_then_Success: "and_then r f = (Success, w) \<longleftrightarrow> (\<exists>w'. r = (Success, w') \<and> f w' = (Success, w))"
  by (cases r) (auto simp: and_then_def)

lemma section_done:
  assumes "write_section env (w\<lparr>aw_header := h\<rparr>) bytes = (Success, w')" "at_offset env w data"
  shows "at_offset env w' (data @ bytes)" "aw_header w' = h" "aw_directoryTree w' = aw_directoryTree w"
    "aw_indexManager w' = aw_indexManager w" "aw_chunkManager w' = aw_chunkManager w" "aw_journal w' = aw_journal w"
proof -
  have ok: "\<not> of_fail (of_write (ev_disk env) (aw_file w) bytes)"
    and w': "w' = w\<lparr>aw_file := of_write (ev_disk env) (aw_file w) bytes, aw_header := h,
      aw_currentOffset := aw_currentOffset w + size64 (length bytes)\<rparr>"
    using assms(1) by (auto simp: write_section_def Let_def split: if_split_asm)
  show "at_offset env w' (data @ bytes)"
    using assms(2) laid_out_write [OF _ ok] by (simp add: at_offset_def w' size64_add add.assoc)
qed (use assms in \<open>auto simp: write_section_def Let_def split: if_split_asm\<close>)

lemma at_offset_offset: "at_offset env w data \<Longrightarrow> aw_currentOffset w = size64 (headerSize + length data)"
  by (simp add: at_offset_def)

text \<open>The journal and the sections that closing writes.\<close>

definition journal_bytes :: "Timestamp \<Rightarrow> ArchiveWriter \<Rightarrow> byte list" where
  "journal_bytes now w =
     (case aw_journal w of None \<Rightarrow> [] | Some j \<Rightarrow> jm_serialize (snd (endCheckpoint now (snd (jm_commit now j)))))"

definition section_bytes :: "Timestamp \<Rightarrow> (string \<times> byte list) list \<Rightarrow> ArchiveWriter \<Rightarrow> byte list" where
  "section_bytes now it w = ms_serialize it @ dt_serialize (aw_directoryTree w) @ im_serialize (aw_indexManager w) @
     cm_serialize (aw_chunkManager w) @ journal_bytes now w"

text \<open>The header says where the journal stands, when there is one.\<close>

definition journal_at :: "ArchiveWriter \<Rightarrow> ArchiveHeader \<Rightarrow> nat \<Rightarrow> nat \<Rightarrow> bool" where
  "journal_at w h pos len \<longleftrightarrow>
     (case aw_journal w of
        None \<Rightarrow> ah_journalOffset h = ah_journalOffset (aw_header w) \<and> ah_journalSize h = ah_journalSize (aw_header w)
      | Some _ \<Rightarrow> ah_journalOffset h = size64 pos \<and> ah_journalSize h = size64 len)"

lemma finalize_sections:
  assumes "finalizeArchive env now it w = (Success, w')" "at_offset env w data"
    "m = ms_serialize it" "d = dt_serialize (aw_directoryTree w)" "i = im_serialize (aw_indexManager w)"
    "c = cm_serialize (aw_chunkManager w)" "j = journal_bytes now w"
  obtains w1 h where "at_offset env w1 (data @ m @ d @ i @ c @ j)"
    "aw_header w1 = h\<lparr>ah_metadataOffset := size64 (headerSize + length data), ah_metadataSize := size64 (length m),
       ah_directoryOffset := size64 (headerSize + length data + length m), ah_directorySize := size64 (length d),
       ah_indexOffset := size64 (headerSize + length data + length m + length d), ah_indexSize := size64 (length i),
       ah_chunkOffset := size64 (headerSize + length data + length m + length d + length i), ah_chunkSize := size64 (length c),
       ah_blocksOffset := size64 (headerSize + length data + length m + length d + length i + length c), ah_blocksSize := 0\<rparr>"
    "header_wf h = header_wf (aw_header w)" "ah_isValid h = ah_isValid (aw_header w)" "ah_flags h = ah_flags (aw_header w)"
    "ah_entryCount h = ah_entryCount (aw_header w)"
    "journal_at w h (headerSize + length data + length m + length d + length i + length c) (length j)"
    "writeHeader env (w1\<lparr>aw_header := setArchiveSize (aw_header w1) (aw_currentOffset w1)\<rparr>) = (Success, w')"
proof -
  let ?w = "w\<lparr>aw_journal := map_option (\<lambda>j. snd (jm_commit now j)) (aw_journal w)\<rparr>"
  obtain w1 w2 w3 w4 w5 w6 where
    w: "writeMetadataSection env it ?w = (Success, w1)" "writeDirectorySection env w1 = (Success, w2)"
      "writeIndexSection env w2 = (Success, w3)" "writeChunkSection env w3 = (Success, w4)" "writeBlocksSection w4 = (Success, w5)"
      "writeJournalSection env now w5 = (Success, w6)"
      "writeHeader env (w6\<lparr>aw_header := setArchiveSize (aw_header w6) (aw_currentOffset w6)\<rparr>) = (Success, w')"
    using assms(1) by (auto simp: finalizeArchive_def and_then_Success Let_def)
  have 0: "at_offset env ?w data"
    using assms(2) by (simp add: at_offset_def)
  note 1 = section_done [OF w(1) [unfolded writeMetadataSection_def Let_def] 0]
  note 2 = section_done [OF w(2) [unfolded writeDirectorySection_def Let_def] 1(1)]
  note 3 = section_done [OF w(3) [unfolded writeIndexSection_def Let_def] 2(1)]
  note 4 = section_done [OF w(4) [unfolded writeChunkSection_def Let_def] 3(1)]
  note offs = at_offset_offset [OF 0] at_offset_offset [OF 1(1)] at_offset_offset [OF 2(1)] at_offset_offset [OF 3(1)]
    at_offset_offset [OF 4(1)]
  let ?h = "\<lambda>h. h\<lparr>ah_metadataOffset := size64 (headerSize + length data), ah_metadataSize := size64 (length m),
       ah_directoryOffset := size64 (headerSize + length data + length m), ah_directorySize := size64 (length d),
       ah_indexOffset := size64 (headerSize + length data + length m + length d), ah_indexSize := size64 (length i),
       ah_chunkOffset := size64 (headerSize + length data + length m + length d + length i), ah_chunkSize := size64 (length c),
       ah_blocksOffset := size64 (headerSize + length data + length m + length d + length i + length c), ah_blocksSize := 0\<rparr>"
  have w5: "w5 = w4\<lparr>aw_header := setBlocksSize (setBlocksOffset (aw_header w4) (aw_currentOffset w4)) 0\<rparr>"
    using w(5) by (simp add: writeBlocksSection_def)
  have 5: "at_offset env w5 (data @ m @ d @ i @ c)"
    using 4(1) 1(3,4,5) 2(4,5) 3(5) assms(3-) by (simp add: w5 at_offset_def)
  have h5: "aw_header w5 = ?h (aw_header w)"
    using 1(2-) 2(2-) 3(2-) 4(2) assms(3-)
    by (simp add: w5 offs setMetadataSize_def setMetadataOffset_def setDirectorySize_def setDirectoryOffset_def setIndexSize_def
        setIndexOffset_def setChunkSize_def setChunkOffset_def setBlocksSize_def setBlocksOffset_def add.assoc)
  have jn: "aw_journal w5 = map_option (\<lambda>j. snd (jm_commit now j)) (aw_journal w)"
    using 1(6) 2(6) 3(6) 4(6) by (simp add: w5)
  show thesis
  proof (cases "aw_journal w")
    case None
    then have "w6 = w5" "j = []"
      using w(6) jn assms(7) by (simp_all add: writeJournalSection_def journal_bytes_def)
    then show thesis
      using 5 h5 None by (intro that [OF _ _ _ _ _ _ _ w(7), where h = "aw_header w"]) (simp_all add: journal_at_def)
  next
    case (Some j0)
    let ?j = "snd (endCheckpoint now (snd (jm_commit now j0)))"
    have j: "aw_journal w5 = Some (snd (jm_commit now j0))" "j = jm_serialize ?j"
      using jn Some assms(7) by (simp_all add: journal_bytes_def)
    have "at_offset env (w5\<lparr>aw_journal := Some ?j\<rparr>) (data @ m @ d @ i @ c)"
      using 5 by (simp add: at_offset_def)
    note 6 = section_done [OF w(6) [unfolded writeJournalSection_def j(1) option.case Let_def] this]
    show thesis
      by (rule that [OF _ _ _ _ _ _ _ w(7), where h = "(aw_header w)\<lparr>ah_journalOffset := aw_currentOffset w5, ah_journalSize := size64 (length j)\<rparr>"])
        (use 6(1,2) h5 at_offset_offset [OF 5] in \<open>simp_all add: j(2) Some journal_at_def setJournalSize_def setJournalOffset_def header_wf_def
            ah_isValid_def isValidMagic_def isVersionSupported_def add.assoc\<close>)
  qed
qed

text \<open>Closing succeeds when the archive fits the disk.\<close>

lemma write_section_succeeds:
  assumes "at_offset env w data" "headerSize + length (data @ bytes) \<le> ev_disk env"
  obtains w' where "write_section env (w\<lparr>aw_header := h\<rparr>) bytes = (Success, w')"
proof -
  have "\<not> of_fail (of_write (ev_disk env) (aw_file w) bytes)"
    using assms by (auto simp: at_offset_def laid_out_def of_write_def)
  then show thesis
    using that by (simp add: write_section_def Let_def)
qed

lemma writeJournalSection_succeeds:
  assumes "at_offset env w data" "aw_journal w = map_option (\<lambda>j. snd (jm_commit now j)) (aw_journal w0)"
    "headerSize + length (data @ journal_bytes now w0) \<le> ev_disk env" "header_wf (aw_header w)"
  obtains w' where "writeJournalSection env now w = (Success, w')" "at_offset env w' (data @ journal_bytes now w0)"
    "header_wf (aw_header w')"
proof (cases "aw_journal w0")
  case None
  then have "journal_bytes now w0 = []" "writeJournalSection env now w = (Success, w)"
    using assms(2) by (simp_all add: journal_bytes_def writeJournalSection_def)
  with assms(1,4) that show thesis by simp
next
  case (Some j)
  let ?j = "snd (endCheckpoint now (snd (jm_commit now j)))"
  let ?h = "setJournalSize (setJournalOffset (aw_header w) (aw_currentOffset w)) (size64 (length (jm_serialize ?j)))"
  have at: "at_offset env (w\<lparr>aw_journal := Some ?j\<rparr>) data"
    using assms(1) by (simp add: at_offset_def)
  have b: "journal_bytes now w0 = jm_serialize ?j"
    by (simp add: journal_bytes_def Some)
  have eq: "writeJournalSection env now w = write_section env (w\<lparr>aw_journal := Some ?j, aw_header := ?h\<rparr>) (jm_serialize ?j)"
    using assms(2) Some by (simp add: writeJournalSection_def Let_def)
  obtain w' where w': "writeJournalSection env now w = (Success, w')"
    unfolding eq by (rule write_section_succeeds [OF at]) (use assms(3) b in simp_all)
  show thesis
    by (rule that [OF w']) (use section_done(1,2) [OF w' [unfolded eq] at] b assms(4) in
        \<open>simp_all add: setJournalSize_def setJournalOffset_def header_wf_def\<close>)
qed

lemma finalize_succeeds:
  assumes "at_offset env w data" "header_wf (aw_header w)" "headerSize + length (data @ section_bytes now it w) \<le> ev_disk env"
  obtains w' where "finalizeArchive env now it w = (Success, w')"
proof -
  let ?w = "w\<lparr>aw_journal := map_option (\<lambda>j. snd (jm_commit now j)) (aw_journal w)\<rparr>"
  let ?m = "ms_serialize it" and ?d = "dt_serialize (aw_directoryTree w)" and ?i = "im_serialize (aw_indexManager w)"
    and ?c = "cm_serialize (aw_chunkManager w)"
  have 0: "at_offset env ?w data"
    using assms(1) by (simp add: at_offset_def)
  have fit: "headerSize + length (data @ ?m) \<le> ev_disk env" "headerSize + length ((data @ ?m) @ ?d) \<le> ev_disk env"
    "headerSize + length (((data @ ?m) @ ?d) @ ?i) \<le> ev_disk env" "headerSize + length ((((data @ ?m) @ ?d) @ ?i) @ ?c) \<le> ev_disk env"
    "headerSize + length (((((data @ ?m) @ ?d) @ ?i) @ ?c) @ journal_bytes now w) \<le> ev_disk env"
    using assms(3) unfolding section_bytes_def length_append by linarith+
  obtain w1 where w1: "writeMetadataSection env it ?w = (Success, w1)"
    unfolding writeMetadataSection_def Let_def by (rule write_section_succeeds [OF 0 fit(1)])
  note 1 = section_done [OF w1 [unfolded writeMetadataSection_def Let_def] 0]
  obtain w2 where w2: "writeDirectorySection env w1 = (Success, w2)"
    unfolding writeDirectorySection_def Let_def by (rule write_section_succeeds [OF 1(1)]) (use fit(2) 1 in simp_all)
  note 2 = section_done [OF w2 [unfolded writeDirectorySection_def Let_def] 1(1)]
  obtain w3 where w3: "writeIndexSection env w2 = (Success, w3)"
    unfolding writeIndexSection_def Let_def by (rule write_section_succeeds [OF 2(1)]) (use fit(3) 1 2 in simp_all)
  note 3 = section_done [OF w3 [unfolded writeIndexSection_def Let_def] 2(1)]
  obtain w4 where w4: "writeChunkSection env w3 = (Success, w4)"
    unfolding writeChunkSection_def Let_def by (rule write_section_succeeds [OF 3(1)]) (use fit(4) 1 2 3 in simp_all)
  note 4 = section_done [OF w4 [unfolded writeChunkSection_def Let_def] 3(1)]
  let ?w5 = "w4\<lparr>aw_header := setBlocksSize (setBlocksOffset (aw_header w4) (aw_currentOffset w4)) 0\<rparr>"
  let ?data = "(((data @ ?m) @ ?d) @ ?i) @ ?c"
  have 5: "at_offset env ?w5 ?data" "aw_journal ?w5 = map_option (\<lambda>j. snd (jm_commit now j)) (aw_journal w)" "header_wf (aw_header ?w5)"
    using 1 2 3 4 assms(2)
    by (simp_all add: at_offset_def header_wf_def setMetadataSize_def setMetadataOffset_def setDirectorySize_def setDirectoryOffset_def
        setIndexSize_def setIndexOffset_def setChunkSize_def setChunkOffset_def setBlocksSize_def setBlocksOffset_def)
  obtain w6 where w6: "writeJournalSection env now ?w5 = (Success, w6)" "at_offset env w6 (?data @ journal_bytes now w)" "header_wf (aw_header w6)"
    by (rule writeJournalSection_succeeds [OF 5(1,2) fit(5) 5(3)])
  let ?h = "updateChecksum (ev_crc env) (setArchiveSize (aw_header w6) (aw_currentOffset w6))"
  have "length (ah_serialize ?h) = headerSize"
    using w6(3) by (simp add: ah_serialize_def header_wf_def updateChecksum_def setArchiveSize_def)
  moreover have "?data @ journal_bytes now w \<noteq> []"
    by (simp add: dt_serialize_def)
  moreover have "laid_out (ev_disk env) (aw_file w6) (?data @ journal_bytes now w)"
    using w6(2) by (simp add: at_offset_def)
  ultimately have "\<not> of_fail (of_write (ev_disk env) (of_seek (aw_file w6) 0) (ah_serialize ?h))"
    using laid_out_header(2) by blast
  then have "\<exists>w'. writeHeader env (w6\<lparr>aw_header := setArchiveSize (aw_header w6) (aw_currentOffset w6)\<rparr>) = (Success, w')"
    by (simp add: writeHeader_def Let_def)
  then show thesis
    using that w1 w2 w3 w4 w6(1) by (auto simp: finalizeArchive_def and_then_Success writeBlocksSection_def Let_def)
qed

text \<open>The layout of a finished archive: the header, the data of the entries and the sections, where the header says they are.\<close>

lemma finalize_layout:
  assumes "finalizeArchive env now it w = (Success, w')" "at_offset env w data" "ev_disk env < 2 ^ 62"
    "header_wf (aw_header w)" "ah_isValid (aw_header w)"
    "m = ms_serialize it" "d = dt_serialize (aw_directoryTree w)" "i = im_serialize (aw_indexManager w)"
    "c = cm_serialize (aw_chunkManager w)"
    "j = journal_bytes now w"
  obtains h where "of_bytes (aw_file w') = ah_serialize h @ data @ m @ d @ i @ c @ [] @ j"
    "header_wf h" "ah_isValid h" "verifyChecksum (ev_crc env) h" "ah_flags h = ah_flags (aw_header w)"
    "announces h m d i c []" "places h data m d i c" "length (of_bytes (aw_file w')) \<le> ev_disk env"
    "ah_entryCount h = ah_entryCount (aw_header w)" "ah_archiveSize h = size64 (length (of_bytes (aw_file w')))"
    "journal_at w h (headerSize + length data + length m + length d + length i + length c) (length j)"
proof -
  obtain w1 h where w1: "at_offset env w1 (data @ m @ d @ i @ c @ j)"
    "aw_header w1 = h\<lparr>ah_metadataOffset := size64 (headerSize + length data), ah_metadataSize := size64 (length m),
       ah_directoryOffset := size64 (headerSize + length data + length m), ah_directorySize := size64 (length d),
       ah_indexOffset := size64 (headerSize + length data + length m + length d), ah_indexSize := size64 (length i),
       ah_chunkOffset := size64 (headerSize + length data + length m + length d + length i), ah_chunkSize := size64 (length c),
       ah_blocksOffset := size64 (headerSize + length data + length m + length d + length i + length c), ah_blocksSize := 0\<rparr>"
    and h: "header_wf h = header_wf (aw_header w)" "ah_isValid h = ah_isValid (aw_header w)" "ah_flags h = ah_flags (aw_header w)"
      "ah_entryCount h = ah_entryCount (aw_header w)"
      "journal_at w h (headerSize + length data + length m + length d + length i + length c) (length j)"
    and wr: "writeHeader env (w1\<lparr>aw_header := setArchiveSize (aw_header w1) (aw_currentOffset w1)\<rparr>) = (Success, w')"
    by (rule finalize_sections [OF assms(1,2,6-)])
  let ?data = "data @ m @ d @ i @ c @ j"
  let ?h = "updateChecksum (ev_crc env) (setArchiveSize (aw_header w1) (aw_currentOffset w1))"
  have wf: "header_wf (setArchiveSize (aw_header w1) (aw_currentOffset w1))"
    using h(1) assms(4) by (simp add: w1(2) setArchiveSize_def header_wf_def)
  then have len: "length (ah_serialize ?h) = headerSize"
    by (simp add: ah_serialize_def header_wf_def updateChecksum_def)
  have ne: "?data \<noteq> []"
    by (simp add: assms(7) dt_serialize_def)
  have laid: "laid_out (ev_disk env) (aw_file w1) ?data"
    using w1(1) by (simp add: at_offset_def)
  have bytes: "of_bytes (aw_file w') = ah_serialize ?h @ ?data"
    using wr laid_out_header [OF laid ne len] by (auto simp: writeHeader_def Let_def)
  have fits: "headerSize + length ?data \<le> ev_disk env"
    using laid ne by (simp add: laid_out_def)
  then have small: "headerSize + length ?data < 2 ^ 62"
    using assms(3) by linarith
  show thesis
  proof (rule that [of ?h])
    show "of_bytes (aw_file w') = ah_serialize ?h @ data @ m @ d @ i @ c @ [] @ j"
      using bytes by simp
    show "header_wf ?h"
      using wf by (simp add: header_wf_def updateChecksum_def)
    show "ah_isValid ?h" "ah_flags ?h = ah_flags (aw_header w)"
      using h assms(5) by (simp_all add: w1(2) updateChecksum_def setArchiveSize_def ah_isValid_def isValidMagic_def isVersionSupported_def)
    show "verifyChecksum (ev_crc env) ?h"
      by (rule verify_updated [OF wf])
    show "announces ?h m d i c []" "places ?h data m d i c"
      using small by (simp_all add: w1(2) updateChecksum_def setArchiveSize_def announces_def places_def size64_def)
    show "length (of_bytes (aw_file w')) \<le> ev_disk env"
      using fits len by (simp add: bytes)
    show "ah_entryCount ?h = ah_entryCount (aw_header w)"
      "journal_at w ?h (headerSize + length data + length m + length d + length i + length c) (length j)"
      using h(4,5) by (simp_all add: w1(2) updateChecksum_def setArchiveSize_def journal_at_def split: option.split_asm)
    show "ah_archiveSize ?h = size64 (length (of_bytes (aw_file w')))"
      using at_offset_offset [OF w1(1)] len by (simp add: bytes updateChecksum_def setArchiveSize_def)
  qed
qed

section \<open>A writing session\<close>

text \<open>A session of a writer: it is opened, then files, symbolic links and blobs are added under paths that do not exist
  yet, and directories.  The list holds the paths and the data.\<close>

inductive session :: "archive_env \<Rightarrow> WriterConfig \<Rightarrow> (string \<times> byte list) list \<Rightarrow> ArchiveWriter \<Rightarrow> bool" for env config where
  session_open: "aw_open True now (newArchiveWriter env config) path = (Success, w) \<Longrightarrow> session env config [] w"
| session_file: "session env config es w \<Longrightarrow> dt_find (aw_directoryTree w) p = None \<Longrightarrow>
    aw_addFile env now rand w (Some data) p = Inr (Success, w') \<Longrightarrow> session env config (es @ [(p, data)]) w'"
| session_symlink: "session env config es w \<Longrightarrow> dt_find (aw_directoryTree w) p = None \<Longrightarrow>
    aw_addSymlink env now rand w link p = Inr (Success, w') \<Longrightarrow> session env config (es @ [(p, bytes_of_string link)]) w'"
| session_blob: "session env config es w \<Longrightarrow> dt_find (aw_directoryTree w) p = None \<Longrightarrow>
    aw_addBlob env now rand w data p flags = Inr (Success, w') \<Longrightarrow> session env config (es @ [(p, data)]) w'"
| session_directory: "session env config es w \<Longrightarrow>
    aw_addDirectory env now w p perms = (Success, w') \<Longrightarrow> session env config es w'"

text \<open>What is stored as \<open>p\<close> is read as \<open>d\<close> by an engine with the default settings.\<close>

definition recoverable :: "archive_env \<Rightarrow> bool \<Rightarrow> byte list \<Rightarrow> byte list \<Rightarrow> bool" where
  "recoverable env compressed p d \<longleftrightarrow>
     (if compressed \<and> p \<noteq> []
      then (case en_decompress (ev_libs env) (ev_limit env) (newCompressionEngine (engine_config Zstd 3)) p 0 of
              Inl _ \<Rightarrow> False | Inr r \<Rightarrow> cr_success r \<and> cr_data r = d)
      else p = d)"

definition stored_at :: "archive_env \<Rightarrow> bool \<Rightarrow> byte list \<Rightarrow> IndexEntry \<Rightarrow> byte list \<Rightarrow> bool" where
  "stored_at env compressed data ie d \<longleftrightarrow> ie_checksum ie = ce_compute (ev_digest env) SHA256 d \<and>
     (\<exists>pre p post. data = pre @ p @ post \<and> ie_offset ie = size64 (headerSize + length pre) \<and> ie_size ie = size64 (length p) \<and>
       recoverable env compressed p d)"

lemma stored_at_append: "stored_at env compressed data ie d \<Longrightarrow> stored_at env compressed (data @ rest) ie d"
  unfolding stored_at_def by (metis append_assoc)

definition settings_ok :: "WriterConfig \<Rightarrow> ArchiveWriter \<Rightarrow> bool" where
  "settings_ok config w \<longleftrightarrow> aw_config w = config \<and> aw_isOpen w \<and> aw_encryption w = None \<and>
     aw_compression w = newCompressionEngine (engine_config (wc_compression config) (wc_compressionLevel config)) \<and>
     cm_chunks (aw_chunkManager w) = [] \<and> header_wf (aw_header w) \<and> ah_isValid (aw_header w) \<and>
     ah_flags (aw_header w) = open_flags config"

definition index_ok :: "ArchiveWriter \<Rightarrow> bool" where
  "index_ok w \<longleftrightarrow> (let es = im_entries (aw_indexManager w) in
     map ie_entryId es = map (size64 \<circ> Suc) [0..<length es] \<and> aw_entryCount w = size64 (length es) \<and> list_all ie_wf es)"

definition tree_ok :: "ArchiveWriter \<Rightarrow> bool" where
  "tree_ok w \<longleftrightarrow> dt_nodeCount (aw_directoryTree w) \<le> count_nodes (dt_root (aw_directoryTree w))"

definition entries_ok :: "archive_env \<Rightarrow> bool \<Rightarrow> byte list \<Rightarrow> (string \<times> byte list) list \<Rightarrow> ArchiveWriter \<Rightarrow> bool" where
  "entries_ok env compressed data es w \<longleftrightarrow>
     list_all (\<lambda>(p, d). splitPath p \<noteq> [] \<and> (\<exists>ie \<in> set (im_entries (aw_indexManager w)).
        id_at (splitPath p) (dt_root (aw_directoryTree w)) = Some (ie_entryId ie) \<and> stored_at env compressed data ie d)) es"

definition session_ok :: "archive_env \<Rightarrow> WriterConfig \<Rightarrow> (string \<times> byte list) list \<Rightarrow> ArchiveWriter \<Rightarrow> byte list \<Rightarrow> bool" where
  "session_ok env config es w data \<longleftrightarrow> settings_ok config w \<and> at_offset env w data \<and> index_ok w \<and> tree_ok w \<and>
     entries_ok env (wc_compression config \<noteq> CNone) data es w"

text \<open>The reader's engine restores what the writer's has compressed.\<close>

definition readable_config :: "archive_env \<Rightarrow> WriterConfig \<Rightarrow> bool" where
  "readable_config env config \<longleftrightarrow> wc_encryption config = ENone \<and> (wc_compression config = CNone \<or>
     (wc_compression config = Zstd \<and> zstd_law (ev_libs env) (wc_compressionLevel config)))"

lemma zstd_recoverable:
  assumes "zstd_law (ev_libs env) level" "length data \<le> ev_limit env" "length data < 2 ^ 63"
    "en_compress (ev_libs env) (ev_limit env) (newCompressionEngine (engine_config Zstd level)) data = Inr r"
  shows "cr_success r \<and> recoverable env True (cr_data r) data"
proof -
  let ?libs = "ev_libs env"
  let ?b = "ZSTD_compressBound ?libs (length data)"
  obtain k d where c: "ZSTD_compressCCtx ?libs (replicate ?b 0) ?b data level = (k, d)"
    by (cases "ZSTD_compressCCtx ?libs (replicate ?b 0) ?b data level")
  then have law: "\<not> ZSTD_isError ?libs k" "0 < k" "k \<le> length d" "length d = ?b" "ZSTD_getFrameContentSize ?libs (take k d) = length data"
    "\<not> ZSTD_isError ?libs (length data)"
    "ZSTD_decompress ?libs (replicate (length data) 0) (length data) (take k d) = (length data, data)"
    using assms(1) [unfolded zstd_law_def, THEN spec, of data, THEN spec, of "replicate ?b 0"] by auto
  have r: "r = newCompressionResult\<lparr>cr_data := take k d, cr_originalSize := length data, cr_compressedSize := k, cr_success := True\<rparr>"
    using assms(4) law(1,3) c
    by (auto simp: en_compress_def compressZstd_def zeros_def resize_take newCompressionResult_def newCompressionEngine_def
        en_initContext_def engine_config_def Let_def split: if_split_asm)
  have "take k d \<noteq> []"
    using law(2,3) by auto
  then show ?thesis
    using law assms(2,3)
    by (simp add: r recoverable_def en_decompress_def decompressZstd_def zeros_def newCompressionResult_def newCompressionEngine_def
        en_initContext_def engine_config_def Let_def ZSTD_CONTENTSIZE_ERROR_def ZSTD_CONTENTSIZE_UNKNOWN_def)
qed

section \<open>What a session keeps\<close>

lemma dt_find_id_at: "map_option dn_id (dt_find t p) = id_at (splitPath p) (dt_root t)"
  by (simp add: dt_find_node_at id_at_def)

lemma dt_insert_done:
  assumes "dt_insert e t = (Success, t')"
  shows "dt_nodeCount t \<le> count_nodes (dt_root t) \<Longrightarrow> dt_nodeCount t' \<le> count_nodes (dt_root t')"
    and "id_at q (dt_root t) = Some x \<Longrightarrow> q \<noteq> [] \<Longrightarrow> id_at q (dt_root t') = Some x"
    and "id_at (splitPath (ae_path e)) (dt_root t) = None \<Longrightarrow> id_at (splitPath (ae_path e)) (dt_root t') = Some (ae_id e)"
proof -
  have "(dt_nodeCount t \<le> count_nodes (dt_root t) \<longrightarrow> dt_nodeCount t' \<le> count_nodes (dt_root t')) \<and>
    (id_at q (dt_root t) = Some x \<longrightarrow> q \<noteq> [] \<longrightarrow> id_at q (dt_root t') = Some x) \<and>
    (id_at (splitPath (ae_path e)) (dt_root t) = None \<longrightarrow> id_at (splitPath (ae_path e)) (dt_root t') = Some (ae_id e))"
  proof (cases "ae_path e = [] \<or> ae_path e = ''/''")
    case True
    then show ?thesis
      using assms by (cases q) (auto simp: dt_insert_def Let_def splitPath_def findChild_def count_nodes_children)
  next
    case False
    let ?parts = "splitPath (ae_path e)"
    obtain root k where r: "dt_insert_at e ?parts (dt_root t) = (root, k)"
      by (cases "dt_insert_at e ?parts (dt_root t)")
    have parts: "?parts \<noteq> []" and t': "t' = \<lparr>dt_root = root, dt_nodeCount = dt_nodeCount t + k\<rparr>"
      using assms False r by (auto simp: dt_insert_def Let_def split: if_split_asm)
    show ?thesis
      using id_at_insert [OF parts, of q e "dt_root t"] id_at_insert [OF parts, of ?parts e "dt_root t"]
        count_insert_at [of e ?parts "dt_root t"] by (simp add: r t')
  qed
  then show "dt_nodeCount t \<le> count_nodes (dt_root t) \<Longrightarrow> dt_nodeCount t' \<le> count_nodes (dt_root t')"
    "id_at q (dt_root t) = Some x \<Longrightarrow> q \<noteq> [] \<Longrightarrow> id_at q (dt_root t') = Some x"
    "id_at (splitPath (ae_path e)) (dt_root t) = None \<Longrightarrow> id_at (splitPath (ae_path e)) (dt_root t') = Some (ae_id e)"
    by blast+
qed

lemma process_data_recoverable:
  assumes "process_data env rand w data entry = Inr (p, entry')" "settings_ok config w" "readable_config env config"
    "length data \<le> ev_limit env" "length data < 2 ^ 63"
  shows "recoverable env (wc_compression config \<noteq> CNone) p data" "ae_id entry' = ae_id entry" "ae_path entry' = ae_path entry"
proof -
  have w: "aw_config w = config" "aw_encryption w = None"
    "aw_compression w = newCompressionEngine (engine_config (wc_compression config) (wc_compressionLevel config))"
    using assms(2) by (simp_all add: settings_ok_def)
  consider "wc_compression config = CNone \<or> data = []" | "wc_compression config = Zstd" "zstd_law (ev_libs env) (wc_compressionLevel config)" "data \<noteq> []"
    using assms(3) by (auto simp: readable_config_def)
  then have "recoverable env (wc_compression config \<noteq> CNone) p data \<and> ae_id entry' = ae_id entry \<and> ae_path entry' = ae_path entry"
  proof cases
    case 1
    then show ?thesis
      using assms(1) w by (auto simp: process_data_def recoverable_def)
  next
    case 2
    then obtain r where r: "en_compress (ev_libs env) (ev_limit env) (newCompressionEngine (engine_config Zstd (wc_compressionLevel config))) data = Inr r"
      using assms(1) w by (cases "en_compress (ev_libs env) (ev_limit env) (newCompressionEngine (engine_config Zstd (wc_compressionLevel config))) data")
        (simp_all add: process_data_def)
    with zstd_recoverable [OF 2(2) assms(4,5) r] show ?thesis
      using assms(1) w 2 by (auto simp: process_data_def)
  qed
  then show "recoverable env (wc_compression config \<noteq> CNone) p data" "ae_id entry' = ae_id entry" "ae_path entry' = ae_path entry"
    by simp_all
qed

text \<open>The digest of the engine is that of SHA-256, 32 bytes.\<close>

definition sha256_law :: "archive_env \<Rightarrow> bool" where
  "sha256_law env \<longleftrightarrow> (\<forall>bs. length (ev_digest env SHA256 bs) = 32)"

text \<open>An entry is put into the tree and the index.\<close>

lemma entry_registered:
  assumes "dt_insert e (aw_directoryTree w) = (Success, tree)" "ae_id e = aw_entryCount w + 1" "ie_wf (index_entry_of e)"
    "index_ok w" "tree_ok w" "entries_ok env compressed data es w"
    "aw_directoryTree w' = tree" "aw_indexManager w' = im_insert (aw_indexManager w) e" "aw_entryCount w' = aw_entryCount w + 1"
  shows "index_ok w'" "tree_ok w'" "entries_ok env compressed (data @ rest) es w'"
    and "dt_find (aw_directoryTree w) (ae_path e) = None \<Longrightarrow> stored_at env compressed (data @ rest) (index_entry_of e) d \<Longrightarrow>
      entries_ok env compressed (data @ rest) (es @ [(ae_path e, d)]) w'"
proof -
  have es: "im_entries (aw_indexManager w') = im_entries (aw_indexManager w) @ [index_entry_of e]"
    by (simp add: assms(8) im_insert_def Let_def)
  have one: "size64 n + 1 = size64 (Suc n)" for n
    by (simp add: size64_def)
  show "index_ok w'"
    using assms(2-4,9) by (simp add: index_ok_def es Let_def one) (simp add: index_entry_of_def)
  show "tree_ok w'"
    using assms(5) dt_insert_done(1) [OF assms(1)] by (simp add: tree_ok_def assms(7))
  show old: "entries_ok env compressed (data @ rest) es w'"
    using assms(6) dt_insert_done(2) [OF assms(1)] stored_at_append
    by (fastforce simp: entries_ok_def list_all_iff es assms(7))
  show "entries_ok env compressed (data @ rest) (es @ [(ae_path e, d)]) w'"
    if "dt_find (aw_directoryTree w) (ae_path e) = None" "stored_at env compressed (data @ rest) (index_entry_of e) d"
  proof -
    have "id_at (splitPath (ae_path e)) (dt_root (aw_directoryTree w)) = None"
      using that(1) dt_find_id_at [of "aw_directoryTree w" "ae_path e"] by simp
    then have "splitPath (ae_path e) \<noteq> []" "id_at (splitPath (ae_path e)) (dt_root tree) = Some (ae_id e)"
      using dt_insert_done(3) [OF assms(1)] by (auto simp: id_at_def)
    with old that(2) show ?thesis
      by (auto simp: entries_ok_def es assms(7) index_entry_of_def)
  qed
qed

lemma session_write:
  assumes "session_ok env config es w data" "readable_config env config" "sha256_law env"
    "dt_find (aw_directoryTree w) (ae_path entry) = None" "ae_id entry = aw_entryCount w + 1"
    "length d \<le> ev_limit env" "length d < 2 ^ 63" "processAndWriteEntry env now rand w d entry = Inr (Success, w')"
  shows "\<exists>data'. session_ok env config (es @ [(ae_path entry, d)]) w' data'"
proof -
  obtain p e where p: "process_data env rand w d entry = Inr (p, e)"
    using assms(8) by (cases "process_data env rand w d entry") (auto simp: processAndWriteEntry_def)
  let ?c = "wc_compression config \<noteq> CNone"
  let ?e = "e\<lparr>ae_checksum := ce_compute (ev_digest env) SHA256 d, ae_storedSize := size64 (length p), ae_offset := aw_currentOffset w\<rparr>"
  let ?f = "of_write (ev_disk env) (aw_file w) p"
  note ok = assms(1) [unfolded session_ok_def]
  note pd = process_data_recoverable [OF p conjunct1 [OF ok] assms(2,6,7)]
  obtain tree where t: "dt_insert ?e (aw_directoryTree w) = (Success, tree)" and f: "\<not> of_fail ?f"
    and w': "w' = w\<lparr>aw_file := ?f, aw_currentOffset := aw_currentOffset w + size64 (length p), aw_directoryTree := tree,
       aw_indexManager := im_insert (aw_indexManager w) ?e, aw_entryCount := aw_entryCount w + 1,
       aw_header := setArchiveSize (setEntryCount (aw_header w) (aw_entryCount w + 1)) (aw_currentOffset w + size64 (length p) + size64 headerSize),
       aw_journal := map_option (\<lambda>j. snd (logCreate (ev_digest env) now (ae_id ?e) p j)) (aw_journal w)\<rparr>"
    using assms(8) p by (auto simp: processAndWriteEntry_def Let_def split: if_split_asm prod.split_asm)
  have off: "at_offset env w' (data @ p)"
    using ok laid_out_write [OF _ f] by (simp add: w' at_offset_def size64_add add.assoc)
  have st: "stored_at env ?c (data @ p) (index_entry_of ?e) d"
    using pd(1) at_offset_offset [of env w data] ok unfolding stored_at_def
    by (intro conjI exI [of _ data] exI [of _ p] exI [of _ "[]"]) (simp_all add: index_entry_of_def)
  have wf: "ie_wf (index_entry_of ?e)"
    using assms(3) by (simp add: ie_wf_def index_entry_of_def ce_compute_eq sha256_law_def)
  have reg: "ae_id ?e = aw_entryCount w + 1" "index_ok w" "tree_ok w" "entries_ok env ?c data es w"
    using pd(2) assms(5) ok by simp_all
  have set: "settings_ok config w'"
    using ok by (simp add: w' settings_ok_def setArchiveSize_def setEntryCount_def header_wf_def ah_isValid_def isValidMagic_def isVersionSupported_def)
  note r = entry_registered [OF t reg(1) wf reg(2-4), where w' = w']
  show ?thesis
    using off set r(1,2) r(4) [where rest = p and d = d] st pd(3) assms(4)
    by (intro exI [of _ "data @ p"]) (simp add: session_ok_def w')
qed

lemma session_mkdir:
  assumes "session_ok env config es w data" "aw_addDirectory env now w p perms = (Success, w')"
  shows "session_ok env config es w' data"
proof -
  let ?e = "(new_entry w now Directory p)\<lparr>ae_permissions := perms\<rparr>"
  note ok = assms(1) [unfolded session_ok_def]
  have "aw_isOpen w" using ok by (simp add: settings_ok_def)
  then obtain tree where t: "dt_insert ?e (aw_directoryTree w) = (Success, tree)"
    and w': "w' = w\<lparr>aw_directoryTree := tree, aw_indexManager := im_insert (aw_indexManager w) ?e,
      aw_entryCount := aw_entryCount w + 1,
      aw_journal := map_option (\<lambda>j. snd (logCreate (ev_digest env) now (ae_id ?e) [] j)) (aw_journal w)\<rparr>"
    using assms(2) by (auto simp: aw_addDirectory_def Let_def split: if_split_asm prod.split_asm)
  have e: "ae_id ?e = aw_entryCount w + 1" "ie_wf (index_entry_of ?e)"
    by (simp_all add: new_entry_def ie_wf_def index_entry_of_def default_entry_def zero_checksum_def)
  have "settings_ok config w'" "at_offset env w' data"
    using ok by (simp_all add: w' settings_ok_def at_offset_def)
  moreover have reg: "index_ok w" "tree_ok w" "entries_ok env (wc_compression config \<noteq> CNone) data es w"
    using ok by simp_all
  note r = entry_registered [OF t e reg, where w' = w']
  have "index_ok w'" "tree_ok w'" "entries_ok env (wc_compression config \<noteq> CNone) (data @ []) es w'"
    by (rule r(1) r(2) r(3); simp add: w')+
  ultimately show ?thesis
    by (simp add: session_ok_def)
qed

lemma session_start:
  assumes "aw_open True now (newArchiveWriter env config) path = (Success, w)" "wc_encryption config = ENone"
  shows "session_ok env config [] w []"
  using assms
  by (auto simp: aw_open_def newArchiveWriter_def session_ok_def settings_ok_def at_offset_def laid_out_def index_ok_def tree_ok_def
      entries_ok_def of_seek_def newChunkManager_def newIndexManager_def newDirectoryTree_def setArchiveSize_def setFlags_def
      newArchiveHeader_def header_wf_def ah_isValid_def isValidMagic_def isVersionSupported_def archive_magic_def
      size64_def headerSize_def Let_def)

lemma session_keeps:
  assumes "session env config es w" "readable_config env config" "sha256_law env" "ev_limit env < 2 ^ 63"
    "list_all (\<lambda>(p, d). length d \<le> ev_limit env) es"
  shows "\<exists>data. session_ok env config es w data"
  using assms(1,5)
proof induction
  case (session_open now path w)
  then show ?case
    using session_start [OF session_open(1)] assms(2) by (auto simp: readable_config_def intro!: exI [of _ "[]"])
next
  case (session_directory es w now p perms w')
  then show ?case
    using session_mkdir by blast
next
  case (session_file es w p now rand data w')
  then obtain d0 where ok: "session_ok env config es w d0" by auto
  then obtain entry where "processAndWriteEntry env now rand w data entry = Inr (Success, w')" "ae_path entry = p"
      "ae_id entry = aw_entryCount w + 1"
    using session_file(3) by (auto simp: aw_addFile_def Let_def session_ok_def settings_ok_def new_entry_def intro: that split: if_split_asm)
  then show ?case
    using session_file session_write [OF ok assms(2,3), of entry data now rand w'] assms(4) by simp
next
  case (session_symlink es w p now rand link w')
  then obtain d0 where ok: "session_ok env config es w d0" by auto
  then obtain entry where "processAndWriteEntry env now rand w (bytes_of_string link) entry = Inr (Success, w')" "ae_path entry = p"
      "ae_id entry = aw_entryCount w + 1"
    using session_symlink(3) by (auto simp: aw_addSymlink_def Let_def session_ok_def settings_ok_def new_entry_def intro: that)
  then show ?case
    using session_symlink session_write [OF ok assms(2,3), of entry "bytes_of_string link" now rand w'] assms(4) by simp
next
  case (session_blob es w p now rand data flags w')
  then obtain d0 where ok: "session_ok env config es w d0" by auto
  then obtain entry where "processAndWriteEntry env now rand w data entry = Inr (Success, w')" "ae_path entry = p"
      "ae_id entry = aw_entryCount w + 1"
    using session_blob(3) by (auto simp: aw_addBlob_def Let_def session_ok_def settings_ok_def new_entry_def intro: that)
  then show ?case
    using session_blob session_write [OF ok assms(2,3), of entry data now rand w'] assms(4) by simp
qed

section \<open>Reading the archive\<close>

lemma bare_simps [simp]:
  "dn_id (bare mt node) = dn_id node" "dn_name (bare mt node) = dn_name node" "dn_children (bare mt node) = map (bare None) (dn_children node)"
  by (cases node; simp)+

lemma findChild_bare: "findChild (bare mt node) name = map_option (bare None) (findChild node name)"
proof -
  have "List.find (\<lambda>c. dn_name c = name) (map (bare None) cs) = map_option (bare None) (List.find (\<lambda>c. dn_name c = name) cs)" for cs
    by (induction cs) auto
  then show ?thesis by (simp add: findChild_def)
qed

lemma node_at_bare: "map_option dn_id (node_at parts (bare mt node)) = map_option dn_id (node_at parts node)"
  by (induction parts node arbitrary: mt rule: node_at.induct) (auto simp: findChild_bare split: option.split)

lemma count_nodes_le: "count_nodes node \<le> length (dt_serializeNode node)"
proof (induction node)
  case (DirectoryNode nm eid pid cs fs mt pm)
  then have "sum_list (map count_nodes cs) \<le> length (concat (map dt_serializeNode cs))"
    by (induction cs) (auto intro: add_mono)
  moreover have "0 < length (encode eid)" by simp
  ultimately show ?case
    unfolding count_nodes.simps dt_serializeNode.simps length_append by linarith
qed

lemma im_findById_pushed:
  assumes "distinct (map ie_entryId es)" "ie \<in> set es"
  shows "im_findById ((foldl im_push newIndexManager es)\<lparr>im_sorted := False\<rparr>) (ie_entryId ie) = Inr (Some ie)"
proof -
  obtain i where i: "i < length es" "es ! i = ie"
    using assms(2) by (metis in_set_conv_nth)
  have "im_entries (foldl im_push newIndexManager es) = es"
    by (simp add: im_push_entries newIndexManager_def)
  moreover from this have "im_idIndex (foldl im_push newIndexManager es) (ie_entryId ie) = Some i"
    using im_push_exact [OF assms(1)] i by (simp add: im_exact_iff)
  ultimately show ?thesis
    using i by (simp add: im_findById_def)
qed

lemma distinct_ids: "n < 2 ^ 64 - 1 \<Longrightarrow> distinct (map (size64 \<circ> Suc) [0..<n])"
  by (auto simp: distinct_map inj_on_def size64_eq_iff)

lemma cm_deserialize_empty:
  "cm_chunks m = [] \<Longrightarrow> cm_deserialize grow (m0, g) (cm_serialize m) = Inr (Success, cm_clear m0, g)"
  by (simp add: cm_deserialize_def cm_serialize_def read_varint_def size64_def)

lemma open_flags_compressed: "open_flags config AND HeaderCompressed \<noteq> 0 \<longleftrightarrow> wc_compression config \<noteq> CNone"
  by (simp add: open_flags_def HeaderCompressed_def HeaderJournaled_def HeaderDedup_def HeaderEncrypted_def Let_def)

text \<open>A reader that has opened the archive of a writer.\<close>

definition opened :: "WriterConfig \<Rightarrow> ArchiveWriter \<Rightarrow> byte list \<Rightarrow> ArchiveReader \<Rightarrow> bool" where
  "opened config w file r \<longleftrightarrow> ar_isOpen r \<and> ar_archiveData r = file \<and> ar_compression r = newCompressionEngine (engine_config Zstd 3) \<and>
     ah_flags (ar_header r) = open_flags config \<and> dt_root (ar_directoryTree r) = bare (Some zero_timestamp) (dt_root (aw_directoryTree w)) \<and>
     ar_indexManager r = (foldl im_push newIndexManager (im_entries (aw_indexManager w)))\<lparr>im_sorted := False\<rparr>"

lemma session_opens:
  assumes "session_ok env config es w data" "aw_close env now [] w = (Success, w')" "ev_disk env < 2 ^ 62"
    "height (dt_root (aw_directoryTree w)) \<le> ev_stack env" "length (of_bytes (aw_file w')) \<le> ev_limit env"
  obtains h r rest where "of_bytes (aw_file w') = ah_serialize h @ data @ rest" "header_wf h" "length (of_bytes (aw_file w')) < 2 ^ 62"
    "length (im_entries (aw_indexManager w)) < 2 ^ 62"
    "ar_open env g (newArchiveReader rconfig) path (Some (of_bytes (aw_file w'))) = Inr (Success, r, g)"
    "opened config w (of_bytes (aw_file w')) r" "ar_config r = rconfig"
proof -
  note ok = assms(1) [unfolded session_ok_def settings_ok_def]
  obtain w1 where fin: "finalizeArchive env now [] w = (Success, w1)" and w1: "of_bytes (aw_file w') = of_bytes (aw_file w1)"
    using assms(2) by (auto simp: aw_close_def and_then_Success split: if_split_asm)
  let ?t = "aw_directoryTree w" and ?i = "aw_indexManager w" and ?c = "aw_chunkManager w"
  obtain j h where bytes: "of_bytes (aw_file w1) = ah_serialize h @ data @ ms_serialize [] @ dt_serialize ?t @ im_serialize ?i @ cm_serialize ?c @ [] @ j"
    and h: "header_wf h" "ah_isValid h" "verifyChecksum (ev_crc env) h" "ah_flags h = ah_flags (aw_header w)"
      "announces h (ms_serialize []) (dt_serialize ?t) (im_serialize ?i) (cm_serialize ?c) []"
      "places h data (ms_serialize []) (dt_serialize ?t) (im_serialize ?i) (cm_serialize ?c)"
    and fits: "length (of_bytes (aw_file w1)) \<le> ev_disk env"
    using finalize_layout [OF fin _ assms(3) _ _ refl refl refl refl refl] ok by blast
  have small: "length (of_bytes (aw_file w1)) < 2 ^ 62"
    using fits assms(3) by linarith
  have len: "length (dt_serialize ?t) < 2 ^ 62" "length (im_serialize ?i) < 2 ^ 62"
    using small unfolding bytes by simp_all
  have "dt_nodeCount ?t < 2 ^ 62"
    using ok len(1) count_nodes_le [of "dt_root ?t"] by (simp add: tree_ok_def dt_serialize_def)
  then have dir: "reads (dt_deserialize (ev_stack env)) newDirectoryTree (dt_serialize ?t) (?t\<lparr>dt_root := bare (Some zero_timestamp) (dt_root ?t)\<rparr>)"
    using dt_deserialize_serialized [OF assms(4)] len(1) by (simp add: reads_def dt_serialize_def)
  have wf: "list_all ie_wf (im_entries ?i)"
    using ok by (simp add: index_ok_def Let_def)
  have idx: "reads im_deserialize newIndexManager (im_serialize ?i) ((foldl im_push newIndexManager (im_entries ?i))\<lparr>im_sorted := False\<rparr>)"
    using im_deserialize_serialized [OF wf] len(2) by (simp add: reads_def im_serialize_def)
  have chunks: "reads_chunks (ev_grow env) (newChunkManager default_ChunkConfig, g) (cm_serialize ?c) (cm_clear (newChunkManager default_ChunkConfig), g)"
    using ok cm_deserialize_empty [of ?c] by (simp add: reads_chunks_def cm_serialize_def)
  have "reads_metadata (ms_serialize []) [] newMetadataStore"
    by (simp add: reads_metadata_def ms_serialize_def)
  note parse = parse_archive_lemma [OF h(1-3,5,6) this dir idx chunks, where rest = j and limit = "ev_limit env"]
  let ?r = "newArchiveReader rconfig"
  define r where "r = ?r\<lparr>ar_path := path, ar_archiveData := of_bytes (aw_file w'),
      ar_parser := (ar_parser ?r)\<lparr>pa_state := PS_Complete, pa_warnings := []\<rparr>, ar_header := h, ar_metadata := newMetadataStore,
      ar_directoryTree := ?t\<lparr>dt_root := bare (Some zero_timestamp) (dt_root ?t)\<rparr>,
      ar_indexManager := (foldl im_push newIndexManager (im_entries ?i))\<lparr>im_sorted := False\<rparr>,
      ar_chunkManager := cm_clear (newChunkManager default_ChunkConfig), ar_isOpen := True\<rparr>"
  show thesis
  proof (rule that)
    show "of_bytes (aw_file w') = ah_serialize h @ data @ dt_serialize ?t @ im_serialize ?i @ cm_serialize ?c @ j"
      by (simp add: w1 bytes ms_serialize_def)
    show "ar_open env g ?r path (Some (of_bytes (aw_file w'))) = Inr (Success, r, g)"
      using parse assms(5)
      by (simp add: ar_open_def parseArchive_def newArchiveReader_def w1 bytes r_def archive_result_def)
    show "opened config w (of_bytes (aw_file w')) r"
      using ok h(4) by (simp add: opened_def r_def newArchiveReader_def)
    show "length (im_entries (aw_indexManager w)) < 2 ^ 62"
      using len(2) length_concat_entries [OF wf] by (simp add: im_serialize_def)
  qed (use h(1) small w1 in \<open>simp_all add: r_def newArchiveReader_def\<close>)
qed

lemma read_stored:
  assumes "stored_at env compressed data ie d" "ar_archiveData r = ah_serialize h @ data @ rest" "header_wf h"
    "length (ar_archiveData r) < 2 ^ 62" "ar_compression r = newCompressionEngine (engine_config Zstd 3)"
    "ah_flags (ar_header r) AND HeaderCompressed \<noteq> 0 \<longleftrightarrow> compressed"
    "ae_offset e = ie_offset ie" "ae_storedSize e = ie_size ie" "ae_checksum e = ie_checksum ie"
  shows "readEntryData env r e = Inr (Inr d)"
proof -
  obtain pre p post where p: "data = pre @ p @ post" "ie_offset ie = size64 (headerSize + length pre)"
      "ie_size ie = size64 (length p)" "recoverable env compressed p d" "ie_checksum ie = ce_compute (ev_digest env) SHA256 d"
    using assms(1) by (auto simp: stored_at_def)
  have hs: "length (ah_serialize h) = headerSize"
    using assms(3) by (simp add: ah_serialize_def)
  have small: "headerSize + length pre + length p \<le> length (ar_archiveData r)" "headerSize + length pre + length p < 2 ^ 62"
    using assms(4) by (simp_all add: assms(2) p(1) hs)
  have n: "unat (ae_offset e) = headerSize + length pre" "unat (ae_storedSize e) = length p"
    using small(2) by (simp_all add: assms(7,8) p(2,3))
  have "unat (ae_offset e + ae_storedSize e) = headerSize + length pre + length p"
    using small(2) by (simp add: assms(7,8) p(2,3) size64_add)
  moreover have "unat (size64 (length (ar_archiveData r))) = length (ar_archiveData r)"
    using assms(4) by simp
  ultimately have "\<not> ae_offset e + ae_storedSize e > size64 (length (ar_archiveData r))"
    using small(1) by (simp add: word_less_nat_alt)
  moreover have "take (length p) (drop (headerSize + length pre) (ar_archiveData r)) = p"
    by (simp add: assms(2) p(1) hs)
  ultimately show ?thesis
    using p(4,5) small(1) assms(5,6,9)
    by (auto simp: readEntryData_def n recoverable_def split: sum.split_asm if_split_asm)
qed

lemma session_extracts:
  assumes "session env config es w" "aw_close env now [] w = (Success, w')" "readable_config env config" "sha256_law env"
    "list_all (\<lambda>(p, d). length d \<le> ev_limit env) es" "ev_limit env < 2 ^ 63" "ev_disk env < 2 ^ 62"
    "height (dt_root (aw_directoryTree w)) \<le> ev_stack env" "length (of_bytes (aw_file w')) \<le> ev_limit env"
  shows "\<exists>r. ar_open env g (newArchiveReader rconfig) path (Some (of_bytes (aw_file w'))) = Inr (Success, r, g) \<and>
    list_all (\<lambda>(p, d). \<forall>q. id_at (splitPath q) (dt_root (aw_directoryTree w)) = id_at (splitPath p) (dt_root (aw_directoryTree w)) \<longrightarrow>
      extractEntry env r q = Inr (Inr d) \<and>
      (\<exists>e. ar_findEntry r q = Inr (Inr e) \<and> extractEntry_id env r (ae_id e) = Inr (Inr d))) es \<and>
    ar_config r = rconfig \<and> ar_isOpen r"
proof -
  obtain data where ok: "session_ok env config es w data"
    using session_keeps [OF assms(1,3,4,6,5)] by blast
  obtain h r rest where r: "of_bytes (aw_file w') = ah_serialize h @ data @ rest" "header_wf h" "length (of_bytes (aw_file w')) < 2 ^ 62"
    "length (im_entries (aw_indexManager w)) < 2 ^ 62"
    "ar_open env g (newArchiveReader rconfig) path (Some (of_bytes (aw_file w'))) = Inr (Success, r, g)"
    and op: "opened config w (of_bytes (aw_file w')) r" "ar_config r = rconfig"
    by (rule session_opens [OF ok assms(2,7-9)])
  let ?es = "im_entries (aw_indexManager w)"
  have "distinct (map ie_entryId ?es)"
    using ok distinct_ids [of "length ?es"] r(4) by (simp add: session_ok_def index_ok_def Let_def)
  note look = im_findById_pushed [OF this]
  have "extractEntry env r q = Inr (Inr d) \<and>
      (\<exists>e. ar_findEntry r q = Inr (Inr e) \<and> extractEntry_id env r (ae_id e) = Inr (Inr d))" if pd: "(p, d) \<in> set es"
    and q: "id_at (splitPath q) (dt_root (aw_directoryTree w)) = id_at (splitPath p) (dt_root (aw_directoryTree w))" for p d q
  proof -
    obtain ie where ie: "ie \<in> set ?es" "id_at (splitPath p) (dt_root (aw_directoryTree w)) = Some (ie_entryId ie)"
        "stored_at env (wc_compression config \<noteq> CNone) data ie d"
      using ok pd by (fastforce simp: session_ok_def entries_ok_def list_all_iff)
    then have "map_option dn_id (dt_find (ar_directoryTree r) q) = Some (ie_entryId ie)"
      using op(1) q by (simp add: dt_find_node_at opened_def node_at_bare id_at_def)
    then obtain node where node: "dt_find (ar_directoryTree r) q = Some node" "dn_id node = ie_entryId ie"
      by auto
    let ?e = "(listed_entry ie)\<lparr>ae_path := q, ae_type := File\<rparr>"
    have e: "ar_findEntry r q = Inr (Inr ?e)" "ar_findEntry_id r (ae_id ?e) = Inr (Inr (listed_entry ie))"
      using op(1) node look [OF ie(1)] by (simp_all add: ar_findEntry_def ar_findEntry_id_def opened_def listed_entry_def)
    have "readEntryData env r ?e = Inr (Inr d)" "readEntryData env r (listed_entry ie) = Inr (Inr d)"
      using ie(3) op(1) r(1-3) open_flags_compressed [of config]
      by (auto intro!: read_stored simp: opened_def listed_entry_def)
    with e show ?thesis
      by (simp add: extractEntry_def extractEntry_id_def)
  qed
  moreover have "ar_isOpen r"
    using op(1) by (simp add: opened_def)
  ultimately show ?thesis
    using r(5) op(2) by (fastforce simp: list_all_iff)
qed

lemma close_fits:
  assumes "session_ok env config es w data" "aw_close env now it w = (Success, w')" "ev_disk env < 2 ^ 62"
  shows "length (of_bytes (aw_file w')) \<le> ev_disk env"
proof -
  note ok = assms(1) [unfolded session_ok_def settings_ok_def]
  obtain w1 where fin: "finalizeArchive env now it w = (Success, w1)" and w1: "of_bytes (aw_file w') = of_bytes (aw_file w1)"
    using assms(2) by (auto simp: aw_close_def and_then_Success split: if_split_asm)
  show ?thesis
    using finalize_layout [OF fin _ assms(3) _ _ refl refl refl refl refl] ok w1 by metis
qed

section \<open>Every run of a writer\<close>

text \<open>The operations of an open writer, each with what it finds outside: the time, the random bytes, the content of
  the source file and the entries of the source directory.\<close>

datatype writer_op =
    AddFile Timestamp "byte list option" "byte list option" string
  | AddDirectory Timestamp string Permissions
  | AddSymlink Timestamp "byte list option" string string
  | AddBlob Timestamp "byte list option" "byte list" string EntryFlags
  | WriteData Timestamp "byte list option" "byte list" string
  | AddDirectoryTree Timestamp "byte list option" string string "dir_item list option"
  | SetMetadata string "byte list"
  | SetMetadataString string string
  | SetEncryptionKey "byte list"
  | SetCompression CompressionAlgorithm int

fun aw_exec :: "archive_env \<Rightarrow> writer_op \<Rightarrow> ArchiveWriter \<Rightarrow> (ErrorCode \<times> ArchiveWriter) cpp" where
  "aw_exec env (AddFile now rand source p) w = aw_addFile env now rand w source p"
| "aw_exec env (AddDirectory now p perms) w = Inr (aw_addDirectory env now w p perms)"
| "aw_exec env (AddSymlink now rand link p) w = aw_addSymlink env now rand w link p"
| "aw_exec env (AddBlob now rand data p flags) w = aw_addBlob env now rand w data p flags"
| "aw_exec env (WriteData now rand data p) w = aw_writeData env now rand w data p"
| "aw_exec env (AddDirectoryTree now rand dir base found) w = aw_addDirectoryTree env now rand w dir base found"
| "aw_exec env (SetMetadata key v) w = Inr (Success, aw_setMetadata w key v)"
| "aw_exec env (SetMetadataString key v) w = Inr (Success, aw_setMetadata_string w key v)"
| "aw_exec env (SetEncryptionKey key) w = Inr (Success, aw_setEncryptionKey w key)"
| "aw_exec env (SetCompression algo level) w = Inr (Success, aw_setCompression w algo level)"

text \<open>A writer of any configuration after it was opened and any of these operations were called, whatever they returned.\<close>

inductive writing :: "archive_env \<Rightarrow> ArchiveWriter \<Rightarrow> bool" for env where
  writing_open: "aw_open True now (newArchiveWriter env config) path = (Success, w) \<Longrightarrow> writing env w"
| writing_step: "writing env w \<Longrightarrow> aw_exec env op w = Inr (ec, w') \<Longrightarrow> writing env w'"

definition writable :: "archive_env \<Rightarrow> ArchiveWriter \<Rightarrow> bool" where
  "writable env w \<longleftrightarrow> aw_isOpen w \<and> header_wf (aw_header w) \<and> ah_isValid (aw_header w) \<and>
     (of_fail (aw_file w) \<or> (\<exists>data. at_offset env w data))"

lemma writable_cong:
  assumes "writable env w" "aw_isOpen w' = aw_isOpen w" "aw_header w' = aw_header w" "aw_file w' = aw_file w"
    "aw_currentOffset w' = aw_currentOffset w"
  shows "writable env w'"
  using assms by (simp add: writable_def at_offset_def)

lemma of_fail_write [simp]: "of_fail f \<Longrightarrow> of_fail (of_write disk f bytes)"
  by (simp add: of_write_def)

lemma process_writable:
  assumes "processAndWriteEntry env now rand w d entry = Inr (ec, w')" "writable env w"
  shows "writable env w'"
proof -
  obtain p e where p: "process_data env rand w d entry = Inr (p, e)"
    using assms(1) by (cases "process_data env rand w d entry") (auto simp: processAndWriteEntry_def)
  let ?f = "of_write (ev_disk env) (aw_file w) p"
  show ?thesis
  proof (cases "of_fail ?f")
    case True
    then show ?thesis
      using assms p by (auto simp: processAndWriteEntry_def Let_def writable_def)
  next
    case False
    then obtain data where "at_offset env w data"
      using assms(2) by (auto simp: writable_def)
    then have "at_offset env (w\<lparr>aw_file := ?f, aw_currentOffset := aw_currentOffset w + size64 (length p)\<rparr>) (data @ p)"
      using laid_out_write [OF _ False] by (simp add: at_offset_def size64_add add.assoc)
    then show ?thesis
      using assms p False
      by (auto simp: processAndWriteEntry_def Let_def writable_def at_offset_def setArchiveSize_def setEntryCount_def header_wf_def
          ah_isValid_def isValidMagic_def isVersionSupported_def split: if_split_asm prod.split_asm)
  qed
qed

lemma mkdir_writable: "aw_addDirectory env now w p perms = (ec, w') \<Longrightarrow> writable env w \<Longrightarrow> writable env w'"
  by (erule writable_cong; auto simp: aw_addDirectory_def Let_def split: if_split_asm prod.split_asm)

lemma add_writable:
  "aw_addFile env now rand w source p = Inr (ec, w') \<Longrightarrow> writable env w \<Longrightarrow> writable env w'"
  "aw_addSymlink env now rand w link p = Inr (ec, w') \<Longrightarrow> writable env w \<Longrightarrow> writable env w'"
  "aw_addBlob env now rand w data p flags = Inr (ec, w') \<Longrightarrow> writable env w \<Longrightarrow> writable env w'"
  by (auto simp: aw_addFile_def aw_addSymlink_def aw_addBlob_def Let_def split: if_split_asm option.split_asm intro: process_writable)

lemma items_writable:
  "add_items env now rand dir base w items = Inr (ec, w') \<Longrightarrow> writable env w \<Longrightarrow> writable env w'"
proof (induction items arbitrary: w)
  case (Cons item items)
  let ?r = "case item of Dir_item path \<Rightarrow> Inr (aw_addDirectory env now w (base @ drop (length dir) path) default_permissions)
        | Link_item path link \<Rightarrow> aw_addSymlink env now rand w link (base @ drop (length dir) path)
        | File_item path content \<Rightarrow> aw_addFile env now rand w content (base @ drop (length dir) path)
        | Other_item path \<Rightarrow> Inr (Success, w)"
  obtain ec1 w1 where r: "?r = Inr (ec1, w1)"
    using Cons(2) by (cases ?r) (auto simp: Let_def)
  then have "writable env w1"
    using Cons(3) by (cases item) (auto intro: add_writable mkdir_writable)
  then show ?case
    using Cons(1,2) r by (auto simp: Let_def split: if_split_asm)
qed simp

lemma exec_writable: "aw_exec env op w = Inr (ec, w') \<Longrightarrow> writable env w \<Longrightarrow> writable env w'"
proof (cases op)
  case (AddDirectoryTree now rand dir base found)
  then show "aw_exec env op w = Inr (ec, w') \<Longrightarrow> writable env w \<Longrightarrow> writable env w'"
    by (auto simp: aw_addDirectoryTree_def Let_def split: if_split_asm option.split_asm prod.split_asm intro: items_writable mkdir_writable)
qed (auto intro: add_writable mkdir_writable writable_cong
      simp: aw_writeData_def aw_setMetadata_def aw_setMetadata_string_def aw_setEncryptionKey_def aw_setCompression_def)

lemma writing_writable: "writing env w \<Longrightarrow> writable env w"
proof (induction rule: writing.induct)
  case (writing_open now config path w)
  then have "at_offset env w []" "aw_isOpen w" "header_wf (aw_header w)" "ah_isValid (aw_header w)"
    by (auto simp: aw_open_def newArchiveWriter_def at_offset_def laid_out_def of_seek_def setArchiveSize_def setFlags_def
        newArchiveHeader_def header_wf_def ah_isValid_def isValidMagic_def isVersionSupported_def archive_magic_def
        size64_def headerSize_def Let_def)
  then show ?case
    by (auto simp: writable_def)
qed (rule exec_writable)

text \<open>What has been written behind the header.\<close>

definition written_data :: "ArchiveWriter \<Rightarrow> byte list" where
  "written_data w = drop headerSize (of_bytes (aw_file w))"

lemma at_offset_written: "at_offset env w data \<Longrightarrow> data = written_data w"
  by (auto simp: at_offset_def laid_out_def written_data_def)

lemma section_outcome: "fst (write_section env w bytes) \<in> {Success, IOError}"
  "of_fail (aw_file w) \<Longrightarrow> fst (write_section env w bytes) = IOError"
  by (simp_all add: write_section_def Let_def)

lemma and_then_outcome: "fst r \<in> {Success, IOError} \<Longrightarrow> (\<And>w. fst (f w) \<in> {Success, IOError}) \<Longrightarrow> fst (and_then r f) \<in> {Success, IOError}"
  by (auto simp: and_then_def)

lemma finalize_outcome: "fst (finalizeArchive env now it w) \<in> {Success, IOError}"
  unfolding finalizeArchive_def Let_def writeMetadataSection_def writeDirectorySection_def writeIndexSection_def writeChunkSection_def
  by (intro and_then_outcome section_outcome)
    (auto simp: writeBlocksSection_def writeJournalSection_def writeHeader_def Let_def section_outcome(1) [simplified] split: option.split)

text \<open>An open writer is closed exactly when no write has failed and the sections fit the disk.\<close>

lemma finalize_decides:
  assumes "writable env w"
  shows "fst (finalizeArchive env now it w) = Success \<longleftrightarrow>
    \<not> of_fail (aw_file w) \<and> of_pos (aw_file w) + length (section_bytes now it w) \<le> ev_disk env"
proof (cases "of_fail (aw_file w)")
  case True
  then show ?thesis
    by (simp add: finalizeArchive_def writeMetadataSection_def Let_def and_then_def section_outcome(2))
next
  case False
  then obtain data where data: "at_offset env w data"
    using assms by (auto simp: writable_def)
  then have pos: "of_pos (aw_file w) = headerSize + length data"
    by (simp add: at_offset_def laid_out_def)
  show ?thesis
  proof
    assume "fst (finalizeArchive env now it w) = Success"
    then obtain w' where "finalizeArchive env now it w = (Success, w')"
      by (cases "finalizeArchive env now it w") simp
    from finalize_sections [OF this data refl refl refl refl refl]
    obtain w1 where "at_offset env w1 (data @ section_bytes now it w)"
      unfolding section_bytes_def .
    then show "\<not> of_fail (aw_file w) \<and> of_pos (aw_file w) + length (section_bytes now it w) \<le> ev_disk env"
      using False pos by (simp add: at_offset_def laid_out_def section_bytes_def dt_serialize_def)
  next
    assume "\<not> of_fail (aw_file w) \<and> of_pos (aw_file w) + length (section_bytes now it w) \<le> ev_disk env"
    then show "fst (finalizeArchive env now it w) = Success"
      using finalize_succeeds [OF data, of now it] assms pos by (fastforce simp: writable_def)
  qed
qed

text \<open>What a closed archive holds.\<close>

definition archive_layout :: "archive_env \<Rightarrow> Timestamp \<Rightarrow> (string \<times> byte list) list \<Rightarrow> ArchiveWriter \<Rightarrow> byte list \<Rightarrow> bool" where
  "archive_layout env now it w bytes \<longleftrightarrow>
     (let m = ms_serialize it; d = dt_serialize (aw_directoryTree w); i = im_serialize (aw_indexManager w);
          c = cm_serialize (aw_chunkManager w); j = journal_bytes now w; data = written_data w in
      \<exists>h. bytes = ah_serialize h @ data @ m @ d @ i @ c @ j \<and>
        header_wf h \<and> ah_isValid h \<and> verifyChecksum (ev_crc env) h \<and>
        ah_flags h = ah_flags (aw_header w) \<and> ah_entryCount h = ah_entryCount (aw_header w) \<and>
        announces h m d i c [] \<and> places h data m d i c \<and>
        journal_at w h (headerSize + length data + length m + length d + length i + length c) (length j) \<and>
        ah_archiveSize h = size64 (length bytes))"

lemma finalize_writes_layout:
  assumes "writable env w" "finalizeArchive env now it w = (Success, w')" "ev_disk env < 2 ^ 62"
  shows "archive_layout env now it w (of_bytes (aw_file w'))"
proof -
  obtain data where data: "at_offset env w data"
    using assms(1,2) finalize_decides [OF assms(1), of now it] by (auto simp: writable_def)
  show ?thesis
    by (rule finalize_layout [OF assms(2) data assms(3) _ _ refl refl refl refl refl])
      (use assms(1) at_offset_written [OF data] in \<open>auto simp: writable_def archive_layout_def Let_def\<close>)
qed

lemma and_then_isOpen: "aw_isOpen (snd r) = b \<Longrightarrow> (\<And>w. aw_isOpen w = b \<Longrightarrow> aw_isOpen (snd (f w)) = b) \<Longrightarrow> aw_isOpen (snd (and_then r f)) = b"
  by (simp add: and_then_def)

lemma section_isOpen: "aw_isOpen (snd (write_section env w bytes)) = aw_isOpen w"
  by (simp add: write_section_def Let_def)

lemma finalize_isOpen: "aw_isOpen (snd (finalizeArchive env now it w)) = aw_isOpen w"
  unfolding finalizeArchive_def Let_def writeMetadataSection_def writeDirectorySection_def writeIndexSection_def writeChunkSection_def
  by (intro and_then_isOpen)
    (auto simp: writeBlocksSection_def writeJournalSection_def writeHeader_def Let_def section_isOpen split: option.split)

lemma close_outcome:
  assumes "writing env w" "ev_disk env < 2 ^ 62"
  shows "if \<not> of_fail (aw_file w) \<and> of_pos (aw_file w) + length (section_bytes now it w) \<le> ev_disk env
    then \<exists>w'. aw_close env now it w = (Success, w') \<and> archive_layout env now it w (of_bytes (aw_file w')) \<and>
      \<not> aw_isOpen w' \<and> \<not> of_isOpen (aw_file w') \<and> aw_finalized w' \<and> aw_close env later it' w' = (InvalidOperation, w') \<and>
      aw_destroy env later it' w' = w'
    else \<exists>w'. aw_close env now it w = (IOError, w') \<and> aw_isOpen w'"
proof -
  have w: "writable env w"
    by (rule writing_writable [OF assms(1)])
  obtain ec w1 where fin: "finalizeArchive env now it w = (ec, w1)"
    by (cases "finalizeArchive env now it w")
  have "aw_isOpen w1"
    using fin w finalize_isOpen [of env now it w] by (simp add: writable_def)
  then show ?thesis
    using fin w finalize_decides [OF w, of now it] finalize_outcome [of env now it w] finalize_writes_layout [OF w _ assms(2), of now it w1]
    by (auto simp: aw_close_def aw_destroy_def and_then_def writable_def)
qed

text \<open>C26: closing, in full.  Take a new writer of any configuration that is opened and on which any of its operations are called, with
  any results (a call that throws ends the run): files, symbolic links, blobs, directories and directory trees added, metadata, keys and the compression
  set.  Closing it succeeds if no write to the file has failed and the data written so far and the sections fit
  the disk, and gives an I/O error and leaves the writer open otherwise.  A closed archive is the header, the data of the
  entries as written, then the metadata, the directory tree, the index, the chunk table and the journal as they serialise; the
  header is valid with a right checksum, keeps the flags and the entry count, and gives the offset and the size of each section
  and the size of the file.  The writer is closed then: closing again is refused and destroying it does nothing.
  The disk holds less than 2^62 bytes.  Output is not buffered: a write fails at once.\<close>

theorem archive_close:
  assumes "writing env w" "ev_disk env < 2 ^ 62"
  shows "if \<not> of_fail (aw_file w) \<and> of_pos (aw_file w) + length (section_bytes now it w) \<le> ev_disk env
    then \<exists>w'. aw_close env now it w = (Success, w') \<and> archive_layout env now it w (of_bytes (aw_file w')) \<and>
      \<not> aw_isOpen w' \<and> \<not> of_isOpen (aw_file w') \<and> aw_finalized w' \<and> aw_close env later it' w' = (InvalidOperation, w') \<and>
      aw_destroy env later it' w' = w'
    else \<exists>w'. aw_close env now it w = (IOError, w') \<and> aw_isOpen w'"
  by (rule close_outcome [OF assms])

text \<open>C1: what is written is read.  An archive written in a session without encryption, uncompressed or compressed with
  Zstandard, and without metadata, is opened by a reader of any configuration, and every file, symbolic link
  and blob is extracted as it was given to the writer.  The paths were free when they were added; the disk holds less
  than 2^62 bytes, the archive and each entry fit the memory, and the directories are not nested deeper than the stack of
  the directory reader allows.  Zstandard restores what it compresses, and SHA-256 has 32 bytes.\<close>

theorem archive_roundtrip:
  assumes "session env config es w" "aw_close env now [] w = (Success, w')" "readable_config env config" "sha256_law env"
    "list_all (\<lambda>(p, d). length d \<le> ev_limit env) es" "ev_limit env < 2 ^ 63" "ev_disk env < 2 ^ 62"
    "height (dt_root (aw_directoryTree w)) \<le> ev_stack env" "length (of_bytes (aw_file w')) \<le> ev_limit env"
  shows "\<exists>r. ar_open env g (newArchiveReader rconfig) path (Some (of_bytes (aw_file w'))) = Inr (Success, r, g) \<and>
    list_all (\<lambda>(p, d). extractEntry env r p = Inr (Inr d)) es"
  using session_extracts [OF assms, of g rconfig path] by (fastforce simp: list_all_iff)

definition ends_well :: "(ErrorCode \<times> 'a) cpp \<Rightarrow> bool" where
  "ends_well r = (case r of Inl _ \<Rightarrow> False | Inr x \<Rightarrow> fst x = Success)"

lemma ends_well_eq: "ends_well r \<Longrightarrow> r = Inr (Success, snd (projr r))"
  by (cases r) (auto simp: ends_well_def prod_eq_iff)

definition example_env :: archive_env where
  "example_env = \<lparr>ev_libs = copy_libs, ev_limit = 5000, ev_ssl = None, ev_digest = (\<lambda>_ bs. replicate 31 0 @ [word_of_nat (length bs)]),
     ev_crc = (\<lambda>bs. word_of_nat (length bs)), ev_disk = 5000, ev_stack = 9, ev_grow = Suc\<rparr>"

definition example_config :: WriterConfig where
  "example_config = default_WriterConfig\<lparr>wc_enableJournal := False\<rparr>"

definition example_w1 :: ArchiveWriter where
  "example_w1 = snd (aw_open True zero_timestamp (newArchiveWriter example_env example_config) ''a.nfs'')"

definition example_w2 :: ArchiveWriter where
  "example_w2 = snd (projr (aw_addFile example_env zero_timestamp None example_w1 (Some [1, 2, 3]) ''/d/f''))"

definition example_w3 :: ArchiveWriter where
  "example_w3 = snd (projr (aw_addBlob example_env zero_timestamp None example_w2 [7, 7] ''/b'' 0))"

definition example_w4 :: ArchiveWriter where
  "example_w4 = snd (aw_close example_env zero_timestamp [] example_w3)"

lemmas writer_eval = aw_open_def newArchiveWriter_def of_seek_def size64_def headerSize_def setFlags_def setArchiveSize_def
  open_flags_def HeaderCompressed_def HeaderJournaled_def HeaderDedup_def HeaderEncrypted_def example_config_def default_WriterConfig_def

lemmas write_eval = processAndWriteEntry_def process_data_def en_compress_def compressZstd_def zeros_def copy_libs_def
  newCompressionEngine_def en_initContext_def engine_config_def newCompressionResult_def resize_def of_write_def overwrite_def
  new_entry_def default_entry_def dt_insert_def newDirectoryTree_def emptyNode_def splitPath_def findChild_def with_children_def
  with_files_def im_insert_def newIndexManager_def index_entry_of_def setEntryCount_def ce_compute_eq
  aw_addFile_def aw_addBlob_def Let_def example_env_def

lemma example_w1_eq: "aw_open True zero_timestamp (newArchiveWriter example_env example_config) ''a.nfs'' = (Success, example_w1)"
  by (simp add: example_w1_def writer_eval Let_def)

lemma example_w2_eq: "aw_addFile example_env zero_timestamp None example_w1 (Some [1, 2, 3]) ''/d/f'' = Inr (Success, example_w2)"
  unfolding example_w2_def
  by (rule ends_well_eq) (simp add: example_w1_def writer_eval write_eval ends_well_def)

lemma example_w3_eq: "aw_addBlob example_env zero_timestamp None example_w2 [7, 7] ''/b'' 0 = Inr (Success, example_w3)"
  unfolding example_w3_def
  by (rule ends_well_eq) (simp add: example_w2_def example_w1_def writer_eval write_eval ends_well_def)

lemma example_w3_simps [simp]:
  "dt_root (aw_directoryTree example_w3) = DirectoryNode [] 0 0
      [DirectoryNode ''d'' 2 0 [DirectoryNode ''f'' 1 2 [] [] (Some zero_timestamp) default_permissions] [1] None default_permissions,
       DirectoryNode ''b'' 2 0 [] [] (Some zero_timestamp) default_permissions] [2] None default_permissions"
  "dt_nodeCount (aw_directoryTree example_w3) = 3"
  "im_entries (aw_indexManager example_w3) =
     [\<lparr>ie_entryId = 1, ie_offset = 158, ie_size = 4, ie_checksum = replicate 31 0 @ [3]\<rparr>,
      \<lparr>ie_entryId = 2, ie_offset = 162, ie_size = 3, ie_checksum = replicate 31 0 @ [2]\<rparr>]"
  "aw_isOpen example_w3" "aw_journal example_w3 = None" "cm_chunks (aw_chunkManager example_w3) = []"
  "header_wf (aw_header example_w3)" "of_pos (aw_file example_w3) = 165" "length (of_bytes (aw_file example_w3)) = 165"
  "of_isOpen (aw_file example_w3)" "\<not> of_fail (aw_file example_w3)"
  by (simp_all add: example_w3_def example_w2_def example_w1_def writer_eval write_eval newChunkManager_def newArchiveHeader_def
      header_wf_def archive_magic_def)

lemma example_w2_tree: "dt_find (aw_directoryTree example_w1) ''/d/f'' = None" "dt_find (aw_directoryTree example_w2) ''/b'' = None"
  by (simp_all add: dt_find_def example_w2_def example_w1_def writer_eval write_eval)

lemma example_encodes: "encode 0 = [0]" "encode 1 = [1]" "encode 2 = [2]" "encode 3 = [3]" "encode 4 = [4]" "encode 158 = [158, 1]"
  "encode 162 = [162, 1]"
  by code_simp+

lemma example_lengths [simp]:
  "length (dt_serialize (aw_directoryTree example_w3)) = 26" "length (im_serialize (aw_indexManager example_w3)) = 73"
  "length (cm_serialize (aw_chunkManager example_w3)) = 1"
  by (simp_all add: dt_serialize_def im_serialize_def cm_serialize_def serialize_IndexEntry_def size64_def example_encodes)


lemma example_session: "session example_env example_config [(''/d/f'', [1, 2, 3]), (''/b'', [7, 7])] example_w3"
  using session_blob [OF session_file [OF session_open [OF example_w1_eq] example_w2_tree(1) example_w2_eq] example_w2_tree(2) example_w3_eq]
  by simp

lemma example_laws:
  "readable_config example_env example_config" "sha256_law example_env" "ev_limit example_env = 5000" "ev_disk example_env = 5000"
  "ev_stack example_env = 9"
  using copy_libs_laws [of Zstd 3]
  by (simp_all add: readable_config_def example_env_def example_config_def default_WriterConfig_def codec_laws_def sha256_law_def)


lemma example_sections: "length (section_bytes now [] example_w3) = 100"
  by (simp add: section_bytes_def journal_bytes_def ms_serialize_def)

lemma example_writing: "writing example_env example_w3"
  using writing_step [OF writing_step [OF writing_open [OF example_w1_eq], of "AddFile zero_timestamp None (Some [1, 2, 3]) ''/d/f''"],
      of _ _ "AddBlob zero_timestamp None [7, 7] ''/b'' 0"]
  by (simp add: example_w2_eq example_w3_eq)

theorem archive_close_witness:
  "\<exists>w'. aw_close example_env zero_timestamp [] example_w3 = (Success, w') \<and>
     archive_layout example_env zero_timestamp [] example_w3 (of_bytes (aw_file w'))"
proof -
  note ex = archive_close [OF example_writing, where now = zero_timestamp and it = "[]" and later = zero_timestamp and it' = "[]"]
  show ?thesis
    using ex by (auto simp: example_laws example_sections)
qed

lemma example_w4_eq: "aw_close example_env zero_timestamp [] example_w3 = (Success, example_w4)"
proof -
  note ex = close_outcome [OF example_writing, where now = zero_timestamp and it = "[]" and later = zero_timestamp and it' = "[]"]
  show ?thesis
    using ex by (auto simp: example_laws example_sections example_w4_def)
qed

lemma example_w4_fits: "length (of_bytes (aw_file example_w4)) \<le> 5000"
proof -
  obtain data where ok: "session_ok example_env example_config [(''/d/f'', [1, 2, 3]), (''/b'', [7, 7])] example_w3 data"
    using session_keeps [OF example_session example_laws(1,2)] by (auto simp: example_laws)
  show ?thesis
    using close_fits [OF ok example_w4_eq] by (simp add: example_laws)
qed

theorem archive_roundtrip_witness:
  "\<exists>r. ar_open example_env newChunkGlobals (newArchiveReader default_ReaderConfig) ''a.nfs'' (Some (of_bytes (aw_file example_w4))) =
       Inr (Success, r, newChunkGlobals) \<and>
     extractEntry example_env r ''/d/f'' = Inr (Inr [1, 2, 3]) \<and> extractEntry example_env r ''/b'' = Inr (Inr [7, 7])"
  using archive_roundtrip [OF example_session example_w4_eq example_laws(1,2), where g = newChunkGlobals and rconfig = default_ReaderConfig
      and path = "''a.nfs''"] example_w4_fits
  by (simp add: example_laws)

text \<open>C31: what a reader that verifies checksums extracts for a path is data whose SHA-256 digest the index holds for the
  identifier of the path's node, read from within the archive.\<close>

theorem extract_verified:
  assumes "extractEntry env r path = Inr (Inr d)" "rc_verifyChecksums (ar_config r)"
  shows "\<exists>node ie. dt_find (ar_directoryTree r) path = Some node \<and> im_findById (ar_indexManager r) (dn_id node) = Inr (Some ie) \<and>
    ev_digest env SHA256 d = ie_checksum ie \<and> unat (ie_offset ie) + unat (ie_size ie) \<le> length (ar_archiveData r)"
  by (rule extract_checked [OF assms])

lemma example_extracts:
  "\<exists>r. ar_open example_env newChunkGlobals (newArchiveReader default_ReaderConfig) ''a.nfs'' (Some (of_bytes (aw_file example_w4))) =
       Inr (Success, r, newChunkGlobals) \<and>
     extractEntry example_env r ''/d'' = Inr (Inr [7, 7]) \<and> extractEntry example_env r ''/d/f'' = Inr (Inr [1, 2, 3]) \<and>
     rc_verifyChecksums (ar_config r)"
proof -
  have "id_at (splitPath ''/d'') (dt_root (aw_directoryTree example_w3)) = id_at (splitPath ''/b'') (dt_root (aw_directoryTree example_w3))"
    by (simp add: splitPath_def findChild_def)
  then show ?thesis
    using session_extracts [OF example_session example_w4_eq example_laws(1,2), of newChunkGlobals default_ReaderConfig "''a.nfs''"] example_w4_fits
    by (auto simp: example_laws default_ReaderConfig_def)
qed

theorem extract_verified_witness:
  "\<exists>r node ie. ar_open example_env newChunkGlobals (newArchiveReader default_ReaderConfig) ''a.nfs'' (Some (of_bytes (aw_file example_w4))) =
       Inr (Success, r, newChunkGlobals) \<and> dt_find (ar_directoryTree r) ''/d/f'' = Some node \<and>
     im_findById (ar_indexManager r) (dn_id node) = Inr (Some ie) \<and> ev_digest example_env SHA256 [1, 2, 3] = ie_checksum ie"
proof -
  obtain r where r: "ar_open example_env newChunkGlobals (newArchiveReader default_ReaderConfig) ''a.nfs'' (Some (of_bytes (aw_file example_w4))) =
       Inr (Success, r, newChunkGlobals)" "extractEntry example_env r ''/d/f'' = Inr (Inr [1, 2, 3])" "rc_verifyChecksums (ar_config r)"
    using example_extracts by blast
  then show ?thesis
    using extract_verified [OF r(2,3)] by fast
qed

text \<open>A directory that the writer creates on the way to an entry gets the identifier of the entry added next, so
  that a reader extracts the data of that entry from the path of the directory.\<close>

theorem directory_extracts_next_entry:
  "\<exists>r. ar_open example_env newChunkGlobals (newArchiveReader default_ReaderConfig) ''a.nfs'' (Some (of_bytes (aw_file example_w4))) =
       Inr (Success, r, newChunkGlobals) \<and> extractEntry example_env r ''/d'' = Inr (Inr [7, 7])"
  using example_extracts by blast

end
