(* ===== verification/Archive_Server.thy ===== *)
theory Archive_Server
  imports Archive_Roundtrip
begin

text \<open>
  \<^verbatim>\<open>network/ArchiveServer\<close>: a server that gives read access to an archive over TCP, one connection at a time.

  The system calls are parameters.  What \<^verbatim>\<open>read\<close> returns on a connection is a list of events, an empty list being the end
  of the stream, and likewise for \<^verbatim>\<open>write\<close>, which takes everything once its events are used up; \<open>sockets\<close> says what opening a
  socket gives.  The server thread is the function \<open>serverLoop\<close>; what other threads do while it runs is not modelled.
\<close>

section \<open>The protocol\<close>

datatype Command = ListEntries | FindEntry | ExtractEntry | GetMetadata | GetHeader | Ping | Shutdown | Command_raw byte

definition command_of_byte :: "byte \<Rightarrow> Command" where
  "command_of_byte b =
     (if b = 1 then ListEntries else if b = 2 then FindEntry else if b = 3 then ExtractEntry else if b = 4 then GetMetadata
      else if b = 5 then GetHeader else if b = 6 then Ping else if b = 0xFF then Shutdown else Command_raw b)"

datatype ResponseCode = RSuccess | RNotFound | RError | RAuthRequired | RInvalidRequest

definition response_to_byte :: "ResponseCode \<Rightarrow> byte" where
  "response_to_byte c = (case c of RSuccess \<Rightarrow> 0 | RNotFound \<Rightarrow> 1 | RError \<Rightarrow> 2 | RAuthRequired \<Rightarrow> 3 | RInvalidRequest \<Rightarrow> 4)"

record ServerConfig =
  sv_port :: u16
  sv_bindAddress :: string
  sv_maxConnections :: nat
  sv_bufferSize :: nat
  sv_timeoutSeconds :: int
  sv_requireAuth :: bool
  sv_authToken :: string

definition default_ServerConfig :: ServerConfig where
  "default_ServerConfig =
     \<lparr>sv_port = 9871, sv_bindAddress = ''127.0.0.1'', sv_maxConnections = 10, sv_bufferSize = 262144, sv_timeoutSeconds = 30,
      sv_requireAuth = False, sv_authToken = []\<rparr>"

text \<open>An error code of the library or of the system.\<close>

datatype server_ec = Own ErrorCode | Errno nat

section \<open>Sending and receiving\<close>

datatype read_event = Data "byte list" | Read_interrupted | Read_failed nat
datatype write_event = Written nat | Write_interrupted | Write_failed nat

function recvExact :: "read_event list \<Rightarrow> nat \<Rightarrow> byte list \<Rightarrow> (server_ec + byte list) \<times> read_event list" where
  "recvExact evs sz received =
     (if length received \<ge> sz then (Inr received, evs)
      else case evs of
        [] \<Rightarrow> (Inl (Own IOError), [])
      | Read_interrupted # evs \<Rightarrow> recvExact evs sz received
      | Read_failed e # evs \<Rightarrow> (Inl (Errno e), evs)
      | Data bs # evs \<Rightarrow>
          if bs = [] then (Inl (Own IOError), evs)
          else
            let n = sz - length received in
            recvExact (if length bs > n then Data (drop n bs) # evs else evs) sz (received @ take n bs))"
  by pat_completeness auto
termination
  by (relation "measure (\<lambda>(evs, sz, received). length evs + (sz - length received))") (auto simp: min_def split: if_splits)

declare recvExact.simps [simp del]

text \<open>The bytes that reach the peer are the second component.\<close>

fun sendAll :: "write_event list \<Rightarrow> byte list \<Rightarrow> server_ec \<times> byte list \<times> write_event list" where
  "sendAll evs data =
     (if data = [] then (Own Success, [], evs)
      else case evs of
        [] \<Rightarrow> (Own Success, data, [])
      | Write_interrupted # evs \<Rightarrow> sendAll evs data
      | Write_failed e # evs \<Rightarrow> (Errno e, [], evs)
      | Written n # evs \<Rightarrow> (case sendAll evs (drop n data) of (ec, sent, evs) \<Rightarrow> (ec, take n data @ sent, evs)))"

declare sendAll.simps [simp del]

definition response_frame :: "ResponseCode \<Rightarrow> byte list \<Rightarrow> byte list" where
  "response_frame code data = response_to_byte code # to_le 4 (word_of_nat (length data) :: u32) @ data"

definition sendResponse :: "write_event list \<Rightarrow> ResponseCode \<Rightarrow> byte list \<Rightarrow> server_ec \<times> byte list \<times> write_event list" where
  "sendResponse evs code data = sendAll evs (response_frame code data)"

section \<open>The server\<close>

text \<open>\<open>as_thread\<close> says whether the server owns a joinable thread.\<close>

record ArchiveServer =
  as_config :: ServerConfig
  as_reader :: "ArchiveReader option"
  as_thread :: bool
  as_running :: bool
  as_serverFd :: int

definition newArchiveServer :: "ServerConfig \<Rightarrow> ArchiveServer" where
  "newArchiveServer config = \<lparr>as_config = config, as_reader = None, as_thread = False, as_running = False, as_serverFd = - 1\<rparr>"

record sockets =
  so_socket :: "int \<times> nat"
  so_pton :: bool
  so_bind :: "nat option"
  so_listen :: "nat option"

definition as_start :: "sockets \<Rightarrow> ArchiveServer \<Rightarrow> server_ec \<times> ArchiveServer" where
  "as_start so s =
     (if as_running s then (Own InvalidOperation, s)
      else
        let s = s\<lparr>as_serverFd := fst (so_socket so)\<rparr> in
        if as_serverFd s < 0 then (Errno (snd (so_socket so)), s)
        else if \<not> so_pton so then (Own InvalidOperation, s\<lparr>as_serverFd := - 1\<rparr>)
        else case so_bind so of
          Some e \<Rightarrow> (Errno e, s\<lparr>as_serverFd := - 1\<rparr>)
        | None \<Rightarrow>
            (case so_listen so of
               Some e \<Rightarrow> (Errno e, s\<lparr>as_serverFd := - 1\<rparr>)
             | None \<Rightarrow> (Own Success, s\<lparr>as_running := True, as_thread := True\<rparr>)))"

definition serve :: "archive_env \<Rightarrow> sockets \<Rightarrow> ChunkGlobals \<Rightarrow> ArchiveServer \<Rightarrow> string \<Rightarrow> byte list option \<Rightarrow>
    (server_ec \<times> ArchiveServer \<times> ChunkGlobals) cpp" where
  "serve env so g s archivePath file =
     bind_cpp (ar_open env g (newArchiveReader default_ReaderConfig) archivePath file) (\<lambda>(ec, r, g).
     let s = s\<lparr>as_reader := Some r\<rparr> in
     Inr (if ec \<noteq> Success then (Own ec, s, g) else (case as_start so s of (ec, s) \<Rightarrow> (ec, s, g))))"

text \<open>A thread that joins itself throws.\<close>

definition as_stop :: "bool \<Rightarrow> ArchiveServer \<Rightarrow> ArchiveServer cpp" where
  "as_stop self s =
     (let s = s\<lparr>as_running := False, as_serverFd := - 1\<rparr> in
      if as_thread s \<and> self then Inl System_error
      else Inr (s\<lparr>as_thread := False, as_reader := None\<rparr>))"

text \<open>What a command answers.  The bytes of numbers are those of a little-endian machine.\<close>

definition answer :: "archive_env \<Rightarrow> ArchiveReader \<Rightarrow> Command \<Rightarrow> byte list \<Rightarrow> (ResponseCode \<times> byte list) cpp" where
  "answer env r cmd payload =
     (case cmd of
        ListEntries \<Rightarrow>
          Inr (case listEntries r of
                 Inl _ \<Rightarrow> (RError, [])
               | Inr entries \<Rightarrow> (RSuccess, concat (map (\<lambda>e. to_le 8 (ae_id e)) entries)))
      | FindEntry \<Rightarrow>
          bind_cpp (ar_findEntry r (string_of_bytes payload)) (\<lambda>entryResult.
          Inr (case entryResult of
                 Inl _ \<Rightarrow> (RNotFound, [])
               | Inr e \<Rightarrow> (RSuccess, to_le 8 (ae_id e) @ to_le 8 (ae_offset e) @ to_le 8 (ae_storedSize e))))
      | ExtractEntry \<Rightarrow>
          if length payload \<ge> 8 then
            bind_cpp (extractEntry_id env r (from_le (take 8 payload))) (\<lambda>dataResult.
            Inr (case dataResult of Inl _ \<Rightarrow> (RNotFound, []) | Inr data \<Rightarrow> (RSuccess, data)))
          else Inr (RInvalidRequest, [])
      | GetMetadata \<Rightarrow>
          bind_cpp (ar_getMetadata r (string_of_bytes payload)) (\<lambda>v.
          Inr (case v of None \<Rightarrow> (RNotFound, []) | Some v \<Rightarrow> (RSuccess, bytes_of_string v)))
      | GetHeader \<Rightarrow> Inr (RSuccess, ah_serialize (ar_header r))
      | _ \<Rightarrow> Inr (RInvalidRequest, []))"

definition processCommand :: "archive_env \<Rightarrow> ArchiveServer \<Rightarrow> write_event list \<Rightarrow> Command \<Rightarrow> byte list \<Rightarrow>
    (server_ec \<times> byte list \<times> write_event list) cpp" where
  "processCommand env s evs cmd payload =
     (case as_reader s of
        None \<Rightarrow> Inr (sendResponse evs RError [])
      | Some r \<Rightarrow>
          if \<not> ar_isOpen r then Inr (sendResponse evs RError [])
          else bind_cpp (answer env r cmd payload) (\<lambda>(code, data). Inr (sendResponse evs code data)))"

text \<open>What a connection is sent, and the server afterwards.\<close>

definition handleConnection :: "archive_env \<Rightarrow> ArchiveServer \<Rightarrow> read_event list \<Rightarrow> write_event list \<Rightarrow> (byte list \<times> ArchiveServer) cpp" where
  "handleConnection env s evs wevs =
     (case recvExact evs 1 [] of
        (Inl _, _) \<Rightarrow> Inr ([], s)
      | (Inr cmdByte, evs) \<Rightarrow>
          let cmd = command_of_byte (hd cmdByte) in
          if cmd = Shutdown then bind_cpp (as_stop True s) (\<lambda>s. Inr (fst (snd (sendResponse wevs RSuccess [])), s))
          else if cmd = Ping then Inr (fst (snd (sendResponse wevs RSuccess [])), s)
          else case recvExact evs 4 [] of
            (Inl _, _) \<Rightarrow> Inr ([], s)
          | (Inr lenBuf, evs) \<Rightarrow>
              let payloadLen = unat (from_le lenBuf :: u32) in
              if payloadLen > ev_limit env then Inl Alloc_failure
              else
                case (if payloadLen > 0 then recvExact evs payloadLen [] else (Inr [], evs)) of
                  (Inl _, _) \<Rightarrow> Inr ([], s)
                | (Inr payload, evs) \<Rightarrow> bind_cpp (processCommand env s wevs cmd payload) (\<lambda>(_, sent, _). Inr (sent, s)))"

datatype accept_event = Accepted "read_event list" "write_event list" | Accept_interrupted | Accept_failed

fun serverLoop :: "archive_env \<Rightarrow> ArchiveServer \<Rightarrow> accept_event list \<Rightarrow> (byte list list \<times> ArchiveServer) cpp" where
  "serverLoop env s [] = Inr ([], s)"
| "serverLoop env s (ev # evs) =
     (if \<not> as_running s then Inr ([], s)
      else case ev of
        Accept_interrupted \<Rightarrow> serverLoop env s evs
      | Accept_failed \<Rightarrow> Inr ([], s)
      | Accepted r w \<Rightarrow>
          bind_cpp (handleConnection env s r w) (\<lambda>(sent, s).
          bind_cpp (serverLoop env s evs) (\<lambda>(answers, s). Inr (sent # answers, s))))"

section \<open>Transport\<close>

text \<open>The events bring the bytes in pieces, with interruptions, and without an error.\<close>

fun piece :: "read_event \<Rightarrow> byte list option" where
  "piece (Data bs) = (if bs = [] then None else Some bs)"
| "piece Read_interrupted = Some []"
| "piece (Read_failed e) = None"

definition delivers :: "read_event list \<Rightarrow> byte list \<Rightarrow> bool" where
  "delivers evs bs \<longleftrightarrow> list_all (\<lambda>e. piece e \<noteq> None) evs \<and> concat (map (the \<circ> piece) evs) = bs"

lemma delivers_simps [simp]:
  "delivers [] bs \<longleftrightarrow> bs = []"
  "delivers (Read_interrupted # evs) bs \<longleftrightarrow> delivers evs bs"
  "\<not> delivers (Read_failed e # evs) bs"
  "delivers (Data xs # evs) bs \<longleftrightarrow> xs \<noteq> [] \<and> (\<exists>bs'. bs = xs @ bs' \<and> delivers evs bs')"
  by (auto simp: delivers_def)

lemma recvExact_full: "sz \<le> length received \<Longrightarrow> recvExact evs sz received = (Inr received, evs)"
  by (simp add: recvExact.simps)

lemma recvExact_delivers:
  "delivers evs bs \<Longrightarrow> length received \<le> sz \<Longrightarrow> sz - length received \<le> length bs \<Longrightarrow>
   \<exists>evs'. recvExact evs sz received = (Inr (received @ take (sz - length received) bs), evs') \<and>
     delivers evs' (drop (sz - length received) bs)"
proof (induction evs arbitrary: received bs)
  case Nil
  then show ?case by (simp add: recvExact_full)
next
  case (Cons e evs)
  show ?case
  proof (cases "length received = sz")
    case True
    then show ?thesis using Cons.prems(1) by (simp add: recvExact_full)
  next
    case False
    then have lt: "length received < sz" using Cons.prems(2) by simp
    show ?thesis
    proof (cases e)
      case (Data xs)
      let ?n = "sz - length received"
      obtain bs' where bs: "xs \<noteq> []" "bs = xs @ bs'" "delivers evs bs'"
        using Cons.prems(1) Data by auto
      show ?thesis
      proof (cases "length xs > ?n")
        case True
        then show ?thesis
          using lt bs Data by (subst recvExact.simps) (auto simp: recvExact_full Let_def)
      next
        case False
        then show ?thesis
          using lt bs Data Cons.prems(3) Cons.IH [OF bs(3), of "received @ xs"]
          by (subst recvExact.simps) simp
      qed
    next
      case Read_interrupted
      then show ?thesis
        using lt Cons.prems Cons.IH [of bs received] by (subst recvExact.simps) simp
    qed (use Cons.prems(1) in simp)
  qed
qed

definition accepts :: "write_event list \<Rightarrow> bool" where
  "accepts evs \<longleftrightarrow> list_all (\<lambda>e. case e of Write_failed _ \<Rightarrow> False | _ \<Rightarrow> True) evs"

lemma sendAll_accepts: "accepts evs \<Longrightarrow> \<exists>evs'. sendAll evs data = (Own Success, data, evs')"
proof (induction evs arbitrary: data)
  case (Cons e evs)
  show ?case
  proof (cases "data = []")
    case False
    with Cons.prems Cons.IH [of data] show ?thesis
    proof (cases e)
      case (Written n)
      with False Cons.prems Cons.IH [of "drop n data"] show ?thesis
        by (subst sendAll.simps) (auto simp: accepts_def)
    qed (subst sendAll.simps, auto simp: accepts_def)+
  qed (simp add: sendAll.simps)
qed (simp add: sendAll.simps)

lemma sendResponse_accepts: "accepts evs \<Longrightarrow> \<exists>evs'. sendResponse evs code data = (Own Success, response_frame code data, evs')"
  unfolding sendResponse_def by (rule sendAll_accepts)

section \<open>Requests and answers\<close>

definition request_frame :: "byte \<Rightarrow> byte list \<Rightarrow> byte list" where
  "request_frame c payload = c # to_le 4 (word_of_nat (length payload) :: u32) @ payload"

lemma connection_answered:
  assumes "delivers evs (request_frame c payload @ rest)" "accepts wevs" "length payload < 2 ^ 32" "length payload \<le> ev_limit env"
    "command_of_byte c \<notin> {Ping, Shutdown}" "as_reader s = Some r" "ar_isOpen r"
    "answer env r (command_of_byte c) payload = Inr (code, data)"
  shows "handleConnection env s evs wevs = Inr (response_frame code data, s)"
proof -
  let ?len = "word_of_nat (length payload) :: u32"
  obtain e1 where e1: "recvExact evs 1 [] = (Inr [c], e1)" "delivers e1 (to_le 4 ?len @ payload @ rest)"
    using recvExact_delivers [OF assms(1), of "[]" 1] by (auto simp: request_frame_def)
  obtain e2 where e2: "recvExact e1 4 [] = (Inr (to_le 4 ?len), e2)" "delivers e2 (payload @ rest)"
    using recvExact_delivers [OF e1(2), of "[]" 4] by auto
  obtain e3 where e3: "recvExact e2 (length payload) [] = (Inr payload, e3)"
    using recvExact_delivers [OF e2(2), of "[]" "length payload"] by auto
  have n: "unat ?len = length payload"
    using assms(3) by (simp add: unat_of_nat take_bit_nat_eq_self)
  obtain w where w: "sendResponse wevs code data = (Own Success, response_frame code data, w)"
    using sendResponse_accepts [OF assms(2)] by blast
  have "processCommand env s wevs (command_of_byte c) payload = Inr (Own Success, response_frame code data, w)"
    using assms(6-8) w by (simp add: processCommand_def)
  then show ?thesis
    using e1(1) e2(1) e3 n assms(4,5) by (auto simp: handleConnection_def Let_def)
qed

text \<open>However a request is cut into pieces and whatever follows it, a server with an open archive answers it with the response frame
  of what the command answers.\<close>

theorem server_answers:
  assumes "delivers evs (request_frame c payload @ rest)" "accepts wevs" "length payload < 2 ^ 32" "length payload \<le> ev_limit env"
    "command_of_byte c \<notin> {Ping, Shutdown}" "as_reader s = Some r" "ar_isOpen r"
    "answer env r (command_of_byte c) payload = Inr (code, data)"
  shows "handleConnection env s evs wevs = Inr (response_frame code data, s)"
  by (rule connection_answered [OF assms])

lemma serve_reader:
  assumes "ar_open env g (newArchiveReader default_ReaderConfig) path file = Inr (Success, r, g')"
    "serve env so g s path file = Inr (Own Success, s', g'')"
  shows "as_reader s' = Some r \<and> as_running s' \<and> as_thread s'"
  using assms by (auto simp: serve_def as_start_def Let_def split: if_split_asm option.split_asm)

text \<open>what was added to an archive can be fetched over the network: a client that asks for a path added in a writing session
  gets the entry's identifier, offset and stored size, and asking for that identifier gets the data that was added,
  however the requests and the answers are cut into pieces.\<close>

theorem remote_extract:
  assumes "session env config es w" "aw_close env now [] w = (Success, w')" "readable_config env config" "sha256_law env"
    "list_all (\<lambda>(p, d). length d \<le> ev_limit env) es" "ev_limit env < 2 ^ 63" "ev_disk env < 2 ^ 62"
    "height (dt_root (aw_directoryTree w)) \<le> ev_stack env" "length (of_bytes (aw_file w')) \<le> ev_limit env"
    "serve env so g s0 path (Some (of_bytes (aw_file w'))) = Inr (Own Success, s, g')"
    "(p, d) \<in> set es" "length p < 2 ^ 32" "length p \<le> ev_limit env" "8 \<le> ev_limit env"
    "delivers find_evs (request_frame 2 (bytes_of_string p))" "accepts wevs"
  shows "\<exists>(eid :: u64) (off :: u64) (sz :: u64). handleConnection env s find_evs wevs = Inr (response_frame RSuccess (to_le 8 eid @ to_le 8 off @ to_le 8 sz), s) \<and>
    (\<forall>evs. delivers evs (request_frame 3 (to_le 8 eid)) \<longrightarrow> handleConnection env s evs wevs = Inr (response_frame RSuccess d, s))"
proof -
  obtain r where r: "ar_open env g (newArchiveReader default_ReaderConfig) path (Some (of_bytes (aw_file w'))) = Inr (Success, r, g)"
      "ar_isOpen r"
    and ex: "list_all (\<lambda>(p, d). \<forall>q. id_at (splitPath q) (dt_root (aw_directoryTree w)) = id_at (splitPath p) (dt_root (aw_directoryTree w)) \<longrightarrow>
      extractEntry env r q = Inr (Inr d) \<and>
      (\<exists>e. ar_findEntry r q = Inr (Inr e) \<and> extractEntry_id env r (ae_id e) = Inr (Inr d))) es"
    using session_extracts [OF assms(1-9), of g default_ReaderConfig path] by blast
  obtain e where e: "ar_findEntry r p = Inr (Inr e)" "extractEntry_id env r (ae_id e) = Inr (Inr d)"
    using ex assms(11) by (fastforce simp: list_all_iff)
  have s: "as_reader s = Some r"
    using serve_reader [OF r(1) assms(10)] by simp
  have c: "command_of_byte 2 = FindEntry" "command_of_byte 3 = ExtractEntry"
    by (simp_all add: command_of_byte_def)
  have answers: "answer env r FindEntry (bytes_of_string p) = Inr (RSuccess, to_le 8 (ae_id e) @ to_le 8 (ae_offset e) @ to_le 8 (ae_storedSize e))"
    "answer env r ExtractEntry (to_le 8 (ae_id e)) = Inr (RSuccess, d)"
    using e by (simp_all add: answer_def)
  have "handleConnection env s find_evs wevs =
      Inr (response_frame RSuccess (to_le 8 (ae_id e) @ to_le 8 (ae_offset e) @ to_le 8 (ae_storedSize e)), s)"
    using assms(12-16) s r(2) c answers(1)
    by (intro connection_answered [where rest = "[]" and c = 2 and payload = "bytes_of_string p"]) simp_all
  moreover have "handleConnection env s evs wevs = Inr (response_frame RSuccess d, s)" if "delivers evs (request_frame 3 (to_le 8 (ae_id e)))" for evs
    using assms(14,16) s r(2) c that answers(2)
    by (intro connection_answered [where rest = "[]" and c = 3 and payload = "to_le 8 (ae_id e)"]) simp_all
  ultimately show ?thesis by blast
qed

definition example_sockets :: sockets where
  "example_sockets = \<lparr>so_socket = (3, 0), so_pton = True, so_bind = None, so_listen = None\<rparr>"

theorem remote_extract_witness:
  "\<exists>s (eid :: u64) (off :: u64) (sz :: u64).
     serve example_env example_sockets newChunkGlobals (newArchiveServer default_ServerConfig) ''a.nfs'' (Some (of_bytes (aw_file example_w4))) =
       Inr (Own Success, s, newChunkGlobals) \<and>
     handleConnection example_env s [Data (request_frame 2 (bytes_of_string ''/b''))] [Written 3, Write_interrupted] =
       Inr (response_frame RSuccess (to_le 8 eid @ to_le 8 off @ to_le 8 sz), s) \<and>
     handleConnection example_env s [Data (request_frame 3 (to_le 8 eid))] [Written 3, Write_interrupted] = Inr (response_frame RSuccess [7, 7], s)"
proof -
  obtain r where r: "ar_open example_env newChunkGlobals (newArchiveReader default_ReaderConfig) ''a.nfs'' (Some (of_bytes (aw_file example_w4))) =
       Inr (Success, r, newChunkGlobals)"
    using example_extracts by blast
  obtain s where s: "serve example_env example_sockets newChunkGlobals (newArchiveServer default_ServerConfig) ''a.nfs''
      (Some (of_bytes (aw_file example_w4))) = Inr (Own Success, s, newChunkGlobals)"
    using r by (simp add: serve_def as_start_def example_sockets_def newArchiveServer_def)
  have d: "delivers [Data (request_frame c xs)] (request_frame c xs)" for c xs
    by (simp add: request_frame_def)
  show ?thesis
    using remote_extract [OF example_session example_w4_eq example_laws(1,2) _ _ _ _ _ s, where p = "''/b''" and d = "[7, 7]"
        and find_evs = "[Data (request_frame 2 (bytes_of_string ''/b''))]" and wevs = "[Written 3, Write_interrupted]"]
      example_w4_fits d s
    by (fastforce simp: example_laws accepts_def)
qed

text \<open>A connection changes a running server only by ending it.\<close>

theorem server_connection_outcome:
  assumes "as_thread s" "handleConnection env s evs wevs = Inr (sent, s')"
  shows "s' = s"
  using assms
  by (auto simp: handleConnection_def as_stop_def Let_def bind_cpp_def split: prod.split_asm sum.split_asm if_split_asm)

theorem server_connection_outcome_witness:
  "handleConnection example_env ((newArchiveServer default_ServerConfig)\<lparr>as_thread := True\<rparr>) [Data [6]] [] =
     Inr ([0, 0, 0, 0, 0], (newArchiveServer default_ServerConfig)\<lparr>as_thread := True\<rparr>)"
proof -
  let ?s = "(newArchiveServer default_ServerConfig)\<lparr>as_thread := True\<rparr>"
  have r: "recvExact [Data [6]] 1 [] = (Inr [6], [])" "command_of_byte 6 = Ping"
    by (simp_all add: recvExact.simps command_of_byte_def)
  have "sendResponse [] RSuccess [] = (Own Success, [0, 0, 0, 0, 0], [])"
    by (simp add: sendResponse_def sendAll.simps response_frame_def response_to_byte_def numeral_eq_Suc)
  with r obtain s' where h: "handleConnection example_env ?s [Data [6]] [] = Inr ([0, 0, 0, 0, 0], s')"
    by (simp add: handleConnection_def)
  with server_connection_outcome [OF _ h] show ?thesis by simp
qed

text \<open>A \<^verbatim>\<open>Shutdown\<close> command makes the server's own thread call \<^verbatim>\<open>stop\<close>, which joins that thread: the exception ends the process.\<close>

theorem shutdown_terminates:
  assumes "serve env so g s0 path file = Inr (Own Success, s, g')" "delivers evs (0xFF # rest)"
  shows "handleConnection env s evs wevs = Inl System_error"
proof -
  have "as_thread s"
    using assms(1) by (cases "ar_open env g (newArchiveReader default_ReaderConfig) path file")
      (auto simp: serve_def as_start_def Let_def split: if_split_asm option.split_asm prod.split_asm)
  moreover obtain e1 where "recvExact evs 1 [] = (Inr [0xFF], e1)"
    using recvExact_delivers [OF assms(2), of "[]" 1] by auto
  ultimately show ?thesis
    by (simp add: handleConnection_def command_of_byte_def as_stop_def)
qed

end
