(* ===== verification/Heap_Components.thy ===== *)
theory Heap_Components
  imports Store_Interface
begin

text \<open>
  Components that keep raw pointers: \<^verbatim>\<open>storage/CacheManager\<close>, \<^verbatim>\<open>index/SessionManager\<close>, \<^verbatim>\<open>utils/Allocator\<close>,
  \<^verbatim>\<open>network/ProtocolRegistry\<close>, and \<^verbatim>\<open>utils/SizeCalculator\<close>.

  Objects live in an explicit heap.  \<^verbatim>\<open>new\<close> takes an address that was never used before, so that a dangling pointer is an
  address without a cell; using or deleting one is undefined.
\<close>

section \<open>The heap\<close>

record 'a heap =
  hp_cells :: "nat \<rightharpoonup> 'a"
  hp_next :: nat

definition empty_heap :: "'a heap" where
  "empty_heap = \<lparr>hp_cells = Map.empty, hp_next = 0\<rparr>"

definition hp_new :: "'a heap \<Rightarrow> 'a \<Rightarrow> nat \<times> 'a heap" where
  "hp_new h x = (hp_next h, \<lparr>hp_cells = (hp_cells h)(hp_next h \<mapsto> x), hp_next = Suc (hp_next h)\<rparr>)"

definition hp_get :: "'a heap \<Rightarrow> nat \<Rightarrow> 'a cpp" where
  "hp_get h p = (case hp_cells h p of None \<Rightarrow> Inl Undefined_behaviour | Some x \<Rightarrow> Inr x)"

definition hp_set :: "'a heap \<Rightarrow> nat \<Rightarrow> 'a \<Rightarrow> 'a heap" where
  "hp_set h p x = h\<lparr>hp_cells := (hp_cells h)(p \<mapsto> x)\<rparr>"

definition hp_delete :: "'a heap \<Rightarrow> nat \<Rightarrow> 'a heap cpp" where
  "hp_delete h p = (if hp_cells h p = None then Inl Undefined_behaviour else Inr (h\<lparr>hp_cells := (hp_cells h)(p := None)\<rparr>))"

definition heap_ok :: "'a heap \<Rightarrow> bool" where
  "heap_ok h \<longleftrightarrow> dom (hp_cells h) \<subseteq> {..<hp_next h}"

lemma heap_fresh: "heap_ok h \<Longrightarrow> hp_cells h (hp_next h) = None"
  by (auto simp: heap_ok_def dom_def)

section \<open>The cache\<close>

record CacheEntry =
  ch_data :: "nat option"
  ch_size :: nat

text \<open>The map of the cache and the heaps of its entries and of their data.\<close>

record CacheManager =
  ca_cache :: "u64 \<rightharpoonup> nat"
  ca_entries :: "CacheEntry heap"
  ca_data :: "byte list heap"

definition newCacheManager :: CacheManager where
  "newCacheManager = \<lparr>ca_cache = Map.empty, ca_entries = empty_heap, ca_data = empty_heap\<rparr>"

definition cache_put :: "CacheManager \<Rightarrow> u64 \<Rightarrow> byte list \<Rightarrow> CacheManager" where
  "cache_put s key data =
     (let (d, datas) = hp_new (ca_data s) data;
          (e, entries) = hp_new (ca_entries s) \<lparr>ch_data = Some d, ch_size = length data\<rparr>
      in s\<lparr>ca_data := datas, ca_entries := entries, ca_cache := (ca_cache s)(key \<mapsto> e)\<rparr>)"

definition cache_get :: "CacheManager \<Rightarrow> u64 \<Rightarrow> nat option" where
  "cache_get s key = ca_cache s key"

definition delete_data :: "byte list heap \<Rightarrow> nat option \<Rightarrow> byte list heap cpp" where
  "delete_data h p = (case p of None \<Rightarrow> Inr h | Some d \<Rightarrow> hp_delete h d)"

definition cache_evict :: "CacheManager \<Rightarrow> u64 \<Rightarrow> CacheManager cpp" where
  "cache_evict s key =
     (case ca_cache s key of
        None \<Rightarrow> Inr s
      | Some e \<Rightarrow>
          bind_cpp (hp_get (ca_entries s) e) (\<lambda>entry.
          bind_cpp (delete_data (ca_data s) (ch_data entry)) (\<lambda>datas.
          Inr (s\<lparr>ca_data := datas, ca_entries := hp_set (ca_entries s) e (entry\<lparr>ch_data := None\<rparr>)\<rparr>))))"

fun cache_delete_all :: "(u64 \<times> nat) list \<Rightarrow> CacheManager \<Rightarrow> CacheManager cpp" where
  "cache_delete_all [] s = Inr s"
| "cache_delete_all ((key, e) # it) s =
     bind_cpp (hp_get (ca_entries s) e) (\<lambda>entry.
     bind_cpp (delete_data (ca_data s) (ch_data entry)) (\<lambda>datas.
     bind_cpp (hp_delete (ca_entries s) e) (\<lambda>entries.
     cache_delete_all it (s\<lparr>ca_data := datas, ca_entries := entries\<rparr>))))"

definition cache_destroy :: "(u64 \<times> nat) list \<Rightarrow> CacheManager \<Rightarrow> CacheManager cpp" where
  "cache_destroy it s = bind_cpp (cache_delete_all it s) (\<lambda>s. Inr (s\<lparr>ca_cache := Map.empty\<rparr>))"

text \<open>What a caller reads through the pointer \<^verbatim>\<open>get\<close> returns: \<open>None\<close> without an entry, no bytes from an evicted one.\<close>

definition cache_read :: "CacheManager \<Rightarrow> u64 \<Rightarrow> byte list rd" where
  "cache_read s key =
     (case cache_get s key of
        None \<Rightarrow> Inr None
      | Some e \<Rightarrow>
          bind_cpp (hp_get (ca_entries s) e) (\<lambda>entry.
          case ch_data entry of None \<Rightarrow> Inr (Some []) | Some d \<Rightarrow> bind_cpp (hp_get (ca_data s) d) (\<lambda>bs. Inr (Some bs))))"

section \<open>Sessions\<close>

record Session =
  se_id :: u64
  se_active :: bool

record SessionManager =
  sm_sessions :: "u64 \<rightharpoonup> nat"
  sm_activeSessions :: "nat list"
  sm_heap :: "Session heap"

definition newSessionManager :: SessionManager where
  "newSessionManager = \<lparr>sm_sessions = Map.empty, sm_activeSessions = [], sm_heap = empty_heap\<rparr>"

definition addSession :: "SessionManager \<Rightarrow> u64 \<Rightarrow> SessionManager" where
  "addSession s sid =
     (if sm_sessions s sid \<noteq> None then s
      else
        let (p, heap) = hp_new (sm_heap s) \<lparr>se_id = sid, se_active = True\<rparr>
        in s\<lparr>sm_heap := heap, sm_sessions := (sm_sessions s)(sid \<mapsto> p), sm_activeSessions := sm_activeSessions s @ [p]\<rparr>)"

definition closeSession :: "SessionManager \<Rightarrow> u64 \<Rightarrow> SessionManager cpp" where
  "closeSession s sid =
     (case sm_sessions s sid of
        None \<Rightarrow> Inr s
      | Some p \<Rightarrow> bind_cpp (hp_delete (sm_heap s) p) (\<lambda>heap. Inr (s\<lparr>sm_heap := heap, sm_sessions := (sm_sessions s)(sid := None)\<rparr>)))"

definition getSession :: "SessionManager \<Rightarrow> u64 \<Rightarrow> nat option" where
  "getSession s sid = sm_sessions s sid"

fun delete_sessions :: "(u64 \<times> nat) list \<Rightarrow> Session heap \<Rightarrow> Session heap cpp" where
  "delete_sessions [] h = Inr h"
| "delete_sessions ((sid, p) # it) h = bind_cpp (hp_delete h p) (delete_sessions it)"

definition sessions_destroy :: "(u64 \<times> nat) list \<Rightarrow> SessionManager \<Rightarrow> SessionManager cpp" where
  "sessions_destroy it s =
     bind_cpp (delete_sessions it (sm_heap s)) (\<lambda>heap. Inr (s\<lparr>sm_heap := heap, sm_sessions := Map.empty, sm_activeSessions := []\<rparr>))"

section \<open>The allocator\<close>

text \<open>A pool is the address of its memory; its blocks follow each other.  \<open>al_memory\<close> is where the next pool will be.\<close>

record Allocator =
  al_blockSize :: nat
  al_poolSize :: nat
  al_pools :: "nat list"
  al_freeList :: "nat list"
  al_allocated :: "nat set"
  al_memory :: nat

text \<open>Locking a mutex that the thread holds already is undefined.\<close>

definition createPool :: "bool \<Rightarrow> Allocator \<Rightarrow> Allocator cpp" where
  "createPool locked a =
     (let base = al_memory a; blocks = map (\<lambda>i. base + i * al_blockSize a) [0..<al_poolSize a] in
      if locked then Inl Undefined_behaviour
      else Inr (a\<lparr>al_pools := al_pools a @ [base], al_freeList := al_freeList a @ blocks,
                  al_memory := base + al_blockSize a * al_poolSize a\<rparr>))"

definition newAllocator :: "nat \<Rightarrow> nat \<Rightarrow> Allocator cpp" where
  "newAllocator blockSize poolSize =
     createPool False \<lparr>al_blockSize = blockSize, al_poolSize = poolSize, al_pools = [], al_freeList = [], al_allocated = {}, al_memory = 1\<rparr>"

definition allocate :: "Allocator \<Rightarrow> (nat \<times> Allocator) cpp" where
  "allocate a =
     bind_cpp (if al_freeList a = [] then createPool True a else Inr a) (\<lambda>a.
     let ptr = last (al_freeList a) in
     Inr (ptr, a\<lparr>al_freeList := butlast (al_freeList a), al_allocated := insert ptr (al_allocated a)\<rparr>))"

text \<open>The null pointer is 0.\<close>

definition deallocate :: "Allocator \<Rightarrow> nat \<Rightarrow> Allocator" where
  "deallocate a ptr =
     (if ptr = 0 then a
      else a\<lparr>al_freeList := al_freeList a @ [ptr], al_allocated := al_allocated a - {ptr}\<rparr>)"

definition al_reset :: "Allocator \<Rightarrow> Allocator cpp" where
  "al_reset a = createPool True (a\<lparr>al_freeList := [], al_allocated := {}, al_pools := []\<rparr>)"

definition freeCount :: "Allocator \<Rightarrow> nat" where
  "freeCount a = length (al_freeList a)"

definition totalAllocated :: "Allocator \<Rightarrow> nat" where
  "totalAllocated a = card (al_allocated a)"

section \<open>The protocol registry\<close>

text \<open>A parser is its name, its address and the address of its \<^verbatim>\<open>ProtocolBase\<close> part.\<close>

record protocol_parser =
  pp_name :: string
  pp_self :: nat
  pp_base :: nat

record ProtocolRegistry =
  rg_protocols :: "string \<rightharpoonup> nat"
  rg_baseProtocols :: "string \<rightharpoonup> nat"

definition newProtocolRegistry :: ProtocolRegistry where
  "newProtocolRegistry = \<lparr>rg_protocols = Map.empty, rg_baseProtocols = Map.empty\<rparr>"

definition registerProtocol :: "ProtocolRegistry \<Rightarrow> protocol_parser \<Rightarrow> ProtocolRegistry" where
  "registerProtocol r p =
     r\<lparr>rg_protocols := (rg_protocols r)(pp_name p \<mapsto> pp_self p), rg_baseProtocols := (rg_baseProtocols r)(pp_name p \<mapsto> pp_base p)\<rparr>"

definition registerProtocol_named :: "ProtocolRegistry \<Rightarrow> string \<Rightarrow> nat \<Rightarrow> ProtocolRegistry" where
  "registerProtocol_named r name parser =
     r\<lparr>rg_protocols := (rg_protocols r)(name \<mapsto> parser), rg_baseProtocols := (rg_baseProtocols r)(name \<mapsto> parser)\<rparr>"

definition getProtocol :: "ProtocolRegistry \<Rightarrow> string \<Rightarrow> nat option" where
  "getProtocol r name = rg_protocols r name"

definition getBaseProtocol :: "ProtocolRegistry \<Rightarrow> string \<Rightarrow> nat option" where
  "getBaseProtocol r name =
     (case rg_baseProtocols r name of Some p \<Rightarrow> Some p | None \<Rightarrow> rg_protocols r name)"

definition hasProtocol :: "ProtocolRegistry \<Rightarrow> string \<Rightarrow> bool" where
  "hasProtocol r name \<longleftrightarrow> rg_protocols r name \<noteq> None"

definition unregister :: "ProtocolRegistry \<Rightarrow> string \<Rightarrow> ProtocolRegistry" where
  "unregister r name = r\<lparr>rg_protocols := (rg_protocols r)(name := None), rg_baseProtocols := (rg_baseProtocols r)(name := None)\<rparr>"

definition protocolNames :: "(string \<times> nat) list \<Rightarrow> string list" where
  "protocolNames it = map fst it"

section \<open>Sizes\<close>

definition calculateSize :: "u64 \<Rightarrow> u64 \<Rightarrow> u64" where
  "calculateSize count perEntry = count * perEntry"

section \<open>The cache keeps its pointers apart\<close>

text \<open>Every pointer of the cache is valid, and no two keys share an entry or its data.\<close>

definition cache_inv :: "CacheManager \<Rightarrow> bool" where
  "cache_inv s \<longleftrightarrow> heap_ok (ca_entries s) \<and> heap_ok (ca_data s) \<and>
     (\<forall>k e. ca_cache s k = Some e \<longrightarrow> (\<exists>entry. hp_cells (ca_entries s) e = Some entry \<and>
        (\<forall>d. ch_data entry = Some d \<longrightarrow> hp_cells (ca_data s) d \<noteq> None))) \<and>
     (\<forall>k k' e. ca_cache s k = Some e \<longrightarrow> ca_cache s k' = Some e \<longrightarrow> k = k') \<and>
     (\<forall>k k' e e' x x' d. ca_cache s k = Some e \<longrightarrow> ca_cache s k' = Some e' \<longrightarrow> hp_cells (ca_entries s) e = Some x \<longrightarrow>
        hp_cells (ca_entries s) e' = Some x' \<longrightarrow> ch_data x = Some d \<longrightarrow> ch_data x' = Some d \<longrightarrow> k = k')"

lemma cache_inv_new: "cache_inv newCacheManager"
  by (simp add: cache_inv_def newCacheManager_def heap_ok_def empty_heap_def)

lemma cache_inv_entry:
  assumes "cache_inv s" "ca_cache s k = Some e"
  obtains x where "hp_cells (ca_entries s) e = Some x" "e < hp_next (ca_entries s)"
    "\<And>d. ch_data x = Some d \<Longrightarrow> d < hp_next (ca_data s) \<and> (\<exists>bs. hp_cells (ca_data s) d = Some bs)"
  using assms unfolding cache_inv_def heap_ok_def by (metis domI in_mono lessThan_iff not_None_eq)

lemma cache_put_inv:
  assumes "cache_inv s"
  shows "cache_inv (cache_put s k data)"
proof -
  let ?s = "cache_put s k data" and ?e = "hp_next (ca_entries s)" and ?d = "hp_next (ca_data s)"
  have c: "ca_cache ?s = (ca_cache s)(k \<mapsto> ?e)"
    "hp_cells (ca_entries ?s) = (hp_cells (ca_entries s))(?e \<mapsto> \<lparr>ch_data = Some ?d, ch_size = length data\<rparr>)"
    "hp_cells (ca_data ?s) = (hp_cells (ca_data s))(?d \<mapsto> data)"
    by (simp_all add: cache_put_def hp_new_def)
  have ok: "heap_ok (ca_entries ?s)" "heap_ok (ca_data ?s)"
    using assms by (auto simp: cache_inv_def cache_put_def hp_new_def heap_ok_def)
  have old: "e < ?e" "\<And>x d. hp_cells (ca_entries s) e = Some x \<Longrightarrow> ch_data x = Some d \<Longrightarrow> d < ?d"
    if "ca_cache s k' = Some e" for k' e
    using that by (auto elim!: cache_inv_entry [OF assms])
  show ?thesis
    unfolding cache_inv_def c
  proof (intro conjI allI impI ok)
    fix k' e
    assume e: "((ca_cache s)(k \<mapsto> ?e)) k' = Some e"
    show "\<exists>entry. ((hp_cells (ca_entries s))(?e \<mapsto> \<lparr>ch_data = Some ?d, ch_size = length data\<rparr>)) e = Some entry \<and>
        (\<forall>d. ch_data entry = Some d \<longrightarrow> ((hp_cells (ca_data s))(?d \<mapsto> data)) d \<noteq> None)"
    proof (cases "k' = k")
      case False
      with e have "ca_cache s k' = Some e" by simp
      then obtain x where "hp_cells (ca_entries s) e = Some x" "e < ?e"
        "\<And>d. ch_data x = Some d \<Longrightarrow> d < ?d \<and> (\<exists>bs. hp_cells (ca_data s) d = Some bs)"
        using assms by (auto elim!: cache_inv_entry)
      then show ?thesis by auto
    qed (use e in simp)
  next
    fix k' k'' e
    assume "((ca_cache s)(k \<mapsto> ?e)) k' = Some e" "((ca_cache s)(k \<mapsto> ?e)) k'' = Some e"
    then show "k' = k''"
      using assms old(1) unfolding cache_inv_def by (metis fun_upd_other fun_upd_same nat_neq_iff option.inject)
  next
    fix k' k'' e e' x x' d
    assume a: "((ca_cache s)(k \<mapsto> ?e)) k' = Some e" "((ca_cache s)(k \<mapsto> ?e)) k'' = Some e'"
      "((hp_cells (ca_entries s))(?e \<mapsto> \<lparr>ch_data = Some ?d, ch_size = length data\<rparr>)) e = Some x"
      "((hp_cells (ca_entries s))(?e \<mapsto> \<lparr>ch_data = Some ?d, ch_size = length data\<rparr>)) e' = Some x'"
      "ch_data x = Some d" "ch_data x' = Some d"
    show "k' = k''"
    proof (cases "k' = k \<or> k'' = k")
      case True
      then show ?thesis
        using a old by (auto split: if_split_asm) (metis nat_neq_iff)+
    next
      case False
      then have "ca_cache s k' = Some e" "ca_cache s k'' = Some e'" using a by simp_all
      moreover from this have "hp_cells (ca_entries s) e = Some x" "hp_cells (ca_entries s) e' = Some x'"
        using a old(1) by (auto split: if_split_asm)
      ultimately show ?thesis
        using assms a(5,6) unfolding cache_inv_def by blast
    qed
  qed
qed

lemma cache_read_put:
  assumes "cache_inv s"
  shows "cache_read (cache_put s k data) k' = (if k' = k then Inr (Some data) else cache_read s k')"
proof (cases "k' = k")
  case False
  show ?thesis
  proof (cases "ca_cache s k'")
    case (Some e)
    with assms obtain x where "hp_cells (ca_entries s) e = Some x" "e < hp_next (ca_entries s)"
      "\<And>d. ch_data x = Some d \<Longrightarrow> d < hp_next (ca_data s) \<and> (\<exists>bs. hp_cells (ca_data s) d = Some bs)"
      by (auto elim!: cache_inv_entry)
    with Some False show ?thesis
      by (auto simp: cache_read_def cache_get_def cache_put_def hp_new_def hp_get_def split: option.split)
  qed (use False in \<open>simp add: cache_read_def cache_get_def cache_put_def hp_new_def\<close>)
qed (simp add: cache_read_def cache_get_def cache_put_def hp_new_def hp_get_def)

interpretation cache: keyed_store cache_inv cache_read cache_put "\<lambda>_ data. data"
  by unfold_locales (simp_all add: cache_put_inv cache_read_put)

text \<open>An eviction succeeds; the entry stays in the map, with its size and without its data.\<close>

lemma cache_evict_run:
  assumes "cache_inv s" "ca_cache s k = Some e"
  obtains x s' where "hp_cells (ca_entries s) e = Some x" "cache_evict s k = Inr s'" "ca_cache s' = ca_cache s"
    "hp_cells (ca_entries s') = (hp_cells (ca_entries s))(e \<mapsto> x\<lparr>ch_data := None\<rparr>)"
    "hp_cells (ca_data s') = (case ch_data x of None \<Rightarrow> hp_cells (ca_data s) | Some d \<Rightarrow> (hp_cells (ca_data s))(d := None))"
    "hp_next (ca_entries s') = hp_next (ca_entries s)" "hp_next (ca_data s') = hp_next (ca_data s)"
proof -
  obtain x where x: "hp_cells (ca_entries s) e = Some x"
    "\<And>d. ch_data x = Some d \<Longrightarrow> \<exists>bs. hp_cells (ca_data s) d = Some bs"
    using assms by (auto elim!: cache_inv_entry)
  define datas where "datas = (case ch_data x of None \<Rightarrow> ca_data s | Some d \<Rightarrow> (ca_data s)\<lparr>hp_cells := (hp_cells (ca_data s))(d := None)\<rparr>)"
  have d: "delete_data (ca_data s) (ch_data x) = Inr datas"
    using x(2) by (auto simp: delete_data_def hp_delete_def datas_def split: option.split)
  show thesis
    by (rule that [of x "s\<lparr>ca_data := datas, ca_entries := hp_set (ca_entries s) e (x\<lparr>ch_data := None\<rparr>)\<rparr>"])
      (use x(1) d assms(2) in \<open>simp_all add: cache_evict_def hp_get_def hp_set_def datas_def split: option.split\<close>)
qed

lemma cache_evict_inv:
  assumes "cache_inv s"
  shows "\<exists>s'. cache_evict s k = Inr s' \<and> cache_inv s'"
proof (cases "ca_cache s k")
  case None
  then show ?thesis using assms by (simp add: cache_evict_def)
next
  case (Some e)
  from cache_evict_run [OF assms Some] obtain x s' where x: "hp_cells (ca_entries s) e = Some x" and s': "cache_evict s k = Inr s'" "ca_cache s' = ca_cache s"
    "hp_cells (ca_entries s') = (hp_cells (ca_entries s))(e \<mapsto> x\<lparr>ch_data := None\<rparr>)"
    "hp_cells (ca_data s') = (case ch_data x of None \<Rightarrow> hp_cells (ca_data s) | Some d \<Rightarrow> (hp_cells (ca_data s))(d := None))"
    and nx: "hp_next (ca_entries s') = hp_next (ca_entries s)" "hp_next (ca_data s') = hp_next (ca_data s)" .
  have ok: "heap_ok (ca_entries s')" "heap_ok (ca_data s')"
    using assms x unfolding cache_inv_def heap_ok_def nx s' by (auto split: option.split if_split_asm)
  have inj: "\<And>k' k'' e. ca_cache s k' = Some e \<Longrightarrow> ca_cache s k'' = Some e \<Longrightarrow> k' = k''"
    using assms unfolding cache_inv_def by blast
  have sep: "k1 = k2" if "ca_cache s k1 = Some e1" "ca_cache s k2 = Some e2" "hp_cells (ca_entries s) e1 = Some y"
    "hp_cells (ca_entries s) e2 = Some z" "ch_data y = Some d" "ch_data z = Some d" for k1 k2 e1 e2 y z d
    using assms that unfolding cache_inv_def by blast
  have "cache_inv s'"
    unfolding cache_inv_def s'(2-4)
  proof (intro conjI allI impI ok)
    fix k' e'
    assume e': "ca_cache s k' = Some e'"
    then obtain y where y: "hp_cells (ca_entries s) e' = Some y"
      "\<And>d. ch_data y = Some d \<Longrightarrow> \<exists>bs. hp_cells (ca_data s) d = Some bs"
      using assms by (auto elim!: cache_inv_entry)
    show "\<exists>entry. ((hp_cells (ca_entries s))(e \<mapsto> x\<lparr>ch_data := None\<rparr>)) e' = Some entry \<and> (\<forall>d. ch_data entry = Some d \<longrightarrow>
       (case ch_data x of None \<Rightarrow> hp_cells (ca_data s) | Some d \<Rightarrow> (hp_cells (ca_data s))(d := None)) d \<noteq> None)"
    proof (cases "e' = e")
      case False
      then have "k' \<noteq> k" using e' Some by auto
      then have "ch_data x = Some d \<Longrightarrow> ch_data y \<noteq> Some d" for d
        using sep [OF e' Some y(1) x] by blast
      with False y show ?thesis by (auto split: option.split)
    qed simp
  next
    show "k' = k''" if "ca_cache s k' = Some e'" "ca_cache s k'' = Some e'" for k' k'' e'
      using inj that by blast
  next
    show "k1 = k2" if "ca_cache s k1 = Some e1" "ca_cache s k2 = Some e2"
      "((hp_cells (ca_entries s))(e \<mapsto> x\<lparr>ch_data := None\<rparr>)) e1 = Some y" "((hp_cells (ca_entries s))(e \<mapsto> x\<lparr>ch_data := None\<rparr>)) e2 = Some z"
      "ch_data y = Some d" "ch_data z = Some d" for k1 k2 e1 e2 y z d
      using that sep [of k1 e1 k2 e2 y z d] by (auto split: if_split_asm)
  qed
  with s'(1) show ?thesis by blast
qed

lemma cache_delete_all_safe:
  assumes "distinct (map fst it)" "distinct (map snd it)"
    "\<And>k e. (k, e) \<in> set it \<Longrightarrow> \<exists>x. hp_cells (ca_entries s) e = Some x \<and> (\<forall>d. ch_data x = Some d \<longrightarrow> hp_cells (ca_data s) d \<noteq> None)"
    "\<And>k k' e e' x x' d. (k, e) \<in> set it \<Longrightarrow> (k', e') \<in> set it \<Longrightarrow> hp_cells (ca_entries s) e = Some x \<Longrightarrow>
       hp_cells (ca_entries s) e' = Some x' \<Longrightarrow> ch_data x = Some d \<Longrightarrow> ch_data x' = Some d \<Longrightarrow> k = k'"
  shows "\<exists>s'. cache_delete_all it s = Inr s'"
  using assms
proof (induction it arbitrary: s)
  case (Cons a it)
  obtain k e where a: "a = (k, e)" by (cases a)
  obtain x where x: "hp_cells (ca_entries s) e = Some x" "\<And>d. ch_data x = Some d \<Longrightarrow> hp_cells (ca_data s) d \<noteq> None"
    using Cons.prems(3) [of k e] a by auto
  define datas where "datas = (case ch_data x of None \<Rightarrow> ca_data s | Some d \<Rightarrow> (ca_data s)\<lparr>hp_cells := (hp_cells (ca_data s))(d := None)\<rparr>)"
  have d: "delete_data (ca_data s) (ch_data x) = Inr datas"
    using x(2) by (auto simp: delete_data_def hp_delete_def datas_def split: option.split)
  define s1 where "s1 = s\<lparr>ca_data := datas, ca_entries := (ca_entries s)\<lparr>hp_cells := (hp_cells (ca_entries s))(e := None)\<rparr>\<rparr>"
  have "\<exists>s'. cache_delete_all it s1 = Inr s'"
  proof (rule Cons.IH)
    show "distinct (map fst it)" "distinct (map snd it)" using Cons.prems(1,2) by auto
    fix k' e' assume m: "(k', e') \<in> set it"
    then have ne: "e' \<noteq> e" "k' \<noteq> k" using Cons.prems(1,2) a by (force)+
    obtain y where y: "hp_cells (ca_entries s) e' = Some y" "\<And>d. ch_data y = Some d \<Longrightarrow> hp_cells (ca_data s) d \<noteq> None"
      using Cons.prems(3) [of k' e'] m by auto
    have "ch_data x = Some d \<Longrightarrow> ch_data y \<noteq> Some d" for d
      using Cons.prems(4) [of k e k' e' x y d] a m x(1) y(1) ne by auto
    with y ne show "\<exists>x. hp_cells (ca_entries s1) e' = Some x \<and> (\<forall>d. ch_data x = Some d \<longrightarrow> hp_cells (ca_data s1) d \<noteq> None)"
      by (auto simp: s1_def datas_def split: option.split)
  next
    fix k1 k2 e1 e2 y z d
    assume "(k1, e1) \<in> set it" "(k2, e2) \<in> set it" "hp_cells (ca_entries s1) e1 = Some y" "hp_cells (ca_entries s1) e2 = Some z"
      "ch_data y = Some d" "ch_data z = Some d"
    then show "k1 = k2"
      using Cons.prems(4) [of k1 e1 k2 e2 y z d] by (auto simp: s1_def split: if_split_asm)
  qed
  then show ?case
    using x(1) d by (simp add: a hp_get_def hp_delete_def s1_def)
qed simp

text \<open>What a cache goes through.\<close>

inductive cache_run :: "CacheManager \<Rightarrow> bool" where
  cache_run_new: "cache_run newCacheManager"
| cache_run_put: "cache_run s \<Longrightarrow> cache_run (cache_put s k data)"
| cache_run_evict: "cache_run s \<Longrightarrow> cache_evict s k = Inr s' \<Longrightarrow> cache_run s'"

lemma cache_run_inv: "cache_run s \<Longrightarrow> cache_inv s"
proof (induction rule: cache_run.induct)
  case (cache_run_evict s k s')
  then show ?case using cache_evict_inv [of s k] by auto
qed (simp_all add: cache_inv_new cache_put_inv)

text \<open>However a cache has been used, evicting and destroying it deletes nothing twice and touches no dangling pointer.\<close>

theorem cache_safe:
  assumes "cache_run s" "enumerates it (ca_cache s)"
  shows "(\<exists>s'. cache_evict s k = Inr s') \<and> (\<exists>s'. cache_destroy it s = Inr s')"
proof -
  have inv: "cache_inv s" by (rule cache_run_inv [OF assms(1)])
  have mem: "(k, e) \<in> set it \<longleftrightarrow> ca_cache s k = Some e" for k e
    by (rule enumerates_mem [OF assms(2)])
  have inj: "k = k'" if "ca_cache s k = Some e" "ca_cache s k' = Some e" for k k' e
    using inv that unfolding cache_inv_def by blast
  have "distinct (map fst it)" using assms(2) by (simp add: enumerates_def)
  moreover from this have "distinct (map snd it)"
    unfolding distinct_map using mem inj by (auto simp: inj_on_def)
  ultimately have "\<exists>s'. cache_delete_all it s = Inr s'"
  proof (rule cache_delete_all_safe)
    show "\<exists>x. hp_cells (ca_entries s) e = Some x \<and> (\<forall>d. ch_data x = Some d \<longrightarrow> hp_cells (ca_data s) d \<noteq> None)" if "(k, e) \<in> set it" for k e
      using inv that unfolding cache_inv_def mem by blast
    show "k = k'" if "(k, e) \<in> set it" "(k', e') \<in> set it" "hp_cells (ca_entries s) e = Some x" "hp_cells (ca_entries s) e' = Some x'"
      "ch_data x = Some d" "ch_data x' = Some d" for k k' e e' x x' d
      using inv that unfolding cache_inv_def mem by blast
  qed
  then show ?thesis
    using cache_evict_inv [OF inv, of k] by (auto simp: cache_destroy_def)
qed

theorem cache_safe_witness: "\<exists>s'. cache_destroy [(5, 0)] (cache_put newCacheManager 5 [1, 2]) = Inr s'"
proof -
  have "enumerates [(5, 0)] (ca_cache (cache_put newCacheManager 5 [1, 2]))"
    by (auto simp: enumerates_def cache_put_def hp_new_def newCacheManager_def empty_heap_def)
  then show ?thesis
    using cache_safe [OF cache_run_put [OF cache_run_new]] by blast
qed

text \<open>After any run of puts a key reads as the value put last.\<close>

theorem cache_reads_last_put:
  assumes "cache_run s"
  shows "cache_read (foldl (\<lambda>s (k, data). cache_put s k data) s kds) k =
    (case map_of (rev kds) k of None \<Rightarrow> cache_read s k | Some data \<Rightarrow> Inr (Some data))"
  by (rule cache.lookup_puts [OF cache_run_inv [OF assms]])

theorem cache_reads_last_put_witness:
  "cache_read (foldl (\<lambda>s (k, data). cache_put s k data) newCacheManager [(5, [1]), (6, [2]), (5, [3])]) 5 = Inr (Some [3])"
  using cache_reads_last_put [OF cache_run_new, of "[(5, [1]), (6, [2]), (5, [3])]" 5] by simp

text \<open>Eviction leaves the entry in the map: \<^verbatim>\<open>get\<close> still returns it, with the old size and a null pointer.\<close>

theorem cache_evict_stale:
  assumes "cache_run s" "cache_get s k = Some e"
  shows "\<exists>s' x. cache_evict s k = Inr s' \<and> cache_get s' k = Some e \<and> hp_cells (ca_entries s) e = Some x \<and>
    hp_get (ca_entries s') e = Inr (x\<lparr>ch_data := None\<rparr>)"
proof -
  have "ca_cache s k = Some e" using assms(2) by (simp add: cache_get_def)
  from cache_evict_run [OF cache_run_inv [OF assms(1)] this] obtain x s' where x: "hp_cells (ca_entries s) e = Some x" "cache_evict s k = Inr s'"
    "ca_cache s' = ca_cache s" "hp_cells (ca_entries s') = (hp_cells (ca_entries s))(e \<mapsto> x\<lparr>ch_data := None\<rparr>)" by blast
  then show ?thesis
    using assms(2) by (auto simp: cache_get_def hp_get_def)
qed

section \<open>Sessions\<close>

inductive session_run :: "SessionManager \<Rightarrow> bool" where
  session_run_new: "session_run newSessionManager"
| session_run_add: "session_run s \<Longrightarrow> session_run (addSession s sid)"
| session_run_close: "session_run s \<Longrightarrow> closeSession s sid = Inr s' \<Longrightarrow> session_run s'"

definition sessions_inv :: "SessionManager \<Rightarrow> bool" where
  "sessions_inv s \<longleftrightarrow> heap_ok (sm_heap s) \<and>
     (\<forall>k p. sm_sessions s k = Some p \<longrightarrow> hp_cells (sm_heap s) p = Some \<lparr>se_id = k, se_active = True\<rparr> \<and> p \<in> set (sm_activeSessions s))"

lemma sessions_inv_add: "sessions_inv s \<Longrightarrow> sessions_inv (addSession s sid)"
  using heap_fresh [of "sm_heap s"]
  by (auto simp: sessions_inv_def addSession_def hp_new_def heap_ok_def less_SucI)

lemma sessions_inv_close:
  assumes "sessions_inv s"
  shows "\<exists>s'. closeSession s sid = Inr s' \<and> sessions_inv s' \<and> sm_sessions s' = (sm_sessions s)(sid := None)"
proof (cases "sm_sessions s sid")
  case None
  then show ?thesis using assms by (auto simp: closeSession_def fun_upd_idem)
next
  case (Some p)
  have "p' \<noteq> p" if "sm_sessions s k = Some p'" "k \<noteq> sid" for k p'
  proof
    assume "p' = p"
    with assms that Some show False
      unfolding sessions_inv_def by (metis Session.ext_inject option.inject)
  qed
  with assms Some show ?thesis
    by (auto simp: closeSession_def hp_delete_def sessions_inv_def heap_ok_def)
qed

lemma session_run_inv: "session_run s \<Longrightarrow> sessions_inv s"
proof (induction rule: session_run.induct)
  case session_run_new
  show ?case by (simp add: sessions_inv_def newSessionManager_def heap_ok_def empty_heap_def)
next
  case (session_run_close s sid s')
  then show ?case using sessions_inv_close [of s sid] by auto
qed (simp add: sessions_inv_add)

lemma delete_sessions_safe:
  "distinct (map snd it) \<Longrightarrow> (\<And>k p. (k, p) \<in> set it \<Longrightarrow> hp_cells h p \<noteq> None) \<Longrightarrow> \<exists>h'. delete_sessions it h = Inr h'"
proof (induction it arbitrary: h)
  case (Cons a it)
  obtain k p where a: "a = (k, p)" by (cases a)
  have "hp_cells h p \<noteq> None" using Cons.prems(2) a by auto
  moreover have "\<exists>h'. delete_sessions it (h\<lparr>hp_cells := (hp_cells h)(p := None)\<rparr>) = Inr h'"
    using Cons.prems a by (intro Cons.IH) force+
  ultimately show ?case by (simp add: a hp_delete_def)
qed simp

text \<open>However sessions have been added and closed, a session that is found is valid and is the one asked for, closing
  forgets it, and destroying the manager deletes nothing twice.\<close>

theorem sessions_safe:
  assumes "session_run s" "enumerates it (sm_sessions s)"
  shows "(case getSession s sid of None \<Rightarrow> True | Some p \<Rightarrow> hp_get (sm_heap s) p = Inr \<lparr>se_id = sid, se_active = True\<rparr>) \<and>
    getSession (addSession s sid) sid \<noteq> None \<and>
    (\<exists>s'. closeSession s sid = Inr s' \<and> getSession s' sid = None) \<and> (\<exists>s'. sessions_destroy it s = Inr s')"
proof -
  have inv: "sessions_inv s" by (rule session_run_inv [OF assms(1)])
  have mem: "(k, p) \<in> set it \<longleftrightarrow> sm_sessions s k = Some p" for k p
    by (rule enumerates_mem [OF assms(2)])
  have "distinct (map fst it)" using assms(2) by (simp add: enumerates_def)
  moreover have "k = k'" if "sm_sessions s k = Some p" "sm_sessions s k' = Some p" for k k' p
    using inv that unfolding sessions_inv_def by (metis Session.ext_inject option.inject)
  ultimately have "distinct (map snd it)"
    unfolding distinct_map using mem by (auto simp: inj_on_def)
  then have "\<exists>h'. delete_sessions it (sm_heap s) = Inr h'"
    using inv by (intro delete_sessions_safe) (auto simp: mem sessions_inv_def)
  moreover have "getSession (addSession s sid) sid \<noteq> None"
    by (simp add: getSession_def addSession_def hp_new_def)
  ultimately show ?thesis
    using inv sessions_inv_close [OF inv, of sid]
    by (auto simp: sessions_destroy_def getSession_def sessions_inv_def hp_get_def split: option.split)
qed

theorem sessions_safe_witness: "\<exists>s'. sessions_destroy [(5, 0)] (addSession newSessionManager 5) = Inr s'"
proof -
  have "enumerates [(5, 0)] (sm_sessions (addSession newSessionManager 5))"
    by (auto simp: enumerates_def addSession_def hp_new_def newSessionManager_def empty_heap_def)
  then show ?thesis
    using sessions_safe [OF session_run_add [OF session_run_new]] by blast
qed

text \<open>Closing a session leaves its pointer in the list of active sessions, where it dangles.\<close>

theorem session_close_dangles:
  assumes "session_run s" "getSession s sid = Some p" "closeSession s sid = Inr s'"
  shows "p \<in> set (sm_activeSessions s') \<and> hp_get (sm_heap s') p = Inl Undefined_behaviour"
  using session_run_inv [OF assms(1)] assms(2,3)
  by (auto simp: getSession_def closeSession_def hp_delete_def hp_get_def sessions_inv_def split: if_split_asm)

theorem session_close_dangles_witness:
  "\<exists>s'. closeSession (addSession newSessionManager 5) 5 = Inr s' \<and> 0 \<in> set (sm_activeSessions s') \<and> hp_get (sm_heap s') 0 = Inl Undefined_behaviour"
proof -
  obtain s' where s': "closeSession (addSession newSessionManager 5) 5 = Inr s'"
    by (simp add: closeSession_def addSession_def hp_new_def newSessionManager_def empty_heap_def hp_delete_def)
  moreover have "getSession (addSession newSessionManager 5) 5 = Some 0"
    by (simp add: getSession_def addSession_def hp_new_def newSessionManager_def empty_heap_def)
  ultimately show ?thesis
    using session_close_dangles [OF session_run_add [OF session_run_new]] by blast
qed

section \<open>The allocator\<close>

text \<open>Use of an allocator in which only blocks that are allocated are released.\<close>

inductive alloc_run :: "nat \<Rightarrow> nat \<Rightarrow> Allocator \<Rightarrow> bool" for b n where
  alloc_run_new: "newAllocator b n = Inr a \<Longrightarrow> alloc_run b n a"
| alloc_run_allocate: "alloc_run b n a \<Longrightarrow> allocate a = Inr (p, a') \<Longrightarrow> alloc_run b n a'"
| alloc_run_deallocate: "alloc_run b n a \<Longrightarrow> p \<in> al_allocated a \<Longrightarrow> alloc_run b n (deallocate a p)"

definition block_addresses :: "nat \<Rightarrow> nat \<Rightarrow> nat set" where
  "block_addresses b n = (\<lambda>i. 1 + i * b) ` {..<n}"

definition alloc_inv :: "nat \<Rightarrow> nat \<Rightarrow> Allocator \<Rightarrow> bool" where
  "alloc_inv b n a \<longleftrightarrow> distinct (al_freeList a) \<and> set (al_freeList a) \<inter> al_allocated a = {} \<and>
     set (al_freeList a) \<union> al_allocated a = block_addresses b n"

lemma alloc_run_inv: "alloc_run b n a \<Longrightarrow> 0 < b \<Longrightarrow> alloc_inv b n a"
proof (induction rule: alloc_run.induct)
  case (alloc_run_new a)
  then show ?case
    by (auto simp: newAllocator_def createPool_def alloc_inv_def block_addresses_def Let_def distinct_map inj_on_def atLeast0LessThan)
next
  case (alloc_run_allocate a p a')
  then have inv: "alloc_inv b n a" and ne: "al_freeList a \<noteq> []"
    by (auto simp: allocate_def createPool_def Let_def split: if_split_asm)
  then have fl: "al_freeList a = butlast (al_freeList a) @ [last (al_freeList a)]" by simp
  have a': "a' = a\<lparr>al_freeList := butlast (al_freeList a), al_allocated := insert (last (al_freeList a)) (al_allocated a)\<rparr>"
    using alloc_run_allocate(2) ne by (auto simp: allocate_def Let_def)
  have "distinct (butlast (al_freeList a) @ [last (al_freeList a)])"
    "set (butlast (al_freeList a) @ [last (al_freeList a)]) \<inter> al_allocated a = {}"
    "set (butlast (al_freeList a) @ [last (al_freeList a)]) \<union> al_allocated a = block_addresses b n"
    using inv fl unfolding alloc_inv_def by metis+
  then show ?case
    by (auto simp: alloc_inv_def a')
next
  case (alloc_run_deallocate a p)
  then show ?case
    by (auto simp: alloc_inv_def deallocate_def)
qed

lemma blocks_apart:
  assumes "p \<in> block_addresses b n" "q \<in> block_addresses b n" "p \<noteq> q"
  shows "p + b \<le> q \<or> q + b \<le> p"
proof -
  obtain i j where ij: "p = 1 + i * b" "q = 1 + j * b"
    using assms(1,2) by (auto simp: block_addresses_def)
  have "Suc x * b \<le> y * b" if "x < y" for x y
    using that by (intro mult_le_mono1) simp
  then show ?thesis
    using ij assms(3) by (cases i j rule: linorder_cases) fastforce+
qed

lemma card_blocks: "0 < b \<Longrightarrow> card (block_addresses b n) = n"
  by (simp add: block_addresses_def card_image inj_on_def)

text \<open>When only allocated blocks are released, an allocation gives a block that overlaps none of those in use, and it
  is defined exactly while fewer than \<open>n\<close> blocks are in use: with the first pool used up, the allocator locks its mutex twice.\<close>

theorem allocator_safe:
  assumes "alloc_run b n a" "0 < b"
  shows "(defined (allocate a) \<longleftrightarrow> totalAllocated a < n) \<and>
    (\<forall>p a'. allocate a = Inr (p, a') \<longrightarrow> p \<noteq> 0 \<and> p + b \<le> 1 + n * b \<and> (\<forall>q \<in> al_allocated a. p + b \<le> q \<or> q + b \<le> p))"
proof -
  have inv: "alloc_inv b n a" by (rule alloc_run_inv [OF assms])
  then have "card (set (al_freeList a) \<union> al_allocated a) = n"
    using card_blocks [OF assms(2)] by (simp add: alloc_inv_def)
  moreover have fin: "finite (al_allocated a)"
    using inv unfolding alloc_inv_def block_addresses_def by (metis finite_Un finite_imageI finite_lessThan)
  moreover have "card (set (al_freeList a) \<union> al_allocated a) = length (al_freeList a) + card (al_allocated a)"
    using inv fin by (subst card_Un_disjoint) (auto simp: alloc_inv_def distinct_card)
  ultimately have "length (al_freeList a) + card (al_allocated a) = n"
    by simp
  then have "defined (allocate a) \<longleftrightarrow> totalAllocated a < n"
    by (auto simp: allocate_def createPool_def defined_def totalAllocated_def Let_def)
  moreover have "p \<noteq> 0 \<and> p + b \<le> 1 + n * b \<and> (\<forall>q \<in> al_allocated a. p + b \<le> q \<or> q + b \<le> p)" if al: "allocate a = Inr (p, a')" for p a'
  proof -
    have ne: "al_freeList a \<noteq> []" "p = last (al_freeList a)"
      using al by (auto simp: allocate_def createPool_def Let_def split: if_split_asm)
    then have p: "p \<in> block_addresses b n" "p \<notin> al_allocated a"
      using inv last_in_set [OF ne(1)] ne(2) unfolding alloc_inv_def by blast+
    then obtain i where i: "i < n" "p = 1 + i * b" by (auto simp: block_addresses_def)
    have "Suc i * b \<le> n * b" using i(1) by (intro mult_le_mono1) simp
    moreover have "p + b \<le> q \<or> q + b \<le> p" if "q \<in> al_allocated a" for q
      using that p inv by (intro blocks_apart [where n = n]) (auto simp: alloc_inv_def)
    ultimately show ?thesis using i by simp
  qed
  ultimately show ?thesis by blast
qed

theorem allocator_safe_witness:
  "\<exists>a. newAllocator 64 2 = Inr a \<and> defined (allocate a) \<and> totalAllocated a < 2"
proof -
  obtain a where a: "newAllocator 64 2 = Inr a" by (simp add: newAllocator_def createPool_def Let_def)
  moreover from this have "totalAllocated a = 0"
    by (auto simp: newAllocator_def createPool_def totalAllocated_def Let_def)
  ultimately show ?thesis
    using allocator_safe [OF alloc_run_new [OF a]] by simp
qed

text \<open>A block that is released twice is handed out twice.\<close>

theorem allocator_double_free:
  assumes "p \<noteq> 0"
  shows "\<exists>a1 a2. allocate (deallocate (deallocate a p) p) = Inr (p, a1) \<and> allocate a1 = Inr (p, a2)"
  using assms by (simp add: allocate_def deallocate_def Let_def butlast_append)

theorem allocator_double_free_witness:
  "\<exists>a1 a2. allocate (deallocate (deallocate \<lparr>al_blockSize = 8, al_poolSize = 1, al_pools = [1], al_freeList = [], al_allocated = {1}, al_memory = 9\<rparr> 1) 1) =
     Inr (1, a1) \<and> allocate a1 = Inr (1, a2)"
  by (rule allocator_double_free) simp

text \<open>Resetting an allocator is always undefined.\<close>

theorem allocator_reset_undefined: "al_reset a = Inl Undefined_behaviour"
  by (simp add: al_reset_def createPool_def Let_def)

section \<open>The registry\<close>

text \<open>Both maps hold the same names.\<close>

definition registry_inv :: "ProtocolRegistry \<Rightarrow> bool" where
  "registry_inv r \<longleftrightarrow> dom (rg_protocols r) = dom (rg_baseProtocols r)"

interpretation registry: erasable_store registry_inv "\<lambda>r name. Inr (getBaseProtocol r name)"
  "\<lambda>r name p. registerProtocol r (p\<lparr>pp_name := name\<rparr>)" "\<lambda>_ p. pp_base p" unregister
  by unfold_locales
    (auto simp: registry_inv_def registerProtocol_def unregister_def getBaseProtocol_def split: option.split)

interpretation named: erasable_store registry_inv "\<lambda>r name. Inr (getProtocol r name)" registerProtocol_named "\<lambda>_ p. p" unregister
  by unfold_locales (auto simp: registry_inv_def registerProtocol_named_def unregister_def getProtocol_def)

text \<open>After a run of registrations, a name gives the parser registered last under it, and after it is unregistered none.\<close>

theorem registry_lookup:
  "getBaseProtocol (foldl (\<lambda>r (name, p). registerProtocol r (p\<lparr>pp_name := name\<rparr>)) newProtocolRegistry ps) name =
     map_option pp_base (map_of (rev ps) name) \<and>
   getBaseProtocol (unregister (foldl (\<lambda>r (name, p). registerProtocol r (p\<lparr>pp_name := name\<rparr>)) newProtocolRegistry ps) name) name = None"
proof -
  have inv: "registry_inv newProtocolRegistry"
    by (simp add: registry_inv_def newProtocolRegistry_def)
  have "getBaseProtocol newProtocolRegistry name = None"
    by (simp add: getBaseProtocol_def newProtocolRegistry_def)
  then show ?thesis
    using registry.lookup_puts [OF inv, of ps name] registry.lookup_erase [OF registry.puts_inv [OF inv], of ps name name]
    by (auto split: option.split_asm)
qed

section \<open>Sizes\<close>

text \<open>The product is the real one exactly when it fits 64 bits.\<close>

theorem calculateSize_exact_iff: "unat (calculateSize count perEntry) = unat count * unat perEntry \<longleftrightarrow> unat count * unat perEntry < 2 ^ 64"
proof -
  have "unat (calculateSize count perEntry) = unat count * unat perEntry mod 2 ^ 64"
    by (simp add: calculateSize_def unat_word_ariths)
  moreover have "unat count * unat perEntry mod 2 ^ 64 < 2 ^ 64"
    by simp
  ultimately show ?thesis
    by (metis mod_less)
qed

end
