(* ===== verification/Thread_Pool.thy ===== *)
theory Thread_Pool
  imports Nebula_Prelude
begin

text \<open>
  \<^verbatim>\<open>network/ThreadPool\<close>: workers that take tasks from a queue, and the scheduler that tracks raw pointers to the tasks.

  The pool is a step relation.  A step is what a thread does under a lock or in one atomic operation; steps of the
  workers and of the clients interleave in any order.  A task is the address of its object, never used twice; the tasks given to
  \<^verbatim>\<open>enqueueTask\<close> are taken to be new objects.  What a task does when it is called is not modelled.
\<close>

text \<open>Where a worker stands in its loop: it waits, has taken a task from a queue, has counted it as active, has called it, has
  deleted it, has told the scheduler, or has left the loop.\<close>

datatype worker = Waiting | Taken nat | Started nat | Called nat | Deleted nat | Marked nat | Exited

text \<open>\<open>tp_alive\<close> are the task objects that exist, \<open>tp_next\<close> the next address, \<open>tp_entering\<close> the tasks that a call of \<^verbatim>\<open>enqueue\<close> has
  created and not yet put into the queue, and \<open>tp_called\<close> the tasks called so far.  \<open>tp_tracked\<close> belongs to the scheduler.\<close>

record ThreadPool =
  tp_alive :: "nat set"
  tp_next :: nat
  tp_entering :: "nat list"
  tp_taskQueue :: "nat list"
  tp_highPriorityQueue :: "nat list"
  tp_tracked :: "nat list"
  tp_running :: bool
  tp_activeTasks :: nat
  tp_workers :: "worker list"
  tp_called :: "nat list"

definition newThreadPool :: "nat \<Rightarrow> ThreadPool" where
  "newThreadPool numThreads =
     \<lparr>tp_alive = {}, tp_next = 0, tp_entering = [], tp_taskQueue = [], tp_highPriorityQueue = [], tp_tracked = [], tp_running = True,
      tp_activeTasks = 0, tp_workers = replicate numThreads Waiting, tp_called = []\<rparr>"

section \<open>The scheduler\<close>

definition sch_track :: "nat \<Rightarrow> nat list \<Rightarrow> nat list" where
  "sch_track t tracked = tracked @ [t]"

definition nextScheduled :: "ThreadPool \<Rightarrow> nat option" where
  "nextScheduled s = (case tp_tracked s of [] \<Rightarrow> None | t # _ \<Rightarrow> Some t)"

definition markDone :: "nat \<Rightarrow> nat list \<Rightarrow> nat list" where
  "markDone t tracked = remove1 t tracked"

section \<open>The pool\<close>

definition new_task :: "ThreadPool \<Rightarrow> nat \<times> ThreadPool" where
  "new_task s = (tp_next s, s\<lparr>tp_alive := insert (tp_next s) (tp_alive s), tp_next := Suc (tp_next s)\<rparr>)"

text \<open>\<^verbatim>\<open>enqueue\<close> up to its lock, and \<^verbatim>\<open>enqueueTask\<close>.\<close>

definition enqueue_create :: "ThreadPool \<Rightarrow> ThreadPool" where
  "enqueue_create s =
     (let (t, s) = new_task s in s\<lparr>tp_tracked := sch_track t (tp_tracked s), tp_entering := tp_entering s @ [t]\<rparr>)"

definition enqueue_push :: "ThreadPool \<Rightarrow> nat \<Rightarrow> ThreadPool" where
  "enqueue_push s t = s\<lparr>tp_entering := remove1 t (tp_entering s), tp_taskQueue := tp_taskQueue s @ [t]\<rparr>"

definition enqueueTask :: "ThreadPool \<Rightarrow> ThreadPool" where
  "enqueueTask s = (let (t, s) = new_task s in s\<lparr>tp_taskQueue := tp_taskQueue s @ [t]\<rparr>)"

definition pendingTasks :: "ThreadPool \<Rightarrow> nat" where
  "pendingTasks s = length (tp_taskQueue s) + length (tp_highPriorityQueue s)"

text \<open>The condition on which \<^verbatim>\<open>waitAll\<close> returns.\<close>

definition waitAll_done :: "ThreadPool \<Rightarrow> bool" where
  "waitAll_done s \<longleftrightarrow> \<not> (tp_activeTasks s > 0 \<or> pendingTasks s > 0)"

definition set_worker :: "ThreadPool \<Rightarrow> nat \<Rightarrow> worker \<Rightarrow> ThreadPool" where
  "set_worker s w x = s\<lparr>tp_workers := (tp_workers s)[w := x]\<rparr>"

text \<open>The part of \<^verbatim>\<open>workerLoop\<close> under the lock: the queue of high priority comes first.\<close>

definition take_task :: "ThreadPool \<Rightarrow> (nat \<times> ThreadPool) option" where
  "take_task s =
     (case tp_highPriorityQueue s of
        t # ts \<Rightarrow> Some (t, s\<lparr>tp_highPriorityQueue := ts\<rparr>)
      | [] \<Rightarrow> (case tp_taskQueue s of t # ts \<Rightarrow> Some (t, s\<lparr>tp_taskQueue := ts\<rparr>) | [] \<Rightarrow> None))"

text \<open>One step of the worker in slot \<open>w\<close>; \<open>None\<close> when it waits or is gone.\<close>

definition workerLoop_step :: "ThreadPool \<Rightarrow> nat \<Rightarrow> ThreadPool option" where
  "workerLoop_step s w =
     (case tp_workers s ! w of
        Waiting \<Rightarrow>
          if \<not> tp_running s then Some (set_worker s w Exited)
          else map_option (\<lambda>(t, s). set_worker s w (Taken t)) (take_task s)
      | Taken t \<Rightarrow> Some (set_worker (s\<lparr>tp_activeTasks := tp_activeTasks s + 1\<rparr>) w (Started t))
      | Started t \<Rightarrow> Some (set_worker (s\<lparr>tp_called := tp_called s @ [t]\<rparr>) w (Called t))
      | Called t \<Rightarrow> Some (set_worker (s\<lparr>tp_alive := tp_alive s - {t}\<rparr>) w (Deleted t))
      | Deleted t \<Rightarrow> Some (set_worker (s\<lparr>tp_tracked := markDone t (tp_tracked s)\<rparr>) w (Marked t))
      | Marked t \<Rightarrow> Some (set_worker (s\<lparr>tp_activeTasks := tp_activeTasks s - 1\<rparr>) w Waiting)
      | Exited \<Rightarrow> None)"

inductive tp_step :: "ThreadPool \<Rightarrow> ThreadPool \<Rightarrow> bool" where
  step_create: "tp_step s (enqueue_create s)"
| step_push: "t \<in> set (tp_entering s) \<Longrightarrow> tp_step s (enqueue_push s t)"
| step_task: "tp_step s (enqueueTask s)"
| step_worker: "w < length (tp_workers s) \<Longrightarrow> workerLoop_step s w = Some s' \<Longrightarrow> tp_step s s'"
| step_stop: "tp_step s (s\<lparr>tp_running := False\<rparr>)"

inductive tp_reach :: "nat \<Rightarrow> ThreadPool \<Rightarrow> bool" for n where
  reach_new: "tp_reach n (newThreadPool n)"
| reach_step: "tp_reach n s \<Longrightarrow> tp_step s s' \<Longrightarrow> tp_reach n s'"

section \<open>Every task is called at most once\<close>

text \<open>The task a worker has in hand, before it is called and until it is deleted.\<close>

fun in_hand :: "worker \<Rightarrow> nat list" where
  "in_hand (Taken t) = [t]"
| "in_hand (Started t) = [t]"
| "in_hand _ = []"

fun called_by :: "worker \<Rightarrow> nat list" where
  "called_by (Called t) = [t]"
| "called_by _ = []"

fun counted :: "worker \<Rightarrow> nat" where
  "counted (Started t) = 1"
| "counted (Called t) = 1"
| "counted (Deleted t) = 1"
| "counted (Marked t) = 1"
| "counted _ = 0"

text \<open>The tasks that are still to be called, wherever they are, and those that have been called and not yet deleted.\<close>

definition tasks_ahead :: "ThreadPool \<Rightarrow> nat list" where
  "tasks_ahead s = tp_entering s @ tp_taskQueue s @ tp_highPriorityQueue s @ concat (map in_hand (tp_workers s))"

definition tasks_behind :: "ThreadPool \<Rightarrow> nat list" where
  "tasks_behind s = concat (map called_by (tp_workers s))"

definition pool_inv :: "ThreadPool \<Rightarrow> bool" where
  "pool_inv s \<longleftrightarrow> distinct (tasks_ahead s @ tp_called s) \<and> distinct (tasks_behind s) \<and> set (tasks_behind s) \<subseteq> set (tp_called s) \<and>
     set (tasks_ahead s) \<union> set (tasks_behind s) \<subseteq> tp_alive s \<and>
     tp_alive s \<union> set (tp_called s) \<subseteq> {..<tp_next s} \<and> tp_activeTasks s = sum_list (map counted (tp_workers s))"

lemmas pool_simps = pool_inv_def tasks_ahead_def tasks_behind_def set_worker_def

lemma workers_split:
  "w < length xs \<Longrightarrow> \<exists>ws ws'. xs = ws @ xs ! w # ws' \<and> (\<forall>y. xs[w := y] = ws @ y # ws')"
  by (intro exI [of _ "take w xs"] exI [of _ "drop (Suc w) xs"]) (simp add: id_take_nth_drop [symmetric] upd_conv_take_nth_drop)

lemma take_task_cases:
  assumes "take_task s = Some (t, s')"
  obtains ts where "tp_highPriorityQueue s = t # ts" "s' = s\<lparr>tp_highPriorityQueue := ts\<rparr>"
  | ts where "tp_highPriorityQueue s = []" "tp_taskQueue s = t # ts" "s' = s\<lparr>tp_taskQueue := ts\<rparr>"
  using assms by (auto simp: take_task_def split: list.split_asm)

lemma pool_inv_create: "pool_inv s \<Longrightarrow> pool_inv (enqueue_create s)"
  by (auto simp: pool_simps enqueue_create_def new_task_def)

lemma pool_inv_task: "pool_inv s \<Longrightarrow> pool_inv (enqueueTask s)"
  by (auto simp: pool_simps enqueueTask_def new_task_def)

lemma pool_inv_push: "pool_inv s \<Longrightarrow> t \<in> set (tp_entering s) \<Longrightarrow> pool_inv (enqueue_push s t)"
  by (auto simp: pool_simps enqueue_push_def dest: notin_set_remove1)

lemma pool_inv_worker:
  assumes "pool_inv s" "w < length (tp_workers s)" "workerLoop_step s w = Some s'"
  shows "pool_inv s'"
proof -
  obtain ws ws' x where x: "tp_workers s = ws @ x # ws'" "tp_workers s ! w = x" "\<forall>y. (tp_workers s)[w := y] = ws @ y # ws'"
    using workers_split [OF assms(2)] by blast
  show ?thesis
  proof (cases x)
    case Waiting
    show ?thesis
    proof (cases "tp_running s")
      case True
      then obtain t s1 where t: "take_task s = Some (t, s1)" "s' = set_worker s1 w (Taken t)"
        using assms(3) x(2) Waiting by (auto simp: workerLoop_step_def)
      from t(1) show ?thesis
      proof (cases rule: take_task_cases)
        case (1 ts)
        then have "s' = s\<lparr>tp_highPriorityQueue := ts, tp_workers := ws @ Taken t # ws'\<rparr>"
          using t(2) x(3) by (simp add: set_worker_def)
        then show ?thesis
          using assms(1) x(1) Waiting 1(1) by (auto simp: pool_simps)
      next
        case (2 ts)
        then have "s' = s\<lparr>tp_taskQueue := ts, tp_workers := ws @ Taken t # ws'\<rparr>"
          using t(2) x(3) by (simp add: set_worker_def)
        then show ?thesis
          using assms(1) x(1) Waiting 2(1,2) by (auto simp: pool_simps)
      qed
    next
      case False
      then have "s' = s\<lparr>tp_workers := ws @ Exited # ws'\<rparr>"
        using assms(3) x(2,3) Waiting by (auto simp: workerLoop_step_def set_worker_def)
      then show ?thesis
        using assms(1) x(1) Waiting by (auto simp: pool_simps)
    qed
  next
    case (Taken t)
    then have "s' = s\<lparr>tp_activeTasks := tp_activeTasks s + 1, tp_workers := ws @ Started t # ws'\<rparr>"
      using assms(3) x(2,3) by (auto simp: workerLoop_step_def set_worker_def)
    then show ?thesis
      using assms(1) x(1) Taken by (auto simp: pool_simps)
  next
    case (Started t)
    then have "s' = s\<lparr>tp_called := tp_called s @ [t], tp_workers := ws @ Called t # ws'\<rparr>"
      using assms(3) x(2,3) by (auto simp: workerLoop_step_def set_worker_def)
    then show ?thesis
      using assms(1) x(1) Started by (auto simp: pool_simps)
  next
    case (Called t)
    then have "s' = s\<lparr>tp_alive := tp_alive s - {t}, tp_workers := ws @ Deleted t # ws'\<rparr>"
      using assms(3) x(2,3) by (auto simp: workerLoop_step_def set_worker_def)
    then show ?thesis
      using assms(1) x(1) Called by (auto simp: pool_simps)
  next
    case (Deleted t)
    then have "s' = s\<lparr>tp_tracked := markDone t (tp_tracked s), tp_workers := ws @ Marked t # ws'\<rparr>"
      using assms(3) x(2,3) by (auto simp: workerLoop_step_def set_worker_def)
    then show ?thesis
      using assms(1) x(1) Deleted by (auto simp: pool_simps)
  next
    case (Marked t)
    then have "s' = s\<lparr>tp_activeTasks := tp_activeTasks s - 1, tp_workers := ws @ Waiting # ws'\<rparr>"
      using assms(3) x(2,3) by (auto simp: workerLoop_step_def set_worker_def)
    then show ?thesis
      using assms(1) x(1) Marked by (auto simp: pool_simps)
  next
    case Exited
    then show ?thesis
      using assms(3) x(2) by (simp add: workerLoop_step_def)
  qed
qed

lemma pool_inv_reach: "tp_reach n s \<Longrightarrow> pool_inv s"
proof (induction rule: tp_reach.induct)
  case reach_new
  have "concat (map f (replicate n Waiting)) = []" if "f Waiting = []" for f :: "worker \<Rightarrow> nat list"
    using that by (induction n) auto
  moreover have "sum_list (map counted (replicate n Waiting)) = 0"
    by (induction n) auto
  ultimately show ?case
    by (simp add: pool_simps newThreadPool_def)
next
  case (reach_step s s')
  from reach_step(2,3) show ?case
    by cases (simp_all add: pool_inv_create pool_inv_push pool_inv_task pool_inv_worker, simp add: pool_simps)
qed

lemma hand_mem: "w < length ws \<Longrightarrow> t \<in> set (f (ws ! w)) \<Longrightarrow> t \<in> set (concat (map f ws))"
  by (auto intro!: bexI [of _ "ws ! w"])

text \<open>C40: However the calls of \<^verbatim>\<open>enqueue\<close>, \<^verbatim>\<open>enqueueTask\<close> and the steps of the workers interleave, also while the pool is being
  stopped, a task is called at most once, it exists when it is called and when it is deleted, and it has not been
  called before.  Each call of \<^verbatim>\<open>enqueueTask\<close> is given a task of its own, and the destructor of the static scheduler, which deletes what is
  still tracked, has not run.\<close>

theorem pool_calls_once:
  assumes "tp_reach n s"
  shows "distinct (tp_called s) \<and>
    (\<forall>w \<in> {..<length (tp_workers s)}. case tp_workers s ! w of
        Started t \<Rightarrow> t \<in> tp_alive s \<and> t \<notin> set (tp_called s)
      | Called t \<Rightarrow> t \<in> tp_alive s
      | _ \<Rightarrow> True)"
proof -
  have inv: "pool_inv s" by (rule pool_inv_reach [OF assms])
  have "case tp_workers s ! w of Started t \<Rightarrow> t \<in> tp_alive s \<and> t \<notin> set (tp_called s) | Called t \<Rightarrow> t \<in> tp_alive s | _ \<Rightarrow> True"
    if w: "w < length (tp_workers s)" for w
  proof (cases "tp_workers s ! w")
    case (Started t)
    then have "t \<in> set (tasks_ahead s)"
      using hand_mem [OF w, of t in_hand] by (simp add: tasks_ahead_def)
    with inv Started show ?thesis by (auto simp: pool_inv_def)
  next
    case (Called t)
    then have "t \<in> set (tasks_behind s)"
      using hand_mem [OF w, of t called_by] by (simp add: tasks_behind_def)
    with inv Called show ?thesis by (auto simp: pool_inv_def)
  qed simp_all
  with inv show ?thesis by (auto simp: pool_inv_def)
qed

text \<open>A pool of one worker that has taken a task, and the same pool when it has deleted it.\<close>

definition pool_taken :: ThreadPool where
  "pool_taken = (newThreadPool 1)\<lparr>tp_alive := {0}, tp_next := 1, tp_tracked := [0], tp_workers := [Taken 0]\<rparr>"

definition pool_deleted :: ThreadPool where
  "pool_deleted = pool_taken\<lparr>tp_alive := {}, tp_activeTasks := 1, tp_called := [0], tp_workers := [Deleted 0]\<rparr>"

lemmas pool_eval = newThreadPool_def enqueue_create_def new_task_def sch_track_def enqueue_push_def workerLoop_step_def take_task_def
  set_worker_def pool_taken_def pool_deleted_def

lemma pool_taken_reach: "tp_reach 1 pool_taken"
proof -
  have 1: "tp_reach 1 (enqueue_create (newThreadPool 1))"
    by (rule reach_step [OF reach_new step_create])
  have 2: "tp_reach 1 (enqueue_push (enqueue_create (newThreadPool 1)) 0)"
    by (rule reach_step [OF 1 step_push]) (simp add: pool_eval)
  show ?thesis
    by (rule reach_step [OF 2 step_worker [where w = 0]]) (simp_all add: pool_eval)
qed

lemma pool_deleted_reach: "tp_reach 1 pool_deleted"
proof -
  have 1: "tp_reach 1 (pool_taken\<lparr>tp_activeTasks := 1, tp_workers := [Started 0]\<rparr>)"
    by (rule reach_step [OF pool_taken_reach step_worker [where w = 0]]) (simp_all add: pool_eval)
  have 2: "tp_reach 1 (pool_taken\<lparr>tp_activeTasks := 1, tp_called := [0], tp_workers := [Called 0]\<rparr>)"
    by (rule reach_step [OF 1 step_worker [where w = 0]]) (simp_all add: pool_eval)
  show ?thesis
    by (rule reach_step [OF 2 step_worker [where w = 0]]) (simp_all add: pool_eval)
qed

theorem pool_calls_once_witness: "distinct (tp_called pool_deleted) \<and> tp_called pool_deleted = [0]"
  using pool_calls_once [OF pool_deleted_reach] by (simp add: pool_deleted_def)

text \<open>\<^verbatim>\<open>waitAll\<close> can return while a task has been taken from the queue and not been called; and a pointer that the
  scheduler hands out can be that of a task already deleted.\<close>

theorem waitAll_early:
  "\<exists>s t. tp_reach 1 s \<and> waitAll_done s \<and> tp_workers s = [Taken t] \<and> t \<notin> set (tp_called s)"
  using pool_taken_reach
  by (intro exI [of _ pool_taken] exI [of _ 0]) (simp add: pool_taken_def newThreadPool_def waitAll_done_def pendingTasks_def)

theorem scheduler_dangles: "\<exists>s t. tp_reach 1 s \<and> nextScheduled s = Some t \<and> t \<notin> tp_alive s"
  using pool_deleted_reach
  by (intro exI [of _ pool_deleted] exI [of _ 0]) (simp add: pool_deleted_def pool_taken_def newThreadPool_def nextScheduled_def)

text \<open>When \<^verbatim>\<open>waitAll\<close> returns, the queues are empty and a worker that has not finished with a task has taken it and not
  counted it yet.\<close>

theorem waitAll_outcome:
  assumes "tp_reach n s" "waitAll_done s" "w < length (tp_workers s)"
  shows "tp_taskQueue s = [] \<and> tp_highPriorityQueue s = [] \<and>
    (tp_workers s ! w = Waiting \<or> tp_workers s ! w = Exited \<or> (\<exists>t. tp_workers s ! w = Taken t))"
proof -
  have "sum_list (map counted (tp_workers s)) = 0"
    using pool_inv_reach [OF assms(1)] assms(2) by (simp add: pool_inv_def waitAll_done_def)
  then have "counted (tp_workers s ! w) = 0"
    using assms(3) by (simp add: sum_list_eq_0_iff)
  then show ?thesis
    using assms(2) by (cases "tp_workers s ! w") (auto simp: waitAll_done_def pendingTasks_def)
qed

theorem waitAll_outcome_witness: "tp_taskQueue pool_taken = [] \<and> (\<exists>t. tp_workers pool_taken ! 0 = Taken t)"
  using waitAll_outcome [OF pool_taken_reach, of 0]
  by (simp add: waitAll_done_def pendingTasks_def pool_taken_def newThreadPool_def)

section \<open>Progress and shutdown\<close>

lemma workers_running: "tp_reach n s \<Longrightarrow> length (tp_workers s) = n \<and> (tp_running s \<longrightarrow> Exited \<notin> set (tp_workers s))"
proof (induction rule: tp_reach.induct)
  case (reach_step s s')
  from reach_step(2) show ?case
  proof cases
    case (step_worker w)
    then have "length (tp_workers s') = length (tp_workers s) \<and> tp_running s' = tp_running s \<and>
        (Exited \<in> set (tp_workers s') \<longrightarrow> tp_running s \<longrightarrow> Exited \<in> set (tp_workers s))"
      by (cases "tp_workers s ! w")
        (auto simp: workerLoop_step_def set_worker_def split: if_split_asm elim!: take_task_cases
          dest!: set_update_subset_insert [THEN subsetD])
    with reach_step(3) show ?thesis by auto
  qed (use reach_step(3) in \<open>auto simp: enqueue_create_def enqueue_push_def enqueueTask_def new_task_def\<close>)
qed (auto simp: newThreadPool_def)

text \<open>While the pool runs and tasks are pending, no worker is stuck: each can take its next step.\<close>

theorem pool_progress:
  assumes "tp_reach n s" "tp_running s" "pendingTasks s > 0" "w < n"
  shows "\<exists>s'. workerLoop_step s w = Some s' \<and> tp_reach n s'"
proof -
  have w: "w < length (tp_workers s)" "tp_workers s ! w \<noteq> Exited"
    using workers_running [OF assms(1)] assms(2,4) by (auto simp: set_conv_nth)
  have "take_task s \<noteq> None"
    using assms(3) by (auto simp: take_task_def pendingTasks_def split: list.split)
  then obtain s' where "workerLoop_step s w = Some s'"
    using w(2) assms(2) by (cases "tp_workers s ! w") (auto simp: workerLoop_step_def)
  with reach_step [OF assms(1) step_worker [OF w(1)]] show ?thesis by blast
qed

theorem pool_progress_witness: "\<exists>s'. workerLoop_step (enqueueTask (newThreadPool 1)) 0 = Some s' \<and> tp_reach 1 s'"
proof (rule pool_progress)
  show "tp_reach 1 (enqueueTask (newThreadPool 1))"
    by (rule reach_step [OF reach_new step_task])
qed (simp_all add: enqueueTask_def new_task_def newThreadPool_def pendingTasks_def)

text \<open>Tasks that are still queued when the pool is stopped are never called.\<close>

lemma stopped_step:
  assumes "tp_step s s'" "\<not> tp_running s" "t \<in> set (tp_taskQueue s)"
  shows "\<not> tp_running s' \<and> t \<in> set (tp_taskQueue s')"
  using assms
proof cases
  case (step_worker w)
  with assms(2,3) show ?thesis
    by (cases "tp_workers s ! w") (auto simp: workerLoop_step_def set_worker_def)
qed (use assms(2,3) in \<open>auto simp: enqueue_create_def enqueue_push_def enqueueTask_def new_task_def\<close>)

theorem stopped_pool_drops_tasks:
  assumes "tp_reach n s" "\<not> tp_running s" "t \<in> set (tp_taskQueue s)" "tp_step\<^sup>*\<^sup>* s s'"
  shows "t \<in> set (tp_taskQueue s') \<and> t \<notin> set (tp_called s')"
proof -
  have "tp_reach n s' \<and> \<not> tp_running s' \<and> t \<in> set (tp_taskQueue s')"
    using assms(4,1-3) by induction (auto intro: reach_step dest: stopped_step)
  with pool_inv_reach [of n s'] show ?thesis
    by (auto simp: pool_inv_def tasks_ahead_def)
qed

theorem stopped_pool_drops_tasks_witness:
  "0 \<notin> set (tp_called ((enqueueTask (newThreadPool 1))\<lparr>tp_running := False\<rparr>))"
proof -
  have "tp_reach 1 ((enqueueTask (newThreadPool 1))\<lparr>tp_running := False\<rparr>)"
    by (rule reach_step [OF reach_step [OF reach_new step_task] step_stop])
  from stopped_pool_drops_tasks [OF this, of 0] show ?thesis
    by (simp add: enqueueTask_def new_task_def newThreadPool_def)
qed

end
