(* ===== verification/Spec2Isabelle.thy ===== *)
theory Spec2Isabelle
  imports Hash_Table Index_BTree Index_Manager Byte_Buffer Journal Snapshot_Delta Inverted_Index File_Resolver Metadata_Store Chunk_Store Block_Store Stream_Parser Tiered_Storage Archive_Server Heap_Components Thread_Pool
begin

text \<open>
  A verification of NebulaFS, a C++ library for single-file archives (\<^verbatim>\<open>src/src\<close> and \<^verbatim>\<open>src/include/nebula\<close>; the paths below are
  relative to these).

  \<^bold>\<open>The program.\<close>  \<^verbatim>\<open>ArchiveWriter\<close> compresses, encrypts and appends the data of entries to a file, collects a directory tree, an
  index, a chunk table, metadata and a journal, and on closing appends these as sections and writes the header.
  \<^verbatim>\<open>ArchiveReader\<close> loads an archive, has \<^verbatim>\<open>Parser\<close> read the sections and extracts entries; \<^verbatim>\<open>StreamParser\<close> reads an archive
  piece by piece; \<^verbatim>\<open>ArchiveServer\<close> gives access to a reader over the network.  Beside them stand stores of blocks (in memory, in files, in
  two tiers), snapshots with deltas, a full-text index, and the utilities all of them use.

  \<^bold>\<open>The theories\<close>, each with the sources it models.  The operations have the names of the source, with a prefix of the class where
  several classes share one; a class is a record with the prefix on its fields.

    \<^item> \<open>Nebula_Prelude\<close>: words under their C++ names, the result types (\<open>cpp\<close>, \<open>rd\<close>), bytes; generic lemmas.
    \<^item> \<open>Core_Types\<close>: \<^verbatim>\<open>Types.hpp\<close>, \<^verbatim>\<open>Error.hpp\<close>.  \<open>VarInt\<close>: \<^verbatim>\<open>utils/VarInt\<close>.  \<open>Byte_Buffer\<close>: \<^verbatim>\<open>utils/Buffer\<close>.
      \<open>Checksum_Engine\<close>: \<^verbatim>\<open>utils/Checksum\<close>.
    \<^item> \<open>Store_Interface\<close>, \<open>Record_Codec\<close>: the contracts of keyed containers and of serialised records, as locales.
    \<^item> \<open>Hash_Table\<close>, \<open>Index_BTree\<close>, \<open>Index_Manager\<close>: \<^verbatim>\<open>index/HashTable\<close>, \<^verbatim>\<open>index/BTree\<close>, \<^verbatim>\<open>index/IndexManager\<close>.
    \<^item> \<open>Directory_Tree\<close>, \<open>File_Resolver\<close>, \<open>Journal\<close>: \<^verbatim>\<open>filesystem/DirectoryTree\<close>, \<^verbatim>\<open>FileResolver\<close>, \<^verbatim>\<open>JournalManager\<close> and \<^verbatim>\<open>Recovery\<close>.
    \<^item> \<open>Metadata_Store\<close>: \<^verbatim>\<open>metadata/MetadataStore\<close>, \<^verbatim>\<open>metadata/EntryMetadata\<close>, \<^verbatim>\<open>parser/MetadataParser\<close>.
    \<^item> \<open>Snapshot_Manifest\<close>, \<open>Snapshot_Delta\<close>: \<^verbatim>\<open>snapshot/SnapshotManifest\<close>, \<^verbatim>\<open>DeltaEngine\<close>, \<^verbatim>\<open>PatchApplier\<close>, \<^verbatim>\<open>SnapshotManager\<close>.
    \<^item> \<open>Tokenizer\<close>, \<open>Posting_List\<close>, \<open>Inverted_Index\<close>: \<^verbatim>\<open>search/Tokenizer\<close>, \<^verbatim>\<open>PostingList\<close>, \<^verbatim>\<open>InvertedIndex\<close> and \<^verbatim>\<open>BM25Scorer\<close>.
    \<^item> \<open>Chunk_Store\<close>, \<open>Compression\<close>, \<open>Block_Store\<close>: \<^verbatim>\<open>storage/ChunkManager\<close>, \<^verbatim>\<open>compression/CompressionEngine\<close> and
      \<^verbatim>\<open>CompressionBlock\<close>, \<^verbatim>\<open>storage/BlockStorage\<close>.  \<open>Crypto_Engines\<close>: \<^verbatim>\<open>crypto/HashEngine\<close>, \<^verbatim>\<open>crypto/EncryptionEngine\<close>.
    \<^item> \<open>Storage_Backend\<close>, \<open>File_Storage\<close>, \<open>Tiered_Storage\<close>: \<^verbatim>\<open>storage/backend/MemoryStorageBackend\<close>, \<^verbatim>\<open>FileStorageBackend\<close>,
      \<^verbatim>\<open>TieredStorageManager\<close>.
    \<^item> \<open>Archive_Header\<close>, \<open>Archive_Parser\<close>, \<open>Stream_Parser\<close>, \<open>Archive_Writer\<close>, \<open>Archive_Reader\<close>: \<^verbatim>\<open>archive/*\<close>, \<^verbatim>\<open>parser/Parser\<close>,
      \<^verbatim>\<open>parser/StreamParser\<close>.  \<open>Archive_Roundtrip\<close>: what the reader finds in what the writer has written.
    \<^item> \<open>Archive_Server\<close>, \<open>Thread_Pool\<close>: \<^verbatim>\<open>network/ArchiveServer\<close>, \<^verbatim>\<open>network/ThreadPool\<close>.  \<open>Heap_Components\<close>: the components that
      keep raw pointers (\<^verbatim>\<open>storage/CacheManager\<close>, \<^verbatim>\<open>index/SessionManager\<close>, \<^verbatim>\<open>utils/Allocator\<close>, \<^verbatim>\<open>network/ProtocolRegistry\<close>) and
      \<^verbatim>\<open>utils/SizeCalculator\<close>.

  \<^bold>\<open>Conventions.\<close>  A function that may throw or run into undefined behaviour returns \<open>'a cpp\<close>: \<open>Inl\<close> of the abort, \<open>Inr\<close> of the result.
  Undefined are accesses outside of a vector or span, shifts by the width of the type or more, and the use of a null or dangling pointer.  Error codes are values of \<open>ErrorCode\<close> or \<open>StorageError\<close>.  Integers have their width (\<open>u64\<close>, \<open>u32\<close>, ...) and wrap; sizes that the
  code adds without a check are added modulo \<open>2 ^ 64\<close>.  A time that the code leaves uninitialised is \<open>None\<close>.  An iteration over
  \<^verbatim>\<open>std::unordered_map\<close> takes its order as an argument, any list that \<open>enumerates\<close> the map.  An operation that holds the lock of its object
  throughout is one step; the thread pool is a relation of interleaved steps.  Loops that may not end are
  \<open>partial_function (option)\<close>, and when they return is proved; only the loop over the iterator of the B-tree has
  fuel, and as much as there are entries is shown to be enough.

  \<^bold>\<open>Parameters\<close> stand for what is outside of the sources: the digests and the CRC-32 (\<open>digest\<close>, \<open>crc\<close>), the compression libraries (\<open>libs\<close>, with
  \<open>codec_laws\<close>), OpenSSL (\<open>ssl\<close>, with \<open>gcm_law\<close>), the largest allocation that succeeds (\<open>limit\<close>), the depth of the stack (\<open>stack\<close>), the growth of a
  vector (\<open>grow\<close>), the space on the disk (\<open>ev_disk\<close>), which calls of the operating system fail, for every operation and place of the code
  (\<open>io\<close>), the clock (\<open>now\<close>), random bytes (\<open>rand\<close>), the content of files, and what the sockets deliver, as lists of events.

  \<^bold>\<open>What is shown.\<close>  For an archive: that what a session of the writer adds a reader extracts (\<open>Archive_Roundtrip.archive_roundtrip\<close>), when closing
  succeeds and what the file is then (\<open>Archive_Roundtrip.archive_close\<close>), that what is extracted has the digest of the index, exactly which
  headers are accepted, how both parsers end, that the stream parser does not depend on how the stream is cut and where it agrees
  with the parser in memory.  For the containers: that the hash table, the B-tree and the index manager implement maps, and keep their
  invariants; that the directory tree finds what was inserted.  For every binary form: the round trip, and what it loses.  For
  the stores: that the tiers read what was written last whatever fails, with the exceptions stated there, and keep their queue; that chunking
  partitions the data within its bounds and ends; that blocks are recovered.  For the journal, the snapshots and the
  search: invariants of all runs, that a delta rebuilds its target, and that a search returns the best documents under BM25.  For the thread pool:
  that no interleaving calls a task twice.  Beside these stand theorems on where the code fails, each with its input: a
  tombstone that hides a key, removals of the B-tree that read out of bounds, over-wide shifts, wrapping bounds checks, dangling pointers.

  \<^bold>\<open>Interfaces.\<close>  \<open>keyed_store\<close> and \<open>erasable_store\<close> are interpreted on the index manager, the manifest, the metadata containers, the
  cache and the registry; \<open>bounded_reader\<close>, \<open>safe_reader\<close>, \<open>record_codec\<close> and \<open>safe_codec\<close> on every record that is serialised in a loop;
  \<open>chunker\<close> on both ways of chunking; \<open>block_backend\<close> and \<open>reliable_backend\<close> on both backends, and \<open>tiered\<close> and \<open>reliable_tiers\<close> on the tiers over them.

  \<^bold>\<open>Bounds.\<close>  Theorems on archives assume fewer than \<open>2 ^ 62\<close> bytes on the disk, so that sums of offsets do not wrap, and that what is read fits
  the memory; others state theirs.  The witnesses use small concrete inputs.

  \<^bold>\<open>Not modelled.\<close>  The command line and the dashboard (console output); \<^verbatim>\<open>filesystem/BTree\<close>, a template that nothing includes; memory mapping
  and other system calls beyond their results; third-party code.  Of the modelled parts: moves of objects, progress callbacks, the rounding
  of \<^verbatim>\<open>double\<close> (scores are real numbers), the buffer of output streams (a write that does not fit fails at once), the overflow of the digest
  buffer when \<^verbatim>\<open>ChecksumEngine\<close> computes BLAKE3 with OpenSSL, data races, and other threads beside the server loop.
\<close>

end
